(* ===== verification/PQL_Prelude.thy ===== *)
theory PQL_Prelude
  imports Complex_Main "HOL-Library.Word" "HOL-Library.Signed_Division"
begin

text \<open>
  What the component theories share: the names of the machine types, the status codes of
  \<^verbatim>\<open>include/pqlx_errors.h\<close>, C's conversions from floating point to integers and the rounding
  of a \<^verbatim>\<open>float\<close> store.
\<close>

unbundle bit_operations_syntax

named_theorems pql_codec \<open>byte and word encodings\<close>
named_theorems pql_step \<open>one step of a packet loop\<close>

section \<open>Machine types\<close>

type_synonym byte = "8 word"
type_synonym u16 = "16 word"
type_synonym i32 = "32 word"

text \<open>The order in which the running machine keeps the bytes of an integer.\<close>

datatype host = LittleHost | BigHost

section \<open>Status codes\<close>

text \<open>
  The values a reader returns: \<^verbatim>\<open>FAILURE\<close> and its companions, then the enumeration that follows
  them, in its order. The C functions return \<^verbatim>\<open>int\<close>.
\<close>

datatype status =
    FAILURE | NO_CHANS | FILEDNE | DBMAINT_RUNNING
  | PQLXSUCCESS | PQLXSRVRPAUSE | PQLXSRVRRESUME
  | NO_MEMORY | UNKNOWN_EVENT | SRVR_CRASH | NO_SUCH_RECORD | SRVR_NOT_READY | SQL_FAILURE
  | NO_STATIONS
  | NO_RESP_FILE | NOT_ENOUGH_DATA | FILES_DISCONTINUOUS | FFT_ERROR | PERIOD_MISMATCH
  | FILE_READ_ERROR | FILE_DNE | EVALRESP_FAILURE | SRATE_ERROR | FILE_TOO_LARGE
  | IDX_OPEN_FAIL | PSD_OPEN_FAIL

section \<open>Floating point\<close>

text \<open>
  A \<^verbatim>\<open>double\<close> is a real number and its arithmetic is exact; converting one to an integer
  type drops the fraction, towards zero, as C does. A store into a \<^verbatim>\<open>float\<close> is rounded:
  \<open>to_float\<close> scales the value up until it has at least 24 binary digits, rounds to the
  nearest integer (ties to even) and scales back. The fuel 149 reaches the smallest
  subnormal; the values stored are below \<open>2 ^ 24\<close>.
\<close>

definition c_trunc :: "real \<Rightarrow> int" where
  "c_trunc x = (if 0 \<le> x then \<lfloor>x\<rfloor> else \<lceil>x\<rceil>)"

definition round_even :: "real \<Rightarrow> int" where
  "round_even x =
     (let f = \<lfloor>x\<rfloor>; d = x - of_int f
      in if d < 1 / 2 then f else if 1 / 2 < d then f + 1 else if even f then f else f + 1)"

fun scale_round :: "nat \<Rightarrow> real \<Rightarrow> real" where
  "scale_round 0 x = of_int (round_even x)"
| "scale_round (Suc n) x =
     (if 2 ^ 23 \<le> \<bar>x\<bar> then of_int (round_even x) else scale_round n (2 * x) / 2)"

definition to_float :: "real \<Rightarrow> real" where
  "to_float x = scale_round 149 x"

lemma scale_round_numeral:
  "scale_round (numeral k) x =
     (if 2 ^ 23 \<le> \<bar>x\<bar> then of_int (round_even x)
      else scale_round (pred_numeral k) (2 * x) / 2)"
  by (simp add: numeral_eq_Suc)

lemma c_trunc_of_int [simp]: "c_trunc (of_int k) = k"
  by (simp add: c_trunc_def)

lemma c_trunc_numeral [simp]: "c_trunc (numeral k) = numeral k"
  by (simp add: c_trunc_def)

lemma c_trunc_0 [simp]: "c_trunc 0 = 0"
  by (simp add: c_trunc_def)

text \<open>Truncating a quotient of integers is C's integer division.\<close>

lemma c_trunc_divide: "0 < b \<Longrightarrow> c_trunc (of_int a / of_int b) = a sdiv b"
proof -
  assume b: "0 < b"
  show ?thesis
  proof (cases "0 \<le> a")
    case True
    with b have "(0::real) \<le> of_int a / of_int b" by simp
    then show ?thesis
      using True b by (simp add: c_trunc_def floor_divide_of_int_eq signed_divide_int_def sgn_if)
  next
    case False
    with b have "of_int a / of_int b < (0::real)" by (simp add: divide_neg_pos)
    then have "c_trunc (of_int a / of_int b) = - \<lfloor>of_int (- a) / of_int b :: real\<rfloor>"
      by (simp add: c_trunc_def ceiling_def)
    then show ?thesis
      using False b by (simp add: floor_divide_of_int_eq signed_divide_int_def sgn_if del: of_int_minus)
  qed
qed

lemma round_even_of_int [simp]: "round_even (of_int k) = k"
  by (simp add: round_even_def)

lemma round_even_le: "x \<le> of_int k \<Longrightarrow> round_even x \<le> k"
proof -
  assume x: "x \<le> of_int k"
  show ?thesis
  proof (cases "x = of_int k")
    case True
    then show ?thesis by simp
  next
    case False
    with x have "\<lfloor>x\<rfloor> < k" by (simp add: floor_less_iff)
    then show ?thesis by (auto simp: round_even_def Let_def)
  qed
qed

lemma round_even_ge: "of_int k \<le> x \<Longrightarrow> k \<le> round_even x"
proof -
  assume "of_int k \<le> x"
  then have "k \<le> \<lfloor>x\<rfloor>" by (simp add: le_floor_iff)
  then show ?thesis by (auto simp: round_even_def Let_def)
qed

lemma scale_round_of_int: "scale_round n (of_int k) = of_int k"
proof (induction n arbitrary: k)
  case (Suc n)
  have "scale_round n (2 * of_int k) = of_int (2 * k)"
    using Suc.IH [of "2 * k"] by simp
  then show ?case by simp
qed simp

lemma scale_round_le: "x \<le> of_int k \<Longrightarrow> scale_round n x \<le> of_int k"
proof (induction n arbitrary: x k)
  case (Suc n)
  have "scale_round n (2 * x) \<le> of_int (2 * k)"
    using Suc.prems by (intro Suc.IH) simp
  with Suc.prems show ?case by (simp add: round_even_le)
qed (simp add: round_even_le)

lemma scale_round_ge: "of_int k \<le> x \<Longrightarrow> of_int k \<le> scale_round n x"
proof (induction n arbitrary: x k)
  case (Suc n)
  have "of_int (2 * k) \<le> scale_round n (2 * x)"
    using Suc.prems by (intro Suc.IH) simp
  with Suc.prems show ?case by (simp add: round_even_ge)
qed (simp add: round_even_ge)

text \<open>Whole numbers are stored exactly, and rounding never passes one.\<close>

lemma to_float_of_int [simp]: "to_float (of_int k) = of_int k"
  by (simp add: to_float_def scale_round_of_int)

lemma to_float_le: "x \<le> of_int k \<Longrightarrow> to_float x \<le> of_int k"
  by (simp add: to_float_def scale_round_le)

lemma to_float_ge: "of_int k \<le> x \<Longrightarrow> of_int k \<le> to_float x"
  by (simp add: to_float_def scale_round_ge)

end
