(* ===== verification/CString.thy ===== *)
theory CString
  imports PQL_Prelude "HOL-Library.Monad_Syntax"
begin

text \<open>
  The parts of the C library that the readers use on text: \<^verbatim>\<open>atoi\<close>, \<^verbatim>\<open>atof\<close>, \<^verbatim>\<open>sscanf("%nd")\<close>,
  \<^verbatim>\<open>strstr\<close>, \<^verbatim>\<open>strrchr\<close> and the conversions \<^verbatim>\<open>%d\<close>, \<^verbatim>\<open>%0nd\<close> and \<^verbatim>\<open>%x\<close> of \<^verbatim>\<open>sprintf\<close>. A text is the
  list of its bytes; a function that reads a text in a packet is given the bytes from there to
  the end of the packet. The lemmas are the round trips between printing and reading numbers.
\<close>

type_synonym cstr = "byte list"

text \<open>A literal of the source.\<close>

definition lit :: "string \<Rightarrow> cstr" where
  "lit s = map of_char s"

section \<open>Reading numbers\<close>

definition isspace :: "byte \<Rightarrow> bool" where
  "isspace b \<longleftrightarrow> b = 32 \<or> (9 \<le> b \<and> b \<le> 13)"

definition isdigit :: "byte \<Rightarrow> bool" where
  "isdigit b \<longleftrightarrow> 48 \<le> b \<and> b \<le> 57"

definition dec_value :: "cstr \<Rightarrow> int" where
  "dec_value ds = foldl (\<lambda>acc b. 10 * acc + (uint b - 48)) 0 ds"

text \<open>The sign of a number and what follows it.\<close>

fun c_sign :: "cstr \<Rightarrow> int \<times> cstr" where
  "c_sign [] = (1, [])"
| "c_sign (b # bs) = (if b = 45 then (-1, bs) else if b = 43 then (1, bs) else (1, b # bs))"

definition LONG_MAX :: int where
  "LONG_MAX = 2 ^ 63 - 1"

text \<open>\<^verbatim>\<open>atoi\<close> is \<^verbatim>\<open>(int) strtol(s, NULL, 10)\<close>: saturated to a \<^verbatim>\<open>long\<close>, then cut to 32 bits.\<close>

definition to_int32 :: "int \<Rightarrow> int" where
  "to_int32 k = sint (word_of_int k :: 32 word)"

definition atoi :: "cstr \<Rightarrow> int" where
  "atoi s =
     (let (sg, r) = c_sign (dropWhile isspace s);
          v = sg * dec_value (takeWhile isdigit r)
      in to_int32 (max (- LONG_MAX - 1) (min LONG_MAX v)))"

text \<open>
  \<^verbatim>\<open>sscanf(s, "%wd", &x)\<close>: white space is skipped and does not count, the sign does; \<open>old\<close> is
  the value of \<open>x\<close> when there is no digit.
\<close>

definition sscanf_d :: "nat \<Rightarrow> cstr \<Rightarrow> int \<Rightarrow> int" where
  "sscanf_d w s old =
     (let r = dropWhile isspace s; (sg, r') = c_sign (take w r);
          ds = takeWhile isdigit r'
      in if ds = [] then old else sg * dec_value ds)"

text \<open>\<^verbatim>\<open>atof\<close> on decimal notation: digits, an optional fraction and an optional exponent.\<close>

definition atof_frac :: "cstr \<Rightarrow> cstr" where
  "atof_frac r = (case r of [] \<Rightarrow> [] | b # bs \<Rightarrow> if b = 46 then takeWhile isdigit bs else [])"

definition atof_exp :: "cstr \<Rightarrow> int" where
  "atof_exp r =
     (case r of [] \<Rightarrow> 0
      | b # bs \<Rightarrow> if b = 69 \<or> b = 101
                  then (let (sg, r') = c_sign bs in sg * dec_value (takeWhile isdigit r')) else 0)"

definition atof :: "cstr \<Rightarrow> real" where
  "atof s =
     (let (sg, r) = c_sign (dropWhile isspace s);
          ds = takeWhile isdigit r; r1 = dropWhile isdigit r;
          fs = atof_frac r1;
          r2 = (if r1 \<noteq> [] \<and> hd r1 = 46 then dropWhile isdigit (tl r1) else r1)
      in if ds = [] \<and> fs = [] then 0
         else of_int (sg * dec_value (ds @ fs)) * 10 powi (atof_exp r2 - int (length fs)))"

section \<open>Printing numbers\<close>

function show_base :: "nat \<Rightarrow> nat \<Rightarrow> nat list" where
  "show_base b n = (if b \<le> 1 \<or> n < b then [n] else show_base b (n div b) @ [n mod b])"
  by pat_completeness auto
termination
  by (relation "measure snd") auto

declare show_base.simps [simp del]

definition dec_digit :: "nat \<Rightarrow> byte" where
  "dec_digit d = of_nat (48 + d)"

definition hex_digit :: "nat \<Rightarrow> byte" where
  "hex_digit d = of_nat (if d < 10 then 48 + d else 65 + (d - 10))"

definition show_nat :: "nat \<Rightarrow> cstr" where
  "show_nat n = map dec_digit (show_base 10 n)"

definition show_int :: "int \<Rightarrow> cstr" where
  "show_int k = (if k < 0 then 45 # show_nat (nat (- k)) else show_nat (nat k))"

text \<open>\<^verbatim>\<open>%0wd\<close> of a number that is not negative, and \<^verbatim>\<open>%X\<close>.\<close>

definition show_pad :: "nat \<Rightarrow> int \<Rightarrow> cstr" where
  "show_pad w k = (let s = show_int k in replicate (w - length s) 48 @ s)"

definition show_hex :: "nat \<Rightarrow> cstr" where
  "show_hex n = map hex_digit (show_base 16 n)"

section \<open>Searching\<close>

text \<open>
  \<^verbatim>\<open>strstr(p, CRLF)\<close> in a buffer: the inner \<open>None\<close> is \<^verbatim>\<open>NULL\<close>, when a zero byte comes first; the
  outer \<open>None\<close> means that the search would run past the end of the buffer.
\<close>

fun strstr_crlf :: "cstr \<Rightarrow> nat option option" where
  "strstr_crlf [] = None"
| "strstr_crlf (b # bs) =
     (if b = 0 then Some None
      else if b = 13 \<and> bs \<noteq> [] \<and> hd bs = 10 then Some (Some 0)
      else map_option (map_option Suc) (strstr_crlf bs))"

text \<open>The text after the last occurrence of a character, the whole text when there is none.\<close>

fun after_last :: "byte \<Rightarrow> cstr \<Rightarrow> cstr option" where
  "after_last c [] = None"
| "after_last c (b # bs) =
     (case after_last c bs of Some r \<Rightarrow> Some r | None \<Rightarrow> if b = c then Some bs else None)"

definition base_name :: "cstr \<Rightarrow> cstr" where
  "base_name path = (case after_last 47 path of Some r \<Rightarrow> r | None \<Rightarrow> path)"

section \<open>Round trips\<close>

lemma show_base_digits: "1 < b \<Longrightarrow> d \<in> set (show_base b n) \<Longrightarrow> d < b"
proof (induction b n rule: show_base.induct)
  case (1 b n)
  then show ?case
    by (subst (asm) (2) show_base.simps) (auto split: if_splits)
qed

lemma show_base_not_Nil [simp]: "show_base b n \<noteq> []"
  by (subst show_base.simps) simp

lemma show_base_value:
  "1 < b \<Longrightarrow> foldl (\<lambda>acc d. b * acc + d) 0 (show_base b n) = n"
proof (induction b n rule: show_base.induct)
  case (1 b n)
  then show ?case by (subst show_base.simps) simp
qed

lemma length_show_base: "1 < b \<Longrightarrow> n < b ^ Suc k \<Longrightarrow> length (show_base b n) \<le> Suc k"
proof (induction k arbitrary: n)
  case 0
  then show ?case by (subst show_base.simps) simp
next
  case (Suc k)
  then have "n div b < b ^ Suc k" by (simp add: less_mult_imp_div_less mult.commute)
  with Suc show ?case by (subst show_base.simps) auto
qed

lemma uint_dec_digit: "d < 10 \<Longrightarrow> uint (dec_digit d) = 48 + int d"
proof -
  assume "d < 10"
  then have "take_bit 8 (48 + d) = 48 + d" by (intro take_bit_nat_eq_self) simp
  moreover have "uint (of_nat n :: byte) = int (take_bit 8 n)" for n
    by (simp add: unsigned_of_nat)
  ultimately show ?thesis
    unfolding dec_digit_def by (metis of_nat_add of_nat_numeral)
qed

lemma isdigit_dec_digit: "d < 10 \<Longrightarrow> isdigit (dec_digit d)"
  using uint_dec_digit [of d] by (simp add: isdigit_def word_le_def)

lemma isdigit_not_space: "isdigit b \<Longrightarrow> \<not> isspace b"
proof -
  assume "isdigit b"
  then have "48 \<le> uint b" by (simp add: isdigit_def word_le_def)
  then have "b \<noteq> 32" "\<not> b \<le> 13" by (auto simp: word_le_def)
  then show ?thesis by (simp add: isspace_def)
qed

lemma isdigit_not_sign: "isdigit b \<Longrightarrow> b \<noteq> 45 \<and> b \<noteq> 43"
  by (auto simp: isdigit_def word_le_def)

lemma show_nat_digits: "\<forall>b\<in>set (show_nat n). isdigit b"
  using show_base_digits [of 10 _ n] by (auto simp: show_nat_def isdigit_dec_digit)

lemma show_nat_not_Nil [simp]: "show_nat n \<noteq> []"
  by (simp add: show_nat_def)

lemma dec_value_map:
  "\<forall>d\<in>set ds. d < 10 \<Longrightarrow>
   foldl (\<lambda>acc b. 10 * acc + (uint b - 48)) (int acc) (map dec_digit ds)
     = int (foldl (\<lambda>acc d. 10 * acc + d) acc ds)"
proof (induction ds arbitrary: acc)
  case (Cons d ds)
  then have "10 * int acc + (uint (dec_digit d) - 48) = int (10 * acc + d)"
    by (simp add: uint_dec_digit)
  then show ?case using Cons.IH [of "10 * acc + d"] Cons.prems by (simp only: list.map foldl.simps) simp
qed simp

lemma dec_value_show_nat [simp]: "dec_value (show_nat n) = int n"
  using dec_value_map [of "show_base 10 n" 0] show_base_digits [of 10 _ n] show_base_value [of 10 n]
  by (simp add: dec_value_def show_nat_def)

lemma takeWhile_digits:
  "\<forall>b\<in>set ds. isdigit b \<Longrightarrow> rest = [] \<or> \<not> isdigit (hd rest) \<Longrightarrow> takeWhile isdigit (ds @ rest) = ds"
  by (cases rest) (auto simp: takeWhile_append2)

text \<open>\<^verbatim>\<open>atoi\<close> reads back what \<^verbatim>\<open>%d\<close> printed, whatever follows the digits.\<close>

lemma to_int32_id: "- (2 ^ 31) \<le> k \<Longrightarrow> k < 2 ^ 31 \<Longrightarrow> to_int32 k = k"
  by (simp add: to_int32_def sint_sbintrunc' signed_take_bit_int_eq_self)

lemma atoi_number:
  assumes "- (2 ^ 31) \<le> k" and "k < 2 ^ 31" and "rest = [] \<or> \<not> isdigit (hd rest)"
  shows "atoi (show_int k @ rest) = k"
proof -
  have ds: "takeWhile isdigit (show_nat n @ rest) = show_nat n" for n
    by (rule takeWhile_digits [OF show_nat_digits assms(3)])
  have rng: "max (- LONG_MAX - 1) (min LONG_MAX k) = k"
    using assms(1,2) by (simp add: LONG_MAX_def)
  obtain d ds' where n: "show_nat (nat k) = d # ds'" by (cases "show_nat (nat k)") simp_all
  then have d: "isdigit d" using show_nat_digits [of "nat k"] by simp
  show ?thesis
  proof (cases "k < 0")
    case True
    then show ?thesis
      using ds rng to_int32_id [OF assms(1,2)]
      by (simp add: atoi_def show_int_def isspace_def)
  next
    case False
    moreover have "c_sign (dropWhile isspace (show_nat (nat k) @ rest)) = (1, show_nat (nat k) @ rest)"
      using isdigit_not_space [OF d] isdigit_not_sign [OF d] by (simp add: n)
    ultimately show ?thesis
      using ds rng to_int32_id [OF assms(1,2)] by (simp add: atoi_def show_int_def)
  qed
qed

lemma atoi_show_int: "- (2 ^ 31) \<le> k \<Longrightarrow> k < 2 ^ 31 \<Longrightarrow> atoi (show_int k) = k"
  using atoi_number [of k "[]"] by simp

text \<open>The same for a number printed with leading zeros.\<close>

lemma show_pad_props:
  assumes "0 < w" and "0 \<le> k" and "k < 10 ^ w"
  shows "length (show_pad w k) = w" and "\<forall>b\<in>set (show_pad w k). isdigit b"
    and "dec_value (show_pad w k) = k"
proof -
  obtain v where v: "w = Suc v" using assms(1) by (cases w) simp_all
  have "nat k < 10 ^ w" using assms by (simp add: nat_less_iff)
  then have "length (show_nat (nat k)) \<le> w"
    using length_show_base [of 10 "nat k" v] by (simp add: show_nat_def v)
  then show "length (show_pad w k) = w"
    using assms by (simp add: show_pad_def Let_def show_int_def)
  show "\<forall>b\<in>set (show_pad w k). isdigit b"
    using assms show_nat_digits [of "nat k"]
    by (auto simp: show_pad_def Let_def show_int_def isdigit_def)
  have "foldl (\<lambda>acc b. 10 * acc + (uint b - 48)) 0 (replicate m (48 :: byte)) = 0" for m
    by (induction m) simp_all
  then show "dec_value (show_pad w k) = k"
    using assms dec_value_show_nat [of "nat k"]
    by (simp add: show_pad_def Let_def show_int_def dec_value_def)
qed

lemma atoi_show_pad:
  assumes "0 < w" "0 \<le> k" "k < 10 ^ w" "w \<le> 9" and "rest = [] \<or> \<not> isdigit (hd rest)"
  shows "atoi (show_pad w k @ rest) = k"
proof -
  let ?p = "show_pad w k"
  note p = show_pad_props [OF assms(1-3)]
  obtain b bs where b: "?p = b # bs" using p(1) assms(1) by (cases ?p) simp_all
  then have d: "isdigit b" using p(2) by simp
  have "c_sign (dropWhile isspace (?p @ rest)) = (1, ?p @ rest)"
    using isdigit_not_space [OF d] isdigit_not_sign [OF d] by (simp add: b)
  moreover have "takeWhile isdigit (?p @ rest) = ?p"
    using p(2) assms(5) by (intro takeWhile_digits)
  moreover have "(10 :: int) ^ w \<le> 10 ^ 9" using assms(4) by (intro power_increasing) auto
  then have k: "k < 2 ^ 31" using assms(3) by simp
  then have "max (- LONG_MAX - 1) (min LONG_MAX k) = k" using assms(2) by (simp add: LONG_MAX_def)
  ultimately show ?thesis
    using p(3) to_int32_id [of k] assms(2) k by (simp add: atoi_def)
qed

lemma after_last_append: "c \<notin> set ys \<Longrightarrow> after_last c (xs @ c # ys) = Some ys"
proof -
  assume "c \<notin> set ys"
  then have "after_last c ys = None" by (induction ys) auto
  then show ?thesis by (induction xs) auto
qed

lemma strstr_crlf_found:
  "\<lbrakk>0 \<notin> set ms; 13 \<notin> set ms\<rbrakk> \<Longrightarrow> strstr_crlf (ms @ 13 # 10 # rest) = Some (Some (length ms))"
  by (induction ms) auto

lemma strstr_crlf_bound: "strstr_crlf bs = Some (Some k) \<Longrightarrow> k + 2 \<le> length bs"
proof (induction bs arbitrary: k rule: strstr_crlf.induct)
  case (2 b bs)
  then show ?case by (cases bs) (auto split: if_splits)
qed simp

end
