(* ===== verification/Calendar.thy ===== *)
theory Calendar
  imports PQL_Prelude
begin

text \<open>
  The calendar of \<^verbatim>\<open>utils/hlpr/util_time.c\<close>: conversion between epoch seconds and the
  fields of a \<^verbatim>\<open>PTIME\<close>, day-of-year arithmetic and the date checks. The fields
  are integers (the values that occur fit their \<^verbatim>\<open>short\<close>), the seconds field is a
  \<^verbatim>\<open>float\<close> and is rounded when it is stored, and the year loops are recursive functions with
  their termination proofs. The lemmas relate the two directions through the number of days a
  run of years has.
\<close>

section \<open>Definitions\<close>

record ptime =
  yr :: int
  mo :: int
  day :: int
  jday :: int
  hr :: int
  mn :: int
  sec :: real

definition days_in_month :: "int list" where
  "days_in_month = [31, 28, 31, 30, 31, 30, 31, 31, 30, 31, 30, 31, 31]"

definition passcal_isleap :: "int \<Rightarrow> bool" where
  "passcal_isleap a \<longleftrightarrow> a mod 4 = 0 \<and> (a mod 100 \<noteq> 0 \<or> a mod 400 = 0)"

text \<open>The macro \<^verbatim>\<open>mod(a,b)\<close>.\<close>

definition c_fmod :: "real \<Rightarrow> real \<Rightarrow> real" where
  "c_fmod a b = a - of_int (c_trunc (a / b)) * b"

definition diy :: "int \<Rightarrow> int" where
  "diy y = (if passcal_isleap y then 366 else 365)"

lemma diy_pos: "0 < diy y"
  by (simp add: diy_def)

text \<open>The loops \<^verbatim>\<open>for (t->yr = 1970;; t->yr++)\<close> and \<^verbatim>\<open>for (t->yr = 1969;; t->yr--)\<close>.\<close>

function year_up :: "int \<Rightarrow> int \<Rightarrow> int \<times> int" where
  "year_up y days = (if days < diy y then (y, days) else year_up (y + 1) (days - diy y))"
  by pat_completeness auto
termination
  by (relation "measure (\<lambda>(y, days). nat days)") (auto simp: diy_def split: if_splits)

function year_down :: "int \<Rightarrow> int \<Rightarrow> int \<times> int" where
  "year_down y days =
     (if 0 \<le> days + diy y then (y, days + diy y) else year_down (y - 1) (days + diy y))"
  by pat_completeness auto
termination
  by (relation "measure (\<lambda>(y, days). nat (- days))") (auto simp: diy_def split: if_splits)

declare year_up.simps [simp del] year_down.simps [simp del]

text \<open>\<^verbatim>\<open>passcal_month_day\<close>: the first twelve entries of the table, stopping in the month.\<close>

fun month_loop :: "bool \<Rightarrow> int \<Rightarrow> int \<Rightarrow> int list \<Rightarrow> int \<times> int" where
  "month_loop leap d i [] = (i, d)"
| "month_loop leap d i (n # ns) =
     (let dim = (if leap \<and> i = 1 then n + 1 else n)
      in if d \<le> dim then (i, d) else month_loop leap (d - dim) (i + 1) ns)"

definition passcal_month_day :: "ptime \<Rightarrow> int \<Rightarrow> ptime" where
  "passcal_month_day t jul_day =
     (let (i, d) = month_loop (passcal_isleap (yr t)) jul_day 0 (take 12 days_in_month)
      in t\<lparr>day := d, mo := i + 1\<rparr>)"

text \<open>The time of day: the carried day count, hours, minutes and stored seconds.\<close>

definition etoh_clock :: "real \<Rightarrow> int \<times> int \<times> int \<times> real" where
  "etoh_clock epoch =
     (let days = c_trunc (epoch / 86400); secleft = c_fmod epoch 86400
      in if secleft \<noteq> 0 then
           (let (days, secleft) =
                  (if secleft < 0 then (days - 1, secleft + 86400) else (days, secleft));
                h = c_trunc (secleft / 3600);
                secleft = c_fmod secleft 3600;
                m = c_trunc (secleft / 60)
            in (days, h, m, to_float (c_fmod secleft 60)))
         else (days, 0, 0, 0))"

text \<open>The round-off correction and the date fields, from the year and the day in it.\<close>

definition etoh_fields :: "int \<Rightarrow> int \<Rightarrow> int \<Rightarrow> int \<Rightarrow> real \<Rightarrow> ptime" where
  "etoh_fields y days h m s =
     (let (h, m, s, days) =
            (if h = 23 \<and> m = 59 \<and> s = 60 then (0, 0, 0, days + 1) else (h, m, s, days));
          days = days + 1
      in passcal_month_day
           \<lparr>yr = y, mo = 0, day = 0, jday = days, hr = h, mn = m, sec = s\<rparr> days)"

definition passcal_etoh :: "real \<Rightarrow> ptime" where
  "passcal_etoh epoch =
     (let (days, h, m, s) = etoh_clock epoch;
          (y, days) = (if 0 \<le> days then year_up 1970 days else year_down 1969 days)
      in etoh_fields y days h m s)"

definition julian :: "ptime \<Rightarrow> int" where
  "julian t =
     fold (\<lambda>i j. j + (if i = 1 \<and> passcal_isleap (yr t) then days_in_month ! i + 1
                      else days_in_month ! i))
       [0..<nat (mo t - 1)] 0 + day t"

text \<open>The loops of \<^verbatim>\<open>passcal_htoe\<close> over the years since, or until, 1970.\<close>

function htoe_up :: "int \<Rightarrow> int \<Rightarrow> int \<Rightarrow> int" where
  "htoe_up i y days =
     (if i < y then htoe_up (i + 1) y (days + 365 + (if passcal_isleap i then 1 else 0))
      else days)"
  by pat_completeness auto
termination
  by (relation "measure (\<lambda>(i, y, days). nat (y - i))") auto

function htoe_down :: "int \<Rightarrow> int \<Rightarrow> int" where
  "htoe_down i days =
     (if i < 1970 then htoe_down (i + 1) (days - 365 - (if passcal_isleap i then 1 else 0))
      else days)"
  by pat_completeness auto
termination
  by (relation "measure (\<lambda>(i, days). nat (1970 - i))") auto

declare htoe_up.simps [simp del] htoe_down.simps [simp del]

definition htoe_days :: "int \<Rightarrow> int" where
  "htoe_days y = (if y > 1970 then htoe_up 1970 y 0 else if y < 1970 then htoe_down y 0 else 0)"

definition passcal_htoe :: "ptime \<Rightarrow> bool \<Rightarrow> int" where
  "passcal_htoe t convertJul =
     (let days = htoe_days (yr t) + (if convertJul then julian t - 1 else day t - 1)
      in c_trunc (of_int days * 86400)
         + c_trunc (of_int (hr t) * 3600 + of_int (mn t) * 60 + sec t))"

definition daytab :: "bool \<Rightarrow> int list" where
  "daytab leap = [0, 31, if leap then 29 else 28, 31, 30, 31, 30, 31, 31, 30, 31, 30, 31]"

definition get_julday :: "int \<Rightarrow> int \<Rightarrow> int \<Rightarrow> int" where
  "get_julday month d year =
     (let leap = (year mod 4 = 0 \<and> (year mod 100 \<noteq> 0 \<or> year mod 400 = 0))
      in if month < 1 \<or> month > 12 then -1
         else if d < 1 \<or> d > daytab leap ! nat month then -1
         else fold (\<lambda>i j. j + daytab leap ! i) [1..<nat month] d)"

definition getMidnight :: "real \<Rightarrow> int" where
  "getMidnight epoch =
     passcal_htoe ((passcal_etoh epoch)\<lparr>hr := 0, mn := 0, sec := 0\<rparr>) True"

text \<open>\<^verbatim>\<open>chkDateFormat\<close> returns whether the date is \<^emph>\<open>invalid\<close>.\<close>

definition chkDateFormat :: "int \<Rightarrow> int \<Rightarrow> int \<Rightarrow> bool" where
  "chkDateFormat year month d \<longleftrightarrow> year < 1900 \<or> (month < 1 \<or> month > 12) \<or> (d < 1 \<or> d > 31)"

section \<open>Days in a run of years\<close>

definition ydays :: "int \<Rightarrow> int \<Rightarrow> int" where
  "ydays a b = (\<Sum>k\<in>{a..<b}. diy k)"

lemma ydays_left: "a < b \<Longrightarrow> ydays a b = diy a + ydays (a + 1) b"
proof -
  assume "a < b"
  then have "{a..<b} = insert a {a + 1..<b}" by auto
  then show ?thesis by (simp add: ydays_def)
qed

lemma ydays_right: "a \<le> b \<Longrightarrow> ydays a (b + 1) = ydays a b + diy b"
proof -
  assume "a \<le> b"
  then have "{a..<b + 1} = insert b {a..<b}" by auto
  then show ?thesis by (simp add: ydays_def)
qed

lemma ydays_empty [simp]: "b \<le> a \<Longrightarrow> ydays a b = 0"
  by (simp add: ydays_def)

lemma ydays_bounds: "a \<le> b \<Longrightarrow> 365 * (b - a) \<le> ydays a b \<and> ydays a b \<le> 366 * (b - a)"
proof -
  assume "a \<le> b"
  have "(\<Sum>k\<in>{a..<b}. 365) \<le> ydays a b" and "ydays a b \<le> (\<Sum>k\<in>{a..<b}. 366)"
    unfolding ydays_def by (rule sum_mono, simp add: diy_def)+
  with \<open>a \<le> b\<close> show ?thesis by simp
qed

lemma htoe_up_eq: "htoe_up i y days = days + ydays i y"
proof (induction i y days rule: htoe_up.induct)
  case (1 i y days)
  then show ?case
    by (cases "i < y") (simp_all add: htoe_up.simps [of i y] ydays_left diy_def)
qed

lemma htoe_down_eq: "htoe_down i days = days - ydays i 1970"
proof (induction i days rule: htoe_down.induct)
  case (1 i days)
  then show ?case
    by (cases "i < 1970") (simp_all add: htoe_down.simps [of i] ydays_left diy_def)
qed

lemma htoe_days_eq: "htoe_days y = ydays 1970 y - ydays y 1970"
  by (simp add: htoe_days_def htoe_up_eq htoe_down_eq)

lemma year_up_spec:
  "year_up y d = (y', r) \<Longrightarrow> 0 \<le> d \<Longrightarrow> y \<le> y' \<and> 0 \<le> r \<and> r < diy y' \<and> d = ydays y y' + r"
proof (induction y d rule: year_up.induct)
  case (1 y d)
  show ?case
  proof (cases "d < diy y")
    case True
    with 1 show ?thesis by (simp add: year_up.simps [of y])
  next
    case False
    with 1 have "y + 1 \<le> y' \<and> 0 \<le> r \<and> r < diy y' \<and> d - diy y = ydays (y + 1) y' + r"
      by (simp add: year_up.simps [of y])
    then show ?thesis by (simp add: ydays_left)
  qed
qed

lemma year_down_spec:
  "year_down y d = (y', r) \<Longrightarrow> d < 0 \<Longrightarrow>
   y' \<le> y \<and> 0 \<le> r \<and> r < diy y' \<and> d = r - ydays y' (y + 1)"
proof (induction y d rule: year_down.induct)
  case (1 y d)
  show ?case
  proof (cases "0 \<le> d + diy y")
    case True
    with 1 show ?thesis by (auto simp: year_down.simps [of y] ydays_left)
  next
    case False
    with 1 have "y' \<le> y - 1 \<and> 0 \<le> r \<and> r < diy y' \<and> d + diy y = r - ydays y' y"
      by (simp add: year_down.simps [of y])
    then show ?thesis by (simp add: ydays_right)
  qed
qed

text \<open>The two year loops together: a day number splits into a year and a day of that year.\<close>

lemma year_split:
  assumes "(if 0 \<le> d then year_up 1970 d else year_down 1969 d) = (y, r)"
  shows "0 \<le> r \<and> r < diy y \<and> d = htoe_days y + r"
  using assms year_up_spec [of 1970 d y r] year_down_spec [of 1969 d y r]
  by (auto simp: htoe_days_eq split: if_splits)

section \<open>Months\<close>

definition mdays :: "int \<Rightarrow> int \<Rightarrow> int" where
  "mdays y m = (if m = 2 \<and> passcal_isleap y then 29 else days_in_month ! nat (m - 1))"

definition valid_date :: "int \<Rightarrow> int \<Rightarrow> int \<Rightarrow> bool" where
  "valid_date y m d \<longleftrightarrow> 1 \<le> m \<and> m \<le> 12 \<and> 1 \<le> d \<and> d \<le> mdays y m"

lemma month_day_fields [simp]:
  "yr (passcal_month_day t d) = yr t" "jday (passcal_month_day t d) = jday t"
  "hr (passcal_month_day t d) = hr t" "mn (passcal_month_day t d) = mn t"
  "sec (passcal_month_day t d) = sec t"
  by (simp_all add: passcal_month_day_def split: prod.split)

definition month_len :: "bool \<Rightarrow> nat \<Rightarrow> int" where
  "month_len leap i = (if leap \<and> i = 1 then days_in_month ! i + 1 else days_in_month ! i)"

lemma days_in_month_length: "length days_in_month = 13"
  by (simp add: days_in_month_def)

lemma fold_add_sum: "fold (\<lambda>i j. j + f i) [0..<n] (a::int) = a + (\<Sum>i<n. f i)"
  by (induction n) simp_all

lemma julian_sum: "julian t = (\<Sum>i<nat (mo t - 1). month_len (passcal_isleap (yr t)) i) + day t"
  unfolding julian_def month_len_def
  by (subst fold_add_sum [symmetric, where a = 0, simplified]) (simp add: conj_commute)

lemma month_loop_spec:
  assumes "i + length ns = 12" and "ns = drop i (take 12 days_in_month)" and "1 \<le> d"
    and "month_loop leap d (int i) ns = (k, r)"
  shows "\<exists>n. k = int n \<and> i \<le> n \<and> n \<le> 12 \<and> 1 \<le> r \<and> d = (\<Sum>j=i..<n. month_len leap j) + r
           \<and> (n < 12 \<longrightarrow> r \<le> month_len leap n)"
  using assms
proof (induction ns arbitrary: i d)
  case Nil
  then show ?case by auto
next
  case (Cons n ns)
  have i: "i < 12" using Cons.prems(1) by simp
  have "n # ns = days_in_month ! i # drop (Suc i) (take 12 days_in_month)"
    using i by (subst Cons.prems(2), subst Cons_nth_drop_Suc [symmetric])
      (simp_all add: days_in_month_length)
  then have n: "n = days_in_month ! i" and ns: "ns = drop (Suc i) (take 12 days_in_month)"
    by simp_all
  let ?m = "month_len leap i"
  have dim: "(if leap \<and> int i = 1 then n + 1 else n) = ?m"
    by (auto simp: month_len_def n)
  show ?case
  proof (cases "d \<le> ?m")
    case True
    with Cons.prems(4) dim have "k = int i \<and> r = d" by (simp add: Let_def)
    with Cons.prems(3) True i show ?thesis by (intro exI [of _ i]) simp
  next
    case False
    with Cons.prems(4) dim have "month_loop leap (d - ?m) (int (Suc i)) ns = (k, r)"
      by (simp add: Let_def add.commute split: if_splits)
    with Cons.IH [of "Suc i" "d - ?m"] Cons.prems(1) ns False obtain n' where
      "k = int n' \<and> Suc i \<le> n' \<and> n' \<le> 12 \<and> 1 \<le> r \<and> d - ?m = (\<Sum>j=Suc i..<n'. month_len leap j) + r
       \<and> (n' < 12 \<longrightarrow> r \<le> month_len leap n')" by auto
    moreover from this have "(\<Sum>j=i..<n'. month_len leap j) = ?m + (\<Sum>j=Suc i..<n'. month_len leap j)"
      by (intro sum.atLeast_Suc_lessThan) simp
    ultimately show ?thesis by (intro exI [of _ n']) auto
  qed
qed

lemma mdays_month_len: "mdays y (int n + 1) = month_len (passcal_isleap y) n"
  by (auto simp: mdays_def month_len_def days_in_month_def)

lemma year_len: "(\<Sum>j<12. month_len (passcal_isleap y) j) = diy y"
  by (simp add: month_len_def days_in_month_def diy_def eval_nat_numeral lessThan_Suc)

text \<open>The day of the year is recovered from the month and day.\<close>

lemma julian_month_day:
  assumes "1 \<le> d" and "d \<le> diy (yr t)"
  shows "julian (passcal_month_day t d) = d
    \<and> valid_date (yr t) (mo (passcal_month_day t d)) (day (passcal_month_day t d))"
proof -
  obtain k r where kr: "month_loop (passcal_isleap (yr t)) d 0 (take 12 days_in_month) = (k, r)"
    by fastforce
  have "length (take 12 days_in_month) = 12" by (simp add: days_in_month_length)
  with kr obtain n where n: "k = int n" "n \<le> 12" "1 \<le> r"
      "d = (\<Sum>j<n. month_len (passcal_isleap (yr t)) j) + r"
      "n < 12 \<longrightarrow> r \<le> month_len (passcal_isleap (yr t)) n"
    using month_loop_spec [of 0 "take 12 days_in_month" d _ k r] assms(1)
    by (auto simp: atLeast0LessThan)
  have "n \<noteq> 12" using n assms(2) year_len [of "yr t"] by auto
  then have "n < 12" using n by simp
  with n kr show ?thesis
    by (simp add: passcal_month_day_def julian_sum valid_date_def mdays_month_len)
qed

section \<open>The time of day\<close>

lemma c_fmod_pos:
  assumes "0 \<le> a" and "0 < b"
  shows "0 \<le> c_fmod a b \<and> c_fmod a b < b \<and> 0 \<le> c_trunc (a / b)"
proof -
  have q: "0 \<le> a / b" using assms by simp
  have "of_int \<lfloor>a / b\<rfloor> * b \<le> a" and "a < (of_int \<lfloor>a / b\<rfloor> + 1) * b"
    using assms(2) by (rule floor_divide_lower, rule floor_divide_upper)
  with q show ?thesis by (simp add: c_fmod_def c_trunc_def algebra_simps)
qed

lemma c_fmod_neg:
  assumes "a < 0" and "0 < b"
  shows "- b < c_fmod a b \<and> c_fmod a b \<le> 0"
proof -
  have q: "\<not> 0 \<le> a / b" using assms by (simp add: divide_neg_pos not_le)
  have "a \<le> of_int \<lceil>a / b\<rceil> * b" and "(of_int \<lceil>a / b\<rceil> - 1) * b < a"
    using assms(2) by (rule ceiling_divide_upper, rule ceiling_divide_lower)
  with q show ?thesis by (simp add: c_fmod_def c_trunc_def algebra_simps)
qed

lemma c_trunc_nonneg: "0 \<le> x \<Longrightarrow> 0 \<le> c_trunc x"
  by (simp add: c_trunc_def)

lemma c_trunc_less: "0 \<le> x \<Longrightarrow> x < of_int k \<Longrightarrow> c_trunc x < k"
  by (simp add: c_trunc_def floor_less_iff)

text \<open>
  The clock splits the seconds of a day: \<open>f\<close> is the seconds value before it is rounded into
  the \<^verbatim>\<open>float\<close> field.
\<close>

lemma clock_of_secleft:
  assumes "0 \<le> s" and "s < 86400"
  defines "h \<equiv> c_trunc (s / 3600)" and "s1 \<equiv> c_fmod s 3600"
  shows "0 \<le> h \<and> h \<le> 23 \<and> 0 \<le> c_trunc (s1 / 60) \<and> c_trunc (s1 / 60) \<le> 59
    \<and> 0 \<le> c_fmod s1 60 \<and> c_fmod s1 60 < 60
    \<and> s = of_int h * 3600 + of_int (c_trunc (s1 / 60)) * 60 + c_fmod s1 60"
proof -
  have s1: "0 \<le> s1" "s1 < 3600" "0 \<le> h"
    using c_fmod_pos [of s 3600] assms by simp_all
  have f: "0 \<le> c_fmod s1 60" "c_fmod s1 60 < 60" "0 \<le> c_trunc (s1 / 60)"
    using c_fmod_pos [of s1 60] s1 by simp_all
  have "h < 24" and "c_trunc (s1 / 60) < 60"
    using c_trunc_less [of "s / 3600" 24] c_trunc_less [of "s1 / 60" 60] s1 assms
    by (simp_all add: h_def)
  moreover have "s = of_int h * 3600 + s1" by (simp add: h_def s1_def c_fmod_def)
  moreover have "s1 = of_int (c_trunc (s1 / 60)) * 60 + c_fmod s1 60"
    by (simp add: c_fmod_def)
  ultimately show ?thesis using s1 f by linarith
qed

lemma etoh_clock_spec:
  assumes "etoh_clock e = (d, h, m, s)"
  shows "\<exists>f. 0 \<le> h \<and> h \<le> 23 \<and> 0 \<le> m \<and> m \<le> 59 \<and> 0 \<le> f \<and> f < 60 \<and> s = to_float f
    \<and> e = of_int d * 86400 + of_int h * 3600 + of_int m * 60 + f"
proof (cases "c_fmod e 86400 = 0")
  case True
  with assms show ?thesis
    using to_float_of_int [of 0] by (intro exI [of _ 0]) (auto simp: etoh_clock_def c_fmod_def)
next
  case False
  define d0 s0 where "d0 = c_trunc (e / 86400)" and "s0 = c_fmod e 86400"
  define d1 s1 where "d1 = (if s0 < 0 then d0 - 1 else d0)"
    and "s1 = (if s0 < 0 then s0 + 86400 else s0)"
  have e: "e = of_int d1 * 86400 + s1"
    by (simp add: d1_def s1_def d0_def s0_def c_fmod_def algebra_simps)
  have "0 \<le> s1" "s1 < 86400"
    using c_fmod_pos [of e 86400] c_fmod_neg [of e 86400] False
    by (cases "e < 0"; simp add: s1_def s0_def)+
  note clock = clock_of_secleft [OF this]
  have "d = d1 \<and> h = c_trunc (s1 / 3600) \<and> m = c_trunc (c_fmod s1 3600 / 60)
      \<and> s = to_float (c_fmod (c_fmod s1 3600) 60)"
    using assms False by (auto simp: etoh_clock_def d1_def s1_def d0_def s0_def Let_def split: if_splits)
  with clock e show ?thesis by (intro exI [of _ "c_fmod (c_fmod s1 3600) 60"]) auto
qed

text \<open>
  What \<^verbatim>\<open>passcal_etoh\<close> computes: a day number, a time of day and the year and day of year,
  with the correction that moves 23:59:60 to the next day.
\<close>

lemma passcal_etoh_spec:
  "\<exists>d h m f y r. 0 \<le> h \<and> h \<le> 23 \<and> 0 \<le> m \<and> m \<le> 59 \<and> 0 \<le> f \<and> f < 60
    \<and> e = of_int d * 86400 + of_int h * 3600 + of_int m * 60 + f
    \<and> 0 \<le> r \<and> r < diy y \<and> d = htoe_days y + r
    \<and> passcal_etoh e = etoh_fields y r h m (to_float f)"
proof -
  obtain d h m s where c: "etoh_clock e = (d, h, m, s)" by (metis prod_cases4)
  obtain y r where yr: "(if 0 \<le> d then year_up 1970 d else year_down 1969 d) = (y, r)"
    by fastforce
  have "passcal_etoh e = etoh_fields y r h m s"
    unfolding passcal_etoh_def c yr by (simp add: yr)
  with etoh_clock_spec [OF c] year_split [OF yr] show ?thesis by metis
qed

text \<open>At a whole second nothing is rounded and the correction is not taken.\<close>

lemma passcal_etoh_int:
  "\<exists>h m s y r. 0 \<le> h \<and> h \<le> 23 \<and> 0 \<le> m \<and> m \<le> 59 \<and> 0 \<le> s \<and> s < 60
    \<and> e = (htoe_days y + r) * 86400 + h * 3600 + m * 60 + s \<and> 0 \<le> r \<and> r < diy y
    \<and> passcal_etoh (of_int e) =
        passcal_month_day
          \<lparr>yr = y, mo = 0, day = 0, jday = r + 1, hr = h, mn = m, sec = of_int s\<rparr> (r + 1)"
proof -
  obtain d h m f y r where p: "0 \<le> h" "h \<le> 23" "0 \<le> m" "m \<le> 59" "0 \<le> f" "f < 60"
    and e: "of_int e = of_int d * 86400 + of_int h * 3600 + of_int m * 60 + f"
    and r: "0 \<le> r" "r < diy y" "d = htoe_days y + r"
    and t: "passcal_etoh (of_int e) = etoh_fields y r h m (to_float f)"
    using passcal_etoh_spec [of "of_int e"] by blast
  obtain s where s: "s = e - (d * 86400 + h * 3600 + m * 60)" by simp
  have f: "f = of_int s" unfolding s using e by simp
  have "0 \<le> s" "s < 60" using p(5,6) unfolding f by simp_all
  have "e = (htoe_days y + r) * 86400 + h * 3600 + m * 60 + s"
    using s r(3) by simp
  moreover have "passcal_etoh (of_int e) =
      passcal_month_day
        \<lparr>yr = y, mo = 0, day = 0, jday = r + 1, hr = h, mn = m, sec = of_int s\<rparr> (r + 1)"
    unfolding t f using \<open>s < 60\<close> by (simp add: etoh_fields_def Let_def)
  ultimately show ?thesis using p(1-4) r(1,2) \<open>0 \<le> s\<close> \<open>s < 60\<close> by blast
qed

lemma htoe_int:
  assumes "sec t = of_int s"
  shows "passcal_htoe t cj =
    (htoe_days (yr t) + (if cj then julian t - 1 else day t - 1)) * 86400
    + (hr t * 3600 + mn t * 60 + s)"
proof -
  have "c_trunc (of_int (hr t) * 3600 + of_int (mn t) * 60 + sec t) = hr t * 3600 + mn t * 60 + s"
    using c_trunc_of_int [of "hr t * 3600 + mn t * 60 + s"] assms by simp
  moreover have "c_trunc (of_int d * 86400) = d * 86400" for d
    using c_trunc_of_int [of "d * 86400"] by simp
  ultimately show ?thesis by (simp add: passcal_htoe_def)
qed

section \<open>Dates determine days\<close>

lemma htoe_days_Suc: "htoe_days (y + 1) = htoe_days y + diy y"
proof -
  consider "y < 1970" | "1970 \<le> y" by linarith
  then show ?thesis
  proof cases
    case 1
    then show ?thesis using ydays_left [of y 1970] by (simp add: htoe_days_eq)
  next
    case 2
    then show ?thesis using ydays_right [of 1970 y] by (simp add: htoe_days_eq)
  qed
qed

lemma htoe_days_mono: "y \<le> z \<Longrightarrow> htoe_days y \<le> htoe_days z"
proof (induction z rule: int_ge_induct)
  case (step z)
  then show ?case using htoe_days_Suc [of z] diy_pos [of z] by simp
qed simp

lemma year_unique:
  assumes "htoe_days y + r = htoe_days z + q" "0 \<le> r" "r < diy y" "0 \<le> q" "q < diy z"
  shows "y = z \<and> r = q"
proof -
  have "\<not> y < z"
  proof
    assume "y < z"
    then have "htoe_days (y + 1) \<le> htoe_days z" by (intro htoe_days_mono) simp
    with assms htoe_days_Suc [of y] show False by simp
  qed
  moreover have "\<not> z < y"
  proof
    assume "z < y"
    then have "htoe_days (z + 1) \<le> htoe_days y" by (intro htoe_days_mono) simp
    with assms htoe_days_Suc [of z] show False by simp
  qed
  ultimately show ?thesis using assms by simp
qed

lemma lt12_cases:
  "(i::nat) < 12 \<Longrightarrow>
   i = 0 \<or> i = 1 \<or> i = 2 \<or> i = 3 \<or> i = 4 \<or> i = 5 \<or> i = 6 \<or> i = 7 \<or> i = 8 \<or> i = 9 \<or> i = 10 \<or> i = 11"
  by presburger

text \<open>Mixed radix numbers have one representation.\<close>

lemma radix_unique:
  assumes "x * n + a = y * n + b" "0 \<le> a" "a < n" "0 \<le> b" "b < (n::int)"
  shows "x = y \<and> a = b"
proof -
  have "(x * n + a) div n = x" and "(y * n + b) div n = y" using assms(2-5) by simp_all
  with assms(1) show ?thesis by simp
qed

lemma month_len_pos: "i < 12 \<Longrightarrow> 0 < month_len leap i"
proof -
  assume "i < 12"
  then show ?thesis using lt12_cases [of i] by (auto simp: month_len_def days_in_month_def)
qed

lemma months_mono: "i \<le> k \<Longrightarrow> k \<le> 12 \<Longrightarrow> (\<Sum>j<i. month_len leap j) \<le> (\<Sum>j<k. month_len leap j)"
  by (rule sum_mono2) (auto intro: order.strict_implies_order [OF month_len_pos])

lemma month_unique:
  assumes "(\<Sum>j<i. month_len leap j) + r = (\<Sum>j<k. month_len leap j) + q"
    "1 \<le> r" "r \<le> month_len leap i" "1 \<le> q" "q \<le> month_len leap k" "i < 12" "k < 12"
  shows "i = k \<and> r = q"
proof -
  have "\<not> i < k"
    using months_mono [of "Suc i" k leap] assms by auto
  moreover have "\<not> k < i"
    using months_mono [of "Suc k" i leap] assms by auto
  ultimately show ?thesis using assms by simp
qed

text \<open>A valid date is determined by its year and its day of the year.\<close>

lemma julian_bounds:
  assumes "valid_date (yr t) (mo t) (day t)"
  shows "1 \<le> julian t \<and> julian t \<le> diy (yr t)"
proof -
  let ?n = "nat (mo t - 1)" and ?l = "passcal_isleap (yr t)"
  have n: "?n < 12" "mo t = int ?n + 1" and d: "1 \<le> day t" "day t \<le> month_len ?l ?n"
    using assms mdays_month_len [of "yr t" ?n] by (auto simp: valid_date_def)
  have "0 \<le> (\<Sum>j<?n. month_len ?l j)"
    using months_mono [of 0 ?n ?l] n by simp
  moreover have "(\<Sum>j<Suc ?n. month_len ?l j) \<le> diy (yr t)"
    using months_mono [of "Suc ?n" 12 ?l] n year_len [of "yr t"] by simp
  ultimately show ?thesis using d by (simp add: julian_sum)
qed

lemma julian_inj:
  assumes "valid_date (yr t) (mo t) (day t)" "valid_date (yr u) (mo u) (day u)"
    and "yr t = yr u" "julian t = julian u"
  shows "mo t = mo u \<and> day t = day u"
proof -
  let ?i = "nat (mo t - 1)" and ?k = "nat (mo u - 1)" and ?l = "passcal_isleap (yr u)"
  have t: "?i < 12" "mo t = int ?i + 1" "1 \<le> day t" "day t \<le> month_len ?l ?i"
    using assms mdays_month_len [of "yr t" ?i] by (auto simp: valid_date_def)
  have u: "?k < 12" "mo u = int ?k + 1" "1 \<le> day u" "day u \<le> month_len ?l ?k"
    using assms mdays_month_len [of "yr u" ?k] by (auto simp: valid_date_def)
  have "(\<Sum>j<?i. month_len ?l j) + day t = (\<Sum>j<?k. month_len ?l j) + day u"
    using assms(3,4) by (simp add: julian_sum)
  from month_unique [OF this] t u show ?thesis by simp
qed

lemma fold_daytab: "n \<le> 12 \<Longrightarrow> fold (\<lambda>i j. j + daytab leap ! i) [1..<Suc n] d
    = d + (\<Sum>i<n. month_len leap i)"
proof (induction n)
  case (Suc n)
  have "daytab leap ! Suc n = month_len leap n"
    using lt12_cases [of n] Suc.prems by (auto simp: daytab_def month_len_def days_in_month_def)
  with Suc show ?case by simp
qed simp

lemma daytab_mdays: "1 \<le> m \<Longrightarrow> m \<le> 12 \<Longrightarrow> daytab (passcal_isleap y) ! nat m = mdays y m"
proof -
  assume "1 \<le> m" "m \<le> 12"
  then have "m = int (nat (m - 1)) + 1" "nat (m - 1) < 12" by linarith+
  then obtain n where n: "m = int n + 1" "n < 12" by blast
  then show ?thesis
    using lt12_cases [of n] by (auto simp: daytab_def mdays_def days_in_month_def)
qed

lemma get_julday_julian:
  assumes "valid_date y m d"
  shows "get_julday m d y = julian \<lparr>yr = y, mo = m, day = d, jday = j, hr = h, mn = n, sec = s\<rparr>"
proof -
  have m: "1 \<le> m" "m \<le> 12" "1 \<le> d" "d \<le> mdays y m" using assms by (simp_all add: valid_date_def)
  then have "nat m = Suc (nat (m - 1))" by simp
  with m fold_daytab [of "nat (m - 1)" "passcal_isleap y" d] daytab_mdays [of m y]
  show ?thesis
    unfolding get_julday_def passcal_isleap_def [symmetric] Let_def
    by (simp add: julian_sum del: upt_Suc)
qed

text \<open>The day numbers of the years a 32-bit count of seconds covers whole.\<close>

lemma htoe_days_1902: "htoe_days 1902 = - 24837"
  by (simp add: htoe_days_eq ydays_def) code_simp

lemma htoe_days_2037: "htoe_days 2037 = 24472"
  by (simp add: htoe_days_eq ydays_def) code_simp

section \<open>Properties\<close>


text \<open>
  for a valid date and a time of day in whole seconds, converting to epoch seconds and back
  restores every field, with the day of the year filled in.
\<close>

theorem passcal_htoe_etoh:
  assumes "valid_date (yr t) (mo t) (day t)" and "0 \<le> hr t" "hr t \<le> 23" "0 \<le> mn t" "mn t \<le> 59"
    and "sec t = of_int s" "0 \<le> s" "s \<le> 59"
  shows "passcal_etoh (of_int (passcal_htoe t True)) = t\<lparr>jday := julian t\<rparr>"
proof -
  let ?e = "passcal_htoe t True"
  obtain h m q y r where t: "0 \<le> h" "h \<le> 23" "0 \<le> m" "m \<le> 59" "0 \<le> q" "q < 60" "0 \<le> r" "r < diy y"
    and e: "?e = (htoe_days y + r) * 86400 + h * 3600 + m * 60 + q"
    and eq: "passcal_etoh (of_int ?e) = passcal_month_day
          \<lparr>yr = y, mo = 0, day = 0, jday = r + 1, hr = h, mn = m, sec = of_int q\<rparr> (r + 1)"
    using passcal_etoh_int [of ?e] by blast
  have J: "1 \<le> julian t" "julian t \<le> diy (yr t)" using julian_bounds [OF assms(1)] by simp_all
  have "?e = (htoe_days (yr t) + (julian t - 1)) * 86400 + (hr t * 3600 + mn t * 60 + s)"
    using htoe_int [OF assms(6), of True] by simp
  with e have eqn: "(htoe_days y + r) * 86400 + (h * 3600 + (m * 60 + q))
      = (htoe_days (yr t) + (julian t - 1)) * 86400 + (hr t * 3600 + (mn t * 60 + s))" by simp
  have parts: "htoe_days y + r = htoe_days (yr t) + (julian t - 1)" "h = hr t" "m = mn t" "q = s"
    using radix_unique [OF eqn] radix_unique [of h 3600 "m * 60 + q" "hr t" "mn t * 60 + s"]
      radix_unique [of m 60 q "mn t" s] t assms by simp_all
  with year_unique [OF this(1)] t J have y: "y = yr t" "r = julian t - 1" by simp_all
  let ?u = "passcal_etoh (of_int ?e)"
  have "julian ?u = r + 1 \<and> valid_date (yr ?u) (mo ?u) (day ?u)"
    unfolding eq using julian_month_day [of "r + 1"
      "\<lparr>yr = y, mo = 0, day = 0, jday = r + 1, hr = h, mn = m, sec = of_int q\<rparr>"] t by simp
  moreover have "yr ?u = yr t" by (simp add: eq y)
  ultimately have "mo ?u = mo t \<and> day ?u = day t"
    using julian_inj [OF _ assms(1), of ?u] y by simp
  then show ?thesis
    using y parts assms(6) by (intro ptime.equality) (simp_all add: eq)
qed

text \<open>The last second that a signed 32-bit count of seconds holds.\<close>

theorem passcal_htoe_etoh_witness:
  "passcal_etoh (of_int (passcal_htoe
      \<lparr>yr = 2038, mo = 1, day = 19, jday = 0, hr = 3, mn = 14, sec = 7\<rparr> True))
   = \<lparr>yr = 2038, mo = 1, day = 19, jday = 19, hr = 3, mn = 14, sec = 7\<rparr>"
proof -
  let ?t = "\<lparr>yr = 2038, mo = 1, day = 19, jday = 0, hr = 3, mn = 14, sec = 7\<rparr>"
  have "valid_date 2038 1 19" by (simp add: valid_date_def mdays_def days_in_month_def)
  moreover have "julian ?t = 19" by (simp add: julian_def)
  ultimately show ?thesis using passcal_htoe_etoh [of ?t 7] by simp
qed

text \<open>
  whatever the epoch, the hour, minute and seconds are in range (the seconds may be 60,
  since they are rounded when stored), and the date is a valid date that agrees with the day of
  the year, unless the correction for 23:59:60 has moved the day past the end of the year.
\<close>

theorem passcal_etoh_fields:
  fixes e :: real
  defines "t \<equiv> passcal_etoh e"
  shows "0 \<le> hr t \<and> hr t \<le> 23 \<and> 0 \<le> mn t \<and> mn t \<le> 59 \<and> 0 \<le> sec t \<and> sec t \<le> 60
    \<and> 1 \<le> jday t \<and> jday t \<le> diy (yr t) + 1
    \<and> (jday t \<le> diy (yr t) \<longrightarrow> valid_date (yr t) (mo t) (day t) \<and> julian t = jday t)"
proof -
  obtain d h m f y r where p: "0 \<le> h" "h \<le> 23" "0 \<le> m" "m \<le> 59" "0 \<le> f" "f < 60"
    and r: "0 \<le> r" "r < diy y" and t: "t = etoh_fields y r h m (to_float f)"
    unfolding t_def using passcal_etoh_spec [of e] by blast
  have f: "0 \<le> to_float f" "to_float f \<le> 60"
    using to_float_ge [of 0 f] to_float_le [of f 60] p by simp_all
  obtain j h' m' s' where u: "t = passcal_month_day
      \<lparr>yr = y, mo = 0, day = 0, jday = j, hr = h', mn = m', sec = s'\<rparr> j"
    and b: "1 \<le> j" "j \<le> diy y + 1" "0 \<le> h'" "h' \<le> 23" "0 \<le> m'" "m' \<le> 59" "0 \<le> s'" "s' \<le> 60"
    using p r f that [of "r + 2" 0 0 0] that [of "r + 1" h m "to_float f"]
    by (cases "h = 23 \<and> m = 59 \<and> to_float f = 60") (auto simp: t etoh_fields_def Let_def)
  show ?thesis
    using b julian_month_day [of j "\<lparr>yr = y, mo = 0, day = 0, jday = j, hr = h', mn = m', sec = s'\<rparr>"]
    by (simp add: u)
qed

theorem passcal_etoh_fields_witness:
  "jday (passcal_etoh 0) \<le> diy (yr (passcal_etoh 0))
   \<and> valid_date (yr (passcal_etoh 0)) (mo (passcal_etoh 0)) (day (passcal_etoh 0))
   \<and> julian (passcal_etoh 0) = jday (passcal_etoh 0)"
proof -
  have "passcal_etoh 0 = \<lparr>yr = 1970, mo = 1, day = 1, jday = 1, hr = 0, mn = 0, sec = 0\<rparr>"
    by (simp add: passcal_etoh_def etoh_clock_def c_fmod_def etoh_fields_def year_up.simps
        diy_def passcal_isleap_def passcal_month_day_def days_in_month_def)
  then show ?thesis using passcal_etoh_fields [of 0] by (simp add: diy_def)
qed

text \<open>
  the correction for 23:59:60 adds a day without carrying into the year: a tenth of a
  microsecond before midnight of 31 December 1970 becomes day 366 of a year of 365 days, and the
  month loop leaves month 13.
\<close>

theorem passcal_etoh_year_end:
  "passcal_etoh (31536000 - 1 / 10000000)
   = \<lparr>yr = 1970, mo = 13, day = 1, jday = 366, hr = 0, mn = 0, sec = 0\<rparr>"
proof -
  have "c_trunc ((31536000 - 1 / 10000000) / 86400) = 364"
    and "c_trunc ((86400 - 1 / 10000000) / 3600) = 23"
    and "c_trunc ((3600 - 1 / 10000000) / 60) = 59"
    by (simp_all add: c_trunc_def floor_eq_iff)
  moreover have "to_float (60 - 1 / 10000000) = 60"
    by (simp add: to_float_def scale_round_numeral round_even_def Let_def floor_eq_iff)
  ultimately have "etoh_clock (31536000 - 1 / 10000000) = (364, 23, 59, 60)"
    by (simp add: etoh_clock_def c_fmod_def)
  then show ?thesis
    by (simp add: passcal_etoh_def etoh_fields_def year_up.simps diy_def passcal_isleap_def
        passcal_month_day_def days_in_month_def)
qed

text \<open>
  For a valid date of the years 1902 to 2037 and a time of day, the seconds that
  \<^verbatim>\<open>passcal_htoe\<close> computes fit the signed 32-bit integer it returns.
\<close>

theorem passcal_htoe_fits:
  assumes "valid_date (yr t) (mo t) (day t)" and "1902 \<le> yr t" "yr t \<le> 2037"
    and "0 \<le> hr t" "hr t \<le> 23" "0 \<le> mn t" "mn t \<le> 59" and "0 \<le> sec t" "sec t \<le> 60"
  shows "- (2 ^ 31) \<le> passcal_htoe t True \<and> passcal_htoe t True < 2 ^ 31"
proof -
  define c where "c = c_trunc (of_int (hr t) * 3600 + of_int (mn t) * 60 + sec t)"
  have "0 \<le> of_int (hr t) * 3600 + of_int (mn t) * 60 + sec t"
    and "of_int (hr t) * 3600 + of_int (mn t) * 60 + sec t < of_int 86401"
    using assms(4-9) by linarith+
  then have c: "0 \<le> c" "c < 86401"
    unfolding c_def by (blast intro: c_trunc_nonneg c_trunc_less)+
  have "c_trunc (of_int d * 86400) = d * 86400" for d
    using c_trunc_of_int [of "d * 86400"] by simp
  then have "passcal_htoe t True = (htoe_days (yr t) + (julian t - 1)) * 86400 + c"
    by (simp add: passcal_htoe_def c_def)
  moreover have "htoe_days 1902 \<le> htoe_days (yr t)" "htoe_days (yr t) \<le> htoe_days 2037"
    using assms(2,3) by (blast intro: htoe_days_mono)+
  moreover have "1 \<le> julian t" "julian t \<le> 366"
    using julian_bounds [OF assms(1)] by (auto simp: diy_def split: if_splits)
  ultimately show ?thesis using c by (simp add: htoe_days_1902 htoe_days_2037)
qed

theorem passcal_htoe_fits_witness:
  "passcal_htoe \<lparr>yr = 2037, mo = 12, day = 31, jday = 0, hr = 23, mn = 59, sec = 59\<rparr> True < 2 ^ 31"
  using passcal_htoe_fits [of "\<lparr>yr = 2037, mo = 12, day = 31, jday = 0, hr = 23, mn = 59, sec = 59\<rparr>"]
  by (simp add: valid_date_def mdays_def days_in_month_def)

text \<open>
  \<^verbatim>\<open>get_julday\<close> rejects exactly the dates that are not valid with its error value -1, and
  otherwise agrees with \<^verbatim>\<open>julian\<close>.
\<close>

theorem get_julday_spec:
  "get_julday m d y =
     (if valid_date y m d
      then julian \<lparr>yr = y, mo = m, day = d, jday = 0, hr = 0, mn = 0, sec = 0\<rparr> else -1)
   \<and> (get_julday m d y = -1 \<longleftrightarrow> \<not> valid_date y m d)"
proof (cases "valid_date y m d")
  case True
  let ?t = "\<lparr>yr = y, mo = m, day = d, jday = 0, hr = 0, mn = 0, sec = 0\<rparr>"
  have "1 \<le> julian ?t" using julian_bounds [of ?t] True by simp
  with True get_julday_julian [OF True, of 0 0 0 0] show ?thesis by simp
next
  case False
  then have "\<not> (1 \<le> m \<and> m \<le> 12) \<or> \<not> (1 \<le> d \<and> d \<le> daytab (passcal_isleap y) ! nat m)"
    by (auto simp: valid_date_def daytab_mdays)
  with False show ?thesis
    unfolding get_julday_def passcal_isleap_def [symmetric] Let_def by auto
qed

text \<open>
  \<^verbatim>\<open>getMidnight\<close> is the start of the day of a whole number of epoch seconds.\<close>

theorem getMidnight_floor: "getMidnight (of_int e) = e - e mod 86400"
proof -
  obtain h m s y r where t: "0 \<le> h" "h \<le> 23" "0 \<le> m" "m \<le> 59" "0 \<le> s" "s < 60" "0 \<le> r" "r < diy y"
    "e = (htoe_days y + r) * 86400 + h * 3600 + m * 60 + s"
    "passcal_etoh (of_int e) =
        passcal_month_day
          \<lparr>yr = y, mo = 0, day = 0, jday = r + 1, hr = h, mn = m, sec = of_int s\<rparr> (r + 1)"
    using passcal_etoh_int [of e] by blast
  let ?t = "passcal_etoh (of_int e)"
  have "julian ?t = r + 1"
    unfolding t(10) using t(7,8) by (intro julian_month_day [THEN conjunct1]) simp_all
  moreover have "julian (?t\<lparr>hr := 0, mn := 0, sec := 0\<rparr>) = julian ?t"
    by (simp add: julian_def)
  ultimately have "getMidnight (of_int e) = (htoe_days y + r) * 86400"
    by (simp add: getMidnight_def htoe_int [where s = 0] t(10))
  moreover have "e mod 86400 = h * 3600 + m * 60 + s"
    using t(1-6) by (simp add: t(9) mod_pos_pos_trivial add.assoc)
  ultimately show ?thesis by (simp add: t(9))
qed

end
