(* ===== verification/Trace.thy ===== *)
theory Trace
  imports CString Calendar
begin

text \<open>
  The data every reader fills: \<^verbatim>\<open>traceInfo\<close> of \<^verbatim>\<open>include/pql_data_structs.h\<close> with its header
  \<^verbatim>\<open>HEADINFO\<close> and its samples \<^verbatim>\<open>DATAINFO\<close>, and the two patterns the packet readers share: a
  file read block by block into one buffer, and a linked list searched with
  \<^verbatim>\<open>g_slist_find_custom\<close> whose entry for a packet is created on the packet's first occurrence and
  updated afterwards. The lemmas of the locale \<open>keyed_table\<close> say what such a list
  holds when the file has been read. Display state (\<^verbatim>\<open>magnify\<close>, \<^verbatim>\<open>spectra\<close>, the plots) is not part
  of the records: no function modelled here reads it.
\<close>

section \<open>Trace records\<close>

text \<open>The first constructor is the value 0 that \<^verbatim>\<open>calloc\<close> leaves.\<close>

datatype dform = BIT32 | BIT16 | MY_FLOAT | MY_DOUBLE | MY_CHAR

datatype ftype =
    SEGY_DATA | AH_DATA | SAC_DATA | MSEED_DATA | DR100_DATA | NANO_DATA | RT130_DATA | RT125_DATA
  | RT125A_DATA | MSEED_MPLEX_DATA | CWB_DATA

datatype punits =
    PQL_UNITS_VOLTS | PQL_UNITS_COUNTS | PQL_UNITS_DISP | PQL_UNITS_VEL | PQL_UNITS_ACC
  | PQL_UNITS_UNKNWN

record headinfo =
  data_form :: dform
  dataSize :: nat
  endianSwap :: bool
  sampInt :: real
  year :: int
  dayOfYear :: int
  hour :: int
  minute :: int
  second :: int
  m_secs :: int
  epochs :: real
  epochStop :: real
  secsLength :: real
  gainConst :: int
  scale_fac :: real
  units :: punits
  descr1 :: cstr
  descr2 :: cstr
  longFN :: cstr
  shortFN :: cstr
  network :: cstr
  station :: cstr
  location :: cstr
  channel :: cstr
  sensorID :: cstr
  MSstartTime :: int

text \<open>\<open>d_data\<close> is \<open>None\<close> for a null pointer; its elements are the units a reader stores.\<close>

record 'd datainfo =
  d_data :: "'d list option"
  numSamples :: int
  d_form :: dform
  d_sampInt :: real
  secsPsamp :: real

text \<open>An entry of the packet list of a multiplexed file, and a saved overlap.\<close>

record mmpacket =
  p_index :: int
  p_sampleCnt :: int
  p_startTime :: int

record 'd overlap =
  o_start :: int
  o_end :: int
  o_len :: int
  o_data :: "'d list"

record 'd traceInfo =
  fileName :: cstr
  fileType :: ftype
  head :: headinfo
  dataInfo :: "'d datainfo"
  numGaps :: int
  numOlaps :: int
  gaps :: "int list"
  overlaps :: "int list"
  olapData :: "'d overlap list"
  excerptS :: real
  excerptLen :: real
  blkSize :: int
  mpackets :: "mmpacket list"

text \<open>What \<^verbatim>\<open>calloc(1, sizeof(traceInfo))\<close> returns.\<close>

definition calloc_head :: headinfo where
  "calloc_head =
     \<lparr>data_form = BIT32, dataSize = 0, endianSwap = False, sampInt = 0, year = 0, dayOfYear = 0, hour = 0, minute = 0,
      second = 0, m_secs = 0, epochs = 0, epochStop = 0, secsLength = 0, gainConst = 0,
      scale_fac = 0, units = PQL_UNITS_VOLTS, descr1 = [], descr2 = [], longFN = [], shortFN = [],
      network = [], station = [], location = [], channel = [], sensorID = [], MSstartTime = 0\<rparr>"

definition calloc_trace :: "'d traceInfo" where
  "calloc_trace =
     \<lparr>fileName = [], fileType = SEGY_DATA, head = calloc_head,
      dataInfo = \<lparr>d_data = None, numSamples = 0, d_form = BIT32, d_sampInt = 0, secsPsamp = 0\<rparr>,
      numGaps = 0, numOlaps = 0, gaps = [], overlaps = [], olapData = [], excerptS = 0,
      excerptLen = 0, blkSize = 0, mpackets = []\<rparr>"

text \<open>\<^verbatim>\<open>g_strdup_printf("%i %03i %02i:%02i", year, day, hour, minute)\<close>.\<close>

definition date_descr :: "int \<Rightarrow> int \<Rightarrow> int \<Rightarrow> int \<Rightarrow> cstr" where
  "date_descr y d h m =
     show_int y @ lit '' '' @ show_pad 3 d @ lit '' '' @ show_pad 2 h @ lit '':'' @ show_pad 2 m"

section \<open>Blocks of a file\<close>

text \<open>
  \<^verbatim>\<open>while (fread(array, 1, n, fp)) ...\<close>: the buffers the loop body sees. A short last read leaves
  the end of the buffer as the previous read left it.
\<close>

function blocks :: "nat \<Rightarrow> byte list \<Rightarrow> byte list \<Rightarrow> byte list list" where
  "blocks n buf fp =
     (if fp = [] \<or> n = 0 then []
      else (let got = take n fp; buf' = got @ drop (length got) buf
            in buf' # blocks n buf' (drop n fp)))"
  by pat_completeness auto
termination
  by (relation "measure (\<lambda>(n, buf, fp). length fp)") auto

declare blocks.simps [simp del]

text \<open>The blocks of a file of whole blocks: no byte of an earlier read is ever seen.\<close>

definition chunks :: "nat \<Rightarrow> byte list \<Rightarrow> byte list list" where
  "chunks n fp = map (\<lambda>i. take n (drop (n * i) fp)) [0..<length fp div n]"

lemma blocks_count:
  "length buf = n \<Longrightarrow> length fp = n * k \<Longrightarrow>
   blocks n buf fp = map (\<lambda>i. take n (drop (n * i) fp)) [0..<(if n = 0 then 0 else k)]"
proof (induction k arbitrary: buf fp)
  case 0
  then show ?case by (simp add: blocks.simps)
next
  case (Suc k)
  show ?case
  proof (cases "n = 0")
    case False
    then have ne: "fp \<noteq> []" and n: "length (take n fp) = n" using Suc.prems by auto
    have "blocks n (take n fp) (drop n fp) = map (\<lambda>i. take n (drop (n * i) (drop n fp))) [0..<k]"
      using Suc.prems False n by (simp add: Suc.IH)
    then have "blocks n buf fp = take n fp # map (\<lambda>i. take n (drop (n * Suc i) fp)) [0..<k]"
      using ne False n Suc.prems by (subst blocks.simps) (simp add: Let_def add.commute)
    then show ?thesis
      using False by (simp add: upt_conv_Cons map_Suc_upt [symmetric] del: upt_Suc)
  qed (use Suc.prems in \<open>simp add: blocks.simps\<close>)
qed

lemma blocks_aligned:
  "length buf = n \<Longrightarrow> n dvd length fp \<Longrightarrow> blocks n buf fp = chunks n fp"
  by (auto simp: blocks_count chunks_def elim!: dvdE)

lemma blocks_length: "length buf = n \<Longrightarrow> b \<in> set (blocks n buf fp) \<Longrightarrow> length b = n"
proof (induction n buf fp rule: blocks.induct)
  case (1 n buf fp)
  let ?g = "take n fp @ drop (length (take n fp)) buf"
  have l: "length ?g = n" using 1(2) by (simp add: min_def)
  show ?case
  proof (cases "fp = [] \<or> n = 0")
    case True
    with 1(3) show ?thesis by (simp add: blocks.simps)
  next
    case False
    with 1(3) have "b = ?g \<or> b \<in> set (blocks n ?g (drop n fp))"
      by (subst (asm) blocks.simps) (simp add: Let_def)
    then show ?thesis using l 1(1) [OF False refl refl l] by auto
  qed
qed

lemma chunk_length: "n dvd length fp \<Longrightarrow> b \<in> set (chunks n fp) \<Longrightarrow> length b = n"
proof -
  assume "n dvd length fp" and b: "b \<in> set (chunks n fp)"
  then obtain k where k: "length fp = n * k" by (elim dvdE)
  from b obtain i where i: "i < length fp div n" and b: "b = take n (drop (n * i) fp)"
    by (auto simp: chunks_def)
  from i k have "Suc i \<le> k" by (cases "n = 0") simp_all
  then have "n * Suc i \<le> n * k" by (rule mult_le_mono2)
  then show "length b = n" using b k by simp
qed

section \<open>Keyed lists\<close>

text \<open>
  \<^verbatim>\<open>g_slist_find_custom\<close> returns the first entry that matches. The readers follow one pattern: the
  entry found is updated in place; when there is none, a new entry is put in front.
\<close>

fun update_first :: "('e \<Rightarrow> bool) \<Rightarrow> ('e \<Rightarrow> 'e) \<Rightarrow> 'e list \<Rightarrow> 'e list" where
  "update_first P f [] = []"
| "update_first P f (x # xs) = (if P x then f x # xs else x # update_first P f xs)"

definition upsert :: "('e \<Rightarrow> bool) \<Rightarrow> 'e \<Rightarrow> ('e \<Rightarrow> 'e) \<Rightarrow> 'e list \<Rightarrow> 'e list" where
  "upsert P new f xs = (case find P xs of None \<Rightarrow> new # xs | Some _ \<Rightarrow> update_first P f xs)"

lemma upsert_if:
  "upsert P new f xs = (if \<exists>x\<in>set xs. P x then update_first P f xs else new # xs)"
proof -
  have "find P xs = None \<longleftrightarrow> (\<forall>x\<in>set xs. \<not> P x)" by (induction xs) auto
  then show ?thesis by (auto simp: upsert_def split: option.split)
qed

lemma fold_filter_if: "fold (\<lambda>x s. if P x then f x s else s) xs s = fold f (filter P xs) s"
  by (induction xs arbitrary: s) simp_all

lemma fold_prepend:
  "fold (\<lambda>e acc. if P e then f e # acc else acc) es acc = rev (map f (filter P es)) @ acc"
  by (induction es arbitrary: acc) simp_all

lemma map_update_first: "(\<And>x. g (f x) = g x) \<Longrightarrow> map g (update_first P f xs) = map g xs"
  by (induction xs) simp_all

lemma update_first_none: "\<forall>x\<in>set xs. \<not> P x \<Longrightarrow> update_first P f xs = xs"
  by (induction xs) simp_all

text \<open>Updates of distinct keys do not disturb each other: each entry sees its own packets, in order.\<close>

lemma map_update_first_key:
  "distinct (map g t) \<Longrightarrow>
   update_first (\<lambda>e. g e = k) f t = map (\<lambda>e. if g e = k then f e else e) t"
proof (induction t)
  case (Cons x t)
  then show ?case by (auto intro!: map_idI [symmetric] simp: image_iff)
qed simp

lemma fold_update_first:
  assumes "distinct (map g t)" and "\<And>p e. g (u p e) = g e"
  shows "fold (\<lambda>p. update_first (\<lambda>e. g e = k p) (u p)) ps t
    = map (\<lambda>e. fold u (filter (\<lambda>p. k p = g e) ps) e) t"
  using assms(1)
proof (induction ps arbitrary: t)
  case (Cons p ps)
  let ?t = "update_first (\<lambda>e. g e = k p) (u p) t"
  have "map g ?t = map g t" using assms(2) by (intro map_update_first) simp
  then have "fold (\<lambda>p. update_first (\<lambda>e. g e = k p) (u p)) ps ?t
      = map (\<lambda>e. fold u (filter (\<lambda>p. k p = g e) ps) e) ?t"
    using Cons by simp
  then show ?case
    using Cons.prems assms(2) by (auto simp: map_update_first_key)
qed simp

text \<open>
  The interface between such a list and its reader: entries carry a key, a count that adds up over
  the packets of the key, and values taken from the first packet only.
\<close>

locale keyed_table =
  fixes ekey :: "'e \<Rightarrow> 'k" and pkey :: "'p \<Rightarrow> 'k" and new :: "'p \<Rightarrow> 'e" and upd :: "'p \<Rightarrow> 'e \<Rightarrow> 'e"
    and cnt :: "'e \<Rightarrow> int" and pcnt :: "'p \<Rightarrow> int" and info :: "'e \<Rightarrow> 's" and pinfo :: "'p \<Rightarrow> 's"
  assumes ekey_new: "ekey (new p) = pkey p" and ekey_upd: "ekey (upd p e) = ekey e"
    and cnt_new: "cnt (new p) = pcnt p" and cnt_upd: "cnt (upd p e) = cnt e + pcnt p"
    and info_new: "info (new p) = pinfo p" and info_upd: "info (upd p e) = info e"
begin

lemma step_keys:
  "map ekey (upsert (\<lambda>e. ekey e = pkey p) (new p) (upd p) t) =
     (if pkey p \<in> set (map ekey t) then map ekey t else pkey p # map ekey t)"
  by (auto simp: upsert_if ekey_new map_update_first ekey_upd image_iff dest: sym)

lemma fold_keys:
  "distinct (map ekey t) \<Longrightarrow>
   distinct (map ekey (fold (\<lambda>p. upsert (\<lambda>e. ekey e = pkey p) (new p) (upd p)) ps t)) \<and>
   set (map ekey (fold (\<lambda>p. upsert (\<lambda>e. ekey e = pkey p) (new p) (upd p)) ps t)) =
     set (map ekey t) \<union> pkey ` set ps"
proof (induction ps arbitrary: t)
  case (Cons p ps)
  let ?t = "upsert (\<lambda>e. ekey e = pkey p) (new p) (upd p) t"
  have "distinct (map ekey ?t)" "set (map ekey ?t) = insert (pkey p) (set (map ekey t))"
    using Cons.prems by (auto simp only: step_keys distinct.simps list.set split: if_splits)
  with Cons.IH [of ?t] show ?case by auto
qed simp

lemma update_first_entry:
  assumes "distinct (map ekey t)" and "e \<in> set (update_first (\<lambda>e. ekey e = k) f t)"
    and "\<And>e. ekey (f e) = ekey e"
  shows "(ekey e \<noteq> k \<and> e \<in> set t) \<or> (\<exists>e0\<in>set t. e = f e0 \<and> ekey e0 = k)"
  using assms
proof (induction t)
  case (Cons x xs)
  then show ?case by (auto split: if_splits simp: image_iff) 
qed simp

lemma step_entry:
  assumes "distinct (map ekey t)" and "e \<in> set (upsert (\<lambda>e. ekey e = pkey p) (new p) (upd p) t)"
  shows "(ekey e \<noteq> pkey p \<and> e \<in> set t)
    \<or> (ekey e = pkey p \<and> ((\<exists>e0\<in>set t. ekey e0 = pkey p \<and> e = upd p e0)
        \<or> (pkey p \<notin> set (map ekey t) \<and> e = new p)))"
  using assms(2) update_first_entry [OF assms(1), of e "pkey p" "upd p"]
  by (auto simp: upsert_if ekey_upd ekey_new split: if_splits)

text \<open>What an entry holds after all packets: the count of its packets, the values of the first.\<close>

lemma fold_entry:
  assumes "e \<in> set (fold (\<lambda>p. upsert (\<lambda>e. ekey e = pkey p) (new p) (upd p)) ps [])"
  shows "\<exists>q qs. filter (\<lambda>p. pkey p = ekey e) ps = q # qs \<and> info e = pinfo q
    \<and> cnt e = sum_list (map pcnt (q # qs))"
  using assms
proof (induction ps arbitrary: e rule: rev_induct)
  case (snoc p ps)
  let ?t = "fold (\<lambda>p. upsert (\<lambda>e. ekey e = pkey p) (new p) (upd p)) ps []"
  have d: "distinct (map ekey ?t)" and k: "set (map ekey ?t) = pkey ` set ps"
    using fold_keys [of "[]" ps] by auto
  from snoc.prems have "e \<in> set (upsert (\<lambda>e. ekey e = pkey p) (new p) (upd p) ?t)" by simp
  from step_entry [OF d this] consider
      (other) "ekey e \<noteq> pkey p" "e \<in> set ?t"
    | (upd) e0 where "ekey e = pkey p" "e0 \<in> set ?t" "ekey e0 = pkey p" "e = upd p e0"
    | (new) "ekey e = pkey p" "pkey p \<notin> set (map ekey ?t)" "e = new p"
    by auto
  then show ?case
  proof cases
    case other
    then show ?thesis using snoc.IH [of e] by (auto)
  next
    case upd
    then show ?thesis using snoc.IH [of e0] by (auto simp: info_upd cnt_upd)
  next
    case new
    then have "pkey p \<notin> pkey ` set ps" unfolding k by simp
    then have "filter (\<lambda>p'. pkey p' = pkey p) ps = []" by (auto simp: filter_empty_conv image_iff)
    with new show ?thesis by (simp add: info_new cnt_new ekey_new)
  qed
qed simp

lemma fold_has_entry:
  "p \<in> set ps \<Longrightarrow>
   \<exists>e\<in>set (fold (\<lambda>p. upsert (\<lambda>e. ekey e = pkey p) (new p) (upd p)) ps []). ekey e = pkey p"
proof -
  assume "p \<in> set ps"
  then have "pkey p \<in> set (map ekey (fold (\<lambda>p. upsert (\<lambda>e. ekey e = pkey p) (new p) (upd p)) ps []))"
    using fold_keys [of "[]" ps] by simp
  then show ?thesis by auto
qed

end

text \<open>Entries that also keep a list with one item per packet, newest first.\<close>

locale keyed_collector = keyed_table ekey pkey new upd cnt pcnt info pinfo
  for ekey :: "'e \<Rightarrow> 'k" and pkey :: "'p \<Rightarrow> 'k" and new :: "'p \<Rightarrow> 'e" and upd :: "'p \<Rightarrow> 'e \<Rightarrow> 'e"
    and cnt :: "'e \<Rightarrow> int" and pcnt :: "'p \<Rightarrow> int" and info :: "'e \<Rightarrow> 's" and pinfo :: "'p \<Rightarrow> 's" +
  fixes items :: "'e \<Rightarrow> 'i list" and pitem :: "'p \<Rightarrow> 'i"
  assumes items_new: "items (new p) = [pitem p]" and items_upd: "items (upd p e) = pitem p # items e"
begin

lemma fold_items:
  assumes "e \<in> set (fold (\<lambda>p. upsert (\<lambda>e. ekey e = pkey p) (new p) (upd p)) ps [])"
  shows "items e = rev (map pitem (filter (\<lambda>p. pkey p = ekey e) ps))"
  using assms
proof (induction ps arbitrary: e rule: rev_induct)
  case (snoc p ps)
  let ?t = "fold (\<lambda>p. upsert (\<lambda>e. ekey e = pkey p) (new p) (upd p)) ps []"
  have d: "distinct (map ekey ?t)" and k: "set (map ekey ?t) = pkey ` set ps"
    using fold_keys [of "[]" ps] by auto
  from snoc.prems have "e \<in> set (upsert (\<lambda>e. ekey e = pkey p) (new p) (upd p) ?t)" by simp
  from step_entry [OF d this] consider
      (other) "ekey e \<noteq> pkey p" "e \<in> set ?t"
    | (upd) e0 where "ekey e = pkey p" "e0 \<in> set ?t" "ekey e0 = pkey p" "e = upd p e0"
    | (new) "ekey e = pkey p" "pkey p \<notin> set (map ekey ?t)" "e = new p"
    by auto
  then show ?case
  proof cases
    case new
    then have "pkey p \<notin> pkey ` set ps" unfolding k by simp
    then have "filter (\<lambda>p'. pkey p' = pkey p) ps = []" by (auto simp: filter_empty_conv image_iff)
    with new show ?thesis by (simp add: items_new ekey_new)
  qed (use snoc.IH in \<open>auto simp: items_upd\<close>)
qed simp

end

end
