(* ===== verification/MSTime.thy ===== *)
theory MSTime
  imports Trace
begin

text \<open>
  The start time of a miniSEED trace. The library counts microseconds since 1970 in a 64-bit integer
  (\<^verbatim>\<open>hptime_t\<close>) and breaks them up with \<^verbatim>\<open>ms_hptime2btime\<close> and its own \<^verbatim>\<open>ms_gmtime_r\<close>
  (\<^verbatim>\<open>contrib/libmseed/genutils.c\<close>); the reader puts the fields into the trace header and computes the
  epoch from them again (\<^verbatim>\<open>setStartTime\<close> and \<^verbatim>\<open>epochTime\<close> of \<^verbatim>\<open>utils/data/data_mseed.c\<close>). The properties
  show that both directions agree, before and after 1970. Division and remainder of C truncate; they
  are \<open>sdiv\<close> and \<open>smod\<close>.
\<close>

section \<open>Calendar fields\<close>

record tm =
  tm_sec :: int
  tm_min :: int
  tm_hour :: int
  tm_mday :: int
  tm_mon :: int
  tm_year :: int
  tm_wday :: int
  tm_yday :: int

record btime =
  b_year :: int
  b_day :: int
  b_hour :: int
  b_min :: int
  b_sec :: int
  b_fract :: int

definition tm_days :: "int list list" where
  "tm_days =
     [[31, 28, 31, 30, 31, 30, 31, 31, 30, 31, 30, 31, 0],
      [31, 29, 31, 30, 31, 30, 31, 31, 30, 31, 30, 31, 0],
      [0, 31, 59, 90, 120, 151, 181, 212, 243, 273, 304, 334, 365],
      [0, 31, 60, 91, 121, 152, 182, 213, 244, 274, 305, 335, 366]]"

definition TM_LEAP_CHECK :: "int \<Rightarrow> nat" where
  "TM_LEAP_CHECK n =
     (if (n + 1900) smod 400 = 0 \<or> ((n + 1900) smod 4 = 0 \<and> (n + 1900) smod 100 \<noteq> 0) then 1 else 0)"

text \<open>\<^verbatim>\<open>TM_WRAP(a, b, m)\<close> on the two variables.\<close>

definition TM_WRAP :: "int \<Rightarrow> int \<Rightarrow> int \<Rightarrow> int \<times> int" where
  "TM_WRAP a b m = (if a < 0 then (a + m, b - 1) else (a, b))"

text \<open>
  The year loops, then the month loops. A month loop stops inside the table: the day is a day of the
  year.
\<close>

function gm_year_up :: "int \<Rightarrow> int \<Rightarrow> int \<times> int" where
  "gm_year_up y m =
     (let len = tm_days ! (TM_LEAP_CHECK y + 2) ! 12 in if len \<le> m then gm_year_up (y + 1) (m - len) else (y, m))"
  by pat_completeness auto
termination
  by (relation "measure (\<lambda>(y, m). nat m)") (auto simp: tm_days_def TM_LEAP_CHECK_def split: if_splits)

function gm_year_down :: "int \<Rightarrow> int \<Rightarrow> int \<times> int" where
  "gm_year_down y m =
     (let len = tm_days ! (TM_LEAP_CHECK y + 2) ! 12 in if m < - len then gm_year_down (y - 1) (m + len) else (y, m))"
  by pat_completeness auto
termination
  by (relation "measure (\<lambda>(y, m). nat (- m))") (auto simp: tm_days_def TM_LEAP_CHECK_def split: if_splits)

declare gm_year_up.simps [simp del] gm_year_down.simps [simp del]

fun gm_month_up :: "int list \<Rightarrow> nat \<Rightarrow> int \<Rightarrow> nat \<times> int" where
  "gm_month_up [] mon m = (mon, m)"
| "gm_month_up (len # ls) mon m = (if len \<le> m then gm_month_up ls (mon + 1) (m - len) else (mon, m))"

fun gm_month_down :: "int list \<Rightarrow> nat \<Rightarrow> int \<Rightarrow> nat \<times> int" where
  "gm_month_down ls 0 m = (0, m)"
| "gm_month_down ls (Suc mon) m =
     (if m < - (ls ! Suc mon) then gm_month_down ls mon (m + ls ! Suc mon) else (Suc mon, m))"

text \<open>The time of day and the day number.\<close>

definition gm_clock :: "int \<Rightarrow> int \<times> int \<times> int \<times> int" where
  "gm_clock timep =
     (let s = timep smod 60; tv = timep sdiv 60;
          mi = tv smod 60; tv = tv sdiv 60;
          h = tv smod 24; tday = tv sdiv 24;
          (s, mi) = TM_WRAP s mi 60;
          (mi, h) = TM_WRAP mi h 60;
          (h, tday) = TM_WRAP h tday 24
      in (s, mi, h, tday))"

definition ms_gmtime_r :: "int \<Rightarrow> tm" where
  "ms_gmtime_r timep =
     (let (s, mi, h, tday) = gm_clock timep;
          wday = (tday + 4) smod 7; wday = (if wday < 0 then wday + 7 else wday);
          (y, mon, m) =
            (if 0 \<le> tday
             then (let (y, m) = gm_year_up 70 tday;
                       (mon, m) = gm_month_up (tm_days ! TM_LEAP_CHECK y) 0 m
                   in (y, mon, m))
             else (let (y, m) = gm_year_down 69 tday;
                       (mon, m) = gm_month_down (tm_days ! TM_LEAP_CHECK y) 11 m
                   in (y, mon, m + tm_days ! TM_LEAP_CHECK y ! mon)))
      in \<lparr>tm_sec = s, tm_min = mi, tm_hour = h, tm_mday = m + 1, tm_mon = int mon, tm_year = y,
          tm_wday = wday, tm_yday = tm_days ! (TM_LEAP_CHECK y + 2) ! mon + m\<rparr>)"

definition HPTMODULUS :: int where
  "HPTMODULUS = 1000000"

definition HPTERROR :: int where
  "HPTERROR = - 2145916800000000"

definition ms_hptime2btime :: "int \<Rightarrow> btime" where
  "ms_hptime2btime hptime =
     (let isec = hptime sdiv HPTMODULUS;
          ifract = hptime - isec * HPTMODULUS;
          bfract = ifract sdiv (HPTMODULUS sdiv 10000);
          (isec, bfract) =
            (if hptime < 0 \<and> ifract \<noteq> 0
             then (let bfract = (if ifract - bfract * (HPTMODULUS sdiv 10000) \<noteq> 0 then bfract - 1 else bfract)
                   in (isec - 1, 10000 - (- bfract)))
             else (isec, bfract));
          tms = ms_gmtime_r isec
      in \<lparr>b_year = tm_year tms + 1900, b_day = tm_yday tms + 1, b_hour = tm_hour tms, b_min = tm_min tms,
          b_sec = tm_sec tms, b_fract = bfract\<rparr>)"

section \<open>The start time in the header\<close>

definition btime_date :: "btime \<Rightarrow> ptime" where
  "btime_date b =
     \<lparr>yr = b_year b, mo = 0, day = b_day b, jday = 0, hr = b_hour b, mn = b_min b, sec = of_int (b_sec b)\<rparr>"

definition epochTime :: "int \<Rightarrow> real" where
  "epochTime starttime = of_int (passcal_htoe (btime_date (ms_hptime2btime starttime)) False)"

definition setStartTime :: "int \<Rightarrow> 'd traceInfo \<Rightarrow> 'd traceInfo" where
  "setStartTime startTime trc =
     (let b = ms_hptime2btime startTime; ms = b_fract b sdiv 10
      in trc\<lparr>head := (head trc)
           \<lparr>MSstartTime := startTime, year := b_year b, dayOfYear := b_day b, hour := b_hour b,
            minute := b_min b, second := b_sec b, m_secs := ms,
            descr1 := date_descr (b_year b) (b_day b) (b_hour b) (b_min b),
            epochs := of_int (passcal_htoe (btime_date b) False) + of_int ms / 1000\<rparr>\<rparr>)"

section \<open>The clock\<close>

lemma smod_range: "0 < b \<Longrightarrow> - b < a smod b \<and> a smod b < (b::int)"
proof -
  assume "0 < b"
  then have "0 \<le> \<bar>a\<bar> mod b" "\<bar>a\<bar> mod b < b" by simp_all
  moreover have "\<bar>a smod b\<bar> \<le> \<bar>a\<bar> mod b"
    using \<open>0 < b\<close> by (simp add: smod_int_alt_def abs_mult sgn_if)
  ultimately show ?thesis by linarith
qed

lemma gm_clock_spec:
  assumes "gm_clock t = (s, mi, h, d)"
  shows "0 \<le> s \<and> s < 60 \<and> 0 \<le> mi \<and> mi < 60 \<and> 0 \<le> h \<and> h < 24 \<and> t = d * 86400 + (h * 3600 + mi * 60 + s)"
proof -
  define q1 q2 where "q1 = t sdiv 60" and "q2 = q1 sdiv 60"
  have "t = 60 * q1 + t smod 60" "q1 = 60 * q2 + q1 smod 60" "q2 = 24 * (q2 sdiv 24) + q2 smod 24"
    unfolding q1_def q2_def by (simp_all add: mult_sdiv_smod_eq)
  then show ?thesis
    using assms smod_range [of 60 t] smod_range [of 60 q1] smod_range [of 24 q2]
    unfolding gm_clock_def q1_def [symmetric] Let_def q2_def [symmetric] TM_WRAP_def
    by (simp split: if_splits)
qed

section \<open>The date\<close>

lemma TM_LEAP_CHECK_isleap: "TM_LEAP_CHECK n = (if passcal_isleap (n + 1900) then 1 else 0)"
proof -
  have "(k smod l = 0) = (k mod l = 0)" for k l :: int
    by (simp add: smod_int_alt_def mod_eq_0_iff_dvd sgn_if)
  moreover have "y mod 400 = 0 \<Longrightarrow> y mod 4 = 0" for y :: int
    by (auto simp: mod_eq_0_iff_dvd elim: dvd_trans [rotated])
  ultimately show ?thesis by (auto simp: TM_LEAP_CHECK_def passcal_isleap_def)
qed

lemma year_table: "tm_days ! Suc (Suc (TM_LEAP_CHECK n)) ! 12 = diy (n + 1900)"
  by (simp add: TM_LEAP_CHECK_isleap tm_days_def diy_def)

lemma gm_year_up_eq: "gm_year_up y m = (let (z, r) = year_up (y + 1900) m in (z - 1900, r))"
proof (induction y m rule: gm_year_up.induct)
  case (1 y m)
  then show ?case
    by (subst gm_year_up.simps, subst year_up.simps) (simp add: year_table Let_def)
qed

lemma gm_year_down_spec: "gm_year_down y m = (z, r) \<Longrightarrow> m < 0 \<Longrightarrow>
  year_down (y + 1900) m = (z + 1900, r + diy (z + 1900)) \<and> r < 0"
proof (induction y m rule: gm_year_down.induct)
  case (1 y m)
  show ?case
    using 1 by (subst year_down.simps, subst (asm) (4) gm_year_down.simps) (auto simp: year_table Let_def split: if_splits)
qed

lemma month_up_day:
  assumes "0 \<le> m" and "m < diy (y + 1900)" and "gm_month_up (tm_days ! TM_LEAP_CHECK y) 0 m = (mon, r)"
  shows "tm_days ! Suc (Suc (TM_LEAP_CHECK y)) ! mon + r = m \<and> mon < 12"
  using assms
  by (cases "passcal_isleap (y + 1900)") (simp_all add: TM_LEAP_CHECK_isleap tm_days_def diy_def split: if_splits; auto)+

lemma month_down_day:
  assumes "m < 0" and "- diy (y + 1900) \<le> m" and "gm_month_down (tm_days ! TM_LEAP_CHECK y) 11 m = (mon, r)"
  shows "tm_days ! Suc (Suc (TM_LEAP_CHECK y)) ! mon + (r + tm_days ! TM_LEAP_CHECK y ! mon) = m + diy (y + 1900) \<and> mon < 12"
  using assms
  by (cases "passcal_isleap (y + 1900)") (simp_all add: TM_LEAP_CHECK_isleap tm_days_def diy_def eval_nat_numeral split: if_splits; auto)+

lemma gm_fields:
  fixes t :: int
  defines "r \<equiv> ms_gmtime_r t"
  shows "0 \<le> tm_sec r \<and> tm_sec r < 60 \<and> 0 \<le> tm_min r \<and> tm_min r < 60 \<and> 0 \<le> tm_hour r \<and> tm_hour r < 24 \<and>
    0 \<le> tm_yday r \<and> tm_yday r < diy (tm_year r + 1900) \<and>
    t = (htoe_days (tm_year r + 1900) + tm_yday r) * 86400 + (tm_hour r * 3600 + tm_min r * 60 + tm_sec r)"
proof -
  obtain s mi h d where c: "gm_clock t = (s, mi, h, d)" by (metis prod_cases4)
  obtain z q where zq: "(if 0 \<le> d then year_up 1970 d else year_down 1969 d) = (z, q)" by (metis surj_pair)
  have date: "0 \<le> q \<and> q < diy z \<and> d = htoe_days z + q" by (rule year_split [OF zq])
  have "tm_year r + 1900 = z \<and> tm_yday r = q"
  proof (cases "0 \<le> d")
    case True
    then have "gm_year_up 70 d = (z - 1900, q)" using zq by (simp add: gm_year_up_eq Let_def)
    moreover obtain mon m where "gm_month_up (tm_days ! TM_LEAP_CHECK (z - 1900)) 0 q = (mon, m)" by (metis surj_pair)
    ultimately show ?thesis
      using True date month_up_day [of q "z - 1900" mon m] by (simp add: r_def ms_gmtime_r_def c Let_def)
  next
    case False
    obtain y m0 where y: "gm_year_down 69 d = (y, m0)" by (metis surj_pair)
    obtain mon m where m: "gm_month_down (tm_days ! TM_LEAP_CHECK y) 11 m0 = (mon, m)" by (metis surj_pair)
    have e: "z = y + 1900" "q = m0 + diy (y + 1900)" "m0 < 0"
      using gm_year_down_spec [OF y] False zq by auto
    show ?thesis
      using False e y m date month_down_day [OF e(3) _ m] by (simp add: r_def ms_gmtime_r_def c Let_def add.assoc)
  qed
  moreover have "tm_sec r = s" "tm_min r = mi" "tm_hour r = h"
    by (simp_all add: r_def ms_gmtime_r_def c Let_def split: prod.split)
  ultimately show ?thesis using gm_clock_spec [OF c] date by simp
qed

text \<open>The fraction is taken downwards, so that the second and the fraction are those of the floor.\<close>

lemma sdiv_floor:
  fixes x b :: int
  assumes "0 < b"
  shows "x div b = (if x < 0 \<and> x - x sdiv b * b \<noteq> 0 then x sdiv b - 1 else x sdiv b)"
proof -
  have "(x - x sdiv b * b = 0) = (b dvd x)"
    using assms by (simp add: minus_sdiv_mult_eq_smod smod_int_alt_def sgn_if dvd_eq_mod_eq_0 [symmetric])
  then show ?thesis
    using assms by (auto simp: divide_int_eq_signed_divide_int sgn_if)
qed

lemma hptime_floor:
  "ms_hptime2btime hp =
     (let r = ms_gmtime_r (hp div 1000000)
      in \<lparr>b_year = tm_year r + 1900, b_day = tm_yday r + 1, b_hour = tm_hour r, b_min = tm_min r,
          b_sec = tm_sec r, b_fract = hp mod 1000000 div 100\<rparr>)"
proof -
  define i f where "i = hp sdiv 1000000" and "f = hp - i * 1000000"
  have h: "HPTMODULUS = 1000000" "HPTMODULUS sdiv 10000 = 100" by (simp_all add: HPTMODULUS_def signed_divide_int_def)
  have hi: "hp div 1000000 = (if hp < 0 \<and> f \<noteq> 0 then i - 1 else i)"
    using sdiv_floor [of 1000000 hp] by (simp add: f_def i_def)
  have f: "hp mod 1000000 = (if hp < 0 \<and> f \<noteq> 0 then f + 1000000 else f)"
    unfolding minus_div_mult_eq_mod [symmetric] hi by (simp add: f_def algebra_simps)
  have neg: "f < 0" if "hp < 0" "f \<noteq> 0"
    using f that pos_mod_bound [of 1000000 hp] by simp
  have pos: "0 \<le> f" if "\<not> (hp < 0 \<and> f \<noteq> 0)"
    using f that pos_mod_sign [of 1000000 hp] by simp
  show ?thesis
  proof (cases "hp < 0 \<and> f \<noteq> 0")
    case True
    then have "f div 100 = (if f - f sdiv 100 * 100 \<noteq> 0 then f sdiv 100 - 1 else f sdiv 100)"
      using sdiv_floor [of 100 f] neg by simp
    moreover have "(f + 1000000) div 100 = f div 100 + 10000" by simp
    ultimately show ?thesis
      using True unfolding ms_hptime2btime_def h hi f i_def [symmetric] Let_def f_def [symmetric] by simp
  next
    case False
    then have "f div 100 = f sdiv 100" using sdiv_floor [of 100 f] pos by simp
    then show ?thesis
      using False unfolding ms_hptime2btime_def h hi f i_def [symmetric] Let_def f_def [symmetric] by auto
  qed
qed

section \<open>Times agree\<close>

lemma htoe_btime:
  "passcal_htoe (btime_date (ms_hptime2btime hp)) False = hp div 1000000"
  using gm_fields [of "hp div 1000000"]
  by (simp add: htoe_int [of _ "tm_sec (ms_gmtime_r (hp div 1000000))"] btime_date_def hptime_floor Let_def)

text \<open>
  The library's calendar and the program's agree: breaking a time of microseconds up with
  \<^verbatim>\<open>ms_hptime2btime\<close> and putting the fields together with \<^verbatim>\<open>passcal_htoe\<close> gives the second again, for every
  time before and after 1970; the fields are in their ranges and the fraction is that of the time in
  units of 100 microseconds.
\<close>

theorem hptime_btime_roundtrip:
  "epochTime hp = of_int (hp div 1000000) \<and>
   (let b = ms_hptime2btime hp
    in 1 \<le> b_day b \<and> b_day b \<le> diy (b_year b) \<and> 0 \<le> b_hour b \<and> b_hour b < 24 \<and> 0 \<le> b_min b \<and> b_min b < 60 \<and>
       0 \<le> b_sec b \<and> b_sec b < 60 \<and> b_fract b = hp mod 1000000 div 100)"
  using gm_fields [of "hp div 1000000"] htoe_btime [of hp]
  by (simp add: epochTime_def hptime_floor Let_def)

lemma setStartTime_time:
  "epochs (head (setStartTime hp trc)) = of_int (hp div 1000) / 1000 \<and>
   m_secs (head (setStartTime hp trc)) = hp mod 1000000 div 1000"
proof -
  have m: "hp mod 1000000 div 100 sdiv 10 = hp mod 1000000 div 1000"
  proof -
    have "0 \<le> hp mod 1000000 div 100" by (simp add: pos_imp_zdiv_nonneg_iff)
    then show ?thesis
      using sdiv_floor [of 10 "hp mod 1000000 div 100"] zdiv_zmult2_eq [of 10 "hp mod 1000000" 100] by simp
  qed
  have "hp = hp mod 1000000 + (hp div 1000000 * 1000) * 1000"
    using mod_mult_div_eq [of hp 1000000] by linarith
  then have "hp div 1000 = (hp mod 1000000 + (hp div 1000000 * 1000) * 1000) div 1000" by (rule arg_cong)
  then have "hp div 1000 = hp div 1000000 * 1000 + hp mod 1000000 div 1000" by (simp only: div_mult_self1)
  then have "(of_int (hp div 1000) :: real) = of_int (hp div 1000000) * 1000 + of_int (hp mod 1000000 div 1000)"
    by (metis of_int_add of_int_mult of_int_numeral)
  then show ?thesis
    using m by (simp add: setStartTime_def htoe_btime Let_def) (simp add: hptime_floor Let_def add_divide_distrib)
qed

text \<open>
  \<^verbatim>\<open>setStartTime\<close> keeps a start time to the millisecond: the epoch in the header is the time of the first
  sample rounded down to whole milliseconds, and the header's calendar fields give that epoch.
\<close>

theorem setStartTime_epoch:
  "epochs (head (setStartTime hp trc)) = of_int (hp div 1000) / 1000 \<and>
   m_secs (head (setStartTime hp trc)) = hp mod 1000000 div 1000"
  by (rule setStartTime_time)

end
