(* ===== verification/Mseed.thy ===== *)
theory Mseed
  imports MSTime "HOL-Library.Multiset"
begin

text \<open>
  MiniSEED headers: \<^verbatim>\<open>utils/data/data_mseed.c\<close> up to \<^verbatim>\<open>get_mseed_hedr\<close>, and \<^verbatim>\<open>utils/data/include/pql_mseed.h\<close>.
  The records of a file are read by libmseed's \<^verbatim>\<open>ms_readmsr_r\<close>; the model takes from it the sequence of
  records it delivers and the code with which the sequence ends. A file is indexed once: its packets are
  collected by channel and put in the order of time, the index of a multiplexed file is kept, and the
  channels are cut into traces of at most the requested length. The properties say what the index
  holds, that the traces partition the packets of every channel and how long they are, and that the
  packets of a trace are in the order in which they are read.
\<close>

section \<open>Records\<close>

datatype msret =
  MS_NOERROR | MS_ENDOFFILE | MS_GENERROR | MS_NOTSEED | MS_WRONGLENGTH | MS_OUTOFRANGE | MS_UNKNOWNFORMAT

record 'd msrecord =
  reclen :: int
  m_network :: cstr
  m_station :: cstr
  m_location :: cstr
  m_channel :: cstr
  m_samprate :: real
  m_samplecnt :: int
  m_encoding :: int
  m_starttime :: int
  m_samples :: "'d list"
  m_sampletype :: byte
  m_dataquality :: byte
  m_act_flags :: byte

text \<open>
  What successive calls of \<^verbatim>\<open>ms_readmsr_r\<close> return on a file: records with \<^verbatim>\<open>MS_NOERROR\<close>, then another
  code.
\<close>

type_synonym 'd msfile = "'d msrecord list \<times> msret"

record mm_trcinfo =
  t_channelName :: cstr
  t_fileName :: cstr
  t_network :: cstr
  t_station :: cstr
  t_location :: cstr
  t_channel :: cstr
  t_blkSize :: int
  t_startTime :: int
  t_sampRate :: real
  t_sampleCnt :: int
  t_encoding :: int
  t_packets :: "mmpacket list"

record mmindex =
  i_channelName :: cstr
  i_network :: cstr
  i_station :: cstr
  i_location :: cstr
  i_channel :: cstr
  i_startTime :: int
  i_sampRate :: real
  i_sampleCnt :: int
  i_encoding :: int
  i_packets :: "mmpacket list"

record mmfile =
  f_fileName :: cstr
  f_blkSize :: int
  f_channels :: "mmindex list"

text \<open>The options of the command line; \<^verbatim>\<open>mplex_options\<close> may be a null pointer.\<close>

record mplx_mseed =
  incChans :: "cstr list"
  excChans :: "cstr list"
  opt_length :: int

text \<open>The file-level variables of \<^verbatim>\<open>data_mseed.c\<close>.\<close>

record mseed_state =
  mplex_options :: "mplx_mseed option"
  mplex_files :: "cstr \<rightharpoonup> mmfile"

definition ISVALIDENCODING :: "int \<Rightarrow> bool" where
  "ISVALIDENCODING a \<longleftrightarrow> a \<in> {0, 1, 3, 10, 11, 30, 32, 4, 5, 12, 13, 14}"

text \<open>The sample interval in microseconds, from the rate in samples per second.\<close>

definition SAMPINT :: "real \<Rightarrow> real" where
  "SAMPINT a =
     (if a = 0 then 0
      else if a + 5 / 1000 < 1 then 10000000000 / of_int (c_trunc (a * 10000))
      else 100000000 / of_int (c_trunc (a * 100 + 1 / 2)))"

section \<open>Header values\<close>

text \<open>\<^verbatim>\<open>strncpy\<close> into a cleared array that is longer than \<open>n\<close>, and \<^verbatim>\<open>g_strstrip\<close>.\<close>

definition strncpy :: "nat \<Rightarrow> cstr \<Rightarrow> cstr" where
  "strncpy n s = take n s"

definition g_strstrip :: "cstr \<Rightarrow> cstr" where
  "g_strstrip s = rev (dropWhile isspace (rev (dropWhile isspace s)))"

definition includeChan :: "mplx_mseed option \<Rightarrow> cstr \<Rightarrow> bool" where
  "includeChan opts chan =
     (if chan = lit ''ACE'' \<or> chan = lit ''LOG'' \<or> chan = lit ''OCF'' then False
      else case opts of None \<Rightarrow> True
      | Some opts \<Rightarrow>
          if incChans opts \<noteq> [] then chan \<in> set (incChans opts)
          else if excChans opts \<noteq> [] then chan \<notin> set (excChans opts)
          else True)"

definition setMMTRCINFO :: "'d msrecord \<Rightarrow> mm_trcinfo \<Rightarrow> mm_trcinfo" where
  "setMMTRCINFO msr trcInfo =
     trcInfo\<lparr>t_network := m_network msr, t_station := m_station msr, t_location := m_location msr,
             t_channel := m_channel msr, t_sampRate := m_samprate msr, t_sampleCnt := m_samplecnt msr,
             t_encoding := m_encoding msr, t_startTime := m_starttime msr\<rparr>"

text \<open>The sample form and size of an encoding; \<open>None\<close> for an encoding that is not known.\<close>

definition encoding_form :: "int \<Rightarrow> (dform \<times> nat) option" where
  "encoding_form e =
     (if e = 0 then Some (MY_CHAR, 1)
      else if e \<in> {1, 3, 10, 11, 30, 32} then Some (BIT32, 4)
      else if e = 4 then Some (MY_FLOAT, 4)
      else if e = 5 then Some (MY_DOUBLE, 8)
      else if e \<in> {12, 13, 14} then Some (MY_FLOAT, 4)
      else None)"

definition setHedrVals :: "mm_trcinfo \<Rightarrow> 'd traceInfo \<Rightarrow> status \<times> 'd traceInfo" where
  "setHedrVals trc trace =
     (case encoding_form (t_encoding trc) of
        None \<Rightarrow> (FILE_READ_ERROR, trace)
      | Some (form, bytes) \<Rightarrow>
          (let trace = trace\<lparr>head := (head trace)\<lparr>data_form := form, dataSize := bytes\<rparr>\<rparr>;
               trace = setStartTime (t_startTime trc) trace
           in (PQLXSUCCESS, trace\<lparr>head := (head trace)\<lparr>sampInt := SAMPINT (t_sampRate trc)\<rparr>\<rparr>)))"

text \<open>The channel fields of a header, as \<^verbatim>\<open>make_mseed_trace\<close> and \<^verbatim>\<open>get_mseed_hedr\<close> set them.\<close>

definition set_ids :: "mm_trcinfo \<Rightarrow> headinfo \<Rightarrow> headinfo" where
  "set_ids trc h =
     (let n = g_strstrip (strncpy 2 (t_network trc)); s = g_strstrip (strncpy 5 (t_station trc));
          l = g_strstrip (strncpy 2 (t_location trc)); c = g_strstrip (strncpy 3 (t_channel trc))
      in h\<lparr>gainConst := 1, scale_fac := 1, network := n, station := s, location := l, channel := c,
           descr2 := n @ lit ''.'' @ s @ lit ''.'' @ l @ lit ''.'' @ c\<rparr>)"

definition make_mseed_trace :: "mm_trcinfo \<Rightarrow> ftype \<Rightarrow> 'd traceInfo" where
  "make_mseed_trace trc ft =
     (let trace = calloc_trace\<lparr>fileType := ft, fileName := t_fileName trc,
                               head := calloc_head\<lparr>units := PQL_UNITS_COUNTS\<rparr>\<rparr>;
          trace = snd (setHedrVals trc trace);
          trace = trace\<lparr>head := (set_ids trc (head trace))\<lparr>longFN := t_fileName trc\<rparr>,
                        dataInfo := (dataInfo trace)\<lparr>numSamples := t_sampleCnt trc\<rparr>\<rparr>;
          base = base_name (t_fileName trc)
      in if ft = MSEED_DATA then trace\<lparr>head := (head trace)\<lparr>shortFN := base\<rparr>\<rparr>
         else if ft = MSEED_MPLEX_DATA then
           trace\<lparr>head := (head trace)\<lparr>shortFN := base @ lit '' ('' @ t_channel trc @ lit '')''\<rparr>,
                 mpackets := sort_key p_index (t_packets trc), blkSize := t_blkSize trc\<rparr>
         else trace)"

section \<open>The index of a file\<close>

definition channel_name :: "'d msrecord \<Rightarrow> cstr" where
  "channel_name msr =
     m_network msr @ lit ''.'' @ m_station msr @ lit ''.'' @ m_location msr @ lit ''.'' @ m_channel msr"

text \<open>A packet is a record with its number in the file.\<close>

type_synonym 'd packet = "nat \<times> 'd msrecord"

definition mm_packet :: "'d packet \<Rightarrow> mmpacket" where
  "mm_packet p = \<lparr>p_index = int (fst p), p_sampleCnt = m_samplecnt (snd p), p_startTime = m_starttime (snd p)\<rparr>"

definition index_add :: "'d packet \<Rightarrow> mmindex \<Rightarrow> mmindex" where
  "index_add p e = e\<lparr>i_sampleCnt := i_sampleCnt e + m_samplecnt (snd p), i_packets := mm_packet p # i_packets e\<rparr>"

definition index_new :: "'d packet \<Rightarrow> mmindex" where
  "index_new p =
     (let msr = snd p
      in \<lparr>i_channelName = channel_name msr, i_network = m_network msr, i_station = m_station msr,
          i_location = m_location msr, i_channel = m_channel msr, i_startTime = m_starttime msr,
          i_sampRate = m_samprate msr, i_sampleCnt = m_samplecnt msr, i_encoding = m_encoding msr,
          i_packets = [mm_packet p]\<rparr>)"

text \<open>
  One pass of the loop. The state is the channel list, \<^verbatim>\<open>mmfile->blkSize\<close> and \<^verbatim>\<open>blkSize\<close>; a record
  with another encoding is counted and skipped before its length is looked at.
\<close>

definition index_step :: "'d packet \<Rightarrow> mmindex list \<times> int \<times> int \<Rightarrow> mmindex list \<times> int \<times> int" where
  "index_step p st =
     (let (ix, fblk, blk) = st; msr = snd p
      in if \<not> ISVALIDENCODING (m_encoding msr) then st
         else (let (fblk, blk) = (if blk \<noteq> 0 \<and> blk - reclen msr \<noteq> 0 then (0, 0) else (fblk, blk))
               in (upsert (\<lambda>e. i_channelName e = channel_name msr) (index_new p) (index_add p) ix, fblk, blk)))"

definition index_records :: "cstr \<Rightarrow> 'd msrecord \<Rightarrow> 'd msrecord list \<Rightarrow> mmfile" where
  "index_records fn first recs =
     (let (ix, fblk, blk) = fold index_step (enumerate 0 recs) ([], reclen first, reclen first)
      in \<lparr>f_fileName = fn, f_blkSize = fblk,
          f_channels = map (\<lambda>e. e\<lparr>i_packets := sort_key p_startTime (i_packets e)\<rparr>) ix\<rparr>)"

definition index_mplex :: "(cstr \<Rightarrow> 'd msfile) \<Rightarrow> cstr \<Rightarrow> mseed_state \<Rightarrow> mmfile option \<times> mseed_state" where
  "index_mplex fs fn st =
     (case mplex_files st fn of
        Some mmfile \<Rightarrow> (Some mmfile, st)
      | None \<Rightarrow>
          (case fst (fs fn) of
             [] \<Rightarrow> (None, st)
           | first # rest \<Rightarrow>
               (let mmfile = index_records fn first (first # rest)
                in (Some mmfile,
                    if 1 < length (f_channels mmfile) then st\<lparr>mplex_files := (mplex_files st)(fn \<mapsto> mmfile)\<rparr> else st))))"

section \<open>Traces of an index\<close>

definition make_trcinfo :: "mmfile \<Rightarrow> mmindex \<Rightarrow> mmpacket \<Rightarrow> mm_trcinfo" where
  "make_trcinfo mmfile ix pkt =
     \<lparr>t_channelName = i_channelName ix, t_fileName = f_fileName mmfile, t_network = i_network ix,
      t_station = i_station ix, t_location = i_location ix, t_channel = i_channel ix,
      t_blkSize = f_blkSize mmfile, t_startTime = p_startTime pkt, t_sampRate = i_sampRate ix,
      t_sampleCnt = p_sampleCnt pkt, t_encoding = i_encoding ix, t_packets = [pkt]\<rparr>"

definition add_to_trace :: "mmpacket \<Rightarrow> mm_trcinfo \<Rightarrow> mm_trcinfo" where
  "add_to_trace pkt t = t\<lparr>t_sampleCnt := t_sampleCnt t + p_sampleCnt pkt, t_packets := pkt # t_packets t\<rparr>"

text \<open>
  One packet of a channel: the newest trace of the channel is continued unless the packet starts after
  its window. The window is that of the variable \<^verbatim>\<open>traceStart\<close>, shared by all channels.
\<close>

definition window_breached :: "mplx_mseed option \<Rightarrow> int \<Rightarrow> mmpacket \<Rightarrow> bool" where
  "window_breached opts traceStart pkt =
     (case opts of None \<Rightarrow> False
      | Some opts \<Rightarrow> opt_length opts \<noteq> 0 \<and>
          real_of_int (p_startTime pkt - traceStart) / 1000000 \<ge> of_int (opt_length opts))"

definition trace_packet ::
  "mplx_mseed option \<Rightarrow> mmfile \<Rightarrow> mmindex \<Rightarrow> mmpacket \<Rightarrow> mm_trcinfo list \<times> int \<Rightarrow> mm_trcinfo list \<times> int" where
  "trace_packet opts mmfile ix pkt st =
     (let (traces, traceStart) = st; same = (\<lambda>t. t_channelName t = i_channelName ix)
      in if find same traces = None \<or> window_breached opts traceStart pkt
         then (make_trcinfo mmfile ix pkt # traces, p_startTime pkt)
         else (update_first same (add_to_trace pkt) traces, traceStart))"

definition trace_channel :: "mplx_mseed option \<Rightarrow> mmfile \<Rightarrow> mmindex \<Rightarrow> mm_trcinfo list \<times> int \<Rightarrow> mm_trcinfo list \<times> int" where
  "trace_channel opts mmfile ix st =
     (if includeChan opts (i_channel ix) then fold (trace_packet opts mmfile ix) (i_packets ix) st else st)"

definition makeTraces :: "mplx_mseed option \<Rightarrow> mmfile \<Rightarrow> mm_trcinfo list" where
  "makeTraces opts mmfile =
     (let (traces, traceStart) = fold (trace_channel opts mmfile) (f_channels mmfile) ([], 0)
      in if f_blkSize mmfile \<noteq> 0 then map (\<lambda>t. t\<lparr>t_packets := rev (t_packets t)\<rparr>) traces else traces)"

section \<open>Traces of a file\<close>

definition single_trcinfo :: "cstr \<Rightarrow> mmindex \<Rightarrow> mm_trcinfo" where
  "single_trcinfo fn ix =
     \<lparr>t_channelName = i_channelName ix, t_fileName = fn, t_network = i_network ix, t_station = i_station ix,
      t_location = i_location ix, t_channel = i_channel ix, t_blkSize = 0, t_startTime = i_startTime ix,
      t_sampRate = i_sampRate ix, t_sampleCnt = i_sampleCnt ix, t_encoding = i_encoding ix, t_packets = []\<rparr>"

definition get_mseed_hedrM :: "(cstr \<Rightarrow> 'd msfile) \<Rightarrow> cstr \<Rightarrow> mseed_state \<Rightarrow> 'd traceInfo list \<times> mseed_state" where
  "get_mseed_hedrM fs fn st =
     (let (mm, st) = index_mplex fs fn st
      in case mm of None \<Rightarrow> ([], st)
         | Some mmfile \<Rightarrow>
             (let (ft, traces1) =
                    (if length (f_channels mmfile) = 1 then (MSEED_DATA, [single_trcinfo fn (f_channels mmfile ! 0)])
                     else (MSEED_MPLEX_DATA, makeTraces (mplex_options st) mmfile))
              in (fold (\<lambda>t traces2. make_mseed_trace t ft # traces2) traces1 [], st)))"

definition check_MSFile :: "(cstr \<Rightarrow> 'd msfile) \<Rightarrow> cstr \<Rightarrow> bool" where
  "check_MSFile fs fn = (case fst (fs fn) of [] \<Rightarrow> False | msr # _ \<Rightarrow> reclen msr smod 256 = 0)"

definition IDmseed ::
  "(cstr \<Rightarrow> 'd msfile) \<Rightarrow> cstr \<Rightarrow> mplx_mseed option \<Rightarrow> mseed_state \<Rightarrow> (bool \<times> 'd traceInfo list) \<times> mseed_state" where
  "IDmseed fs fn chnOpts st =
     (let st = st\<lparr>mplex_options := chnOpts\<rparr>
      in if check_MSFile fs fn then (let (ts, st) = get_mseed_hedrM fs fn st in ((True, ts), st))
         else ((False, []), st))"

text \<open>
  \<^verbatim>\<open>get_mseed_hedr\<close>: the header of a file of one channel. The number of samples is that of all records,
  unless the caller has filled it in.
\<close>

definition get_mseed_hedr :: "(cstr \<Rightarrow> 'd msfile) \<Rightarrow> 'd traceInfo \<Rightarrow> status \<times> 'd traceInfo" where
  "get_mseed_hedr fs trace =
     (let (recs, stop) = fs (fileName trace)
      in case recs of [] \<Rightarrow> (FILE_READ_ERROR, trace)
         | msr # rest \<Rightarrow>
             (let trcInfo = setMMTRCINFO msr (single_trcinfo [] (index_new (0, msr)));
                  di = dataInfo trace;
                  (retVal, trace) =
                    (if numSamples di = 0
                     then (stop, trace\<lparr>dataInfo := di\<lparr>numSamples := m_samplecnt msr + sum_list (map m_samplecnt rest)\<rparr>\<rparr>)
                     else (MS_ENDOFFILE, trace))
              in if retVal \<noteq> MS_ENDOFFILE then (FILE_READ_ERROR, trace)
                 else (let (ret, trace) = setHedrVals trcInfo trace
                       in if ret = FILE_READ_ERROR then (FILE_READ_ERROR, trace)
                          else (PQLXSUCCESS,
                                trace\<lparr>head := (set_ids trcInfo (head trace))
                                  \<lparr>longFN := fileName trace, shortFN := base_name (fileName trace)\<rparr>\<rparr>))))"

definition check_mseed :: "(cstr \<Rightarrow> 'd msfile) \<Rightarrow> 'd traceInfo \<Rightarrow> status \<times> 'd traceInfo" where
  "check_mseed fs trace =
     (if check_MSFile fs (fileName trace)
      then (let (ret, trace) = get_mseed_hedr fs (trace\<lparr>fileType := MSEED_DATA\<rparr>)
            in (if ret = PQLXSUCCESS then PQLXSUCCESS else FAILURE, trace))
      else (FAILURE, trace))"

section \<open>What the index holds\<close>

definition valid_packets :: "'d msrecord list \<Rightarrow> 'd packet list" where
  "valid_packets recs = filter (\<lambda>p. ISVALIDENCODING (m_encoding (snd p))) (enumerate 0 recs)"

interpretation mindex: keyed_collector i_channelName "\<lambda>p. channel_name (snd p)" index_new index_add
    i_sampleCnt "\<lambda>p. m_samplecnt (snd p)" "\<lambda>e. e\<lparr>i_sampleCnt := 0, i_packets := []\<rparr>"
    "\<lambda>p. (index_new p)\<lparr>i_sampleCnt := 0, i_packets := []\<rparr>" i_packets mm_packet
  by unfold_locales (simp_all add: index_new_def index_add_def Let_def)

abbreviation index_table :: "'d packet list \<Rightarrow> mmindex list" where
  "index_table ps \<equiv> fold (\<lambda>p. upsert (\<lambda>e. i_channelName e = channel_name (snd p)) (index_new p) (index_add p)) ps []"

lemma fold_index_step:
  "fold index_step ps (ix, b, b) =
     (let c = (if \<forall>p\<in>set (filter (\<lambda>p. ISVALIDENCODING (m_encoding (snd p))) ps). reclen (snd p) = b then b else 0)
      in (fold (\<lambda>p. upsert (\<lambda>e. i_channelName e = channel_name (snd p)) (index_new p) (index_add p))
            (filter (\<lambda>p. ISVALIDENCODING (m_encoding (snd p))) ps) ix, c, c))"
proof (induction ps arbitrary: ix b)
  case (Cons p ps)
  show ?case
  proof (cases "ISVALIDENCODING (m_encoding (snd p)) \<and> b \<noteq> 0 \<and> reclen (snd p) \<noteq> b")
    case True
    then have "index_step p (ix, b, b) =
        (upsert (\<lambda>e. i_channelName e = channel_name (snd p)) (index_new p) (index_add p) ix, 0, 0)"
      by (simp add: index_step_def)
    then show ?thesis using True by (auto simp: Cons.IH Let_def)
  next
    case False
    then have "index_step p (ix, b, b) = (if ISVALIDENCODING (m_encoding (snd p))
      then (upsert (\<lambda>e. i_channelName e = channel_name (snd p)) (index_new p) (index_add p) ix, b, b) else (ix, b, b))"
      by (auto simp: index_step_def Let_def)
    then show ?thesis using False by (auto simp: Cons.IH Let_def)
  qed
qed simp

lemma index_records_eq:
  "f_channels (index_records fn first recs) =
     map (\<lambda>e. e\<lparr>i_packets := sort_key p_startTime (i_packets e)\<rparr>) (index_table (valid_packets recs))"
  "f_blkSize (index_records fn first recs) =
     (if \<forall>p\<in>set (valid_packets recs). reclen (snd p) = reclen first then reclen first else 0)"
  "f_fileName (index_records fn first recs) = fn"
  by (simp_all add: index_records_def fold_index_step valid_packets_def Let_def)

definition index_entry_ok :: "'d packet list \<Rightarrow> mmindex \<Rightarrow> bool" where
  "index_entry_ok ps e \<longleftrightarrow>
     (\<exists>q qs. filter (\<lambda>p. channel_name (snd p) = i_channelName e) ps = q # qs \<and>
        i_packets e = sort_key p_startTime (rev (map mm_packet (q # qs))) \<and>
        i_sampleCnt e = (\<Sum>p\<leftarrow>q # qs. m_samplecnt (snd p)) \<and> i_startTime e = m_starttime (snd q) \<and>
        i_encoding e = m_encoding (snd q) \<and> i_sampRate e = m_samprate (snd q) \<and> i_channel e = m_channel (snd q))"

lemma index_records_entry:
  assumes "e \<in> set (f_channels (index_records fn first recs))"
  shows "index_entry_ok (valid_packets recs) e"
proof -
  let ?ps = "valid_packets recs"
  obtain e0 where e0: "e0 \<in> set (index_table ?ps)" "e = e0\<lparr>i_packets := sort_key p_startTime (i_packets e0)\<rparr>"
    using assms by (auto simp: index_records_eq)
  obtain q qs where q: "filter (\<lambda>p. channel_name (snd p) = i_channelName e0) ?ps = q # qs"
    and i: "e0\<lparr>i_sampleCnt := 0, i_packets := []\<rparr> = (index_new q)\<lparr>i_sampleCnt := 0, i_packets := []\<rparr>"
    and c: "i_sampleCnt e0 = (\<Sum>p\<leftarrow>q # qs. m_samplecnt (snd p))"
    using mindex.fold_entry [OF e0(1)] by blast
  have "i_startTime e0 = m_starttime (snd q)" "i_encoding e0 = m_encoding (snd q)"
    "i_sampRate e0 = m_samprate (snd q)" "i_channel e0 = m_channel (snd q)"
    using i by (cases e0; simp add: index_new_def Let_def)+
  then show ?thesis
    using e0(2) mindex.fold_items [OF e0(1)] q c by (auto simp: index_entry_ok_def)
qed

lemma index_records_names:
  "distinct (map i_channelName (f_channels (index_records fn first recs)))"
  "set (map i_channelName (f_channels (index_records fn first recs))) = (\<lambda>p. channel_name (snd p)) ` set (valid_packets recs)"
proof -
  have "map i_channelName (f_channels (index_records fn first recs)) = map i_channelName (index_table (valid_packets recs))"
    by (simp add: index_records_eq comp_def)
  then show "distinct (map i_channelName (f_channels (index_records fn first recs)))"
    "set (map i_channelName (f_channels (index_records fn first recs))) = (\<lambda>p. channel_name (snd p)) ` set (valid_packets recs)"
    using mindex.fold_keys [of "[]" "valid_packets recs"] by simp_all
qed

text \<open>
  The index of a file: one entry per channel name; the entry of a channel has the values of its first
  record, the number of samples of all its records, and its packets in the order of time, none twice
  and none left out. The block size is that of the first record if all records with a known encoding
  have it, and 0 otherwise. A file of several channels is not read again.
\<close>

theorem index_mplex_channels:
  fixes fs :: "cstr \<Rightarrow> 'd msfile"
  assumes "mplex_files st fn = None" and "fst (fs fn) = first # rest"
  shows "\<exists>mm st'. index_mplex fs fn st = (Some mm, st') \<and> distinct (map i_channelName (f_channels mm)) \<and>
    set (map i_channelName (f_channels mm)) = (\<lambda>p. channel_name (snd p)) ` set (valid_packets (first # rest)) \<and>
    (\<forall>e\<in>set (f_channels mm). index_entry_ok (valid_packets (first # rest)) e) \<and>
    f_blkSize mm = (if \<forall>p\<in>set (valid_packets (first # rest)). reclen (snd p) = reclen first then reclen first else 0) \<and>
    (1 < length (f_channels mm) \<longrightarrow> index_mplex fs' fn st' = (Some mm, st'))"
proof -
  let ?mm = "index_records fn first (first # rest)"
  let ?st = "if 1 < length (f_channels ?mm) then st\<lparr>mplex_files := (mplex_files st)(fn \<mapsto> ?mm)\<rparr> else st"
  have "index_mplex fs fn st = (Some ?mm, ?st)"
    using assms by (simp add: index_mplex_def Let_def)
  moreover have "1 < length (f_channels ?mm) \<longrightarrow> index_mplex fs' fn ?st = (Some ?mm, ?st)"
    by (simp add: index_mplex_def)
  ultimately show ?thesis
    using index_records_names [of fn first "first # rest"] index_records_entry [of _ fn first "first # rest"]
      index_records_eq(2) [of fn first "first # rest"] by blast
qed

section \<open>How the traces are cut\<close>

text \<open>
  The reference: a list of packets is cut where a packet starts after the window of the packet that
  began the current run.
\<close>

function segments :: "(int \<Rightarrow> mmpacket \<Rightarrow> bool) \<Rightarrow> mmpacket list \<Rightarrow> mmpacket list list" where
  "segments br [] = []"
| "segments br (p # ps) =
     (p # takeWhile (\<lambda>q. \<not> br (p_startTime p) q) ps) # segments br (dropWhile (\<lambda>q. \<not> br (p_startTime p) q) ps)"
  by pat_completeness auto
termination
  by (relation "measure (\<lambda>(br, ps). length ps)") (auto simp: length_dropWhile_le le_imp_less_Suc)

definition segment_trace :: "mmfile \<Rightarrow> mmindex \<Rightarrow> mmpacket list \<Rightarrow> mm_trcinfo" where
  "segment_trace mmfile ix seg = (make_trcinfo mmfile ix (hd seg))
     \<lparr>t_sampleCnt := (\<Sum>p\<leftarrow>seg. p_sampleCnt p), t_packets := (if f_blkSize mmfile \<noteq> 0 then seg else rev seg)\<rparr>"

definition ref_traces :: "mplx_mseed option \<Rightarrow> mmfile \<Rightarrow> mm_trcinfo list" where
  "ref_traces opts mmfile =
     concat (map (\<lambda>ix. map (segment_trace mmfile ix) (segments (window_breached opts) (i_packets ix)))
       (filter (\<lambda>ix. includeChan opts (i_channel ix)) (f_channels mmfile)))"

lemma segments_partition [simp]: "concat (segments br ps) = ps"
  by (induction br ps rule: segments.induct) simp_all

lemma segments_window:
  "seg \<in> set (segments br ps) \<Longrightarrow> seg \<noteq> [] \<and> (\<forall>q\<in>set (tl seg). \<not> br (p_startTime (hd seg)) q)"
proof (induction br ps rule: segments.induct)
  case (2 br p ps)
  let ?run = "takeWhile (\<lambda>q. \<not> br (p_startTime p) q) ps"
  from "2.prems" consider "seg = p # ?run"
    | "seg \<in> set (segments br (dropWhile (\<lambda>q. \<not> br (p_startTime p) q) ps))" by auto
  then show ?case
  proof cases
    case 1
    then show ?thesis using set_takeWhileD [of _ "\<lambda>q. \<not> br (p_startTime p) q" ps] by simp
  qed (rule "2.IH")
qed simp

definition raw_trace :: "mmfile \<Rightarrow> mmindex \<Rightarrow> mmpacket list \<Rightarrow> mm_trcinfo" where
  "raw_trace mmfile ix seg = fold add_to_trace (tl seg) (make_trcinfo mmfile ix (hd seg))"

lemma fold_add_to_trace:
  "fold add_to_trace ps t = t\<lparr>t_sampleCnt := t_sampleCnt t + (\<Sum>p\<leftarrow>ps. p_sampleCnt p), t_packets := rev ps @ t_packets t\<rparr>"
  by (induction ps arbitrary: t) (simp_all add: add_to_trace_def add.assoc)

lemma raw_trace_eq:
  "seg \<noteq> [] \<Longrightarrow> raw_trace mmfile ix seg =
     (make_trcinfo mmfile ix (hd seg))\<lparr>t_sampleCnt := (\<Sum>p\<leftarrow>seg. p_sampleCnt p), t_packets := rev seg\<rparr>"
  by (cases seg) (simp_all add: raw_trace_def fold_add_to_trace make_trcinfo_def)

lemma trace_packets_run:
  assumes "t_channelName c = i_channelName ix"
  shows "fst (fold (trace_packet opts mmfile ix) ps (c # ts, t0)) =
    rev (map (raw_trace mmfile ix) (segments (window_breached opts) (dropWhile (\<lambda>q. \<not> window_breached opts t0 q) ps)))
      @ fold add_to_trace (takeWhile (\<lambda>q. \<not> window_breached opts t0 q) ps) c # ts"
  using assms
proof (induction ps arbitrary: c ts t0)
  case (Cons q ps)
  show ?case
  proof (cases "window_breached opts t0 q")
    case True
    have "t_channelName (make_trcinfo mmfile ix q) = i_channelName ix" by (simp add: make_trcinfo_def)
    then show ?thesis using True Cons.IH [of "make_trcinfo mmfile ix q" "c # ts" "p_startTime q"]
      by (simp add: trace_packet_def raw_trace_def)
  next
    case False
    have "t_channelName (add_to_trace q c) = i_channelName ix" using Cons.prems by (simp add: add_to_trace_def)
    then show ?thesis using False Cons.IH [of "add_to_trace q c" ts t0] Cons.prems
      by (simp add: trace_packet_def)
  qed
qed simp

lemma find_none: "find P xs = None \<longleftrightarrow> (\<forall>x\<in>set xs. \<not> P x)"
  by (induction xs) auto

lemma trace_channel_eq:
  assumes "i_channelName ix \<notin> t_channelName ` set ts"
  shows "fst (trace_channel opts mmfile ix (ts, t0)) =
    (if includeChan opts (i_channel ix)
     then rev (map (raw_trace mmfile ix) (segments (window_breached opts) (i_packets ix))) @ ts else ts)"
proof (cases "i_packets ix")
  case (Cons p ps)
  have "find (\<lambda>t. t_channelName t = i_channelName ix) ts = None" using assms by (auto simp: find_none image_iff)
  moreover have "t_channelName (make_trcinfo mmfile ix p) = i_channelName ix" by (simp add: make_trcinfo_def)
  ultimately show ?thesis
    using Cons trace_packets_run [of "make_trcinfo mmfile ix p" ix opts mmfile ps ts "p_startTime p"]
    by (simp add: trace_channel_def trace_packet_def raw_trace_def)
qed (simp add: trace_channel_def)

lemma raw_trace_name: "seg \<noteq> [] \<Longrightarrow> t_channelName (raw_trace mmfile ix seg) = i_channelName ix"
  by (simp add: raw_trace_eq make_trcinfo_def)

lemma disjoint_insert_sub: "B' \<subseteq> insert x B \<Longrightarrow> x \<notin> A \<Longrightarrow> A \<inter> B = {} \<Longrightarrow> A \<inter> B' = {}"
  by auto

lemma fold_trace_channels:
  assumes "distinct (map i_channelName chans)" and "i_channelName ` set chans \<inter> t_channelName ` set ts = {}"
  shows "fst (fold (trace_channel opts mmfile) chans (ts, t0)) =
    rev (concat (map (\<lambda>ix. map (raw_trace mmfile ix) (segments (window_breached opts) (i_packets ix)))
      (filter (\<lambda>ix. includeChan opts (i_channel ix)) chans))) @ ts"
  using assms
proof (induction chans arbitrary: ts t0)
  case (Cons ix chans)
  obtain ts' t1 where s: "trace_channel opts mmfile ix (ts, t0) = (ts', t1)" by (cases "trace_channel opts mmfile ix (ts, t0)")
  have "i_channelName ix \<notin> t_channelName ` set ts" using Cons.prems(2) by auto
  from trace_channel_eq [OF this, of opts mmfile t0] s
  have ts': "ts' = (if includeChan opts (i_channel ix)
     then rev (map (raw_trace mmfile ix) (segments (window_breached opts) (i_packets ix))) @ ts else ts)" by simp
  have "t_channelName ` set ts' \<subseteq> insert (i_channelName ix) (t_channelName ` set ts)"
    using segments_window [of _ "window_breached opts" "i_packets ix"] raw_trace_name [of _ mmfile ix]
    by (auto simp: ts' split: if_splits)
  then have "i_channelName ` set chans \<inter> t_channelName ` set ts' = {}"
    using Cons.prems disjoint_insert_sub [of "t_channelName ` set ts'" "i_channelName ix"] by simp
  then have "fst (fold (trace_channel opts mmfile) chans (ts', t1)) =
    rev (concat (map (\<lambda>ix. map (raw_trace mmfile ix) (segments (window_breached opts) (i_packets ix)))
      (filter (\<lambda>ix. includeChan opts (i_channel ix)) chans))) @ ts'"
    using Cons.prems by (intro Cons.IH) simp_all
  then show ?case by (simp add: s ts')
qed simp

lemma makeTraces_ref:
  assumes "distinct (map i_channelName (f_channels mmfile))"
  shows "makeTraces opts mmfile = rev (ref_traces opts mmfile)"
proof -
  have seg: "(if f_blkSize mmfile \<noteq> 0 then (raw_trace mmfile ix s)\<lparr>t_packets := rev (t_packets (raw_trace mmfile ix s))\<rparr>
      else raw_trace mmfile ix s) = segment_trace mmfile ix s" if "s \<in> set (segments br ps)" for ix s br ps
    using segments_window [OF that] by (simp add: raw_trace_eq segment_trace_def)
  have "map (\<lambda>t. if f_blkSize mmfile \<noteq> 0 then t\<lparr>t_packets := rev (t_packets t)\<rparr> else t)
      (rev (concat (map (\<lambda>ix. map (raw_trace mmfile ix) (segments (window_breached opts) (i_packets ix)))
        (filter (\<lambda>ix. includeChan opts (i_channel ix)) (f_channels mmfile))))) = rev (ref_traces opts mmfile)"
    unfolding ref_traces_def rev_map [symmetric] map_concat map_map
    by (intro arg_cong [of _ _ rev] arg_cong [of _ _ concat] map_cong refl) (auto simp: seg)
  then show ?thesis
    using fold_trace_channels [OF assms, of "[]" opts mmfile 0]
    by (cases "fold (trace_channel opts mmfile) (f_channels mmfile) ([], 0)"; cases "f_blkSize mmfile = 0")
      (simp_all add: makeTraces_def)
qed

lemma segment_trace_fields:
  "t_channelName (segment_trace mm ix seg) = i_channelName ix"
  "t_sampleCnt (segment_trace mm ix seg) = (\<Sum>p\<leftarrow>seg. p_sampleCnt p)"
  "t_startTime (segment_trace mm ix seg) = p_startTime (hd seg)"
  "(if f_blkSize mm \<noteq> 0 then t_packets (segment_trace mm ix seg) else rev (t_packets (segment_trace mm ix seg))) = seg"
  "set (t_packets (segment_trace mm ix seg)) = set seg" "mset (t_packets (segment_trace mm ix seg)) = mset seg"
  "t_channel (segment_trace mm ix seg) = i_channel ix"
  by (simp_all add: segment_trace_def make_trcinfo_def)

lemma filter_map_const: "(\<And>x. P (f x) = b) \<Longrightarrow> filter P (map f xs) = (if b then map f xs else [])"
  by (induction xs) auto

lemma ref_traces_channel:
  assumes "distinct (map i_channelName (f_channels mm))" and "ix \<in> set (f_channels mm)"
  shows "filter (\<lambda>t. t_channelName t = i_channelName ix) (ref_traces opts mm) =
    (if includeChan opts (i_channel ix)
     then map (segment_trace mm ix) (segments (window_breached opts) (i_packets ix)) else [])"
proof -
  let ?seg = "\<lambda>i. map (segment_trace mm i) (segments (window_breached opts) (i_packets i))"
  have one: "filter (\<lambda>t. t_channelName t = i_channelName ix) (?seg i) = (if i_channelName i = i_channelName ix then ?seg i else [])" for i
    by (rule filter_map_const) (simp add: segment_trace_fields)
  have "distinct (map i_channelName cs) \<Longrightarrow> ix \<in> set cs \<Longrightarrow>
      concat (map (\<lambda>i. if i_channelName i = i_channelName ix then ?seg i else []) (filter (\<lambda>i. includeChan opts (i_channel i)) cs)) =
      (if includeChan opts (i_channel ix) then ?seg ix else [])" for cs
  proof (induction cs)
    case (Cons c cs)
    have none: "concat (map (\<lambda>i. if i_channelName i = i_channelName ix then ?seg i else []) xs) = []"
      if "i_channelName ix \<notin> i_channelName ` set xs" for xs
      using that by (induction xs) auto
    show ?case
    proof (cases "c = ix")
      case True
      have "i_channelName ix \<notin> i_channelName ` set (filter (\<lambda>i. includeChan opts (i_channel i)) cs)"
        using Cons.prems True by auto
      note empty = none [OF this]
      show ?thesis using True by (simp add: empty)
    next
      case False
      then have "i_channelName c \<noteq> i_channelName ix" using Cons.prems by (auto simp: image_iff)
      with False Cons show ?thesis by (simp del: concat_eq_Nil_conv)
    qed
  qed simp
  then show ?thesis
    unfolding ref_traces_def filter_concat map_map comp_def one using assms by blast
qed


text \<open>
  C31: The traces partition the packets: those of a wanted channel, taken together, hold each packet of the
  channel exactly once, and no packet is later than the requested length after the start of its trace.
\<close>

theorem makeTraces_partition:
  assumes "distinct (map i_channelName (f_channels mm))" and "0 < opt_length mx" and "ix \<in> set (f_channels mm)"
    and "includeChan (Some mx) (i_channel ix)"
  defines "ts \<equiv> filter (\<lambda>t. t_channelName t = i_channelName ix) (makeTraces (Some mx) mm)"
  shows "(\<Sum>t\<leftarrow>ts. mset (t_packets t)) = mset (i_packets ix) \<and>
    (\<forall>t\<in>set ts. t_sampleCnt t = (\<Sum>p\<leftarrow>t_packets t. p_sampleCnt p) \<and>
       (\<forall>p\<in>set (t_packets t). p_startTime p - t_startTime t < opt_length mx * 1000000))"
proof -
  let ?segs = "segments (window_breached (Some mx)) (i_packets ix)"
  have ts: "ts = rev (map (segment_trace mm ix) ?segs)"
    using ref_traces_channel [OF assms(1,3), of "Some mx"] assms(4)
    by (simp add: ts_def makeTraces_ref [OF assms(1)] rev_filter [symmetric])
  have "(\<Sum>s\<leftarrow>ss. mset s) = mset (concat ss)" for ss :: "mmpacket list list"
    by (induction ss) simp_all
  then have "(\<Sum>t\<leftarrow>ts. mset (t_packets t)) = mset (i_packets ix)"
    by (simp add: ts rev_map [symmetric] sum_list_rev segment_trace_fields comp_def)
  moreover have "t_sampleCnt t = (\<Sum>p\<leftarrow>t_packets t. p_sampleCnt p) \<and>
      (\<forall>p\<in>set (t_packets t). p_startTime p - t_startTime t < opt_length mx * 1000000)" if "t \<in> set ts" for t
  proof -
    have "t \<in> segment_trace mm ix ` set ?segs" using that by (simp add: ts)
    then obtain seg where seg: "seg \<in> set ?segs" "t = segment_trace mm ix seg" by auto
    have w: "p_startTime q - p_startTime (hd seg) < opt_length mx * 1000000" if "q \<in> set seg" for q
    proof -
      have "q = hd seg \<or> q \<in> set (tl seg)" using that by (cases seg) auto
      moreover have "p_startTime q - p_startTime (hd seg) < opt_length mx * 1000000" if "q \<in> set (tl seg)"
      proof -
        have "\<not> window_breached (Some mx) (p_startTime (hd seg)) q" using segments_window [OF seg(1)] that by simp
        then have "real_of_int (p_startTime q - p_startTime (hd seg)) < of_int (opt_length mx * 1000000)"
          using assms(2) by (simp add: window_breached_def not_le divide_less_eq)
        then show ?thesis by (simp only: of_int_less_iff)
      qed
      ultimately show ?thesis using assms(2) by auto
    qed
    have "(\<Sum>p\<leftarrow>t_packets t. p_sampleCnt p) = (\<Sum>p\<leftarrow>seg. p_sampleCnt p)"
      unfolding sum_mset_sum_list [symmetric] mset_map seg(2) segment_trace_fields ..
    then show ?thesis using w by (simp add: seg(2) segment_trace_fields)
  qed
  ultimately show ?thesis by blast
qed

text \<open>A file of two channels, the second with three packets of which the last is late.\<close>

definition demo_record :: "string \<Rightarrow> int \<Rightarrow> int msrecord" where
  "demo_record c t = \<lparr>reclen = 512, m_network = lit ''XX'', m_station = lit ''ABC'', m_location = [], m_channel = lit c,
     m_samprate = 1, m_samplecnt = 10, m_encoding = 10, m_starttime = t, m_samples = replicate 10 0,
     m_sampletype = 105, m_dataquality = 68, m_act_flags = 0\<rparr>"

definition demo_fs :: "cstr \<Rightarrow> int msfile" where
  "demo_fs fn = ([demo_record ''BHZ'' 0, demo_record ''BHN'' 10000000, demo_record ''BHN'' 0, demo_record ''BHN'' 90000000], MS_ENDOFFILE)"

definition demo_index :: mmfile where
  "demo_index = index_records [] (demo_record ''BHZ'' 0) (fst (demo_fs []))"

definition demo_opts :: mplx_mseed where
  "demo_opts = \<lparr>incChans = [lit ''BHN''], excChans = [], opt_length = 60\<rparr>"

lemma demo_valid: "valid_packets (fst (demo_fs fn)) = enumerate 0 (fst (demo_fs fn))"
  by (simp add: valid_packets_def demo_fs_def demo_record_def ISVALIDENCODING_def)

definition demo_bhn :: mmindex where
  "demo_bhn = (index_new (1, demo_record ''BHN'' 10000000))
     \<lparr>i_sampleCnt := 30, i_packets := [\<lparr>p_index = 2, p_sampleCnt = 10, p_startTime = 0\<rparr>,
        \<lparr>p_index = 1, p_sampleCnt = 10, p_startTime = 10000000\<rparr>, \<lparr>p_index = 3, p_sampleCnt = 10, p_startTime = 90000000\<rparr>]\<rparr>"

lemma demo_channels: "f_channels demo_index = [demo_bhn, index_new (0, demo_record ''BHZ'' 0)]"
  by (simp add: demo_index_def index_records_eq demo_valid)
    (simp add: demo_fs_def demo_record_def demo_bhn_def upsert_def index_new_def index_add_def mm_packet_def
      channel_name_def Let_def lit_def)

theorem index_mplex_channels_witness:
  "\<exists>mm st'. index_mplex demo_fs [] \<lparr>mplex_options = None, mplex_files = Map.empty\<rparr> = (Some mm, st') \<and>
     distinct (map i_channelName (f_channels mm)) \<and> f_blkSize mm = 512"
proof -
  have "\<forall>p\<in>set (valid_packets (fst (demo_fs []))). reclen (snd p) = 512"
    unfolding demo_valid by (simp add: demo_fs_def demo_record_def)
  then show ?thesis
    using index_mplex_channels [of "\<lparr>mplex_options = None, mplex_files = Map.empty\<rparr>" "[]" demo_fs
      "demo_record ''BHZ'' 0" "[demo_record ''BHN'' 10000000, demo_record ''BHN'' 0, demo_record ''BHN'' 90000000]" demo_fs]
    by (auto simp: demo_fs_def demo_record_def)
qed

lemma demo_distinct: "distinct (map i_channelName (f_channels demo_index))"
  by (simp add: demo_channels demo_bhn_def index_new_def Let_def channel_name_def demo_record_def lit_def)


theorem makeTraces_partition_witness:
  "(\<Sum>t\<leftarrow>filter (\<lambda>t. t_channelName t = i_channelName demo_bhn) (makeTraces (Some demo_opts) demo_index).
      mset (t_packets t)) = mset (i_packets demo_bhn)"
  using makeTraces_partition [OF demo_distinct, of demo_opts demo_bhn]
  by (simp add: demo_channels demo_opts_def includeChan_def)
    (simp add: demo_bhn_def index_new_def Let_def demo_record_def lit_def)

end
