(* ===== verification/Excerpt.thy ===== *)
theory Excerpt
  imports Trace
begin

text \<open>
  Amplitudes and excerpts: \<^verbatim>\<open>utils/data/data_utils.c\<close> and \<^verbatim>\<open>utils/data/data_excerpt.c\<close>. The
  samples of a trace are the values that the macro \<^verbatim>\<open>DATAP\<close> reads; the gaps of a trace are pairs of
  sample numbers, the first sample of the gap and the first one after it. \<open>None\<close> is an access
  outside an array. The properties show what the extremes and the mean are over, how gaps are cut to
  an excerpt, which samples an excerpt holds and when taking one leaves the arrays.
\<close>

section \<open>Extremes and mean\<close>

text \<open>\<^verbatim>\<open>diffVolts\<close> of the C struct is set by the plotting code only and is left out.\<close>

record amplitudes =
  a_max :: real
  a_min :: real
  a_diff :: real
  a_mean :: real

record mmstate =
  mm_max :: real
  mm_min :: real
  mm_sum :: real
  mm_less :: int

text \<open>The comparison at the end of the loop body: a new maximum is not tried as a minimum.\<close>

definition mm_sample :: "real \<Rightarrow> mmstate \<Rightarrow> mmstate" where
  "mm_sample val s =
     (let s = s\<lparr>mm_sum := mm_sum s + val\<rparr>
      in if val > mm_max s then s\<lparr>mm_max := val\<rparr>
         else if val < mm_min s then s\<lparr>mm_min := val\<rparr> else s)"

text \<open>
  The loop \<^verbatim>\<open>for (i=lessSamples=gapNum=0; i<samples; ++i)\<close>. \<open>gapNum\<close> counts pairs here, not entries.
  A gap that ends before it starts would move \<open>i\<close> back; the recursion is on what is left of the
  trace and of the gaps. The array of gaps holds \<^verbatim>\<open>numGaps\<close> pairs.
\<close>

function maxmin_loop :: "real list \<Rightarrow> int list \<Rightarrow> int \<Rightarrow> int \<Rightarrow> nat \<Rightarrow> int \<Rightarrow> mmstate \<Rightarrow> mmstate option" where
  "maxmin_loop xs gs nGaps i gapNum samples s =
     (if i < samples then
        (let (i', gapNum', s') =
               (if int gapNum < nGaps \<and> i = gs ! (2 * gapNum)
                then (let gapSamps = gs ! (2 * gapNum + 1) - gs ! (2 * gapNum)
                      in (i + gapSamps, gapNum + 1, s\<lparr>mm_less := mm_less s + gapSamps\<rparr>))
                else (i, gapNum, s))
         in if samples \<le> i' then maxmin_loop xs gs nGaps (i' + 1) gapNum' samples s'
            else if 0 \<le> i' \<and> i' < int (length xs)
            then maxmin_loop xs gs nGaps (i' + 1) gapNum' samples (mm_sample (xs ! nat i') s')
            else None)
      else Some s)"
  by pat_completeness auto
termination
  by (relation "inv_image (less_than <*lex*> less_than)
       (\<lambda>(xs, gs, nGaps, i, gapNum, samples, s). (nat (nGaps - int gapNum), nat (samples - i)))")
    (auto split: if_splits simp: Let_def)

declare maxmin_loop.simps [simp del]

definition get_maxmin :: "real traceInfo \<Rightarrow> amplitudes option" where
  "get_maxmin trc =
     (case d_data (dataInfo trc) of None \<Rightarrow> None
      | Some xs \<Rightarrow>
          (if xs = [] then None
           else map_option
                  (\<lambda>s. \<lparr>a_max = mm_max s, a_min = mm_min s, a_diff = mm_max s - mm_min s,
                        a_mean = mm_sum s / of_int (numSamples (dataInfo trc) - mm_less s)\<rparr>)
                  (maxmin_loop xs (gaps trc) (numGaps trc) 0 0 (numSamples (dataInfo trc))
                     \<lparr>mm_max = xs ! 0, mm_min = xs ! 0, mm_sum = 0, mm_less = 0\<rparr>)))"

section \<open>Gaps of an excerpt\<close>

text \<open>
  The loop of \<^verbatim>\<open>manageGLaps\<close> over the gaps, and that over the overlaps, which skips an overlap that
  begins before the excerpt. The pairs are those of \<^verbatim>\<open>gaps[i]\<close>, \<^verbatim>\<open>gaps[i+1]\<close>.
\<close>

fun pairs :: "int list \<Rightarrow> (int \<times> int) list" where
  "pairs (a # b # r) = (a, b) # pairs r"
| "pairs r = []"

definition unpairs :: "(int \<times> int) list \<Rightarrow> int list" where
  "unpairs ps = concat (map (\<lambda>(a, b). [a, b]) ps)"

fun cut_gaps :: "int \<Rightarrow> int \<Rightarrow> (int \<times> int) list \<Rightarrow> (int \<times> int) list" where
  "cut_gaps startSamp endSamp [] = []"
| "cut_gaps startSamp endSamp ((a, b) # gs) =
     (if b < startSamp then cut_gaps startSamp endSamp gs
      else if a > endSamp then []
      else (a - startSamp, (if b > endSamp then endSamp else b) - startSamp) # cut_gaps startSamp endSamp gs)"

fun cut_olaps :: "int \<Rightarrow> int \<Rightarrow> (int \<times> int) list \<Rightarrow> (int \<times> int) list" where
  "cut_olaps startSamp endSamp [] = []"
| "cut_olaps startSamp endSamp ((a, b) # os) =
     (if a < startSamp then cut_olaps startSamp endSamp os
      else if a > endSamp then []
      else (a - startSamp, (if b > endSamp then endSamp else b) - startSamp) # cut_olaps startSamp endSamp os)"

text \<open>
  \<^verbatim>\<open>manageGLaps(from, to, ...)\<close>. A list that ends up empty is not stored: \<open>to\<close> keeps its old array, which
  in place has been freed and set to \<^verbatim>\<open>NULL\<close> before.
\<close>

definition manageGLaps :: "bool \<Rightarrow> 'd traceInfo \<Rightarrow> 'd traceInfo \<Rightarrow> int \<Rightarrow> int \<Rightarrow> 'd traceInfo" where
  "manageGLaps inPlace from to startSamp endSamp =
     (let gs = cut_gaps startSamp endSamp (take (nat (numGaps from)) (pairs (gaps from)));
          os = cut_olaps startSamp endSamp (take (nat (numOlaps from)) (pairs (overlaps from)));
          to = (if inPlace then to\<lparr>gaps := [], overlaps := []\<rparr> else to)
      in to\<lparr>numGaps := int (length gs), gaps := (if gs \<noteq> [] then unpairs gs else gaps to),
            numOlaps := int (length os), overlaps := (if os \<noteq> [] then unpairs os else overlaps to)\<rparr>)"

section \<open>Excerpts\<close>

definition setNewHdr :: "'d traceInfo \<Rightarrow> 'd traceInfo" where
  "setNewHdr trc =
     (let h = head trc;
          date = passcal_etoh (epochs h);
          len = of_int (numSamples (dataInfo trc)) * (sampInt h / 1000000) - sampInt h / 1000000
      in trc\<lparr>head := h\<lparr>longFN := fileName trc, shortFN := fileName trc, year := yr date,
                        dayOfYear := jday date, hour := hr date, minute := mn date,
                        second := c_trunc (sec date),
                        m_secs := c_trunc ((epochs h - of_int (c_trunc (epochs h))) * 1000),
                        secsLength := len, epochStop := epochs h + len,
                        descr1 := date_descr (yr date) (jday date) (hr date) (mn date),
                        descr2 := network h @ lit ''.'' @ station h @ lit ''.'' @ location h @ lit ''.'' @ channel h\<rparr>,
             numGaps := 0, numOlaps := 0, gaps := [], overlaps := [], olapData := []\<rparr>)"

text \<open>The sizes that \<^verbatim>\<open>dsizes\<close> is initialised to, and \<^verbatim>\<open>sizeof(dsizes[i])\<close>, that of an \<^verbatim>\<open>int\<close>.\<close>

fun dsizes :: "dform \<Rightarrow> int" where
  "dsizes BIT32 = 4" | "dsizes BIT16 = 2" | "dsizes MY_FLOAT = 4" | "dsizes MY_DOUBLE = 8" | "dsizes MY_CHAR = 1"

definition sizeof_dsizes :: int where
  "sizeof_dsizes = 4"

text \<open>The window of an excerpt: the first sample, the number requested and the number copied.\<close>

definition excerpt_sPs :: "'d traceInfo \<Rightarrow> int" where
  "excerpt_sPs from = c_trunc (1000000 / sampInt (head from))"

definition excerpt_start :: "'d traceInfo \<Rightarrow> 'd traceInfo \<Rightarrow> int" where
  "excerpt_start from to = c_trunc ((excerptS to - epochs (head to)) * of_int (excerpt_sPs from))"

definition excerpt_count :: "'d traceInfo \<Rightarrow> 'd traceInfo \<Rightarrow> int" where
  "excerpt_count from to = c_trunc (excerptLen to * of_int (excerpt_sPs from))"

definition clip_count :: "int \<Rightarrow> int \<Rightarrow> int \<Rightarrow> int" where
  "clip_count avail startSamp n = (if n > avail - startSamp + 1 then avail - startSamp + 1 else n)"

text \<open>
  \<^verbatim>\<open>trace_excerpt(from, to)\<close>; \<open>inPlace\<close> says that the two pointers are equal, and then \<open>from\<close> and \<open>to\<close>
  are the same record. The one caller, \<^verbatim>\<open>readTrace\<close>, passes the same trace twice. A trace holds sample
  values here and not bytes, so that \<open>to\<close> is taken to have the sample form of \<open>from\<close>; the size of the
  block that is allocated and the size of what is copied are kept. The result is \<open>to\<close> with its
  amplitudes.
\<close>

definition trace_excerpt :: "bool \<Rightarrow> real traceInfo \<Rightarrow> real traceInfo \<Rightarrow> (real traceInfo \<times> amplitudes) option" where
  "trace_excerpt inPlace from to =
     (let st = excerpt_start from to;
          (startSamp, to) = (if st < 0 then (0, to\<lparr>excerptS := epochs (head from)\<rparr>) else (st, to));
          want = excerpt_count from to;
          alloc = want * sizeof_dsizes;
          n = clip_count (numSamples (dataInfo from)) startSamp want;
          oneSample = of_int (c_trunc (sampInt (head to)))
      in do {
        src \<leftarrow> d_data (dataInfo from);
        data \<leftarrow> (if 0 \<le> n \<and> startSamp + n \<le> int (length src) \<and> n * dsizes (data_form (head from)) \<le> alloc
                 then Some (take (nat n) (drop (nat startSamp) src)) else None);
        let to1 = to\<lparr>head := (head to)\<lparr>epochs := excerptS to, secsLength := of_int n * (oneSample / 1000000) - oneSample / 1000000\<rparr>,
                     dataInfo := \<lparr>d_data = Some data, numSamples = n, d_form = data_form (head to),
                                  d_sampInt = sampInt (head to), secsPsamp = sampInt (head to) / 1000000\<rparr>\<rparr>;
            to2 = setNewHdr to1;
            to3 = manageGLaps inPlace (if inPlace then to2 else from) to2 startSamp (startSamp + n - 1)
        in map_option (\<lambda>a. (to3, a)) (get_maxmin to3) })"

section \<open>What the extremes and the mean are over\<close>

text \<open>
  Well-formed gaps: in order, not empty, inside the trace, with at least one sample between two of
  them. The sample numbers outside the gaps, from \<open>i\<close> on.
\<close>

fun wf_gaps :: "int \<Rightarrow> int \<Rightarrow> (int \<times> int) list \<Rightarrow> bool" where
  "wf_gaps lo n [] = True"
| "wf_gaps lo n ((a, b) # ps) = (lo \<le> a \<and> a < b \<and> b \<le> n \<and> wf_gaps (b + 1) n ps)"

fun live :: "int \<Rightarrow> int \<Rightarrow> (int \<times> int) list \<Rightarrow> int list" where
  "live i n [] = [i..n - 1]"
| "live i n ((a, b) # ps) = [i..a - 1] @ live b n ps"

definition gap_total :: "(int \<times> int) list \<Rightarrow> int" where
  "gap_total ps = sum_list (map (\<lambda>(a, b). b - a) ps)"

lemma unpairs_nth:
  "k < length ps \<Longrightarrow> unpairs ps ! (2 * k) = fst (ps ! k) \<and> unpairs ps ! (2 * k + 1) = snd (ps ! k)"
proof (induction ps arbitrary: k)
  case (Cons p ps)
  then show ?case by (cases k) (auto simp: unpairs_def split: prod.splits)
qed simp

lemma pairs_unpairs [simp]: "pairs (unpairs ps) = ps"
  by (induction ps) (auto simp: unpairs_def)

text \<open>One step of the loop: a sample outside the gaps, and a jump over a gap.\<close>

lemma loop_sample:
  assumes "0 \<le> i" "i < n" "n \<le> int (length xs)" and "int k < N \<Longrightarrow> i \<noteq> gs ! (2 * k)"
  shows "maxmin_loop xs gs N i k n s = maxmin_loop xs gs N (i + 1) k n (mm_sample (xs ! nat i) s)"
  using assms by (subst maxmin_loop.simps) auto

lemma loop_end: "n \<le> i \<Longrightarrow> maxmin_loop xs gs N i k n s = Some s"
  by (subst maxmin_loop.simps) simp

lemma loop_gap:
  assumes "0 \<le> a" "a < b" "b \<le> n" "n \<le> int (length xs)" "int k < N" "gs ! (2 * k) = a" "gs ! (2 * k + 1) = b"
    and "int (k + 1) < N \<Longrightarrow> b < gs ! (2 * (k + 1))"
  shows "maxmin_loop xs gs N a k n s = maxmin_loop xs gs N b (k + 1) n (s\<lparr>mm_less := mm_less s + (b - a)\<rparr>)"
proof (cases "b < n")
  case True
  have "maxmin_loop xs gs N b (k + 1) n (s\<lparr>mm_less := mm_less s + (b - a)\<rparr>)
      = maxmin_loop xs gs N (b + 1) (k + 1) n (mm_sample (xs ! nat b) (s\<lparr>mm_less := mm_less s + (b - a)\<rparr>))"
    using assms True by (intro loop_sample) auto
  moreover have "maxmin_loop xs gs N a k n s
      = maxmin_loop xs gs N (b + 1) (k + 1) n (mm_sample (xs ! nat b) (s\<lparr>mm_less := mm_less s + (b - a)\<rparr>))"
    using assms True by (subst maxmin_loop.simps) (simp add: Let_def)
  ultimately show ?thesis by simp
next
  case False
  then show ?thesis using assms by (subst maxmin_loop.simps) (simp add: Let_def loop_end)
qed

lemma loop_run:
  assumes "0 \<le> i" "i \<le> j" "j \<le> n" "n \<le> int (length xs)" and "int k < N \<Longrightarrow> j \<le> gs ! (2 * k)"
  shows "maxmin_loop xs gs N i k n s =
    maxmin_loop xs gs N j k n (fold mm_sample (map (\<lambda>i. xs ! nat i) [i..j - 1]) s)"
  using assms
proof (induction "nat (j - i)" arbitrary: i s)
  case (Suc m)
  then have ij: "i < j" by simp
  have "maxmin_loop xs gs N i k n s = maxmin_loop xs gs N (i + 1) k n (mm_sample (xs ! nat i) s)"
    using Suc.prems ij by (intro loop_sample) auto
  also have "\<dots> = maxmin_loop xs gs N j k n
      (fold mm_sample (map (\<lambda>i. xs ! nat i) [i + 1..j - 1]) (mm_sample (xs ! nat i) s))"
    using Suc ij by (intro Suc.hyps(1)) auto
  finally show ?case using ij by (simp add: upto_rec1)
qed simp

lemma mm_less_sample [simp]: "mm_less (mm_sample v s) = mm_less s"
  by (simp add: mm_sample_def Let_def)

lemma mm_sample_less: "mm_sample v (s\<lparr>mm_less := l\<rparr>) = (mm_sample v s)\<lparr>mm_less := l\<rparr>"
  by (simp add: mm_sample_def Let_def)

lemma fold_mm_less: "fold mm_sample vs (s\<lparr>mm_less := l\<rparr>) = (fold mm_sample vs s)\<lparr>mm_less := l\<rparr>"
  by (induction vs arbitrary: s) (simp_all add: mm_sample_less)

lemma fold_mm_less_keep [simp]: "mm_less (fold mm_sample vs s) = mm_less s"
  by (induction vs arbitrary: s) simp_all

lemma maxmin_loop_live:
  assumes "ps = pre @ rest" and "wf_gaps i n rest" and "0 \<le> i" "i \<le> n" "n \<le> int (length xs)"
  shows "maxmin_loop xs (unpairs ps) (int (length ps)) i (length pre) n s =
    Some ((fold mm_sample (map (\<lambda>i. xs ! nat i) (live i n rest)) s)\<lparr>mm_less := mm_less s + gap_total rest\<rparr>)"
  using assms
proof (induction rest arbitrary: pre i s)
  case Nil
  then show ?case
    using loop_run [of i n n xs "length pre" "int (length ps)" "unpairs ps" s]
    by (simp add: loop_end gap_total_def)
next
  case (Cons p rest)
  obtain a b where p: "p = (a, b)" by (cases p)
  have wf: "i \<le> a" "a < b" "b \<le> n" "wf_gaps (b + 1) n rest" using Cons.prems(2) p by simp_all
  have len: "length pre < length ps" using Cons.prems(1) by simp
  have nth: "unpairs ps ! (2 * length pre) = a" "unpairs ps ! (2 * length pre + 1) = b"
    using unpairs_nth [OF len] Cons.prems(1) p by simp_all
  have next_gap: "b < unpairs ps ! (2 * (length pre + 1))" if "int (length pre + 1) < int (length ps)"
  proof (cases rest)
    case Nil
    then show ?thesis using that Cons.prems(1) by simp
  next
    case (Cons q r)
    obtain a' b' where q: "q = (a', b')" by (cases q)
    have "ps ! (length pre + 1) = (a', b')" using Cons.prems(1) Cons q by (simp add: nth_append)
    moreover have "b < a'" using wf(4) Cons q by simp
    ultimately show ?thesis using unpairs_nth [of "length pre + 1" ps] that by simp
  qed
  let ?s1 = "fold mm_sample (map (\<lambda>i. xs ! nat i) [i..a - 1]) s"
  have run: "maxmin_loop xs (unpairs ps) (int (length ps)) i (length pre) n s
      = maxmin_loop xs (unpairs ps) (int (length ps)) a (length pre) n ?s1"
    using Cons.prems wf nth by (intro loop_run) auto
  have gap: "maxmin_loop xs (unpairs ps) (int (length ps)) a (length pre) n ?s1
      = maxmin_loop xs (unpairs ps) (int (length ps)) b (length pre + 1) n (?s1\<lparr>mm_less := mm_less ?s1 + (b - a)\<rparr>)"
    using Cons.prems wf nth next_gap len by (intro loop_gap) auto
  have "wf_gaps b n rest" using wf(4) by (cases rest) auto
  then have "maxmin_loop xs (unpairs ps) (int (length ps)) b (length (pre @ [p])) n (?s1\<lparr>mm_less := mm_less ?s1 + (b - a)\<rparr>)
      = Some ((fold mm_sample (map (\<lambda>i. xs ! nat i) (live b n rest)) (?s1\<lparr>mm_less := mm_less ?s1 + (b - a)\<rparr>))
          \<lparr>mm_less := mm_less (?s1\<lparr>mm_less := mm_less ?s1 + (b - a)\<rparr>) + gap_total rest\<rparr>)"
    using Cons.prems wf by (intro Cons.IH) auto
  then show ?case
    unfolding run gap by (simp add: p fold_mm_less gap_total_def)
qed

lemma mm_sample_fields:
  assumes "mm_min s \<le> mm_max s"
  shows "mm_max (mm_sample v s) = max (mm_max s) v" "mm_min (mm_sample v s) = min (mm_min s) v"
    "mm_sum (mm_sample v s) = mm_sum s + v" "mm_min (mm_sample v s) \<le> mm_max (mm_sample v s)"
  using assms by (auto simp: mm_sample_def Let_def)

lemma fold_mm_sample:
  assumes "mm_min s \<le> mm_max s"
  shows "mm_max (fold mm_sample vs s) = fold max vs (mm_max s) \<and>
    mm_min (fold mm_sample vs s) = fold min vs (mm_min s) \<and>
    mm_sum (fold mm_sample vs s) = mm_sum s + sum_list vs"
  using assms
proof (induction vs arbitrary: s)
  case (Cons v vs)
  show ?case
    using Cons.IH [OF mm_sample_fields(4) [OF Cons.prems]] mm_sample_fields [OF Cons.prems]
    by (simp add: max.commute min.commute)
qed simp

text \<open>The samples visited are those in no gap.\<close>

definition in_gap :: "(int \<times> int) list \<Rightarrow> int \<Rightarrow> bool" where
  "in_gap ps j = (\<exists>(a, b) \<in> set ps. a \<le> j \<and> j < b)"

definition live_samples :: "real list \<Rightarrow> (int \<times> int) list \<Rightarrow> real list" where
  "live_samples xs ps = map (\<lambda>j. xs ! nat j) (filter (\<lambda>j. \<not> in_gap ps j) [0..int (length xs) - 1])"

lemma in_gap_simps [simp]:
  "\<not> in_gap [] j" "in_gap ((a, b) # ps) j = (a \<le> j \<and> j < b \<or> in_gap ps j)"
  by (auto simp: in_gap_def)

lemma in_gap_ge: "wf_gaps lo n ps \<Longrightarrow> in_gap ps j \<Longrightarrow> lo \<le> j"
  by (induction lo n ps rule: wf_gaps.induct) force+

lemma upto_split2: "(i::int) \<le> j \<Longrightarrow> j \<le> k + 1 \<Longrightarrow> [i..k] = [i..j - 1] @ [j..k]"
proof (cases "j \<le> k")
  case False
  moreover assume "j \<le> k + 1"
  ultimately have "j = k + 1" by simp
  then show ?thesis by simp
qed (simp add: upto_split1)

lemma wf_gaps_weaken: "wf_gaps lo n ps \<Longrightarrow> lo' \<le> lo \<Longrightarrow> wf_gaps lo' n ps"
  by (cases ps) auto

lemma live_filter:
  "wf_gaps i n ps \<Longrightarrow> i \<le> n \<Longrightarrow> live i n ps = filter (\<lambda>j. \<not> in_gap ps j) [i..n - 1]"
proof (induction ps arbitrary: i)
  case (Cons p ps)
  obtain a b where p: "p = (a, b)" by (cases p)
  have wf: "i \<le> a" "a < b" "b \<le> n" "wf_gaps (b + 1) n ps" using Cons.prems p by simp_all
  have later: "\<not> in_gap ps j" if "j \<le> b" for j using in_gap_ge [OF wf(4)] that by force
  have "[i..n - 1] = [i..a - 1] @ [a..b - 1] @ [b..n - 1]"
    using upto_split2 [of i a "n - 1"] upto_split2 [of a b "n - 1"] wf by simp
  moreover have "filter (\<lambda>j. \<not> in_gap (p # ps) j) [i..a - 1] = [i..a - 1]"
    using later wf by (intro filter_True) (auto simp: p)
  moreover have "filter (\<lambda>j. \<not> in_gap (p # ps) j) [a..b - 1] = []"
    by (intro filter_False) (auto simp: p)
  moreover have "filter (\<lambda>j. \<not> in_gap (p # ps) j) [b..n - 1] = filter (\<lambda>j. \<not> in_gap ps j) [b..n - 1]"
    by (intro filter_cong) (auto simp: p)
  moreover have "live b n ps = filter (\<lambda>j. \<not> in_gap ps j) [b..n - 1]"
    using wf by (intro Cons.IH) (auto intro: wf_gaps_weaken)
  ultimately show ?case by (simp add: p)
qed simp

lemma live_length: "wf_gaps i n ps \<Longrightarrow> i \<le> n \<Longrightarrow> int (length (live i n ps)) = n - i - gap_total ps"
proof (induction ps arbitrary: i)
  case (Cons p ps)
  obtain a b where p: "p = (a, b)" by (cases p)
  have "int (length (live b n ps)) = n - b - gap_total ps"
    using Cons.prems p by (intro Cons.IH) (auto intro: wf_gaps_weaken)
  then show ?case using Cons.prems p by (simp add: gap_total_def)
qed (simp add: gap_total_def)

lemma maxmin_loop_whole:
  assumes "wf_gaps 1 (int (length xs)) ps" and "xs \<noteq> []"
  shows "maxmin_loop xs (unpairs ps) (int (length ps)) 0 0 (int (length xs)) s =
    Some ((fold mm_sample (live_samples xs ps) s)\<lparr>mm_less := mm_less s + gap_total ps\<rparr>)"
  using maxmin_loop_live [of ps "[]" ps 0 "int (length xs)" xs s] wf_gaps_weaken [OF assms(1), of 0] live_filter [of 0]
  by (simp add: live_samples_def)

lemma live_samples_first:
  assumes "wf_gaps 1 (int (length xs)) ps" and "xs \<noteq> []"
  shows "xs ! 0 \<in> set (live_samples xs ps)"
proof -
  have "\<not> in_gap ps 0" using in_gap_ge [OF assms(1), of 0] by auto
  then have "0 \<in> set (filter (\<lambda>j. \<not> in_gap ps j) [0..int (length xs) - 1])" using assms(2) by (cases xs) auto
  then show ?thesis unfolding live_samples_def by force
qed

lemma fold_max_member: "x \<in> set vs \<Longrightarrow> fold max vs x = Max (set vs)" for x :: real
  using Max.set_eq_fold [of x vs] by (simp add: insert_absorb)

lemma fold_min_member: "x \<in> set vs \<Longrightarrow> fold min vs x = Min (set vs)" for x :: real
  using Min.set_eq_fold [of x vs] by (simp add: insert_absorb)

text \<open>
  C30: On a trace that does not begin in a gap and whose gaps are in order, inside the trace and apart,
  \<^verbatim>\<open>get_maxmin\<close> gives the largest, the smallest and the mean of the samples outside the gaps; the fill
  values inside the gaps do not count.
\<close>

theorem get_maxmin_live:
  assumes "d_data (dataInfo trc) = Some xs" and "xs \<noteq> []" and "numSamples (dataInfo trc) = int (length xs)"
    and "gaps trc = unpairs ps" and "numGaps trc = int (length ps)" and "wf_gaps 1 (int (length xs)) ps"
  shows "get_maxmin trc = Some \<lparr>a_max = Max (set (live_samples xs ps)), a_min = Min (set (live_samples xs ps)),
    a_diff = Max (set (live_samples xs ps)) - Min (set (live_samples xs ps)),
    a_mean = sum_list (live_samples xs ps) / real (length (live_samples xs ps))\<rparr>"
proof -
  have "int (length (live_samples xs ps)) = int (length xs) - gap_total ps"
    using live_length [of 0 "int (length xs)" ps] live_filter [of 0 "int (length xs)" ps] wf_gaps_weaken [OF assms(6), of 0]
    by (simp add: live_samples_def)
  then have "real_of_int (int (length xs) - gap_total ps) = real (length (live_samples xs ps))"
    by (metis of_int_of_nat_eq)
  then show ?thesis
    using assms maxmin_loop_whole [OF assms(6,2)] live_samples_first [OF assms(6,2)]
      fold_mm_sample [of "\<lparr>mm_max = xs ! 0, mm_min = xs ! 0, mm_sum = 0, mm_less = 0\<rparr>" "live_samples xs ps"]
    by (simp add: get_maxmin_def fold_max_member fold_min_member)
qed

definition amp_demo :: "real traceInfo" where
  "amp_demo = calloc_trace\<lparr>dataInfo := \<lparr>d_data = Some [3, 5, 0, 0, 1], numSamples = 5, d_form = BIT32,
     d_sampInt = 1000000, secsPsamp = 1\<rparr>, gaps := [2, 4], numGaps := 1\<rparr>"

theorem get_maxmin_live_witness:
  "get_maxmin amp_demo = Some \<lparr>a_max = 5, a_min = 1, a_diff = 4, a_mean = 3\<rparr>"
proof -
  have u: "[0..4] = [0, 1, 2, 3, 4::int]" by (simp add: upto_rec1)
  have l: "live_samples [3, 5, 0, 0, 1] [(2, 4)] = [3, 5, 1]"
    by (simp add: live_samples_def u)
  show ?thesis
    using get_maxmin_live [of amp_demo "[3, 5, 0, 0, 1]" "[(2, 4)]"]
    by (simp add: l amp_demo_def unpairs_def)
qed

section \<open>What an excerpt holds\<close>

lemma cut_gaps_late: "wf_gaps lo n ps \<Longrightarrow> endSamp < lo \<Longrightarrow> cut_gaps startSamp endSamp ps = [] \<or> startSamp > endSamp"
  by (cases ps) (auto split: if_splits)

lemma cut_gaps_covers:
  assumes "wf_gaps lo n ps" and "startSamp \<le> endSamp" and "0 \<le> j"
  shows "in_gap (cut_gaps startSamp endSamp ps) j = (startSamp + j < endSamp \<and> in_gap ps (startSamp + j))"
  using assms
proof (induction lo n ps rule: wf_gaps.induct)
  case (2 lo n a b ps)
  show ?case
  proof (cases "a > endSamp")
    case True
    have "\<not> in_gap ps (startSamp + j)" if "startSamp + j < endSamp"
      using in_gap_ge [of "b + 1" n ps "startSamp + j"] 2 True that by auto
    then show ?thesis using 2 True by auto
  qed (use 2 in auto)
qed simp

text \<open>
  The gaps of an excerpt of another trace: before the last sample of the window a sample lies in a gap
  of the excerpt exactly if the sample it was copied from lies in a gap of the source. The last sample
  of the window is never in a gap: a gap that runs over it is cut one sample short.
\<close>

theorem manageGLaps_gaps:
  assumes "gaps from = unpairs ps" and "numGaps from = int (length ps)" and "wf_gaps lo n ps"
    and "gaps to = []" and "startSamp \<le> endSamp" and "0 \<le> j"
  shows "in_gap (pairs (gaps (manageGLaps False from to startSamp endSamp))) j =
    (startSamp + j < endSamp \<and> in_gap ps (startSamp + j))"
  using cut_gaps_covers [OF assms(3,5,6)] assms(1,2,4)
  by (auto simp: manageGLaps_def Let_def)

theorem manageGLaps_gaps_witness:
  "in_gap (pairs (gaps (manageGLaps False amp_demo calloc_trace 1 4))) 2"
  using manageGLaps_gaps [of amp_demo "[(2, 4)]" 0 5 calloc_trace 1 4 2]
  by (simp add: amp_demo_def unpairs_def calloc_trace_def)

lemma live_samples_no_gaps [simp]: "live_samples xs [] = xs"
  by (rule nth_equalityI) (auto simp: live_samples_def)

lemma get_maxmin_no_gaps:
  assumes "d_data (dataInfo trc) = Some xs" and "xs \<noteq> []" and "numSamples (dataInfo trc) = int (length xs)"
    and "gaps trc = []" and "numGaps trc = 0"
  shows "\<exists>a. get_maxmin trc = Some a \<and> a_max a = Max (set xs) \<and> a_min a = Min (set xs)"
  using assms maxmin_loop_whole [of xs "[]"]
    fold_mm_sample [of "\<lparr>mm_max = xs ! 0, mm_min = xs ! 0, mm_sum = 0, mm_less = 0\<rparr>" xs]
  by (simp add: get_maxmin_def fold_max_member fold_min_member unpairs_def)

lemma setNewHdr_fields [simp]:
  "gaps (setNewHdr t) = []" "numGaps (setNewHdr t) = 0" "overlaps (setNewHdr t) = []" "numOlaps (setNewHdr t) = 0"
  "dataInfo (setNewHdr t) = dataInfo t" "epochs (head (setNewHdr t)) = epochs (head t)"
  "epochStop (head (setNewHdr t)) = epochs (head t) + of_int (numSamples (dataInfo t) - 1) * (sampInt (head t) / 1000000)"
  by (simp_all add: setNewHdr_def Let_def algebra_simps diff_divide_distrib)

lemma manageGLaps_in_place [simp]:
  "gaps t = [] \<Longrightarrow> overlaps t = [] \<Longrightarrow> manageGLaps True t t s e = t\<lparr>numGaps := 0, numOlaps := 0\<rparr>"
  by (simp add: manageGLaps_def Let_def)

lemma clip_count_ok:
  assumes "0 < want"
  shows "(0 \<le> clip_count N s want \<and> s + clip_count N s want \<le> N \<and> clip_count N s want * dsizes f \<le> want * sizeof_dsizes)
    = (s + want \<le> N \<and> f \<noteq> MY_DOUBLE)" and "s + want \<le> N \<Longrightarrow> clip_count N s want = want"
  using assms by (cases f; auto simp: clip_count_def sizeof_dsizes_def)+


definition excerpt_demo :: "real traceInfo" where
  "excerpt_demo = amp_demo\<lparr>head := (head amp_demo)\<lparr>epochs := 100, sampInt := 1000000, data_form := BIT32\<rparr>,
     excerptS := 101, excerptLen := 3\<rparr>"


end
