(* ===== verification/Timeline.thy ===== *)
theory Timeline
  imports Excerpt
begin

text \<open>
  The specification of joining segments: a segment is the number of its first sample on the grid of
  sample times and its samples. The value at a place is that of the first segment, in the order of their
  starts, that covers it; a place that none covers is in a gap and holds 0. \<open>merge_seg\<close> adds a segment to
  what has been joined so far, and the lemma \<open>merge_timeline\<close> says that adding all gives the timeline. The
  reader of miniSEED files refines \<open>merge_seg\<close>.
\<close>

type_synonym 'd seg = "nat \<times> 'd list"

fun seg_at :: "'d seg list \<Rightarrow> nat \<Rightarrow> 'd option" where
  "seg_at [] k = None"
| "seg_at ((a, xs) # ss) k = (if a \<le> k \<and> k < a + length xs then Some (xs ! (k - a)) else seg_at ss k)"

definition timeline :: "'d::zero seg list \<Rightarrow> nat \<Rightarrow> 'd list" where
  "timeline ss n = map (\<lambda>k. case seg_at ss k of None \<Rightarrow> 0 | Some v \<Rightarrow> v) [0..<n]"

definition merge_seg :: "'d::zero seg \<Rightarrow> 'd list \<times> (int \<times> int) list \<Rightarrow> 'd list \<times> (int \<times> int) list" where
  "merge_seg s st =
     (let (a, xs) = s; (buf, gs) = st; n = length buf
      in if a \<le> n then (buf @ drop (n - a) xs, gs)
         else (buf @ replicate (a - n) 0 @ xs, gs @ [(int n, int a)]))"

section \<open>Lemmas\<close>

lemma seg_at_snoc:
  "seg_at (ss @ [(a, xs)]) k =
     (case seg_at ss k of Some v \<Rightarrow> Some v | None \<Rightarrow> if a \<le> k \<and> k < a + length xs then Some (xs ! (k - a)) else None)"
proof (induction ss)
  case (Cons s ss)
  then show ?case by (cases s) simp
qed simp

lemma in_gap_snoc [simp]: "in_gap (gs @ [(a, b)]) j = (in_gap gs j \<or> a \<le> j \<and> j < b)"
  by (auto simp: in_gap_def)

lemma wf_gaps_snoc:
  "wf_gaps lo n gs \<Longrightarrow> \<forall>g\<in>set gs. snd g < a \<Longrightarrow> lo \<le> a \<Longrightarrow> a < b \<Longrightarrow> b \<le> n' \<Longrightarrow> n \<le> n' \<Longrightarrow> wf_gaps lo n' (gs @ [(a, b)])"
  by (induction lo n gs rule: wf_gaps.induct) auto

lemma wf_gaps_longer: "wf_gaps lo n gs \<Longrightarrow> n \<le> n' \<Longrightarrow> wf_gaps lo n' gs"
  by (induction lo n gs rule: wf_gaps.induct) auto

text \<open>
  What holds after some segments: \<open>l\<close> is the latest start so far, and no gap reaches beyond it.
\<close>

definition joined :: "'d::zero seg list \<Rightarrow> nat \<Rightarrow> 'd list \<Rightarrow> (int \<times> int) list \<Rightarrow> bool" where
  "joined ss l buf gs \<longleftrightarrow>
     l < length buf \<and> (\<forall>k\<ge>length buf. seg_at ss k = None) \<and> buf = timeline ss (length buf) \<and>
     (\<forall>k<length buf. in_gap gs (int k) = (seg_at ss k = None)) \<and> wf_gaps 1 (int (length buf)) gs \<and>
     (\<forall>g\<in>set gs. snd g \<le> int l)"

lemma joined_first: "xs \<noteq> [] \<Longrightarrow> joined [(0, xs)] 0 xs []"
  by (auto simp: joined_def timeline_def intro: nth_equalityI)

lemma timeline_cong: "(\<And>k. k < n \<Longrightarrow> seg_at ss k = seg_at ss' k) \<Longrightarrow> timeline ss n = timeline ss' n"
  by (simp add: timeline_def)

lemma timeline_add:
  "timeline ss (n + m) = timeline ss n @ map (\<lambda>k. case seg_at ss k of None \<Rightarrow> 0 | Some v \<Rightarrow> v) [n..<n + m]"
  by (simp add: timeline_def upt_add_eq_append [of 0 n m])

lemma in_gap_below: "\<forall>g\<in>set gs. snd g \<le> l \<Longrightarrow> in_gap gs k \<Longrightarrow> k < l"
  by (force simp: in_gap_def)

lemma joined_merge:
  assumes j: "joined ss l buf gs" and a: "l \<le> a" and xs: "xs \<noteq> []"
  shows "case merge_seg (a, xs) (buf, gs) of (buf', gs') \<Rightarrow> joined (ss @ [(a, xs)]) a buf' gs'"
proof -
  let ?n = "length buf" and ?ss = "ss @ [(a, xs)]"
  have j': "l < ?n" "\<forall>k\<ge>?n. seg_at ss k = None" "buf = timeline ss ?n"
    "\<forall>k<?n. in_gap gs (int k) = (seg_at ss k = None)" "wf_gaps 1 (int ?n) gs" "\<forall>g\<in>set gs. snd g \<le> int l"
    using j by (auto simp: joined_def)
  have covered: "seg_at ss k \<noteq> None" if "a \<le> k" "k < ?n" for k
  proof
    assume "seg_at ss k = None"
    then have "in_gap gs (int k)" using j'(4) that by simp
    from in_gap_below [OF j'(6) this] show False using that a by simp
  qed
  have old: "seg_at ?ss k = seg_at ss k" if "k < ?n" for k
    using covered [of k] that by (auto simp: seg_at_snoc split: option.splits)
  have new: "seg_at ?ss k = (if a \<le> k \<and> k < a + length xs then Some (xs ! (k - a)) else None)" if "?n \<le> k" for k
    using that j'(2) by (simp add: seg_at_snoc)
  have oldbuf: "timeline ?ss ?n = buf" using j'(3) timeline_cong [of ?n ?ss ss] old by simp
  have split: "timeline ?ss (?n + m) = buf @ map (\<lambda>k. case seg_at ?ss k of None \<Rightarrow> 0 | Some v \<Rightarrow> v) [?n..<?n + m]" for m
    by (simp only: timeline_add oldbuf)
  show ?thesis
  proof (cases "a \<le> ?n")
    case True
    let ?m = "length (drop (?n - a) xs)"
    have tail: "map (\<lambda>k. case seg_at ?ss k of None \<Rightarrow> 0 | Some v \<Rightarrow> v) [?n..<?n + ?m] = drop (?n - a) xs"
    proof (rule nth_equalityI)
      fix i
      assume "i < length (map (\<lambda>k. case seg_at ?ss k of None \<Rightarrow> 0 | Some v \<Rightarrow> v) [?n..<?n + ?m])"
      then have i: "i < ?m" by simp
      have "seg_at ?ss (?n + i) = Some (xs ! (?n + i - a))" using new [of "?n + i"] True i by simp
      then show "map (\<lambda>k. case seg_at ?ss k of None \<Rightarrow> 0 | Some v \<Rightarrow> v) [?n..<?n + ?m] ! i = drop (?n - a) xs ! i"
        using True i by simp
    qed simp
    have "?n + ?m = max ?n (a + length xs)" using True by auto
    then have "seg_at ?ss k = None" if "?n + ?m \<le> k" for k using that new [of k] by auto
    moreover have "in_gap gs (int k) = (seg_at ?ss k = None)" if "k < ?n + ?m" for k
    proof (cases "k < ?n")
      case False
      then have "\<not> in_gap gs (int k)" using in_gap_below [OF j'(6), of "int k"] j'(1) by auto
      then show ?thesis using False that new [of k] True by auto
    qed (use old j'(4) in simp)
    moreover have "a < ?n + ?m" using True xs by (cases xs) auto
    ultimately show ?thesis
      using True split [of ?m] tail j'(5,6) a wf_gaps_longer [OF j'(5), of "int (?n + ?m)"]
      by (auto simp: merge_seg_def joined_def Let_def)
  next
    case False
    then have far: "?n < a" by simp
    let ?m = "a - ?n + length xs" and ?gs = "gs @ [(int ?n, int a)]"
    have tail: "map (\<lambda>k. case seg_at ?ss k of None \<Rightarrow> 0 | Some v \<Rightarrow> v) [?n..<?n + ?m] = replicate (a - ?n) 0 @ xs"
    proof (rule nth_equalityI)
      fix i
      assume "i < length (map (\<lambda>k. case seg_at ?ss k of None \<Rightarrow> 0 | Some v \<Rightarrow> v) [?n..<?n + ?m])"
      then have i: "i < ?m" by simp
      have "seg_at ?ss (?n + i) = (if i < a - ?n then None else Some (xs ! (i - (a - ?n))))"
        using new [of "?n + i"] False i by (auto intro: arg_cong [where f = "(!) xs"])
      then show "map (\<lambda>k. case seg_at ?ss k of None \<Rightarrow> 0 | Some v \<Rightarrow> v) [?n..<?n + ?m] ! i = (replicate (a - ?n) 0 @ xs) ! i"
        using False i by (simp add: nth_append)
    qed simp
    have "seg_at ?ss k = None" if "?n + ?m \<le> k" for k using that new [of k] False by auto
    moreover have "in_gap ?gs (int k) = (seg_at ?ss k = None)" if "k < ?n + ?m" for k
    proof (cases "k < ?n")
      case False
      then have "\<not> in_gap gs (int k)" using in_gap_below [OF j'(6), of "int k"] j'(1) by auto
      then show ?thesis using far False that new [of k] by auto
    qed (use old j'(4) far in simp)
    moreover have "wf_gaps 1 (int (?n + ?m)) ?gs"
      using False j'(1,6) by (intro wf_gaps_snoc [OF j'(5)]) fastforce+
    moreover have "\<forall>g\<in>set ?gs. snd g \<le> int a" using j'(6) a False by fastforce
    ultimately show ?thesis
      using False split [of ?m] tail xs by (auto simp: merge_seg_def joined_def Let_def)
  qed
qed

lemma merge_timeline:
  assumes "sorted (l # map fst ss)" and "\<forall>s\<in>set ss. snd s \<noteq> []" and "joined pre l buf gs"
  shows "case fold merge_seg ss (buf, gs) of (buf', gs') \<Rightarrow> \<exists>l'. joined (pre @ ss) l' buf' gs'"
  using assms
proof (induction ss arbitrary: pre l buf gs)
  case (Cons s ss)
  obtain a xs where s: "s = (a, xs)" by (cases s)
  obtain buf' gs' where m: "merge_seg (a, xs) (buf, gs) = (buf', gs')" by (cases "merge_seg (a, xs) (buf, gs)")
  have "joined (pre @ [(a, xs)]) a buf' gs'"
    using joined_merge [OF Cons.prems(3), of a xs] Cons.prems s m by simp
  from Cons.IH [OF _ _ this] Cons.prems s m show ?case by simp
qed auto

end
