(* ===== verification/MseedData.thy ===== *)
theory MseedData
  imports Mseed Timeline
begin

text \<open>
  MiniSEED samples: \<^verbatim>\<open>utils/data/data_mseed.c\<close> from \<^verbatim>\<open>pluckLOOP\<close> to \<^verbatim>\<open>get_mseed_data\<close>. A file whose records follow
  each other in time is read record by record; otherwise, and for a channel of a multiplexed file, the
  records are collected into libmseed's trace group, and the segments of the group are put one after the
  other: a gap is filled with zeros and noted, samples that are there already are saved as an overlap.

  \<open>None\<close> stands for undefined behaviour: an access outside a block, or an \<^verbatim>\<open>int\<close> that overflows. \<open>Inl\<close> is an
  error that the function returns. The allocator is a parameter, the size of the largest block it gives.
  The properties say which records are read, that the samples, the gaps and the overlaps are those of the
  timeline of the segments, and where one sample is lost.
\<close>

section \<open>The library's trace groups\<close>

record 'd mstrace =
  g_network :: cstr
  g_station :: cstr
  g_location :: cstr
  g_channel :: cstr
  g_starttime :: int
  g_endtime :: int
  g_samprate :: real
  g_samplecnt :: int
  g_sampletype :: byte
  g_samples :: "'d list"
  g_dataquality :: byte

text \<open>
  What the reader calls of libmseed, besides reading records in sequence: \<^verbatim>\<open>ms_readtraces\<close>, \<^verbatim>\<open>ms_readmsr_r\<close>
  with a file position, \<^verbatim>\<open>mst_initgroup\<close>, \<^verbatim>\<open>mst_addmsrtogroup\<close> with its tolerances, and the list of segments
  after \<^verbatim>\<open>mst_groupsort\<close> and \<^verbatim>\<open>mst_groupheal\<close>; and \<^verbatim>\<open>msr_endtime\<close>. \<open>None\<close> is a null pointer or an error code, and a
  sort that does not end. The theory \<open>MsGroup\<close> gives the functions of the library.
\<close>

record ('d, 'g) mslib =
  readmsr :: "cstr \<Rightarrow> 'd msfile"
  readtraces :: "cstr \<Rightarrow> 'g option"
  readmsr_at :: "cstr \<Rightarrow> int \<Rightarrow> 'd msrecord option"
  initgroup :: 'g
  addmsrtogroup :: "'g \<Rightarrow> 'd msrecord \<Rightarrow> real \<Rightarrow> real \<Rightarrow> 'g option"
  group_traces :: "'g \<Rightarrow> 'd mstrace list option"
  msr_endtime :: "'d msrecord \<Rightarrow> int"

section \<open>Plucking packets\<close>

text \<open>
  \<^verbatim>\<open>pluckLOOP\<close>: the records are read in sequence and those between are skipped; \<open>n\<close> is \<^verbatim>\<open>packet_num\<close>, the number
  of records read so far. Any failure makes the caller return \<^verbatim>\<open>FAILURE\<close>.
\<close>

fun pluck_loop :: "('d, 'g) mslib \<Rightarrow> mmpacket list \<Rightarrow> 'd msrecord list \<Rightarrow> int \<Rightarrow> 'g \<Rightarrow> 'g option" where
  "pluck_loop lib [] recs n g = Some g"
| "pluck_loop lib (p # ps) recs n g =
     (case drop (nat (p_index p - n)) recs of
        [] \<Rightarrow> None
      | msr # rest \<Rightarrow>
          (case addmsrtogroup lib g msr (-2) (-2) of
             None \<Rightarrow> None
           | Some g' \<Rightarrow> pluck_loop lib ps rest (max n (p_index p) + 1) g'))"

text \<open>
  A read with a file position: \<^verbatim>\<open>READMSRDATA2\<close> with the offset of packet \<^verbatim>\<open>index\<close> in a file of equal blocks. The
  library seeks if the offset is not 0; else it reads the record at \<open>pos\<close>, behind the last one that was read.
\<close>

definition read_from :: "('d, 'g) mslib \<Rightarrow> cstr \<Rightarrow> int \<Rightarrow> mmpacket \<Rightarrow> int \<Rightarrow> ('d msrecord \<times> int) option" where
  "read_from lib fn blk p pos =
     (let off = (if 0 < blk * p_index p then blk * p_index p else pos)
      in map_option (\<lambda>msr. (msr, off + reclen msr)) (readmsr_at lib fn off))"

fun pluck_seek :: "('d, 'g) mslib \<Rightarrow> cstr \<Rightarrow> int \<Rightarrow> mmpacket list \<Rightarrow> int \<Rightarrow> 'g \<Rightarrow> 'g option" where
  "pluck_seek lib fn blk [] pos g = Some g"
| "pluck_seek lib fn blk (p # ps) pos g =
     (case read_from lib fn blk p pos of
        None \<Rightarrow> None
      | Some (msr, pos') \<Rightarrow>
          (case addmsrtogroup lib g msr (-1) (-1) of
             None \<Rightarrow> None
           | Some g' \<Rightarrow> pluck_seek lib fn blk ps pos' g'))"

definition pluckPackets :: "('d, 'g) mslib \<Rightarrow> 'd traceInfo \<Rightarrow> 'g option" where
  "pluckPackets lib trace =
     (if blkSize trace = 0 then pluck_loop lib (mpackets trace) (fst (readmsr lib (fileName trace))) 0 (initgroup lib)
      else pluck_seek lib (fileName trace) (blkSize trace) (mpackets trace) 0 (initgroup lib))"

section \<open>Joining segments\<close>

text \<open>
  The variables of \<^verbatim>\<open>get_mseed_trace\<close>. The samples written so far are \<open>buf\<close>, so that \<^verbatim>\<open>totSamp\<close> is their number;
  \<open>mem\<close> is \<^verbatim>\<open>*ttlMemAlloc\<close>, the size of the block in bytes.
\<close>

record 'd asm =
  as_first :: bool
  as_numGaps :: nat
  as_numOlaps :: nat
  as_oneSample :: real
  as_dataSize :: nat
  as_prev_endT :: int
  as_mem :: int
  as_buf :: "'d list"
  as_trace :: "'d traceInfo"

definition totSamp :: "'d asm \<Rightarrow> int" where
  "totSamp s = int (length (as_buf s))"

definition fits_int :: "int \<Rightarrow> bool" where
  "fits_int k \<longleftrightarrow> - (2 ^ 31) \<le> k \<and> k < 2 ^ 31"

text \<open>\<^verbatim>\<open>if (need > *ttlMemAlloc) realloc\<close>.\<close>

definition grow :: "int \<Rightarrow> int \<Rightarrow> 'd asm \<Rightarrow> (status + 'd asm) option" where
  "grow avail need s =
     (if \<not> fits_int need then None
      else if need > as_mem s then (if need \<le> avail then Some (Inr (s\<lparr>as_mem := need\<rparr>)) else Some (Inl FAILURE))
      else Some (Inr s))"

text \<open>A write of samples at \<^verbatim>\<open>totSamp\<close>.\<close>

definition put_samples :: "'d list \<Rightarrow> 'd asm \<Rightarrow> (status + 'd asm) option" where
  "put_samples xs s =
     (if (totSamp s + int (length xs)) * int (as_dataSize s) \<le> as_mem s
      then Some (Inr (s\<lparr>as_buf := as_buf s @ xs\<rparr>)) else None)"

text \<open>Samples \<open>[k, k + n)\<close> of a segment.\<close>

definition seg_samples :: "int \<Rightarrow> int \<Rightarrow> 'd mstrace \<Rightarrow> 'd list option" where
  "seg_samples k n t =
     (if 0 \<le> k \<and> 0 \<le> n \<and> k + n \<le> int (length (g_samples t))
      then Some (take (nat n) (drop (nat k) (g_samples t))) else None)"

fun c_then :: "(status + 'a) option \<Rightarrow> ('a \<Rightarrow> (status + 'b) option) \<Rightarrow> (status + 'b) option" where
  "c_then None f = None"
| "c_then (Some (Inl e)) f = Some (Inl e)"
| "c_then (Some (Inr x)) f = f x"

definition sampletype_form :: "byte \<Rightarrow> headinfo \<Rightarrow> headinfo" where
  "sampletype_form c h =
     (if c = 97 then h\<lparr>data_form := MY_CHAR, dataSize := 1\<rparr>
      else if c = 105 then h\<lparr>data_form := BIT32, dataSize := 4\<rparr>
      else if c = 102 then h\<lparr>data_form := MY_FLOAT, dataSize := 4\<rparr>
      else if c = 100 then h\<lparr>data_form := MY_DOUBLE, dataSize := 8\<rparr>
      else h)"

text \<open>The first segment of the channel.\<close>

definition asm_first :: "int \<Rightarrow> 'd mstrace \<Rightarrow> 'd asm \<Rightarrow> (status + 'd asm) option" where
  "asm_first avail t s =
     (let trace = as_trace s;
          trace = (if sampInt (head trace) = 0
                   then trace\<lparr>head := sampletype_form (g_sampletype t) ((head trace)\<lparr>sampInt := SAMPINT (g_samprate t)\<rparr>)\<rparr>
                   else trace);
          s = s\<lparr>as_oneSample := sampInt (head trace), as_dataSize := dataSize (head trace),
                as_trace := setStartTime (g_starttime t) trace, as_prev_endT := g_endtime t, as_buf := []\<rparr>
      in c_then (grow avail (g_samplecnt t * int (as_dataSize s)) s) (\<lambda>s.
         case seg_samples 0 (g_samplecnt t) t of None \<Rightarrow> None
         | Some xs \<Rightarrow> c_then (put_samples xs s) (\<lambda>s. Some (Inr (s\<lparr>as_first := False\<rparr>)))))"

text \<open>
  The overlap of a later segment: the overlapping samples are saved, and the number of the first sample
  to copy and the number of samples to copy are returned. A segment that ends at most one sample after
  the last one counts as overlapping fully.
\<close>

definition olap_points :: "'d mstrace \<Rightarrow> 'd asm \<Rightarrow> int" where
  "olap_points t s =
     c_trunc (of_int (c_trunc (- (of_int (g_starttime t) - (of_int (as_prev_endT s) + as_oneSample s)))) / as_oneSample s)"

definition olap_full :: "'d mstrace \<Rightarrow> 'd asm \<Rightarrow> bool" where
  "olap_full t s \<longleftrightarrow> of_int (g_endtime t) \<le> of_int (as_prev_endT s) + as_oneSample s"

definition asm_overlap :: "int \<Rightarrow> 'd mstrace \<Rightarrow> 'd asm \<Rightarrow> (int \<times> int \<times> 'd asm) option" where
  "asm_overlap avail t s =
     (if of_int (g_starttime t) < of_int (as_prev_endT s) + as_oneSample s then
        (let pts = olap_points t s;
             npts = (if olap_full t s then g_samplecnt t else pts);
             olapStart = totSamp s - pts; olapEnd = olapStart + npts;
             trace = as_trace s
         in if as_oneSample s = 0 \<or> \<not> fits_int pts \<or> \<not> fits_int (npts * int (as_dataSize s)) \<or>
              npts * int (as_dataSize s) > avail then None
            else (case seg_samples 0 npts t of None \<Rightarrow> None
              | Some xs \<Rightarrow>
                  Some (if olap_full t s then 0 else npts, if olap_full t s then 0 else g_samplecnt t - npts,
                    s\<lparr>as_numOlaps := as_numOlaps s + 1,
                      as_trace := trace\<lparr>overlaps := take (2 * as_numOlaps s) (overlaps trace) @ [olapStart, olapEnd],
                        olapData := olapData trace @ [\<lparr>o_start = olapStart, o_end = olapEnd, o_len = npts, o_data = xs\<rparr>]\<rparr>\<rparr>)))
      else Some (0, g_samplecnt t, s))"

text \<open>The gap before a later segment; the missing samples are zeros.\<close>

definition gap_samples :: "'d mstrace \<Rightarrow> 'd asm \<Rightarrow> int" where
  "gap_samples t s =
     c_trunc (of_int (c_trunc (of_int (g_starttime t - as_prev_endT s) - as_oneSample s)) * (1 / sampInt (head (as_trace s))))"

definition asm_gap :: "int \<Rightarrow> int \<Rightarrow> 'd::zero mstrace \<Rightarrow> 'd asm \<Rightarrow> (status + 'd asm) option" where
  "asm_gap avail copySamples t s =
     (if of_int (g_starttime t) > of_int (as_prev_endT s) + as_oneSample s then
        (let gapFill = gap_samples t s; tot = totSamp s; trace = as_trace s
         in if as_oneSample s = 0 \<or> \<not> fits_int gapFill \<or> \<not> fits_int (tot + gapFill) then None
            else (let s = s\<lparr>as_trace := trace\<lparr>gaps := take (2 * as_numGaps s) (gaps trace) @ [tot, tot + gapFill]\<rparr>\<rparr>
                  in c_then (grow avail ((copySamples + (tot + gapFill)) * int (as_dataSize s)) s) (\<lambda>s.
                     c_then (put_samples (replicate (nat gapFill) 0) s) (\<lambda>s.
                     Some (Inr (s\<lparr>as_numGaps := as_numGaps s + 1\<rparr>))))))
      else Some (Inr s))"

text \<open>The last steps of the loop body: the block is enlarged, the samples are copied and the end time is kept.\<close>

definition asm_copy :: "int \<Rightarrow> int \<Rightarrow> int \<Rightarrow> 'd mstrace \<Rightarrow> 'd asm \<Rightarrow> (status + 'd asm) option" where
  "asm_copy avail copyStart copySamples t s =
     c_then (grow avail ((copySamples + totSamp s) * int (as_dataSize s)) s) (\<lambda>s.
     c_then (if copySamples \<noteq> 0
             then (case seg_samples copyStart copySamples t of None \<Rightarrow> None | Some xs \<Rightarrow> put_samples xs s)
             else Some (Inr s)) (\<lambda>s.
     Some (Inr (s\<lparr>as_prev_endT := max (as_prev_endT s) (g_endtime t)\<rparr>))))"

definition asm_next :: "int \<Rightarrow> 'd::zero mstrace \<Rightarrow> 'd asm \<Rightarrow> (status + 'd asm) option" where
  "asm_next avail t s =
     (case asm_overlap avail t s of None \<Rightarrow> None
      | Some (copyStart, copySamples, s) \<Rightarrow>
          c_then (asm_gap avail copySamples t s) (asm_copy avail copyStart copySamples t))"

text \<open>The loop over the segments of the group: those of the header's channel, which stand together.\<close>

definition same_ids :: "'d mstrace \<Rightarrow> headinfo \<Rightarrow> bool" where
  "same_ids t h \<longleftrightarrow> g_network t = network h \<and> g_station t = station h \<and> g_location t = location h \<and> g_channel t = channel h"

fun asm_loop :: "int \<Rightarrow> 'd::zero mstrace list \<Rightarrow> 'd asm \<Rightarrow> (status + 'd asm) option" where
  "asm_loop avail [] s = Some (Inr s)"
| "asm_loop avail (t # ts) s =
     (if g_samplecnt t = 0 then asm_loop avail ts s
      else if \<not> same_ids t (head (as_trace s)) then (if as_first s then asm_loop avail ts s else Some (Inr s))
      else c_then (if as_first s then asm_first avail t s else asm_next avail t s) (asm_loop avail ts))"

definition get_mseed_trace :: "('d::zero, 'g) mslib \<Rightarrow> int \<Rightarrow> 'd traceInfo \<Rightarrow> int \<Rightarrow> (status + 'd traceInfo) option" where
  "get_mseed_trace lib avail trace ttlMemAlloc =
     (case (if fileType trace = MSEED_DATA then readtraces lib (fileName trace) else pluckPackets lib trace) of
        None \<Rightarrow> Some (Inl FAILURE)
      | Some g \<Rightarrow>
          (case group_traces lib g of None \<Rightarrow> None | Some ts \<Rightarrow>
          c_then (asm_loop avail ts
              \<lparr>as_first = True, as_numGaps = 0, as_numOlaps = 0, as_oneSample = 0, as_dataSize = 0, as_prev_endT = 0,
               as_mem = ttlMemAlloc, as_buf = [], as_trace = trace\<rparr>) (\<lambda>s.
          let trace = as_trace s
          in Some (Inr (trace\<lparr>numGaps := int (as_numGaps s), numOlaps := int (as_numOlaps s),
               dataInfo := (dataInfo trace)\<lparr>d_data := Some (as_buf s), numSamples := totSamp s\<rparr>,
               head := (head trace)\<lparr>secsLength := of_int (totSamp s - 1) * (as_oneSample s / 1000000)\<rparr>\<rparr>)))))"

text \<open>The number of samples is returned, and both callers store it.\<close>

section \<open>Reading the samples\<close>

definition TOOMANYPOINTS :: int where
  "TOOMANYPOINTS = 50000000"

text \<open>
  The loop of \<^verbatim>\<open>get_mseed_data\<close> over the records of a file of one channel. The state is the trace, the samples,
  \<^verbatim>\<open>ttlMemAlloc\<close>, \<^verbatim>\<open>oneSample\<close>, \<^verbatim>\<open>dataSize\<close> and \<^verbatim>\<open>nextStart\<close>; the flag is \<^verbatim>\<open>reRead\<close>.
\<close>

record 'd dstate =
  ds_trace :: "'d traceInfo"
  ds_buf :: "'d list"
  ds_mem :: int
  ds_one :: real
  ds_size :: nat
  ds_next :: int

definition data_record :: "('d, 'g) mslib \<Rightarrow> int \<Rightarrow> 'd msrecord \<Rightarrow> 'd dstate \<Rightarrow> (status + 'd dstate \<times> bool) option" where
  "data_record lib avail msr s =
     c_then
       (if sampInt (head (ds_trace s)) = 0
        then (let (ret, trace) = setHedrVals (setMMTRCINFO msr (single_trcinfo [] (index_new (0, msr)))) (ds_trace s);
                  mem = numSamples (dataInfo trace) * int (dataSize (head trace))
              in if ret = FILE_READ_ERROR then Some (Inl FAILURE)
                 else if \<not> fits_int mem then None
                 else if mem > avail then Some (Inl NO_MEMORY)
                 else Some (Inr (s\<lparr>ds_trace := trace, ds_mem := mem, ds_one := sampInt (head trace),
                                   ds_size := dataSize (head trace)\<rparr>)))
        else Some (Inr s)) (\<lambda>s.
     if ds_next s \<noteq> 0 \<and> m_starttime msr \<noteq> ds_next s then Some (Inr (s, True))
     else (let need = (m_samplecnt msr + int (length (ds_buf s))) * int (ds_size s);
               mem = (if need > ds_mem s then need else ds_mem s)
           in if \<not> fits_int need then None
              else if need > ds_mem s \<and> need > avail then Some (Inl NO_MEMORY)
              else if 0 \<le> m_samplecnt msr \<and> m_samplecnt msr \<le> int (length (m_samples msr)) \<and> need \<le> mem
              then Some (Inr (s\<lparr>ds_buf := ds_buf s @ take (nat (m_samplecnt msr)) (m_samples msr), ds_mem := mem,
                                ds_next := c_trunc (of_int (msr_endtime lib msr) + ds_one s)\<rparr>, False))
              else None))"

fun data_loop :: "('d, 'g) mslib \<Rightarrow> int \<Rightarrow> 'd msrecord list \<Rightarrow> 'd dstate \<Rightarrow> (status + 'd dstate \<times> bool) option" where
  "data_loop lib avail [] s = Some (Inr (s, False))"
| "data_loop lib avail (msr # recs) s =
     (if m_location msr \<noteq> location (head (ds_trace s)) \<or> m_encoding msr = 0 \<or> m_samplecnt msr = 0
      then data_loop lib avail recs s
      else c_then (data_record lib avail msr s) (\<lambda>(s, reRead). if reRead then Some (Inr (s, True)) else data_loop lib avail recs s))"

definition set_data_head :: "'d traceInfo \<Rightarrow> 'd traceInfo" where
  "set_data_head trace = trace\<lparr>dataInfo := (dataInfo trace)\<lparr>d_form := data_form (head trace),
     d_sampInt := sampInt (head trace), secsPsamp := sampInt (head trace) / 1000000\<rparr>\<rparr>"

definition data_single :: "('d::zero, 'g) mslib \<Rightarrow> int \<Rightarrow> 'd traceInfo \<Rightarrow> int \<Rightarrow> (status + 'd traceInfo) option" where
  "data_single lib avail trace mem =
     (let (recs, stop) = readmsr lib (fileName trace); trace = set_data_head trace
      in c_then (data_loop lib avail recs
            \<lparr>ds_trace = trace, ds_buf = [], ds_mem = mem, ds_one = sampInt (head trace),
             ds_size = dataSize (head trace), ds_next = 0\<rparr>) (\<lambda>(s, reRead).
         let trace = ds_trace s
         in if reRead \<or> stop \<noteq> MS_ENDOFFILE then get_mseed_trace lib avail trace (ds_mem s)
            else Some (Inr (trace\<lparr>dataInfo := (dataInfo trace)\<lparr>d_data := Some (ds_buf s), numSamples := int (length (ds_buf s))\<rparr>,
                   head := (head trace)\<lparr>secsLength := of_int (int (length (ds_buf s)) - 1) * (ds_one s / 1000000)\<rparr>\<rparr>))))"

text \<open>The trace with its samples, or the status; a caller that gets a status gets no samples.\<close>

definition get_mseed_data :: "('d::zero, 'g) mslib \<Rightarrow> int \<Rightarrow> 'd traceInfo \<Rightarrow> (status + 'd traceInfo) option" where
  "get_mseed_data lib avail trace =
     (let (ret, trace) = (if year (head trace) = 0 then get_mseed_hedr (readmsr lib) trace else (PQLXSUCCESS, trace));
          n = numSamples (dataInfo trace); mem = n * int (dataSize (head trace))
      in if ret \<noteq> PQLXSUCCESS then Some (Inl ret)
         else if n > TOOMANYPOINTS then Some (Inl FILE_TOO_LARGE)
         else if n = 0 then Some (Inl NOT_ENOUGH_DATA)
         else if \<not> fits_int mem \<or> mem = 0 then None
         else if mem > avail then Some (Inl NO_MEMORY)
         else c_then (if fileType trace = MSEED_MPLEX_DATA
                      then c_then (get_mseed_trace lib avail trace mem) (\<lambda>trace. Some (Inr (set_data_head trace)))
                      else if fileType trace = MSEED_DATA then data_single lib avail trace mem
                      else Some (Inl NOT_ENOUGH_DATA))
                (\<lambda>trace. if d_data (dataInfo trace) = Some [] then Some (Inl NOT_ENOUGH_DATA)
                          else Some (Inr trace)))"

section \<open>Log records\<close>

record LOGTEXT =
  lt_startT :: real
  lt_text :: cstr

record LOGDATA =
  ld_fileName :: cstr
  ld_station :: cstr
  ld_startT :: real
  ld_endT :: real
  ld_text :: "LOGTEXT list"

text \<open>The records that \<^verbatim>\<open>makeLogs\<close> reads; \<open>None\<close> is the use of the null pointer of a read that failed.\<close>

fun log_records :: "('d, 'g) mslib \<Rightarrow> cstr \<Rightarrow> int \<Rightarrow> mmpacket list \<Rightarrow> int \<Rightarrow> 'd msrecord list option" where
  "log_records lib fn blk [] pos = Some []"
| "log_records lib fn blk (p # ps) pos =
     (case read_from lib fn blk p pos of
        None \<Rightarrow> None
      | Some (msr, pos') \<Rightarrow> map_option (\<lambda>rs. msr # rs) (log_records lib fn blk ps pos'))"

definition log_text :: "byte msrecord \<Rightarrow> LOGTEXT" where
  "log_text msr = \<lparr>lt_startT = epochTime (m_starttime msr), lt_text = takeWhile (\<lambda>c. c \<noteq> 0) (m_samples msr)\<rparr>"

definition log_data :: "cstr \<Rightarrow> byte msrecord list \<Rightarrow> LOGDATA" where
  "log_data fn rs =
     (if rs = [] then \<lparr>ld_fileName = fn, ld_station = [], ld_startT = 0, ld_endT = 0, ld_text = []\<rparr>
      else \<lparr>ld_fileName = fn, ld_station = channel_name (hd rs), ld_startT = epochTime (m_starttime (hd rs)),
            ld_endT = epochTime (m_starttime (last rs)), ld_text = map log_text rs\<rparr>)"

definition makeLogs :: "(byte, 'g) mslib \<Rightarrow> cstr \<Rightarrow> mseed_state \<Rightarrow> (LOGDATA option \<times> mseed_state) option" where
  "makeLogs lib fn st =
     (case mplex_files st fn of None \<Rightarrow> Some (None, st)
      | Some mmfile \<Rightarrow>
          (let isLog = (\<lambda>ix. i_channel ix = lit ''LOG''); by_time = (\<lambda>ix. ix\<lparr>i_packets := sort_key p_startTime (i_packets ix)\<rparr>)
           in case find isLog (f_channels mmfile) of None \<Rightarrow> Some (None, st)
              | Some ix \<Rightarrow>
                  map_option (\<lambda>rs. (Some (log_data (f_fileName mmfile) rs),
                      st\<lparr>mplex_files := (mplex_files st)(fn \<mapsto> mmfile\<lparr>f_channels := update_first isLog by_time (f_channels mmfile)\<rparr>)\<rparr>))
                    (log_records lib (f_fileName mmfile) (f_blkSize mmfile) (i_packets (by_time ix)) 0)))"

section \<open>Which records are plucked\<close>

text \<open>Adding records to a group one after the other.\<close>

fun add_records :: "('d, 'g) mslib \<Rightarrow> real \<Rightarrow> 'd msrecord list \<Rightarrow> 'g \<Rightarrow> 'g option" where
  "add_records lib tol [] g = Some g"
| "add_records lib tol (r # rs) g = (case addmsrtogroup lib g r tol tol of None \<Rightarrow> None | Some g' \<Rightarrow> add_records lib tol rs g')"

lemma pluck_loop_records:
  assumes "sorted_wrt (<) (map p_index ps)" and "\<forall>p\<in>set ps. int n \<le> p_index p \<and> p_index p < int (length all)"
  shows "pluck_loop lib ps (drop n all) (int n) g = add_records lib (-2) (map (\<lambda>p. all ! nat (p_index p)) ps) g"
  using assms
proof (induction ps arbitrary: n g)
  case (Cons p ps)
  define i where "i = nat (p_index p)"
  have i: "n \<le> i" "i < length all" "p_index p = int i" using Cons.prems(2) by (auto simp: i_def)
  have "drop (nat (p_index p - int n)) (drop n all) = all ! i # drop (i + 1) all"
    using i by (simp add: Cons_nth_drop_Suc nat_diff_distrib)
  moreover have "pluck_loop lib ps (drop (i + 1) all) (int (i + 1)) g' =
      add_records lib (-2) (map (\<lambda>p. all ! nat (p_index p)) ps) g'" for g'
    using Cons.prems i by (intro Cons.IH) auto
  ultimately show ?case using i by (auto simp: max_def add.commute split: option.split)
qed simp

text \<open>Packets that a seek reaches: all but a packet 0 that is not the first.\<close>

definition seekable :: "int \<Rightarrow> mmpacket list \<Rightarrow> bool" where
  "seekable pos ps \<longleftrightarrow> (\<forall>p\<in>set (if pos = 0 then tl ps else ps). p_index p \<noteq> 0)"

lemma seekable_later: "seekable pos (p # ps) \<Longrightarrow> 0 < q \<Longrightarrow> seekable q ps"
  by (auto simp: seekable_def split: if_splits)

lemma sorted_seekable: "sorted_wrt (<) (map p_index ps) \<Longrightarrow> \<forall>p\<in>set ps. 0 \<le> p_index p \<Longrightarrow> seekable 0 ps"
  by (cases ps) (auto simp: seekable_def)

lemma read_from_block:
  assumes "seekable pos (p # ps)" and "0 < blk" and "0 \<le> p_index p" and "p_index p < int (length all)" and "0 \<le> pos"
    and "\<And>i. i < length all \<Longrightarrow> readmsr_at lib fn (blk * int i) = Some (all ! i) \<and> reclen (all ! i) = blk"
  shows "\<exists>q > 0. read_from lib fn blk p pos = Some (all ! nat (p_index p), q)"
proof -
  let ?i = "nat (p_index p)"
  have r: "readmsr_at lib fn (blk * p_index p) = Some (all ! ?i)" "reclen (all ! ?i) = blk"
    using assms(6) [of ?i] assms(3,4) by simp_all
  show ?thesis
  proof (cases "p_index p = 0")
    case True
    then have "pos = 0" using assms(1) by (simp add: seekable_def split: if_splits)
    then show ?thesis using r True assms(2) by (simp add: read_from_def)
  next
    case False
    then have "0 < blk * p_index p" using assms(2,3) by simp
    then show ?thesis using r assms(2) by (simp add: read_from_def)
  qed
qed

lemma pluck_seek_records:
  assumes "\<forall>p\<in>set ps. 0 \<le> p_index p \<and> p_index p < int (length all)" and "seekable pos ps" and "0 < blk" and "0 \<le> pos"
    and "\<And>i. i < length all \<Longrightarrow> readmsr_at lib fn (blk * int i) = Some (all ! i) \<and> reclen (all ! i) = blk"
  shows "pluck_seek lib fn blk ps pos g = add_records lib (-1) (map (\<lambda>p. all ! nat (p_index p)) ps) g"
  using assms(1,2,4)
proof (induction ps arbitrary: pos g)
  case (Cons p ps)
  obtain q where q: "0 < q" "read_from lib fn blk p pos = Some (all ! nat (p_index p), q)"
    using read_from_block [OF Cons.prems(2) assms(3) _ _ Cons.prems(3) assms(5)] Cons.prems(1) by auto
  have "pluck_seek lib fn blk ps q g' = add_records lib (-1) (map (\<lambda>p. all ! nat (p_index p)) ps) g'" for g'
    using Cons.prems seekable_later [OF Cons.prems(2) q(1)] q(1) by (intro Cons.IH) auto
  then show ?case using q(2) by (auto split: option.split)
qed simp

text \<open>
  C32: The two ways of reading a multiplexed file select the same records, those of the trace's packets, if these are
  in the order of the file: the loop over a file with blocks of several sizes, and, where all blocks have
  the same size and seeking to a block reads its record, the seeks. They differ in the tolerance: with
  -2 the library takes any record to continue a segment and with -1 one within half a sample, so that
  the loop hides the gaps of the channel.
\<close>

theorem pluckPackets_records:
  fixes lib :: "('d, 'g) mslib" and trace :: "'d traceInfo"
  defines "recs \<equiv> fst (readmsr lib (fileName trace))"
  assumes "sorted_wrt (<) (map p_index (mpackets trace))" and "0 \<le> blkSize trace"
    and "\<forall>p\<in>set (mpackets trace). 0 \<le> p_index p \<and> p_index p < int (length recs)"
    and "\<And>i. 0 < blkSize trace \<Longrightarrow> i < length recs \<Longrightarrow>
      readmsr_at lib (fileName trace) (blkSize trace * int i) = Some (recs ! i) \<and> reclen (recs ! i) = blkSize trace"
  shows "pluckPackets lib trace = add_records lib (if blkSize trace = 0 then -2 else -1)
    (map (\<lambda>p. recs ! nat (p_index p)) (mpackets trace)) (initgroup lib)"
proof (cases "blkSize trace = 0")
  case True
  then show ?thesis
    using pluck_loop_records [of "mpackets trace" 0 recs lib "initgroup lib"] assms(2,4) by (simp add: pluckPackets_def recs_def)
next
  case False
  then have "0 < blkSize trace" using assms(3) by simp
  then show ?thesis
    using pluck_seek_records [OF assms(4) sorted_seekable [OF assms(2)], of "blkSize trace" lib "fileName trace"] assms(4,5)
    by (simp add: pluckPackets_def)
qed

text \<open>A library whose groups are lists of records, and a trace of the packets 1 and 3.\<close>

definition demo_lib :: "(int, int msrecord list) mslib" where
  "demo_lib = \<lparr>readmsr = demo_fs, readtraces = (\<lambda>fn. Some (fst (demo_fs fn))),
     readmsr_at = (\<lambda>fn off. Some (fst (demo_fs fn) ! nat (off div 512))), initgroup = [],
     addmsrtogroup = (\<lambda>g r t1 t2. Some (g @ [r])), group_traces = (\<lambda>g. None), msr_endtime = (\<lambda>r. m_starttime r + 9000000)\<rparr>"

definition demo_plex :: "int traceInfo" where
  "demo_plex = calloc_trace\<lparr>fileType := MSEED_MPLEX_DATA, blkSize := 512,
     mpackets := [\<lparr>p_index = 1, p_sampleCnt = 10, p_startTime = 0\<rparr>, \<lparr>p_index = 3, p_sampleCnt = 10, p_startTime = 90000000\<rparr>]\<rparr>"

theorem pluckPackets_records_witness:
  "pluckPackets demo_lib demo_plex = Some [demo_record ''BHN'' 10000000, demo_record ''BHN'' 90000000]"
proof -
  have "reclen (fst (demo_fs fn) ! i) = 512" if "i < 4" for fn i
    using that by (auto simp: demo_fs_def demo_record_def nth_Cons split: nat.split)
  then show ?thesis
    using pluckPackets_records [of demo_plex demo_lib]
    by (simp add: demo_plex_def demo_lib_def calloc_trace_def) (simp add: demo_fs_def)
qed

section \<open>Segments on the grid of sample times\<close>

text \<open>
  A segment lies on the grid of a start time and a sample interval in microseconds if its times do; it is
  then a segment of the timeline.
\<close>

definition on_grid :: "int \<Rightarrow> int \<Rightarrow> 'd mstrace \<Rightarrow> bool" where
  "on_grid P s0 t \<longleftrightarrow>
     g_samples t \<noteq> [] \<and> g_samplecnt t = int (length (g_samples t)) \<and> s0 \<le> g_starttime t \<and> P dvd g_starttime t - s0 \<and>
     g_endtime t = g_starttime t + P * (g_samplecnt t - 1)"

definition grid_seg :: "int \<Rightarrow> int \<Rightarrow> 'd mstrace \<Rightarrow> 'd seg" where
  "grid_seg P s0 t = (nat ((g_starttime t - s0) div P), g_samples t)"

text \<open>The variables of the loop after the samples \<open>buf\<close> with the gaps \<open>gs\<close>.\<close>

definition asm_at :: "int \<Rightarrow> int \<Rightarrow> nat \<Rightarrow> 'd asm \<Rightarrow> 'd list \<times> (int \<times> int) list \<Rightarrow> bool" where
  "asm_at P s0 d s st \<longleftrightarrow>
     \<not> as_first s \<and> as_oneSample s = of_int P \<and> sampInt (head (as_trace s)) = of_int P \<and> as_dataSize s = d \<and>
     as_buf s = fst st \<and> as_prev_endT s = s0 + P * (int (length (fst st)) - 1) \<and>
     gaps (as_trace s) = unpairs (snd st) \<and> as_numGaps s = length (snd st)"

lemma unpairs_length [simp]: "length (unpairs ps) = 2 * length ps"
  by (induction ps) (auto simp: unpairs_def)

lemma unpairs_snoc: "unpairs (ps @ [(a, b)]) = unpairs ps @ [a, b]"
  by (simp add: unpairs_def)

lemma grid_less:
  assumes "0 < P"
  shows "real_of_int (s0 + P * a) < of_int (s0 + P * (n - 1)) + of_int P \<longleftrightarrow> a < n"
    and "real_of_int (s0 + P * (n - 1)) + of_int P < of_int (s0 + P * a) \<longleftrightarrow> n < a"
    and "real_of_int (s0 + P * a) \<le> of_int (s0 + P * (n - 1)) + of_int P \<longleftrightarrow> a \<le> n"
proof -
  have e: "real_of_int (s0 + P * (n - 1)) + of_int P = of_int (s0 + P * n)" by (simp add: algebra_simps)
  show "real_of_int (s0 + P * a) < of_int (s0 + P * (n - 1)) + of_int P \<longleftrightarrow> a < n"
    and "real_of_int (s0 + P * (n - 1)) + of_int P < of_int (s0 + P * a) \<longleftrightarrow> n < a"
    and "real_of_int (s0 + P * a) \<le> of_int (s0 + P * (n - 1)) + of_int P \<longleftrightarrow> a \<le> n"
    unfolding e of_int_less_iff of_int_le_iff using assms by simp_all
qed

lemma trunc_div: "0 < P \<Longrightarrow> c_trunc (of_int (P * k) / of_int P) = k"
  using c_trunc_of_int [of k] by simp

lemma grid_index:
  assumes "on_grid P s0 t" and "0 < P"
  obtains a where "grid_seg P s0 t = (a, g_samples t)" "g_starttime t = s0 + P * int a"
    "g_endtime t = s0 + P * (int a + g_samplecnt t - 1)" "g_samplecnt t = int (length (g_samples t))" "g_samples t \<noteq> []"
proof -
  from assms(1) obtain k where k: "g_starttime t - s0 = P * k" unfolding on_grid_def by (auto elim: dvdE)
  moreover have "0 \<le> P * k" using assms(1) k by (simp add: on_grid_def)
  then have "0 \<le> k" using assms(2) by (simp add: zero_le_mult_iff)
  ultimately show thesis
    using that [of "nat k"] assms by (auto simp: on_grid_def grid_seg_def algebra_simps)
qed

lemma asm_at_fields:
  assumes "asm_at P s0 d s (buf, gs)"
  shows "as_oneSample s = of_int P" "sampInt (head (as_trace s)) = of_int P" "as_dataSize s = d" "as_buf s = buf"
    "as_prev_endT s = s0 + P * (int (length buf) - 1)" "gaps (as_trace s) = unpairs gs" "as_numGaps s = length gs"
  using assms by (simp_all add: asm_at_def)

lemma olap_points_grid:
  assumes "asm_at P s0 d s (buf, gs)" "0 < P" "g_starttime t = s0 + P * a"
  shows "olap_points t s = int (length buf) - a"
proof -
  have e: "- (of_int (g_starttime t) - (of_int (as_prev_endT s) + as_oneSample s)) = (of_int (P * (int (length buf) - a)) :: real)"
    unfolding asm_at_fields [OF assms(1)] assms(3) by (simp add: algebra_simps)
  show ?thesis
    using assms(1,2) unfolding olap_points_def e c_trunc_of_int by (simp add: asm_at_def trunc_div del: of_int_mult)
qed

lemma gap_samples_grid:
  assumes "asm_at P s0 d s (buf, gs)" "0 < P" "g_starttime t = s0 + P * a"
  shows "gap_samples t s = a - int (length buf)"
proof -
  have e: "of_int (g_starttime t - as_prev_endT s) - as_oneSample s = (of_int (P * (a - int (length buf))) :: real)"
    unfolding asm_at_fields [OF assms(1)] assms(3) by (simp add: algebra_simps)
  show ?thesis
    using assms(1,2) unfolding gap_samples_def e c_trunc_of_int by (simp add: asm_at_def trunc_div del: of_int_mult)
qed

section \<open>The loop refines the timeline\<close>

lemma grow_ok:
  "fits_int need \<Longrightarrow> need \<le> avail \<Longrightarrow> grow avail need s = Some (Inr (s\<lparr>as_mem := max (as_mem s) need\<rparr>))"
  by (simp add: grow_def max_def)

lemma put_ok:
  "(totSamp s + int (length xs)) * int (as_dataSize s) \<le> as_mem s \<Longrightarrow>
   put_samples xs s = Some (Inr (s\<lparr>as_buf := as_buf s @ xs\<rparr>))"
  by (simp add: put_samples_def)

text \<open>Sizes that fit: no \<^verbatim>\<open>int\<close> overflows and the allocator has the block.\<close>

definition room :: "int \<Rightarrow> nat \<Rightarrow> nat \<Rightarrow> bool" where
  "room avail d n \<longleftrightarrow> int n * int d \<le> avail \<and> int n * int d < 2 ^ 31 \<and> 0 < d"

lemma room_fits: "room avail d n \<Longrightarrow> m \<le> n \<Longrightarrow> fits_int (int m * int d) \<and> int m * int d \<le> avail \<and> fits_int (int m)"
proof -
  assume r: "room avail d n" and m: "m \<le> n"
  have "int m * 1 \<le> int m * int d" using r by (intro mult_left_mono) (auto simp: room_def)
  moreover have "int m * int d \<le> int n * int d" using m by (intro mult_right_mono) auto
  moreover have "0 \<le> int m * int d" by simp
  ultimately show ?thesis using r unfolding room_def fits_int_def by linarith
qed

lemma room_mono: "room avail d n \<Longrightarrow> m \<le> n \<Longrightarrow> room avail d m"
  using room_fits [of avail d n m] by (simp add: room_def fits_int_def)

lemma seg_samples_ok: "k + n \<le> length (g_samples t) \<Longrightarrow> seg_samples (int k) (int n) t = Some (take n (drop k (g_samples t)))"
  by (simp add: seg_samples_def)

text \<open>The overlap of a segment that starts before the end: what is saved, and what is left to copy.\<close>

lemma asm_overlap_grid:
  fixes t :: "'d mstrace"
  defines "xs \<equiv> g_samples t"
  assumes at: "asm_at P s0 d s (buf, gs)" and P: "0 < P" and st: "g_starttime t = s0 + P * int a"
    and en: "g_endtime t = s0 + P * (int a + g_samplecnt t - 1)" and n: "g_samplecnt t = int (length xs)"
    and lt: "a < length buf" and edge: "a + length xs \<noteq> length buf + 1" and room: "room avail d (max (length buf) (a + length xs))"
  defines "m \<equiv> min (length xs) (length buf - a)"
  shows "asm_overlap avail t s = Some
    (if length xs \<le> length buf - a then 0 else int m, int (length xs - m),
     s\<lparr>as_numOlaps := as_numOlaps s + 1,
       as_trace := (as_trace s)\<lparr>overlaps := take (2 * as_numOlaps s) (overlaps (as_trace s)) @ [int a, int (a + m)],
         olapData := olapData (as_trace s) @ [\<lparr>o_start = int a, o_end = int (a + m), o_len = int m, o_data = take m xs\<rparr>]\<rparr>\<rparr>)"
proof -
  note f = asm_at_fields [OF at]
  have full: "olap_full t s \<longleftrightarrow> length xs \<le> length buf - a"
  proof -
    have "olap_full t s \<longleftrightarrow> int a + g_samplecnt t - 1 \<le> int (length buf)"
      unfolding olap_full_def f en by (rule grid_less(3) [OF P])
    then show ?thesis using n edge lt by linarith
  qed
  have start: "of_int (g_starttime t) < of_int (as_prev_endT s) + as_oneSample s"
    unfolding f st using grid_less(1) [OF P, of s0 "int a" "int (length buf)"] lt by simp
  have npts: "(if olap_full t s then g_samplecnt t else olap_points t s) = int m"
    using full n lt olap_points_grid [OF at P st] by (auto simp: m_def)
  have "m \<le> max (length buf) (a + length xs)" by (simp add: m_def)
  from room_fits [OF room this] have mfit: "fits_int (int m * int d)" "int m * int d \<le> avail" by simp_all
  have pfit: "fits_int (olap_points t s)"
    using room_fits [OF room, of "length buf - a"] lt olap_points_grid [OF at P st] by (simp add: of_nat_diff)
  have tot: "totSamp s - olap_points t s = int a" using olap_points_grid [OF at P st] by (simp add: totSamp_def f)
  have sam: "seg_samples 0 (int m) t = Some (take m xs)" using seg_samples_ok [of 0 m t] by (simp add: m_def xs_def)
  have one: "as_oneSample s \<noteq> 0" using P by (simp add: f)
  show ?thesis
    unfolding asm_overlap_def npts Let_def tot f(3)
    using start mfit pfit sam one full n by (auto simp: m_def)
qed

lemma no_overlap_grid:
  assumes at: "asm_at P s0 d s (buf, gs)" and P: "0 < P" and st: "g_starttime t = s0 + P * int a" and "length buf \<le> a"
  shows "asm_overlap avail t s = Some (0, g_samplecnt t, s)"
  using grid_less(1) [OF P, of s0 "int a" "int (length buf)"] assms(4)
  by (simp add: asm_overlap_def asm_at_fields [OF at] st)

lemma asm_gap_grid:
  fixes t :: "'d::zero mstrace"
  assumes at: "asm_at P s0 d s (buf, gs)" and P: "0 < P" and st: "g_starttime t = s0 + P * int a"
    and room: "room avail d (a + c)"
  shows "\<exists>m. asm_gap avail (int c) t s = Some (Inr
    (if a \<le> length buf then s
     else s\<lparr>as_trace := (as_trace s)\<lparr>gaps := unpairs (gs @ [(int (length buf), int a)])\<rparr>, as_mem := m,
            as_buf := buf @ replicate (a - length buf) 0, as_numGaps := as_numGaps s + 1\<rparr>))"
proof (cases "a \<le> length buf")
  case True
  then show ?thesis
    using grid_less(2) [OF P, of s0 "int (length buf)" "int a"] by (simp add: asm_gap_def asm_at_fields [OF at] st)
next
  case False
  note f = asm_at_fields [OF at]
  have start: "of_int (as_prev_endT s) + as_oneSample s < of_int (g_starttime t)"
    unfolding f st using grid_less(2) [OF P, of s0 "int (length buf)" "int a"] False by simp
  have g: "gap_samples t s = int (a - length buf)" using gap_samples_grid [OF at P st] False by simp
  have tot: "totSamp s = int (length buf)" "totSamp s + int (a - length buf) = int a" using False by (simp_all add: totSamp_def f)
  have fit: "fits_int (int (a - length buf))" "fits_int (int a)" "fits_int ((int c + int a) * int d)" "(int c + int a) * int d \<le> avail"
    using room_fits [OF room, of "a - length buf"] room_fits [OF room, of a] room_fits [OF room, of "c + a"] by simp_all
  have le: "int a * int d \<le> max m ((int c + int a) * int d)" for m
    by (intro max.coboundedI2 mult_right_mono) auto
  have one: "as_oneSample s \<noteq> 0" using P by (simp add: f)
  have "nat (int a - int (length buf)) = a - length buf" by simp
  then show ?thesis
    using start False one fit le [of "as_mem s"]
    by (auto simp: asm_gap_def g Let_def tot f grow_ok put_ok unpairs_snoc totSamp_def)
qed

lemma asm_copy_grid:
  assumes "room avail (as_dataSize s) (length (as_buf s) + c)" and "k + c \<le> length (g_samples t)"
  shows "\<exists>m. asm_copy avail (int k) (int c) t s = Some (Inr
    (s\<lparr>as_mem := m, as_buf := as_buf s @ take c (drop k (g_samples t)), as_prev_endT := max (as_prev_endT s) (g_endtime t)\<rparr>))"
proof -
  have "fits_int ((int c + int (length (as_buf s))) * int (as_dataSize s))"
    "(int c + int (length (as_buf s))) * int (as_dataSize s) \<le> avail"
    using room_fits [OF assms(1), of "length (as_buf s) + c"] by (simp_all add: add.commute)
  then show ?thesis
    using assms(2) by (auto simp: asm_copy_def grow_ok totSamp_def seg_samples_ok put_ok add.commute)
qed

lemma asm_next_overlapping:
  fixes t :: "'d::zero mstrace"
  assumes at: "asm_at P s0 d s (buf, gs)" and P: "0 < P" and t: "on_grid P s0 t" and seg: "grid_seg P s0 t = (a, xs)"
    and room: "room avail d (max (length buf) (a + length xs))"
    and True: "a < length buf" and edge: "a + length xs \<noteq> length buf + 1"
  shows "\<exists>s'. asm_next avail t s = Some (Inr s') \<and> asm_at P s0 d s' (merge_seg (a, xs) (buf, gs)) \<and>
    head (as_trace s') = head (as_trace s)"
proof -
  have g: "g_starttime t = s0 + P * int a" "g_endtime t = s0 + P * (int a + g_samplecnt t - 1)"
    "g_samplecnt t = int (length xs)" "xs = g_samples t"
    using t P seg by (auto elim!: grid_index)
  have mono: "P * i \<le> P * j" if "i \<le> j" for i j using that P by (intro mult_left_mono) auto
  define m where "m = min (length xs) (length buf - a)"
  obtain s1 where s1: "asm_overlap avail t s = Some (if length xs \<le> length buf - a then 0 else int m, int (length xs - m), s1)"
    "asm_at P s0 d s1 (buf, gs)" "head (as_trace s1) = head (as_trace s)"
    using asm_overlap_grid [OF at P g(1,2) g(3) [unfolded g(4)] True] edge room at
    unfolding g(4) [symmetric] m_def by (auto simp: asm_at_def)
  have "room avail d (a + (length xs - m))" by (rule room_mono [OF room]) (simp add: m_def)
  from asm_gap_grid [OF s1(2) P g(1) this]
  have gap: "asm_gap avail (int (length xs - m)) t s1 = Some (Inr s1)" using True by simp
  show ?thesis
  proof (cases "length xs \<le> length buf - a")
    case full: True
    have "room avail (as_dataSize s1) (length (as_buf s1) + 0)"
      using room_mono [OF room, of "length buf"] by (simp add: asm_at_fields [OF s1(2)])
    from asm_copy_grid [OF this, of 0 t] obtain m' where
      "asm_copy avail 0 0 t s1 = Some (Inr (s1\<lparr>as_mem := m', as_prev_endT := max (as_prev_endT s1) (g_endtime t)\<rparr>))"
      by auto
    moreover have "g_endtime t \<le> as_prev_endT s1"
      unfolding g(2,3) asm_at_fields [OF s1(2)] using mono [of "int a + int (length xs) - 1" "int (length buf) - 1"] full True by simp
    ultimately show ?thesis
      using s1 gap full True by (auto simp: asm_next_def m_def merge_seg_def asm_at_def max_def)
  next
    case part: False
    then have mm: "m = length buf - a" by (simp add: m_def)
    have "room avail (as_dataSize s1) (length (as_buf s1) + (length xs - m))"
      by (simp add: asm_at_fields [OF s1(2)]) (rule room_mono [OF room], use part True mm in simp)
    from asm_copy_grid [OF this, of m t] part g(4) mm obtain m' where
      "asm_copy avail (int m) (int (length xs - m)) t s1 = Some (Inr (s1\<lparr>as_mem := m', as_buf := buf @ drop m xs,
         as_prev_endT := max (as_prev_endT s1) (g_endtime t)\<rparr>))"
      by (auto simp: asm_at_fields [OF s1(2)])
    moreover have "max (as_prev_endT s1) (g_endtime t) = s0 + P * (int (a + length xs) - 1)"
      unfolding g(2,3) asm_at_fields [OF s1(2)] using mono [of "int (length buf) - 1" "int a + int (length xs) - 1"] part True by (simp add: max_def)
    ultimately show ?thesis
      using s1 gap part True mm by (auto simp: asm_next_def merge_seg_def asm_at_def)
  qed
qed

lemma asm_next_later:
  fixes t :: "'d::zero mstrace"
  assumes at: "asm_at P s0 d s (buf, gs)" and P: "0 < P" and t: "on_grid P s0 t" and seg: "grid_seg P s0 t = (a, xs)"
    and room: "room avail d (max (length buf) (a + length xs))"
    and le: "length buf \<le> a"
  shows "\<exists>s'. asm_next avail t s = Some (Inr s') \<and> asm_at P s0 d s' (merge_seg (a, xs) (buf, gs)) \<and>
    head (as_trace s') = head (as_trace s)"
proof -
  have g: "g_starttime t = s0 + P * int a" "g_endtime t = s0 + P * (int a + g_samplecnt t - 1)"
    "g_samplecnt t = int (length xs)" "xs = g_samples t"
    using t P seg by (auto elim!: grid_index)
  note f = asm_at_fields [OF at]
  have mono: "P * i \<le> P * j" if "i \<le> j" for i j using that P by (intro mult_left_mono) auto
  have "room avail d (a + length xs)" by (rule room_mono [OF room]) simp
  from asm_gap_grid [OF at P g(1) this] obtain m where
    gap: "asm_gap avail (int (length xs)) t s = Some (Inr (if a \<le> length buf then s
      else s\<lparr>as_trace := (as_trace s)\<lparr>gaps := unpairs (gs @ [(int (length buf), int a)])\<rparr>, as_mem := m,
          as_buf := buf @ replicate (a - length buf) 0, as_numGaps := as_numGaps s + 1\<rparr>))" (is "_ = Some (Inr ?s1)")
    by blast
  have s1: "as_dataSize ?s1 = d" "length (as_buf ?s1) = a" "as_prev_endT ?s1 = as_prev_endT s"
    "as_buf ?s1 = buf @ replicate (a - length buf) 0" using le f by auto
  have "room avail (as_dataSize ?s1) (length (as_buf ?s1) + length xs)"
    unfolding s1(1,2) by (rule room_mono [OF room]) simp
  from asm_copy_grid [OF this, of 0 t] g(4) s1 obtain m' where
    "asm_copy avail 0 (int (length xs)) t ?s1 = Some (Inr (?s1\<lparr>as_mem := m', as_buf := as_buf ?s1 @ xs,
       as_prev_endT := max (as_prev_endT s) (g_endtime t)\<rparr>))"
    by auto
  moreover have "max (as_prev_endT s) (g_endtime t) = s0 + P * (int (a + length xs) - 1)"
    unfolding g(2,3) f using mono [of "int (length buf) - 1" "int a + int (length xs) - 1"] le by (simp add: max_def)
  ultimately show ?thesis
    using no_overlap_grid [OF at P g(1) le] gap le g(3) f at
    by (auto simp: asm_next_def merge_seg_def asm_at_def Let_def)
qed

lemma asm_next_refines:
  fixes t :: "'d::zero mstrace"
  assumes at: "asm_at P s0 d s (buf, gs)" and P: "0 < P" and t: "on_grid P s0 t" and seg: "grid_seg P s0 t = (a, xs)"
    and room: "room avail d (max (length buf) (a + length xs))"
    and edge: "a < length buf \<Longrightarrow> a + length xs \<noteq> length buf + 1"
  shows "\<exists>s'. asm_next avail t s = Some (Inr s') \<and> asm_at P s0 d s' (merge_seg (a, xs) (buf, gs)) \<and>
    head (as_trace s') = head (as_trace s)"
  using asm_next_overlapping [OF at P t seg room] asm_next_later [OF at P t seg room] edge
  by (cases "a < length buf") simp_all

text \<open>
  The end of the samples after some segments, and the one case in which the loop leaves the timeline: a
  segment that starts before the end and ends exactly one sample after it.
\<close>

definition ends :: "nat \<Rightarrow> 'd seg list \<Rightarrow> nat" where
  "ends n ss = fold (\<lambda>(a, xs) n. max n (a + length xs)) ss n"

fun no_edge :: "nat \<Rightarrow> 'd seg list \<Rightarrow> bool" where
  "no_edge n [] = True"
| "no_edge n ((a, xs) # ss) = ((a < n \<longrightarrow> a + length xs \<noteq> n + 1) \<and> no_edge (max n (a + length xs)) ss)"

lemma ends_ge: "n \<le> ends n ss"
proof (induction ss arbitrary: n)
  case (Cons s ss)
  from Cons [of "case s of (a, xs) \<Rightarrow> max n (a + length xs)"] show ?case by (auto simp: ends_def split: prod.splits)
qed (simp add: ends_def)

lemma ends_Cons: "ends n ((a, xs) # ss) = ends (max n (a + length xs)) ss"
  by (simp add: ends_def)

lemma merge_seg_length: "length (fst (merge_seg (a, xs) (buf, gs))) = max (length buf) (a + length xs)"
  by (auto simp: merge_seg_def Let_def)

lemma fold_merge_length: "length (fst (fold merge_seg ss st)) = ends (length (fst st)) ss"
proof (induction ss arbitrary: st)
  case (Cons s ss)
  then show ?case by (cases s; cases st) (simp add: ends_Cons merge_seg_length)
qed (simp add: ends_def)

lemma asm_loop_refines:
  fixes ts :: "'d::zero mstrace list"
  assumes "asm_at P s0 d s st" and "0 < P" and "\<forall>t\<in>set ts. same_ids t (head (as_trace s)) \<and> on_grid P s0 t"
    and "no_edge (length (fst st)) (map (grid_seg P s0) ts)" and "room avail d (ends (length (fst st)) (map (grid_seg P s0) ts))"
  shows "\<exists>s'. asm_loop avail ts s = Some (Inr s') \<and> asm_at P s0 d s' (fold merge_seg (map (grid_seg P s0) ts) st) \<and>
    head (as_trace s') = head (as_trace s)"
  using assms
proof (induction ts arbitrary: s st)
  case (Cons t ts)
  obtain buf gs where st: "st = (buf, gs)" by (cases st)
  obtain a xs where seg: "grid_seg P s0 t = (a, xs)" by (cases "grid_seg P s0 t")
  have t: "on_grid P s0 t" "same_ids t (head (as_trace s))" "g_samplecnt t \<noteq> 0" using Cons.prems(3) by (auto simp: on_grid_def)
  have "room avail d (max (length buf) (a + length xs))"
    using Cons.prems(5) ends_ge by (auto simp: st seg ends_Cons intro: room_mono)
  moreover have "a < length buf \<Longrightarrow> a + length xs \<noteq> length buf + 1" using Cons.prems(4) by (simp add: st seg)
  ultimately obtain s1 where s1: "asm_next avail t s = Some (Inr s1)" "asm_at P s0 d s1 (merge_seg (a, xs) st)"
      "head (as_trace s1) = head (as_trace s)"
    using asm_next_refines [OF Cons.prems(1) [unfolded st] \<open>0 < P\<close> t(1) seg] st by blast
  have "\<exists>s'. asm_loop avail ts s1 = Some (Inr s') \<and>
      asm_at P s0 d s' (fold merge_seg (map (grid_seg P s0) ts) (merge_seg (a, xs) st)) \<and> head (as_trace s') = head (as_trace s1)"
    using Cons.prems s1 by (intro Cons.IH) (simp_all add: st seg merge_seg_length ends_Cons)
  then show ?case using t s1 seg Cons.prems(1) by (auto simp: asm_at_def)
qed auto

lemma setStartTime_keeps [simp]:
  "sampInt (head (setStartTime hp t)) = sampInt (head t)" "dataSize (head (setStartTime hp t)) = dataSize (head t)"
  "gaps (setStartTime hp t) = gaps t" "same_ids m (head (setStartTime hp t)) = same_ids m (head t)"
  "dataInfo (setStartTime hp t) = dataInfo t"
  by (simp_all add: setStartTime_def Let_def same_ids_def)

lemma asm_first_grid:
  fixes t :: "'d::zero mstrace"
  assumes "on_grid P s0 t" and "0 < P" and "s0 = g_starttime t" and "sampInt (head (as_trace s)) = of_int P"
    and "dataSize (head (as_trace s)) = d" and "gaps (as_trace s) = []" and "as_numGaps s = 0"
    and "room avail d (length (g_samples t))"
  shows "\<exists>s'. asm_first avail t s = Some (Inr s') \<and> asm_at P s0 d s' (g_samples t, []) \<and>
    head (as_trace s') = head (setStartTime s0 (as_trace s))"
proof -
  have n: "g_samplecnt t = int (length (g_samples t))" "g_endtime t = s0 + P * (int (length (g_samples t)) - 1)"
    using assms(1,3) by (auto simp: on_grid_def)
  have fit: "fits_int (int (length (g_samples t)) * int d)" "int (length (g_samples t)) * int d \<le> avail"
    using room_fits [OF assms(8), of "length (g_samples t)"] by simp_all
  have "seg_samples 0 (g_samplecnt t) t = Some (g_samples t)" using seg_samples_ok [of 0 "length (g_samples t)" t] n by simp
  then show ?thesis
    using assms fit n by (simp add: asm_first_def Let_def grow_ok put_ok totSamp_def asm_at_def unpairs_def)
qed

lemma grid_seg_sorted:
  assumes "0 < P" and "sorted (map g_starttime ts)"
  shows "sorted (map fst (map (grid_seg P s0) ts))"
  using assms by (auto simp: sorted_map grid_seg_def intro!: nat_mono zdiv_mono1 elim!: sorted_wrt_mono_rel [rotated])

text \<open>The segments of a group that can be joined: of the trace's channel, on one grid, in the order of time.\<close>

definition joinable :: "'d traceInfo \<Rightarrow> int \<Rightarrow> 'd mstrace list \<Rightarrow> bool" where
  "joinable trace P ts \<longleftrightarrow>
     ts \<noteq> [] \<and> 0 < P \<and> sampInt (head trace) = of_int P \<and> gaps trace = [] \<and> sorted (map g_starttime ts) \<and>
     (\<forall>t\<in>set ts. same_ids t (head trace) \<and> on_grid P (g_starttime (hd ts)) t)"

lemma asm_loop_timeline:
  fixes ts :: "'d::zero mstrace list"
  assumes ok: "joinable trace P ts" and s: "as_first s" "as_numGaps s = 0" "as_trace s = trace"
  defines "segs \<equiv> map (grid_seg P (g_starttime (hd ts))) ts"
  assumes edge: "no_edge 0 segs" and room: "room avail (dataSize (head trace)) (ends 0 segs)"
  shows "\<exists>s' gs. asm_loop avail ts s = Some (Inr s') \<and>
    asm_at P (g_starttime (hd ts)) (dataSize (head trace)) s' (timeline segs (ends 0 segs), gs) \<and>
    head (as_trace s') = head (setStartTime (g_starttime (hd ts)) trace) \<and>
    (\<forall>k<ends 0 segs. in_gap gs (int k) = (seg_at segs k = None)) \<and> wf_gaps 1 (int (ends 0 segs)) gs"
proof -
  obtain t ts' where ts: "ts = t # ts'" using ok by (cases ts) (auto simp: joinable_def)
  define s0 where "s0 = g_starttime t"
  define xs where "xs = g_samples t"
  have t: "on_grid P s0 t" "same_ids t (head trace)" "0 < P" "g_samplecnt t \<noteq> 0" "xs \<noteq> []"
    using ok by (auto simp: joinable_def ts s0_def xs_def on_grid_def)
  have seg0: "grid_seg P s0 t = (0, xs)" by (simp add: grid_seg_def s0_def xs_def)
  have segs: "segs = (0, xs) # map (grid_seg P s0) ts'" by (simp add: segs_def ts s0_def [symmetric] seg0)
  define rest where "rest = map (grid_seg P s0) ts'"
  have e: "ends 0 segs = ends (length xs) rest" "no_edge (length xs) rest" using edge by (simp_all add: segs ends_Cons rest_def)
  have "room avail (dataSize (head trace)) (length xs)" using room e(1) ends_ge [of "length xs" rest] by (auto intro: room_mono)
  then obtain s1 where s1: "asm_first avail t s = Some (Inr s1)" "asm_at P s0 (dataSize (head trace)) s1 (xs, [])"
      "head (as_trace s1) = head (setStartTime s0 trace)"
    using asm_first_grid [OF t(1,3), of s "dataSize (head trace)" avail] ok s by (auto simp: joinable_def s0_def xs_def)
  have "\<forall>t\<in>set ts'. same_ids t (head (as_trace s1)) \<and> on_grid P s0 t"
    using ok s1(3) by (auto simp: joinable_def ts s0_def)
  then obtain s2 where s2: "asm_loop avail ts' s1 = Some (Inr s2)"
      "asm_at P s0 (dataSize (head trace)) s2 (fold merge_seg rest (xs, []))" "head (as_trace s2) = head (as_trace s1)"
    using asm_loop_refines [OF s1(2) t(3), of ts' avail] e room by (auto simp: rest_def)
  obtain buf gs where f: "fold merge_seg rest (xs, []) = (buf, gs)" by (cases "fold merge_seg rest (xs, [])")
  have "sorted (map fst segs)" unfolding segs_def using ok by (intro grid_seg_sorted) (auto simp: joinable_def)
  moreover have "\<forall>s\<in>set rest. snd s \<noteq> []" using ok by (auto simp: rest_def joinable_def ts grid_seg_def on_grid_def)
  ultimately obtain l where j: "joined segs l buf gs"
    using merge_timeline [OF _ _ joined_first [OF t(5)], of rest] f by (auto simp: segs rest_def)
  have len: "length buf = ends 0 segs" using fold_merge_length [of rest "(xs, [])"] f e by simp
  have "asm_loop avail ts s = Some (Inr s2)" using t s s1(1) s2(1) ts by simp
  then show ?thesis using j s1(3) s2(2,3) f len unfolding joined_def by (auto simp: ts s0_def)
qed

lemma get_trace_joined:
  fixes lib :: "('d::zero, 'g) mslib" and trace :: "'d traceInfo"
  assumes "(if fileType trace = MSEED_DATA then readtraces lib (fileName trace) else pluckPackets lib trace) = Some g"
    and "group_traces lib g = Some ts" and "joinable trace P ts"
  defines "segs \<equiv> map (grid_seg P (g_starttime (ts ! 0))) ts"
  assumes "no_edge 0 segs" and "room avail (dataSize (head trace)) (ends 0 segs)"
  shows "\<exists>r. get_mseed_trace lib avail trace mem = Some (Inr r) \<and>
    d_data (dataInfo r) = Some (timeline segs (ends 0 segs)) \<and> numSamples (dataInfo r) = int (ends 0 segs) \<and>
    (\<forall>k<ends 0 segs. in_gap (pairs (gaps r)) (int k) = (seg_at segs k = None)) \<and>
    wf_gaps 1 (int (ends 0 segs)) (pairs (gaps r)) \<and> gaps r = unpairs (pairs (gaps r)) \<and> numGaps r = int (length (pairs (gaps r))) \<and>
    epochs (head r) = of_int (g_starttime (ts ! 0) div 1000) / 1000"
proof -
  let ?s = "\<lparr>as_first = True, as_numGaps = 0, as_numOlaps = 0, as_oneSample = 0, as_dataSize = 0, as_prev_endT = 0,
     as_mem = mem, as_buf = [], as_trace = trace\<rparr>"
  have hd: "ts ! 0 = hd ts" using assms(3) by (simp add: joinable_def hd_conv_nth)
  obtain s' gs where s': "asm_loop avail ts ?s = Some (Inr s')"
    "asm_at P (g_starttime (hd ts)) (dataSize (head trace)) s' (timeline segs (ends 0 segs), gs)"
    "head (as_trace s') = head (setStartTime (g_starttime (hd ts)) trace)"
    "\<forall>k<ends 0 segs. in_gap gs (int k) = (seg_at segs k = None)" "wf_gaps 1 (int (ends 0 segs)) gs"
    using asm_loop_timeline [OF assms(3), of ?s avail] assms(5,6) unfolding segs_def hd by auto
  then show ?thesis
    using assms(1,2) hd asm_at_fields [OF s'(2)] setStartTime_time [of "g_starttime (hd ts)" trace]
    by (simp add: get_mseed_trace_def Let_def totSamp_def timeline_def)
qed

text \<open>
  C18: The samples of a trace with gaps and overlaps: if the segments of the group are on one grid and in the
  order of time, no segment ends one sample after an overlap, and the sizes fit, then
  \<^verbatim>\<open>get_mseed_trace\<close> succeeds. The samples are the timeline of the segments, 0 where there is none; the gaps it
  notes are exactly the places without a sample, in order and apart; the start is that of the first segment.
\<close>

theorem get_mseed_trace_timeline:
  fixes lib :: "('d::zero, 'g) mslib" and trace :: "'d traceInfo"
  assumes "(if fileType trace = MSEED_DATA then readtraces lib (fileName trace) else pluckPackets lib trace) = Some g"
    and "group_traces lib g = Some ts" and "joinable trace P ts"
  defines "segs \<equiv> map (grid_seg P (g_starttime (ts ! 0))) ts"
  assumes "no_edge 0 segs" and "room avail (dataSize (head trace)) (ends 0 segs)"
  shows "\<exists>r. get_mseed_trace lib avail trace mem = Some (Inr r) \<and>
    d_data (dataInfo r) = Some (timeline segs (ends 0 segs)) \<and> numSamples (dataInfo r) = int (ends 0 segs) \<and>
    (\<forall>k<ends 0 segs. in_gap (pairs (gaps r)) (int k) = (seg_at segs k = None)) \<and>
    wf_gaps 1 (int (ends 0 segs)) (pairs (gaps r)) \<and> gaps r = unpairs (pairs (gaps r)) \<and> numGaps r = int (length (pairs (gaps r))) \<and>
    epochs (head r) = of_int (g_starttime (ts ! 0) div 1000) / 1000"
  using get_trace_joined [OF assms(1-3)] assms(5,6) unfolding segs_def by blast

text \<open>Three segments at one sample a second: the second overlaps the first, the third comes after a gap.\<close>

definition demo_seg :: "int \<Rightarrow> int list \<Rightarrow> int mstrace" where
  "demo_seg k xs = \<lparr>g_network = [], g_station = [], g_location = [], g_channel = [], g_starttime = 1000000 * k,
     g_endtime = 1000000 * (k + int (length xs) - 1), g_samprate = 1, g_samplecnt = int (length xs), g_sampletype = 105, g_samples = xs, g_dataquality = 0\<rparr>"

definition demo_group :: "int mstrace list \<Rightarrow> (int, int msrecord list) mslib" where
  "demo_group ts = demo_lib\<lparr>readtraces := \<lambda>fn. Some [], group_traces := \<lambda>g. Some ts\<rparr>"

definition demo_single :: "int traceInfo" where
  "demo_single = calloc_trace\<lparr>fileType := MSEED_DATA, head := calloc_head\<lparr>sampInt := 1000000, dataSize := 4\<rparr>\<rparr>"

lemmas demo_defs = demo_seg_def demo_group_def demo_single_def demo_lib_def calloc_trace_def calloc_head_def

lemma demo_single_fields:
  "fileType demo_single = MSEED_DATA" "sampInt (head demo_single) = 1000000" "dataSize (head demo_single) = 4"
  "gaps demo_single = []" "fileName demo_single = []"
  by (simp_all add: demo_defs)

lemma demo_seg_same_ids [simp]: "same_ids (demo_seg k xs) (head demo_single)"
  by (simp add: same_ids_def demo_defs)

lemma demo_seg_grid: "0 \<le> k \<Longrightarrow> xs \<noteq> [] \<Longrightarrow> on_grid 1000000 0 (demo_seg k xs)"
  by (simp add: on_grid_def demo_seg_def algebra_simps)

lemma demo_grid_seg: "0 \<le> k \<Longrightarrow> grid_seg 1000000 0 (demo_seg k xs) = (nat k, xs)"
  by (simp add: grid_seg_def demo_seg_def)

theorem get_mseed_trace_timeline_witness:
  "\<exists>r. get_mseed_trace (demo_group [demo_seg 0 [1, 2, 3], demo_seg 1 [2, 3, 4, 5], demo_seg 7 [8]]) 1000 demo_single 4 = Some (Inr r) \<and>
     d_data (dataInfo r) = Some [1, 2, 3, 4, 5, 0, 0, 8] \<and> in_gap (pairs (gaps r)) 6"
proof -
  let ?ts = "[demo_seg 0 [1, 2, 3], demo_seg 1 [2, 3, 4, 5], demo_seg 7 [8]]"
  let ?segs = "[(0, [1, 2, 3]), (1, [2, 3, 4, 5]), (7, [8::int])] :: int seg list"
  have s0: "g_starttime (?ts ! 0) = 0" by (simp add: demo_seg_def)
  have j: "joinable demo_single 1000000 ?ts"
    using s0 by (simp add: joinable_def demo_single_fields demo_seg_grid) (simp add: demo_seg_def)
  have segs: "map (grid_seg 1000000 0) ?ts = ?segs" by (simp add: demo_grid_seg)
  have e: "ends 0 ?segs = 8" by (simp add: ends_def)
  have t: "timeline ?segs 8 = [1, 2, 3, 4, 5, 0, 0, 8]" by (simp add: timeline_def upt_rec)
  have g: "group_traces (demo_group ?ts) [] = Some ?ts" "readtraces (demo_group ?ts) [] = Some []" by (simp_all add: demo_group_def)
  obtain r where r: "get_mseed_trace (demo_group ?ts) 1000 demo_single 4 = Some (Inr r)"
    "d_data (dataInfo r) = Some (timeline ?segs 8)" "\<forall>k<8. in_gap (pairs (gaps r)) (int k) = (seg_at ?segs k = None)"
    using get_mseed_trace_timeline [of demo_single "demo_group ?ts" "[]" ?ts 1000000 1000 4] j
    unfolding demo_single_fields g segs s0 e by (auto simp: room_def)
  have "in_gap (pairs (gaps r)) (int 6)" using r(3) [rule_format, of 6] by simp
  then show ?thesis using r t by simp
qed


section \<open>Files without gaps\<close>

text \<open>The records that count, and that each starts one sample after the end of the one before.\<close>

definition used_records :: "cstr \<Rightarrow> 'd msrecord list \<Rightarrow> 'd msrecord list" where
  "used_records loc recs = filter (\<lambda>r. m_location r = loc \<and> m_encoding r \<noteq> 0 \<and> m_samplecnt r \<noteq> 0) recs"

fun follows :: "('d, 'g) mslib \<Rightarrow> real \<Rightarrow> int \<Rightarrow> 'd msrecord list \<Rightarrow> bool" where
  "follows lib one nxt [] = True"
| "follows lib one nxt (r # rs) =
     ((nxt \<noteq> 0 \<longrightarrow> m_starttime r = nxt) \<and> follows lib one (c_trunc (of_int (msr_endtime lib r) + one)) rs)"

lemma data_loop_contiguous:
  assumes "sampInt (head (ds_trace s)) \<noteq> 0" and "follows lib (ds_one s) (ds_next s) (used_records (location (head (ds_trace s))) recs)"
    and "\<forall>r\<in>set recs. m_samplecnt r = int (length (m_samples r))"
    and "room avail (ds_size s) (length (ds_buf s) + length (concat (map m_samples (used_records (location (head (ds_trace s))) recs))))"
  shows "\<exists>m nxt. data_loop lib avail recs s = Some (Inr
    (s\<lparr>ds_buf := ds_buf s @ concat (map m_samples (used_records (location (head (ds_trace s))) recs)), ds_mem := m, ds_next := nxt\<rparr>, False))"
  using assms
proof (induction recs arbitrary: s)
  case Nil
  have "s = s\<lparr>ds_mem := ds_mem s, ds_next := ds_next s\<rparr>" by simp
  then have "\<exists>m nxt. s = s\<lparr>ds_mem := m, ds_next := nxt\<rparr>" by blast
  then show ?case by (simp add: used_records_def)
next
  case (Cons r recs)
  let ?loc = "location (head (ds_trace s))"
  show ?case
  proof (cases "m_location r = ?loc \<and> m_encoding r \<noteq> 0 \<and> m_samplecnt r \<noteq> 0")
    case False
    then have "used_records ?loc (r # recs) = used_records ?loc recs" by (simp add: used_records_def)
    then show ?thesis using Cons False by auto
  next
    case True
    then have u: "used_records ?loc (r # recs) = r # used_records ?loc recs" by (simp add: used_records_def)
    let ?need = "(int (length (m_samples r)) + int (length (ds_buf s))) * int (ds_size s)"
    have fit: "fits_int ?need" "?need \<le> avail"
      using room_fits [OF Cons.prems(4), of "length (m_samples r) + length (ds_buf s)"] u by simp_all
    define s1 where "s1 = s\<lparr>ds_buf := ds_buf s @ m_samples r, ds_mem := max (ds_mem s) ?need,
      ds_next := c_trunc (of_int (msr_endtime lib r) + ds_one s)\<rparr>"
    have rec: "data_record lib avail r s = Some (Inr (s1, False))"
      using Cons.prems(1-3) fit u by (auto simp: data_record_def s1_def Let_def max_def)
    have "\<exists>m nxt. data_loop lib avail recs s1 = Some (Inr
      (s1\<lparr>ds_buf := ds_buf s1 @ concat (map m_samples (used_records (location (head (ds_trace s1))) recs)), ds_mem := m, ds_next := nxt\<rparr>, False))"
      using Cons.prems u by (intro Cons.IH) (auto simp: s1_def add.assoc)
    then show ?thesis using True rec u by (auto simp: s1_def)
  qed
qed

text \<open>
  C24: A file of one channel whose records follow each other in time is read in one pass: the samples are
  those of its records one after the other, no gap is noted, and the number of samples and the length in
  seconds are theirs. Records of another location, of text, and without samples are left out.
\<close>

theorem get_mseed_data_contiguous:
  fixes lib :: "('d::zero, 'g) mslib" and trace :: "'d traceInfo"
  defines "recs \<equiv> used_records (location (head trace)) (fst (readmsr lib (fileName trace)))"
  assumes "fileType trace = MSEED_DATA" and "year (head trace) \<noteq> 0" and "sampInt (head trace) \<noteq> 0"
    and "snd (readmsr lib (fileName trace)) = MS_ENDOFFILE" and "follows lib (sampInt (head trace)) 0 recs"
    and "\<forall>r\<in>set (fst (readmsr lib (fileName trace))). m_samplecnt r = int (length (m_samples r))" and "recs \<noteq> []"
    and "0 < numSamples (dataInfo trace)" and "numSamples (dataInfo trace) \<le> TOOMANYPOINTS"
    and "room avail (dataSize (head trace)) (max (nat (numSamples (dataInfo trace))) (length (concat (map m_samples recs))))"
  shows "\<exists>r. get_mseed_data lib avail trace = Some (Inr r) \<and> d_data (dataInfo r) = Some (concat (map m_samples recs)) \<and>
    numSamples (dataInfo r) = int (length (concat (map m_samples recs))) \<and> gaps r = gaps trace \<and>
    secsLength (head r) = of_int (int (length (concat (map m_samples recs))) - 1) * (sampInt (head trace) / 1000000)"
proof -
  let ?d = "dataSize (head trace)" and ?n = "numSamples (dataInfo trace)" and ?xs = "concat (map m_samples recs)"
  obtain rs where rs: "readmsr lib (fileName trace) = (rs, MS_ENDOFFILE)" using assms(5) by (cases "readmsr lib (fileName trace)") auto
  have mem: "fits_int (?n * int ?d)" "?n * int ?d \<le> avail"
    using room_fits [OF assms(11), of "nat ?n"] assms(9) by simp_all
  have "0 < ?d" using assms(11) by (simp add: room_def)
  then have m0: "?n * int ?d \<noteq> 0" using assms(9) by simp
  have "?xs \<noteq> []"
  proof -
    have "r \<in> set (fst (readmsr lib (fileName trace)))" "m_samplecnt r \<noteq> 0" if "r \<in> set recs" for r
      using that by (auto simp: recs_def used_records_def)
    then show ?thesis using assms(7,8) by (cases recs) auto
  qed
  let ?s = "\<lparr>ds_trace = set_data_head trace, ds_buf = [], ds_mem = ?n * int ?d, ds_one = sampInt (head trace), ds_size = ?d, ds_next = 0\<rparr>"
  have h: "head (set_data_head trace) = head trace" "fileName (set_data_head trace) = fileName trace"
    "gaps (set_data_head trace) = gaps trace" by (simp_all add: set_data_head_def)
  have "room avail ?d (length ?xs)" by (rule room_mono [OF assms(11)]) simp
  then obtain m nxt where "data_loop lib avail rs ?s = Some (Inr (?s\<lparr>ds_buf := ?xs, ds_mem := m, ds_next := nxt\<rparr>, False))"
    using data_loop_contiguous [of ?s lib rs avail] assms(4,6,7) rs by (auto simp: h recs_def)
  then show ?thesis
    using assms(2,3,9,10) mem m0 rs \<open>?xs \<noteq> []\<close>
    by (simp add: get_mseed_data_def data_single_def Let_def h)
qed

definition demo_cont :: "(int, int msrecord list) mslib" where
  "demo_cont = demo_lib\<lparr>readmsr := \<lambda>fn. ([demo_record ''BHN'' 0, demo_record ''BHN'' 10000000], MS_ENDOFFILE)\<rparr>"

definition demo_read :: "int traceInfo" where
  "demo_read = demo_single\<lparr>head := (head demo_single)\<lparr>year := 1970\<rparr>,
     dataInfo := (dataInfo demo_single)\<lparr>numSamples := 20\<rparr>\<rparr>"

theorem get_mseed_data_contiguous_witness:
  "\<exists>r. get_mseed_data demo_cont 1000 demo_read = Some (Inr r) \<and> d_data (dataInfo r) = Some (replicate 20 0)"
proof -
  have u: "used_records [] [demo_record ''BHN'' 0, demo_record ''BHN'' 10000000] = [demo_record ''BHN'' 0, demo_record ''BHN'' 10000000]"
    by (simp add: used_records_def demo_record_def)
  have f: "fileType demo_read = MSEED_DATA" "year (head demo_read) = 1970" "sampInt (head demo_read) = 1000000"
    "fileName demo_read = []" "location (head demo_read) = []" "numSamples (dataInfo demo_read) = 20" "dataSize (head demo_read) = 4"
    by (simp_all add: demo_read_def demo_defs)
  have s: "concat (map m_samples [demo_record ''BHN'' 0, demo_record ''BHN'' 10000000]) = replicate 20 0"
    by (simp add: demo_record_def replicate_add [symmetric])
  have r: "fst (readmsr demo_cont []) = [demo_record ''BHN'' 0, demo_record ''BHN'' 10000000]" "snd (readmsr demo_cont []) = MS_ENDOFFILE"
    by (simp_all add: demo_cont_def)
  have "c_trunc 10000000 = 10000000" by simp
  then have fo: "follows demo_cont 1000000 0 [demo_record ''BHN'' 0, demo_record ''BHN'' 10000000]"
    by (simp add: demo_cont_def demo_lib_def demo_record_def)
  show ?thesis
    using get_mseed_data_contiguous [of demo_read demo_cont 1000] unfolding f r u s
    by (simp only: fo TOOMANYPOINTS_def room_def) (auto simp: demo_record_def)
qed

section \<open>Which log records are read\<close>

lemma log_records_seek:
  assumes "\<forall>p\<in>set ps. 0 \<le> p_index p \<and> p_index p < int (length all)" and "seekable pos ps" and "0 < blk" and "0 \<le> pos"
    and "\<And>i. i < length all \<Longrightarrow> readmsr_at lib fn (blk * int i) = Some (all ! i) \<and> reclen (all ! i) = blk"
  shows "log_records lib fn blk ps pos = Some (map (\<lambda>p. all ! nat (p_index p)) ps)"
  using assms(1,2,4)
proof (induction ps arbitrary: pos)
  case (Cons p ps)
  obtain q where q: "0 < q" "read_from lib fn blk p pos = Some (all ! nat (p_index p), q)"
    using read_from_block [OF Cons.prems(2) assms(3) _ _ Cons.prems(3) assms(5)] Cons.prems(1) by auto
  have "log_records lib fn blk ps q = Some (map (\<lambda>p. all ! nat (p_index p)) ps)"
    using Cons.prems seekable_later [OF Cons.prems(2) q(1)] q(1) by (intro Cons.IH) auto
  then show ?case using q(2) by simp
qed simp

text \<open>Where the records of a file are: each behind the one before.\<close>

definition rec_offset :: "'d msrecord list \<Rightarrow> nat \<Rightarrow> int" where
  "rec_offset all i = (\<Sum>r\<leftarrow>take i all. reclen r)"

lemma log_records_sequential:
  assumes "n + length ps \<le> length all" and "\<And>i. i < length all \<Longrightarrow> readmsr_at lib fn (rec_offset all i) = Some (all ! i)"
  shows "log_records lib fn 0 ps (rec_offset all n) = Some (take (length ps) (drop n all))"
  using assms(1)
proof (induction ps arbitrary: n)
  case (Cons p ps)
  then have n: "n < length all" by simp
  have "rec_offset all n + reclen (all ! n) = rec_offset all (Suc n)"
    using n by (simp add: rec_offset_def take_Suc_conv_app_nth)
  moreover have "log_records lib fn 0 ps (rec_offset all (Suc n)) = Some (take (length ps) (drop (Suc n) all))"
    using Cons by simp
  moreover have "take (Suc (length ps)) (drop n all) = all ! n # take (length ps) (drop (Suc n) all)"
    using n by (simp add: Cons_nth_drop_Suc [symmetric])
  ultimately show ?case using assms(2) [OF n] by (simp add: read_from_def)
qed simp

text \<open>
  The log of a multiplexed file. With blocks of one size it consists of the records of the log channel in the
  order of their times, if the first record of the file does not come later in this order. With blocks of
  several sizes no position is set, so that as many records as the channel has are read from the start of the
  file, whatever channel they belong to.
\<close>

theorem makeLogs_records:
  fixes lib :: "(byte, 'g) mslib"
  assumes "mplex_files st fn = Some mm" and "find (\<lambda>ix. i_channel ix = lit ''LOG'') (f_channels mm) = Some ix"
    and "ps = sort_key p_startTime (i_packets ix)" and "\<forall>p\<in>set ps. 0 \<le> p_index p \<and> p_index p < int (length all)"
    and "length ps \<le> length all" and "0 \<le> f_blkSize mm" and "0 < f_blkSize mm \<Longrightarrow> seekable 0 ps"
    and "\<And>i. i < length all \<Longrightarrow> readmsr_at lib (f_fileName mm) (rec_offset all i) = Some (all ! i)"
    and "\<And>r. 0 < f_blkSize mm \<Longrightarrow> r \<in> set all \<Longrightarrow> reclen r = f_blkSize mm"
  shows "\<exists>st'. makeLogs lib fn st = Some (Some (log_data (f_fileName mm)
    (if f_blkSize mm = 0 then take (length ps) all else map (\<lambda>p. all ! nat (p_index p)) ps)), st')"
proof (cases "f_blkSize mm = 0")
  case True
  have "rec_offset all 0 = 0" by (simp add: rec_offset_def)
  then have "log_records lib (f_fileName mm) 0 ps 0 = Some (take (length ps) all)"
    using log_records_sequential [of 0 ps all lib "f_fileName mm"] assms(5,8) by simp
  then show ?thesis using assms(1-3) True by (simp add: makeLogs_def Let_def)
next
  case False
  then have blk: "0 < f_blkSize mm" using assms(6) by simp
  have sum: "(\<Sum>r\<leftarrow>xs. reclen r) = f_blkSize mm * int (length xs)" if "set xs \<subseteq> set all" for xs :: "byte msrecord list"
    using that by (induction xs) (auto simp: assms(9) [OF blk] algebra_simps)
  have "rec_offset all i = f_blkSize mm * int i" if "i < length all" for i
    using sum [of "take i all"] that set_take_subset [of i all] by (simp add: rec_offset_def)
  then have "log_records lib (f_fileName mm) (f_blkSize mm) ps 0 = Some (map (\<lambda>p. all ! nat (p_index p)) ps)"
    using assms(4,7-9) blk by (intro log_records_seek) auto
  then show ?thesis using assms(1-3) False by (simp add: makeLogs_def Let_def)
qed

text \<open>A file of a log record of 256 bytes, a record of another channel and a second log record of 512 bytes.\<close>

definition log_record :: "int \<Rightarrow> string \<Rightarrow> byte list \<Rightarrow> int \<Rightarrow> byte msrecord" where
  "log_record n c bs t = \<lparr>reclen = n, m_network = lit ''XX'', m_station = lit ''ABC'', m_location = [], m_channel = lit c,
     m_samprate = 0, m_samplecnt = int (length bs), m_encoding = 0, m_starttime = t, m_samples = bs,
     m_sampletype = 97, m_dataquality = 68, m_act_flags = 0\<rparr>"

definition demo_logs :: "byte msrecord list" where
  "demo_logs = [log_record 256 ''LOG'' [65] 0, log_record 512 ''BHZ'' [66] 0, log_record 512 ''LOG'' [67] 1000000]"

definition demo_loglib :: "(byte, unit) mslib" where
  "demo_loglib = \<lparr>readmsr = (\<lambda>fn. (demo_logs, MS_ENDOFFILE)), readtraces = (\<lambda>fn. None),
     readmsr_at = (\<lambda>fn off. Some (demo_logs ! (if off = 0 then 0 else if off = 256 then 1 else 2))), initgroup = (),
     addmsrtogroup = (\<lambda>g r t1 t2. Some ()), group_traces = (\<lambda>g. None), msr_endtime = m_starttime\<rparr>"

definition demo_logfile :: mmfile where
  "demo_logfile = \<lparr>f_fileName = [], f_blkSize = 0, f_channels = [(index_new (0, demo_logs ! 0))
     \<lparr>i_packets := [\<lparr>p_index = 0, p_sampleCnt = 1, p_startTime = 0\<rparr>, \<lparr>p_index = 2, p_sampleCnt = 1, p_startTime = 1000000\<rparr>]\<rparr>]\<rparr>"

theorem makeLogs_records_witness:
  "\<exists>st'. makeLogs demo_loglib [] \<lparr>mplex_options = None, mplex_files = [[] \<mapsto> demo_logfile]\<rparr> =
     Some (Some (log_data [] [demo_logs ! 0, demo_logs ! 1]), st')"
proof -
  have o: "rec_offset demo_logs 0 = 0" "rec_offset demo_logs 1 = 256" "rec_offset demo_logs 2 = 768"
    by (simp_all add: rec_offset_def demo_logs_def log_record_def numeral_2_eq_2)
  have "readmsr_at demo_loglib [] (rec_offset demo_logs i) = Some (demo_logs ! i)" if "i < length demo_logs" for i
  proof -
    consider "i = 0" | "i = 1" | "i = 2" using \<open>i < length demo_logs\<close> by (force simp: demo_logs_def)
    then show ?thesis using o by cases (simp_all add: demo_loglib_def)
  qed
  then show ?thesis
    using makeLogs_records [of "\<lparr>mplex_options = None, mplex_files = [[] \<mapsto> demo_logfile]\<rparr>" "[]" demo_logfile
        "hd (f_channels demo_logfile)" _ demo_logs demo_loglib, OF _ _ refl]
    by (simp add: demo_logfile_def index_new_def demo_logs_def log_record_def Let_def)
qed

end
