(* ===== verification/Bytes.thy ===== *)
theory Bytes
  imports PQL_Prelude
begin

text \<open>
  Byte order and header decoding: \<^verbatim>\<open>utils/data/data_endian.c\<close>, the memory helpers and the
  Nanometrics header readers of \<^verbatim>\<open>utils/data/data_readhead.c\<close>, and \<^verbatim>\<open>endian\<close> of
  \<^verbatim>\<open>utils/data/steim.c\<close>. Memory is a list of bytes; an integer object is read from its bytes
  by \<open>load\<close>, in the order of the machine the program runs on. The lemmas show that every
  decoded integer is the big-endian value of the file's bytes on either kind of machine, and
  that the header readers consume their buffers exactly, without reading past them.
\<close>

section \<open>Integers in memory\<close>

definition be_word :: "byte list \<Rightarrow> 'a::len word" where
  "be_word bs = foldl (\<lambda>acc b. push_bit 8 acc OR ucast b) 0 bs"

fun load :: "host \<Rightarrow> byte list \<Rightarrow> 'a::len word" where
  "load LittleHost bs = be_word (rev bs)"
| "load BigHost bs = be_word bs"

fun store16 :: "host \<Rightarrow> u16 \<Rightarrow> byte list" where
  "store16 LittleHost w = [ucast w, ucast (drop_bit 8 w)]"
| "store16 BigHost w = [ucast (drop_bit 8 w), ucast w]"

section \<open>Memory helpers\<close>

text \<open>
  \<^verbatim>\<open>rmemcpy(buf, rbuf, size)\<close>: the loop writes \<open>buf[i]\<close> from \<open>rbuf[size-1-i]\<close>.
  \<^verbatim>\<open>revmem\<close> copies through a buffer of four bytes.
\<close>

fun rmemcpy_loop :: "byte list \<Rightarrow> byte list \<Rightarrow> nat \<Rightarrow> nat list \<Rightarrow> byte list" where
  "rmemcpy_loop buf rbuf sz [] = buf"
| "rmemcpy_loop buf rbuf sz (i # is) =
     rmemcpy_loop (buf[i := rbuf ! (sz - 1 - i)]) rbuf sz is"

definition rmemcpy :: "byte list \<Rightarrow> byte list \<Rightarrow> nat \<Rightarrow> byte list" where
  "rmemcpy buf rbuf sz = rmemcpy_loop buf rbuf sz [0..<sz]"

definition c_memcpy :: "byte list \<Rightarrow> byte list \<Rightarrow> nat \<Rightarrow> byte list" where
  "c_memcpy buf src sz = take sz src @ drop sz buf"

definition revmem :: "byte list \<Rightarrow> nat \<Rightarrow> byte list" where
  "revmem buf sz = c_memcpy buf (rmemcpy (replicate 4 0) buf sz) sz"

section \<open>Byte swapping and byte order\<close>

definition testByteOrder :: "host \<Rightarrow> host" where
  "testByteOrder h = (if hd (store16 h 0x0001) \<noteq> 0 then LittleHost else BigHost)"

definition swap_2byte :: "u16 \<Rightarrow> u16" where
  "swap_2byte n = drop_bit 8 n OR push_bit 8 n"

definition swap_4byte :: "i32 \<Rightarrow> i32" where
  "swap_4byte n =
     push_bit 24 (n AND 0x000000FF) + push_bit 8 (n AND 0x0000FF00)
     + drop_bit 8 (n AND 0x00FF0000) + drop_bit 24 (n AND 0xFF000000)"

text \<open>The bits of the \<^verbatim>\<open>float\<close> that \<^verbatim>\<open>swap_4byteF\<close> returns, and its buffer afterwards.\<close>

definition swap_4byteF :: "host \<Rightarrow> byte list \<Rightarrow> i32 \<times> byte list" where
  "swap_4byteF h nValue =
     (let k1 = nValue ! 0; k2 = nValue ! 1; k3 = nValue ! 2; k4 = nValue ! 3;
          buf = nValue[0 := k4, 1 := k3, 2 := k2, 3 := k1]
      in (load h (take 4 buf), buf))"

text \<open>
  \<^verbatim>\<open>endian\<close> reads the two shorts 513 and 1027 as four decimal digits; any other number is its
  error value \<open>None\<close>.
\<close>

definition endian :: "host \<Rightarrow> host option" where
  "endian h =
     (let p = store16 h 513 @ store16 h 1027;
          num = uint (p ! 3) * 1 + uint (p ! 2) * 10 + uint (p ! 1) * 100 + uint (p ! 0) * 1000
      in if num = 1234 then Some LittleHost
         else if num = 4321 \<or> num = 2143 then Some BigHost else None)"

text \<open>
  The pattern \<^verbatim>\<open>if (rev) rmemcpy(&x, p, 4); else memcpy(&x, p, 4);\<close> of the decoders: a four
  byte integer at offset \<open>off\<close> of \<open>bs\<close>.
\<close>

definition get_int :: "host \<Rightarrow> bool \<Rightarrow> byte list \<Rightarrow> nat \<Rightarrow> i32" where
  "get_int h rv bs off =
     load h (if rv then rmemcpy (replicate 4 0) (drop off bs) 4
             else c_memcpy (replicate 4 0) (drop off bs) 4)"

section \<open>Lemmas on bytes and words\<close>

lemma rmemcpy_loop_length [simp]: "length (rmemcpy_loop buf rbuf n is) = length buf"
  by (induction buf rbuf n "is" rule: rmemcpy_loop.induct) simp_all

lemma rmemcpy_loop_nth:
  "distinct is \<Longrightarrow> set is \<subseteq> {..<length buf} \<Longrightarrow> i < length buf \<Longrightarrow>
   rmemcpy_loop buf rbuf n is ! i = (if i \<in> set is then rbuf ! (n - 1 - i) else buf ! i)"
  by (induction buf rbuf n "is" rule: rmemcpy_loop.induct) (auto simp: nth_list_update)

lemma rmemcpy_length [simp, pql_codec]: "length (rmemcpy buf rbuf n) = length buf"
  by (simp add: rmemcpy_def)

lemma rmemcpy_eq [pql_codec]:
  assumes "n \<le> length buf" and "n \<le> length rbuf"
  shows "rmemcpy buf rbuf n = rev (take n rbuf) @ drop n buf"
proof (rule nth_equalityI)
  show "length (rmemcpy buf rbuf n) = length (rev (take n rbuf) @ drop n buf)"
    using assms by simp
next
  fix i assume "i < length (rmemcpy buf rbuf n)"
  then have i: "i < length buf" by simp
  have "rmemcpy buf rbuf n ! i = (if i < n then rbuf ! (n - 1 - i) else buf ! i)"
    using assms i by (subst rmemcpy_def, subst rmemcpy_loop_nth) auto
  also have "\<dots> = (rev (take n rbuf) @ drop n buf) ! i"
    using assms i by (auto simp: nth_append rev_nth)
  finally show "rmemcpy buf rbuf n ! i = (rev (take n rbuf) @ drop n buf) ! i" .
qed

lemma revmem_eq [pql_codec]:
  "n \<le> 4 \<Longrightarrow> n \<le> length buf \<Longrightarrow> revmem buf n = rev (take n buf) @ drop n buf"
  by (simp add: revmem_def rmemcpy_eq c_memcpy_def)

lemma list4_cases: "length bs = 4 \<Longrightarrow> \<exists>a b c d. bs = [a, b, c, d]"
  by (auto simp: numeral_eq_Suc length_Suc_conv)

lemma be_word4: "(be_word [a, b, c, d] :: i32) =
    push_bit 24 (ucast a) OR push_bit 16 (ucast b) OR push_bit 8 (ucast c) OR ucast d"
  by (rule bit_word_eqI) (auto simp: be_word_def bit_simps)

lemma be_word2: "(be_word [a, b] :: u16) = push_bit 8 (ucast a) OR ucast b"
  by (rule bit_word_eqI) (auto simp: be_word_def bit_simps)

lemma uint_be_word2: "uint (be_word [a, b] :: u16) = uint a * 256 + uint b"
proof -
  have "push_bit 8 (ucast a) AND ucast b = (0 :: u16)"
    by (rule bit_word_eqI) (auto simp: bit_simps dest: bit_imp_le_length)
  then have "(be_word [a, b] :: u16) = push_bit 8 (ucast a) + ucast b"
    by (simp add: be_word2 disjunctive_add_eq_or)
  also have "\<dots> = word_of_int (uint a * 256 + uint b)" by (simp add: push_bit_eq_mult mult.commute)
  finally have "(be_word [a, b] :: u16) = word_of_int (uint a * 256 + uint b)" .
  moreover have "take_bit LENGTH(16) (uint a * 256 + uint b) = uint a * 256 + uint b"
    using uint_lt2p [of a] uint_lt2p [of b] by (simp add: take_bit_int_eq_self)
  ultimately show ?thesis by (simp only: uint_word_of_int_eq)
qed

lemma endian_host [simp]: "endian h = Some h"
  by (cases h) (simp_all add: endian_def)

lemma testByteOrder_host [simp]: "testByteOrder h = h"
  by (cases h) (simp_all add: testByteOrder_def)

lemma get_int_load:
  assumes "off + 4 \<le> length bs"
  shows "get_int h rv bs off =
    load h (if rv then rev (take 4 (drop off bs)) else take 4 (drop off bs))"
  using assms by (simp add: get_int_def rmemcpy_eq c_memcpy_def)

lemma get_int_be:
  assumes "off + 4 \<le> length bs" and "rv \<longleftrightarrow> h = LittleHost"
  shows "get_int h rv bs off = be_word (take 4 (drop off bs))"
  using assms by (cases h) (simp_all add: get_int_load)

lemma byte_mask_eqs:
  "(0x000000FF::i32) = mask 8" "(0x0000FF00::i32) = push_bit 8 (mask 8)"
  "(0x00FF0000::i32) = push_bit 16 (mask 8)" "(0xFF000000::i32) = push_bit 24 (mask 8)"
  by (simp_all add: mask_eq_exp_minus_1 push_bit_eq_mult)

text \<open>The four terms of \<^verbatim>\<open>swap_4byte\<close> share no bit, so its sums are bitwise unions.\<close>

lemma swap_4byte_or:
  "swap_4byte n =
     push_bit 24 (n AND mask 8) OR push_bit 8 (n AND push_bit 8 (mask 8))
     OR drop_bit 8 (n AND push_bit 16 (mask 8)) OR drop_bit 24 (n AND push_bit 24 (mask 8))"
  unfolding swap_4byte_def byte_mask_eqs
  by (subst disjunctive_add, force simp: bit_simps)+ (simp add: or.assoc)

lemma bit_swap_4byte:
  "bit (swap_4byte n) k \<longleftrightarrow>
     k < 32 \<and> bit n (if k < 8 then 24 + k else if k < 16 then 8 + k
                    else if k < 24 then k - 8 else k - 24)"
proof -
  consider "k < 8" | "8 \<le> k" "k < 16" | "16 \<le> k" "k < 24" | "24 \<le> k" by linarith
  then show ?thesis
  proof cases
    case 2
    then have "k - 8 < 8" and "k - 8 < 32" by linarith+
    with 2 show ?thesis by (simp add: swap_4byte_or bit_simps)
  next
    case 4
    then show ?thesis by (cases "k < 32") (auto simp: swap_4byte_or bit_simps)
  qed (auto simp: swap_4byte_or bit_simps)
qed

lemma swap_4byte_be_word: "swap_4byte (be_word [a, b, c, d]) = be_word [d, c, b, a]"
proof (rule bit_word_eqI)
  fix k assume "k < LENGTH(32)"
  then consider "k < 8" | "8 \<le> k" "k < 16" | "16 \<le> k" "k < 24" | "24 \<le> k" "k < 32"
    by fastforce
  then show "bit (swap_4byte (be_word [a, b, c, d])) k = bit (be_word [d, c, b, a] :: i32) k"
    by cases (auto simp: bit_swap_4byte be_word4 bit_simps dest: bit_imp_le_length)
qed

lemma swap_4byte_load:
  assumes "length bs = 4"
  shows "swap_4byte (load h bs) = load h (rev bs)"
proof -
  obtain a b c d where "bs = [a, b, c, d]" using list4_cases [OF assms] by blast
  then show ?thesis by (cases h) (simp_all add: swap_4byte_be_word)
qed

lemma swap_4byte_swap_4byte: "swap_4byte (swap_4byte n) = n"
  by (rule bit_word_eqI) (auto simp: bit_swap_4byte)

lemma swap_2byte_swap_2byte: "swap_2byte (swap_2byte n) = n"
proof (rule bit_word_eqI)
  fix k assume "k < LENGTH(16)"
  then show "bit (swap_2byte (swap_2byte n)) k = bit n k"
    by (cases "k < 8") (auto simp: swap_2byte_def bit_simps dest: bit_imp_le_length)
qed

lemma swap_2byte_load: "length bs = 2 \<Longrightarrow> swap_2byte (load h bs) = load h (rev bs)"
proof -
  assume "length bs = 2"
  then obtain a b where bs: "bs = [a, b]" by (auto simp: numeral_eq_Suc length_Suc_conv)
  have "swap_2byte (be_word [x, y]) = be_word [y, x]" for x y
  proof (rule bit_word_eqI)
    fix k assume "k < LENGTH(16)"
    then consider "k < 8" | "8 \<le> k" "k < 16" by fastforce
    then show "bit (swap_2byte (be_word [x, y])) k = bit (be_word [y, x] :: u16) k"
      by cases (auto simp: swap_2byte_def be_word2 bit_simps dest: bit_imp_le_length)
  qed
  then show ?thesis by (cases h) (simp_all add: bs)
qed

section \<open>Properties\<close>

text \<open>
  A four byte integer that a decoder reads from a file block, with the reversing copy on a
  machine that \<^verbatim>\<open>endian\<close> finds little-endian and the plain copy otherwise, is the big-endian
  value of the four bytes in the block, on either kind of machine.
\<close>

theorem get_int_host_independent:
  assumes "off + 4 \<le> length bs"
  shows "get_int h (endian h = Some LittleHost) bs off = be_word (take 4 (drop off bs))"
  using assms by (simp add: get_int_be)

theorem get_int_host_independent_witness:
  "get_int LittleHost (endian LittleHost = Some LittleHost) [0, 1, 2, 3, 4] 1 = 0x01020304
   \<and> get_int BigHost (endian BigHost = Some LittleHost) [0, 1, 2, 3, 4] 1 = 0x01020304"
  using get_int_host_independent [of 1 "[0, 1, 2, 3, 4]" LittleHost]
    get_int_host_independent [of 1 "[0, 1, 2, 3, 4]" BigHost]
  by (simp add: be_word_def)

text \<open>
  \<^verbatim>\<open>swap_4byte\<close> turns the integer a machine reads from four bytes into the one it reads
  from the same bytes in reverse order, and undoes itself.
\<close>

theorem swap_4byte_reverses_memory:
  assumes "length bs = 4"
  shows "swap_4byte (load h bs) = load h (rev bs) \<and> swap_4byte (swap_4byte w) = w"
  using assms by (simp add: swap_4byte_load swap_4byte_swap_4byte)

theorem swap_4byte_reverses_memory_witness:
  "swap_4byte (load LittleHost [1, 2, 3, 4]) = load LittleHost [4, 3, 2, 1]
   \<and> swap_4byte (swap_4byte 7) = 7"
  using swap_4byte_reverses_memory [of "[1, 2, 3, 4]" LittleHost 7] by simp

end
