(* ===== verification/Float32.thy ===== *)
theory Float32
  imports PQL_Prelude
begin

text \<open>
  IEEE single precision numbers as the file formats hold them: the value of the 32 bits of a float, the
  rounding of a result to a float and the conversion of a result to an \<^verbatim>\<open>int\<close>. A float that is not finite has
  no value.
\<close>

text \<open>The value of a finite float, and the rounding of a result to 24 binary digits.\<close>

definition f32_exp :: "i32 \<Rightarrow> int" where
  "f32_exp w = uint (drop_bit 23 w AND 0xFF)"

definition f32_val :: "i32 \<Rightarrow> real option" where
  "f32_val w =
     (let e = f32_exp w; m = uint (w AND 0x7FFFFF); sg = (if bit w 31 then -1 else 1)
      in if e = 255 then None
         else if e = 0 then Some (sg * of_int m * 2 powi (-149))
         else Some (sg * of_int (2 ^ 23 + m) * 2 powi (e - 150)))"

fun round_float :: "nat \<Rightarrow> real \<Rightarrow> real" where
  "round_float 0 x = to_float x"
| "round_float (Suc n) x = (if \<bar>x\<bar> < 2 ^ 24 then to_float x else 2 * round_float n (x / 2))"

definition to_int :: "real \<Rightarrow> int option" where
  "to_int x = (let k = c_trunc x in if - (2 ^ 31) \<le> k \<and> k < 2 ^ 31 then Some k else None)"

lemma round_float_small: "\<bar>x\<bar> < 2 ^ 24 \<Longrightarrow> round_float n x = to_float x"
  by (cases n) simp_all

lemma trunc_frac: "\<bar>x - of_int (c_trunc x)\<bar> < 1"
  by (simp add: c_trunc_def) linarith

end
