(* ===== verification/Sac.thy ===== *)
theory Sac
  imports Trace Bytes Float32
begin

text \<open>
  SAC files: \<^verbatim>\<open>utils/data/data_sac.c\<close> and \<^verbatim>\<open>utils/data/include/sac.h\<close>. A file is a header of 70 floats, 40
  integers and 192 characters, followed by the samples as floats; all numbers are in the byte order of the
  machine that wrote it. A sample is kept as the 32 bits of its float. The reader decides on the byte order
  from the date and a constant in the header. The text fields of the header are handled as C strings although nothing
  ends them, so the model has the memory behind the header as a parameter; \<open>None\<close> is an access behind
  it or a conversion that does not fit an \<^verbatim>\<open>int\<close>. The properties show that the byte order of the file does
  not matter and how the start time is put together.
\<close>

section \<open>The header\<close>

text \<open>The size of the header, the numbers of its words and the offsets of its text fields.\<close>

definition sizeof_sac :: nat where "sizeof_sac = 632"
definition w_delta :: nat where "w_delta = 0"
definition w_b :: nat where "w_b = 5"
definition w_nzyear :: nat where "w_nzyear = 70"
definition w_npts :: nat where "w_npts = 79"
definition w_iftype :: nat where "w_iftype = 85"
definition w_idep :: nat where "w_idep = 86"
definition w_unused16 :: nat where "w_unused16 = 88"
definition o_kstnm :: nat where "o_kstnm = 440"
definition o_khole :: nat where "o_khole = 464"
definition o_kcmpnm :: nat where "o_kcmpnm = 600"
definition o_knetwk :: nat where "o_knetwk = 608"

lemmas sac_layout = sizeof_sac_def w_delta_def w_b_def w_nzyear_def w_npts_def w_iftype_def w_idep_def w_unused16_def
  o_kstnm_def o_khole_def o_kcmpnm_def o_knetwk_def

definition word_at :: "host \<Rightarrow> byte list \<Rightarrow> nat \<Rightarrow> i32" where
  "word_at h mem k = load h (take 4 (drop (4 * k) mem))"

definition int_at :: "host \<Rightarrow> byte list \<Rightarrow> nat \<Rightarrow> int" where
  "int_at h mem k = sint (word_at h mem k)"

text \<open>
  \<^verbatim>\<open>swapData(p, n)\<close>: the first \<open>n\<close> words are replaced by their \<^verbatim>\<open>swap_4byte\<close>, which reverses their bytes; and the
  same for a single word of a header.
\<close>

primrec swapData :: "nat \<Rightarrow> byte list \<Rightarrow> byte list" where
  "swapData 0 mem = mem"
| "swapData (Suc n) mem = rev (take 4 mem) @ swapData n (drop 4 mem)"

definition swap_word :: "nat \<Rightarrow> byte list \<Rightarrow> byte list" where
  "swap_word k mem = take (4 * k) mem @ rev (take 4 (drop (4 * k) mem)) @ drop (4 * k + 4) mem"

text \<open>The test of \<^verbatim>\<open>check_endian\<close> on a header.\<close>

definition sac_valid :: "host \<Rightarrow> byte list \<Rightarrow> bool" where
  "sac_valid h mem \<longleftrightarrow>
     (let f = (\<lambda>i. int_at h mem (w_nzyear + i))
      in \<not> (f 0 < 0 \<or> f 0 < 100 \<or> f 1 < 0 \<or> f 1 > 366 \<or> f 2 < 0 \<or> f 2 > 23 \<or> f 3 < 0 \<or> f 3 > 59 \<or>
            f 4 < 0 \<or> f 4 > 59 \<or> f 5 < 0 \<or> f 5 > 999) \<and> int_at h mem w_unused16 = -12345)"

text \<open>\<open>None\<close> is \<^verbatim>\<open>FAILURE\<close>. The second test is on the header with seven words swapped.\<close>

definition check_endian :: "host \<Rightarrow> byte list \<Rightarrow> bool option" where
  "check_endian h mem =
     (if sac_valid h mem then Some False
      else if sac_valid h (fold swap_word ([w_nzyear..<w_nzyear + 6] @ [w_unused16]) mem) then Some True
      else None)"

section \<open>Text fields\<close>

text \<open>
  \<^verbatim>\<open>g_strchug\<close> on the string at \<open>off\<close>: the string, up to its terminating 0, is moved to the left over the white
  space in front. The length of the string is taken in any case; it may lie behind the header, but
  nothing may be written there.
\<close>

definition g_strchug :: "nat \<Rightarrow> byte list \<Rightarrow> byte list option" where
  "g_strchug off mem =
     (let s = drop off mem; lead = takeWhile isspace s; body = takeWhile (\<lambda>c. c \<noteq> 0) (drop (length lead) s)
      in if length lead + length body = length s then None
         else if lead = [] then Some mem
         else if off + length body < sizeof_sac
         then Some (take off mem @ body @ [0] @ drop (off + length body + 1) mem)
         else None)"

text \<open>The macro \<^verbatim>\<open>CHOMP\<close> on a field of eight characters: the first blank becomes 0.\<close>

definition CHOMP :: "nat \<Rightarrow> byte list \<Rightarrow> byte list" where
  "CHOMP off mem =
     (case find (\<lambda>i. mem ! (off + i) = 32) [0..<8] of None \<Rightarrow> mem | Some i \<Rightarrow> mem[off + i := 0])"

definition c_string :: "nat \<Rightarrow> byte list \<Rightarrow> cstr" where
  "c_string off mem = takeWhile (\<lambda>c. c \<noteq> 0) (drop off mem)"

definition strip_field :: "nat \<Rightarrow> byte list \<Rightarrow> byte list option" where
  "strip_field off mem = map_option (CHOMP off) (g_strchug off mem)"

definition sac_fields :: "byte list \<Rightarrow> byte list option" where
  "sac_fields mem =
     do { m1 \<leftarrow> strip_field o_kstnm mem; m2 \<leftarrow> strip_field o_kcmpnm m1;
          m3 \<leftarrow> strip_field o_knetwk m2; strip_field o_khole m3 }"

section \<open>The reader\<close>

definition idep_units :: "int \<Rightarrow> punits \<Rightarrow> punits" where
  "idep_units idep old =
     (if idep = 5 then PQL_UNITS_UNKNWN else if idep = 6 then PQL_UNITS_DISP else if idep = 7 then PQL_UNITS_VEL
      else if idep = 50 then PQL_UNITS_VOLTS else if idep = 8 then PQL_UNITS_ACC else old)"

text \<open>The whole seconds and the milliseconds of the start, from the reference time and the begin value.\<close>

definition sac_start :: "int \<Rightarrow> int \<Rightarrow> int \<Rightarrow> int \<times> int" where
  "sac_start epoch nzmsec milli_sec =
     (let m = nzmsec + milli_sec;
          (e, m) = (if m > 1000 then (epoch + 1, m - 1000) else (epoch, m))
      in if m < 0 then (e - 1, m + 1000) else (e, m))"

definition sac_date :: "host \<Rightarrow> byte list \<Rightarrow> ptime" where
  "sac_date h mem =
     (let f = (\<lambda>i. int_at h mem (w_nzyear + i))
      in \<lparr>yr = f 0, mo = 0, day = f 1, jday = 0, hr = f 2, mn = f 3, sec = of_int (f 4)\<rparr>)"

text \<open>\<^verbatim>\<open>strncpy(dst, s, 9)\<close> into a cleared array of ten.\<close>

definition strncpy9 :: "cstr \<Rightarrow> cstr" where
  "strncpy9 s = take 9 s"

definition sac_head :: "host \<Rightarrow> bool \<Rightarrow> byte list \<Rightarrow> byte list" where
  "sac_head h swap hdr = (if swap then swapData 110 hdr else hdr)"

text \<open>
  \<^verbatim>\<open>get_sac_hedr\<close> on the bytes of the file; \<open>beyond\<close> is the memory behind the header. The copy of the header
  that is kept for display (\<^verbatim>\<open>fileHdr\<close>) is not part of the trace.
\<close>

definition get_sac_hedr ::
  "host \<Rightarrow> byte list \<Rightarrow> byte list \<Rightarrow> 'd traceInfo \<Rightarrow> (status \<times> 'd traceInfo) option" where
  "get_sac_hedr h beyond file trace =
     (if length file < sizeof_sac then Some (FAILURE, trace)
      else (let mem = sac_head h (endianSwap (head trace)) (take sizeof_sac file) in
        do {
          delta \<leftarrow> f32_val (word_at h mem w_delta);
          if delta = 0 then Some (FAILURE, trace)
          else do {
            b \<leftarrow> f32_val (word_at h mem w_b);
            si \<leftarrow> to_int ((delta + 1 / 10000000) * 1000000);
            ib \<leftarrow> to_int b;
            milli \<leftarrow> to_int (round_float 128 ((b - of_int ib) * 1000));
            text \<leftarrow> sac_fields (mem @ beyond);
            let npts = int_at h mem w_npts;
                oneSample = round_float 128 (1 / (1000000 / of_int si));
                date = sac_date h mem;
                (e, ms) = sac_start (passcal_htoe date False + ib) (int_at h mem (w_nzyear + 5)) milli;
                d = passcal_etoh (of_int e);
                kstnm = c_string o_kstnm text; kcmpnm = c_string o_kcmpnm text;
                knetwk = c_string o_knetwk text; khole = c_string o_khole text;
                hd0 = head trace;
                hd1 = hd0\<lparr>sampInt := of_int si,
                  secsLength := round_float 128 (round_float 128 (round_float 128 (of_int npts) * delta) - oneSample),
                  data_form := MY_FLOAT, dataSize := 4, units := idep_units (int_at h mem w_idep) (units hd0),
                  year := yr d, dayOfYear := jday d, hour := hr d, minute := mn d, second := c_trunc (sec d), m_secs := ms,
                  epochs := of_int e + of_int ms / 1000, gainConst := 1, scale_fac := 1,
                  descr1 := date_descr (yr date) (day date) (hr date) (mn date),
                  descr2 := lit ''ID: '' @ kstnm @ lit '' C: '' @ kcmpnm,
                  sensorID := strncpy9 kstnm, station := strncpy9 kstnm, channel := strncpy9 kcmpnm,
                  network := (if knetwk \<noteq> lit ''-12345'' then strncpy9 knetwk else network hd0),
                  location := (if khole \<noteq> lit ''-12345'' then strncpy9 khole else location hd0),
                  longFN := fileName trace, shortFN := base_name (fileName trace)\<rparr>
            in Some (PQLXSUCCESS, trace\<lparr>head := hd1, dataInfo := (dataInfo trace)\<lparr>numSamples := npts\<rparr>\<rparr>) } }))"

definition check_sac :: "host \<Rightarrow> byte list \<Rightarrow> byte list \<Rightarrow> 'd traceInfo \<Rightarrow> (status \<times> 'd traceInfo) option" where
  "check_sac h beyond file trace =
     (if length file < sizeof_sac then Some (FAILURE, trace)
      else case check_endian h (take sizeof_sac file) of
        None \<Rightarrow> Some (FAILURE, trace)
      | Some swap \<Rightarrow>
          get_sac_hedr h beyond file (trace\<lparr>fileType := SAC_DATA, head := (head trace)\<lparr>endianSwap := swap\<rparr>\<rparr>))"

definition IDsac :: "host \<Rightarrow> byte list \<Rightarrow> byte list \<Rightarrow> cstr \<Rightarrow> ('d traceInfo list) option" where
  "IDsac h beyond file fn =
     (if length file < sizeof_sac then Some []
      else case check_endian h (take sizeof_sac file) of
        None \<Rightarrow> Some []
      | Some swap \<Rightarrow>
          map_option (\<lambda>(ret, trace). if ret = PQLXSUCCESS then [trace] else [])
            (get_sac_hedr h beyond file (calloc_trace\<lparr>fileName := fn, fileType := SAC_DATA,
               head := calloc_head\<lparr>endianSwap := swap\<rparr>\<rparr>)))"

text \<open>The samples behind the header: \<open>n\<close> at most, as many as are complete.\<close>

definition read_words :: "host \<Rightarrow> byte list \<Rightarrow> nat \<Rightarrow> i32 list" where
  "read_words h bs n = map (word_at h bs) [0..<min n (length bs div 4)]"

definition get_sac_data :: "host \<Rightarrow> byte list \<Rightarrow> i32 traceInfo \<Rightarrow> (status \<times> i32 traceInfo) option" where
  "get_sac_data h file trace =
     (if length file < sizeof_sac then Some (FAILURE, trace)
      else (let mem = sac_head h (endianSwap (head trace)) (take sizeof_sac file);
                n = numSamples (dataInfo trace)
            in if int_at h mem w_iftype \<noteq> 1 then Some (FAILURE, trace)
               else if n < 0 then None
               else (let xs = read_words h (drop sizeof_sac file) (nat n);
                         xs = (if endianSwap (head trace) then map swap_4byte xs else xs)
                     in Some (PQLXSUCCESS, trace\<lparr>dataInfo :=
                          \<lparr>d_data = Some xs, numSamples = int (length xs), d_form = data_form (head trace),
                           d_sampInt = sampInt (head trace), secsPsamp = sampInt (head trace) / 1000000\<rparr>\<rparr>))))"

section \<open>Byte order\<close>

lemma swapData_length [simp]: "length (swapData n mem) = length mem"
  by (induction n arbitrary: mem) auto

lemma swapData_swapData: "4 * n \<le> length mem \<Longrightarrow> swapData n (swapData n mem) = mem"
  by (induction n arbitrary: mem) simp_all

lemma word_at_drop: "word_at h (drop 4 mem) k = word_at h mem (Suc k)"
  by (simp add: word_at_def add.commute)

lemma word_at_swapData:
  "4 * n \<le> length mem \<Longrightarrow> k < n \<Longrightarrow> word_at h (swapData n mem) k = swap_4byte (word_at h mem k)"
proof (induction n arbitrary: mem k)
  case (Suc n)
  show ?case
  proof (cases k)
    case 0
    then show ?thesis using Suc.prems by (simp add: word_at_def swap_4byte_load)
  next
    case (Suc j)
    have "word_at h (swapData (Suc n) mem) k = word_at h (swapData n (drop 4 mem)) j"
      using Suc Suc.prems by (simp add: word_at_def)
    also have "\<dots> = swap_4byte (word_at h (drop 4 mem) j)" using Suc Suc.prems by (intro Suc.IH) auto
    finally show ?thesis by (simp add: Suc word_at_drop)
  qed
qed simp

lemma swap_word_length [simp]: "4 * k + 4 \<le> length mem \<Longrightarrow> length (swap_word k mem) = length mem"
  by (simp add: swap_word_def)

lemma word_at_swap_word:
  assumes "4 * k + 4 \<le> length mem" and "4 * j + 4 \<le> length mem"
  shows "word_at h (swap_word k mem) j = (if j = k then swap_4byte (word_at h mem k) else word_at h mem j)"
proof -
  consider "j < k" | "j = k" | "k < j" by linarith
  then show ?thesis
  proof cases
    case 1
    then have "take 4 (drop (4 * j) (take (4 * k) mem)) = take 4 (drop (4 * j) mem)"
      using assms by (simp add: drop_take min_def)
    moreover have "4 \<le> length (drop (4 * j) (take (4 * k) mem))" using 1 assms by simp
    ultimately show ?thesis using 1 assms by (simp add: word_at_def swap_word_def)
  next
    case 2
    then show ?thesis using assms by (simp add: word_at_def swap_word_def swap_4byte_load)
  next
    case 3
    then have "drop (4 * j) (swap_word k mem) = drop (4 * j) mem" using assms by (simp add: swap_word_def)
    then show ?thesis using 3 by (simp add: word_at_def)
  qed
qed

lemma word_at_fold_swap:
  assumes "distinct ks" and "\<forall>k\<in>set ks. 4 * k + 4 \<le> length mem" and "4 * j + 4 \<le> length mem"
  shows "word_at h (fold swap_word ks mem) j = (if j \<in> set ks then swap_4byte (word_at h mem j) else word_at h mem j)"
  using assms by (induction ks arbitrary: mem) (auto simp: word_at_swap_word)

definition swapped_file :: "byte list \<Rightarrow> byte list" where
  "swapped_file file = swapData 110 (take sizeof_sac file) @ swapData (length (drop sizeof_sac file) div 4) (drop sizeof_sac file)"

lemma sac_valid_cong:
  assumes "\<And>i. i < 6 \<Longrightarrow> int_at h mem (w_nzyear + i) = int_at h mem' (w_nzyear + i)"
    and "int_at h mem w_unused16 = int_at h mem' w_unused16"
  shows "sac_valid h mem = sac_valid h mem'"
  using assms(1) [of 0] assms(1) [of 1] assms(1) [of 2] assms(1) [of 3] assms(1) [of 4] assms(1) [of 5] assms(2)
  by (simp add: sac_valid_def Let_def)

text \<open>A valid header is recognised in both byte orders, and never the wrong way round.\<close>

lemma check_endian_swapped:
  assumes "length hdr = sizeof_sac" and "sac_valid h hdr"
  shows "check_endian h hdr = Some False \<and> check_endian h (swapData 110 hdr) = Some True"
proof -
  let ?ks = "[w_nzyear..<w_nzyear + 6] @ [w_unused16]"
  have len: "length hdr = 632" using assms(1) by (simp add: sizeof_sac_def)
  have orig: "int_at h (fold swap_word ?ks (swapData 110 hdr)) k = int_at h hdr k" if "k \<in> set ?ks" for k
  proof -
    have k: "k < 110" using that by (auto simp: sac_layout)
    have "word_at h (fold swap_word ?ks (swapData 110 hdr)) k = swap_4byte (word_at h (swapData 110 hdr) k)"
      by (subst word_at_fold_swap) (use that k len in \<open>auto simp: sac_layout\<close>)
    then show ?thesis using k len by (simp add: int_at_def word_at_swapData swap_4byte_swap_4byte)
  qed
  have "sac_valid h (fold swap_word ?ks (swapData 110 hdr))"
    using assms(2) sac_valid_cong [of h "fold swap_word ?ks (swapData 110 hdr)" hdr] orig by (simp del: fold_append)
  moreover have "int_at h (swapData 110 hdr) w_unused16 \<noteq> -12345"
  proof -
    have "sint (word_at h hdr w_unused16) = -12345" using assms(2) by (simp add: sac_valid_def int_at_def)
    then have "word_at h hdr w_unused16 = of_int (-12345)" by (intro signed_word_eqI) simp
    then have "word_at h (swapData 110 hdr) w_unused16 = swap_4byte (of_int (-12345))"
      using len by (simp add: word_at_swapData w_unused16_def)
    then show ?thesis by (simp add: int_at_def swap_4byte_def)
  qed
  ultimately show ?thesis using assms(2) by (simp add: check_endian_def sac_valid_def)
qed

lemma swapped_file_parts:
  assumes "sizeof_sac \<le> length file"
  shows "length (swapped_file file) = length file" "take sizeof_sac (swapped_file file) = swapData 110 (take sizeof_sac file)"
    "drop sizeof_sac (swapped_file file) = swapData (length (drop sizeof_sac file) div 4) (drop sizeof_sac file)"
  using assms by (simp_all add: swapped_file_def)

lemma sac_head_swapped:
  "length hdr = sizeof_sac \<Longrightarrow> sac_head h True (swapData 110 hdr) = sac_head h False hdr"
  by (simp add: sac_head_def swapData_swapData sizeof_sac_def)

lemma get_sac_hedr_swapped:
  assumes "sizeof_sac \<le> length file" and "\<not> endianSwap (head t)"
  shows "get_sac_hedr h beyond (swapped_file file) (t\<lparr>head := (head t)\<lparr>endianSwap := True\<rparr>\<rparr>) =
    map_option (\<lambda>(ret, r). (ret, r\<lparr>head := (head r)\<lparr>endianSwap := True\<rparr>\<rparr>)) (get_sac_hedr h beyond file t)"
proof -
  have "sac_head h True (swapData 110 (take sizeof_sac file)) = sac_head h False (take sizeof_sac file)"
    using assms(1) by (intro sac_head_swapped) simp
  then show ?thesis
    using assms by (auto simp: get_sac_hedr_def swapped_file_parts Let_def split: option.splits prod.splits Option.bind_splits)
qed

lemma read_words_swapped:
  "map swap_4byte (read_words h (swapData (length bs div 4) bs) n) = read_words h bs n"
  by (auto simp: read_words_def word_at_swapData swap_4byte_swap_4byte)

lemma get_sac_data_swapped:
  assumes "sizeof_sac \<le> length file" and "\<not> endianSwap (head t)"
  shows "get_sac_data h (swapped_file file) (t\<lparr>head := (head t)\<lparr>endianSwap := True\<rparr>\<rparr>) =
    map_option (\<lambda>(ret, r). (ret, r\<lparr>head := (head r)\<lparr>endianSwap := True\<rparr>\<rparr>)) (get_sac_data h file t)"
proof -
  let ?bs = "drop sizeof_sac file"
  have "sac_head h True (swapData 110 (take sizeof_sac file)) = sac_head h False (take sizeof_sac file)"
    using assms(1) by (intro sac_head_swapped) simp
  moreover have "map swap_4byte (read_words h (swapData (length ?bs div 4) ?bs) n) = read_words h ?bs n" for n
    by (rule read_words_swapped)
  moreover have "length (read_words h (swapData (length ?bs div 4) ?bs) n) = length (read_words h ?bs n)" for n
    by (simp add: read_words_def)
  ultimately show ?thesis
    using assms by (simp add: get_sac_data_def swapped_file_parts Let_def)
qed

text \<open>
  C27: The byte order of a SAC file does not matter: if a header is valid in the order of the machine, then
  the file with all its numbers in the other order is recognised as swapped, and identifying it and
  reading its samples give the same traces, but for the note that bytes were swapped.
\<close>

theorem sac_byte_order:
  fixes t :: "i32 traceInfo"
  assumes "sizeof_sac \<le> length file" and "sac_valid h (take sizeof_sac file)" and "\<not> endianSwap (head t)"
  shows "IDsac h beyond (swapped_file file) fn =
      map_option (map (\<lambda>r :: i32 traceInfo. r\<lparr>head := (head r)\<lparr>endianSwap := True\<rparr>\<rparr>)) (IDsac h beyond file fn) \<and>
    get_sac_data h (swapped_file file) (t\<lparr>head := (head t)\<lparr>endianSwap := True\<rparr>\<rparr>) =
      map_option (\<lambda>(ret, r). (ret, r\<lparr>head := (head r)\<lparr>endianSwap := True\<rparr>\<rparr>)) (get_sac_data h file t)"
proof -
  have "check_endian h (take sizeof_sac file) = Some False \<and> check_endian h (swapData 110 (take sizeof_sac file)) = Some True"
    using assms by (intro check_endian_swapped) simp_all
  moreover have "get_sac_hedr h beyond (swapped_file file) (calloc_trace\<lparr>fileName := fn, fileType := SAC_DATA, head := calloc_head\<lparr>endianSwap := True\<rparr>\<rparr>)
    = map_option (\<lambda>(ret, r). (ret, r\<lparr>head := (head r)\<lparr>endianSwap := True\<rparr>\<rparr>)) (get_sac_hedr h beyond file
        (calloc_trace\<lparr>fileName := fn, fileType := SAC_DATA, head := calloc_head\<lparr>endianSwap := False\<rparr>\<rparr> :: i32 traceInfo))"
    using get_sac_hedr_swapped [OF assms(1), of "calloc_trace\<lparr>fileName := fn, fileType := SAC_DATA, head := calloc_head\<lparr>endianSwap := False\<rparr>\<rparr>" h beyond]
    by simp
  ultimately show ?thesis
    using assms get_sac_data_swapped [OF assms(1,3), of h]
    by (cases "get_sac_hedr h beyond file (calloc_trace\<lparr>fileName := fn, fileType := SAC_DATA, head := calloc_head\<lparr>endianSwap := False\<rparr>\<rparr> :: i32 traceInfo)")
      (auto simp: IDsac_def swapped_file_parts)
qed

text \<open>A header in little-endian order: an interval of one second, day 1 of 2000, and the constant.\<close>

definition demo_sac :: "byte list" where
  "demo_sac = [0, 0, 0x80, 0x3F] @ replicate 276 0 @ [0xD0, 0x07, 0, 0, 1, 0, 0, 0] @ replicate 64 0
     @ [0xC7, 0xCF, 0xFF, 0xFF] @ replicate 276 0 @ [1, 2, 3, 4]"

lemma demo_sac_valid: "sac_valid LittleHost (take sizeof_sac demo_sac)"
proof -
  have "replicate 4 (0::byte) = [0, 0, 0, 0]" by (simp add: numeral_eq_Suc)
  then show ?thesis
    by (simp add: sac_valid_def demo_sac_def int_at_def word_at_def sac_layout be_word_def Let_def)
qed

theorem sac_byte_order_witness:
  "get_sac_data LittleHost (swapped_file demo_sac) (calloc_trace\<lparr>head := calloc_head\<lparr>endianSwap := True\<rparr>\<rparr>) =
     map_option (\<lambda>(ret, r). (ret, r\<lparr>head := (head r)\<lparr>endianSwap := True\<rparr>\<rparr>)) (get_sac_data LittleHost demo_sac calloc_trace)"
  using sac_byte_order [of demo_sac LittleHost calloc_trace "[]" "[]"] demo_sac_valid
  by (simp add: demo_sac_def sizeof_sac_def) (simp add: calloc_trace_def calloc_head_def)

section \<open>The start time\<close>

lemma milli_range:
  assumes "to_int (round_float 128 ((b - of_int (c_trunc b)) * 1000)) = Some milli"
  shows "milli = c_trunc (to_float ((b - of_int (c_trunc b)) * 1000)) \<and> -1000 \<le> milli \<and> milli \<le> 1000"
proof -
  let ?x = "(b - of_int (c_trunc b)) * 1000"
  have x: "- 1000 < ?x" "?x < 1000" using trunc_frac [of b] by (auto simp: abs_less_iff)
  then have r: "round_float 128 ?x = to_float ?x" by (intro round_float_small) (simp add: abs_less_iff)
  have f: "to_float ?x \<le> of_int 1000" "of_int (- 1000) \<le> to_float ?x"
    using x by (intro to_float_le to_float_ge; simp)+
  have "-1000 \<le> c_trunc y \<and> c_trunc y \<le> 1000" if "y \<le> 1000" "-1000 \<le> y" for y :: real
    using that by (auto simp: c_trunc_def le_floor_iff ceiling_le_iff floor_le_iff le_ceiling_iff)
  then show ?thesis using assms r f by (auto simp: to_int_def Let_def split: if_splits)
qed

lemma sac_start_spec:
  assumes "sac_start e0 n m = (e, ms)" and "0 \<le> n" "n \<le> 999" "-1000 \<le> m" "m \<le> 1000"
  shows "of_int e + of_int ms / 1000 = (of_int e0 + of_int (n + m) / 1000 :: real) \<and> 0 \<le> ms \<and> ms \<le> 1000"
  using assms by (auto simp: sac_start_def Let_def field_simps split: if_splits)

text \<open>
  The start of a SAC trace is the reference time of the header plus its begin value, to the millisecond:
  the epoch is the reference second, plus the whole seconds and the truncated milliseconds of \<^verbatim>\<open>b\<close>, plus
  \<^verbatim>\<open>nzmsec\<close>. The carry keeps the milliseconds between 0 and 1000; 1000 itself is not carried.
\<close>

theorem sac_start_time:
  fixes t r :: "'d traceInfo"
  assumes "get_sac_hedr h beyond file t = Some (PQLXSUCCESS, r)"
  defines "mem \<equiv> sac_head h (endianSwap (head t)) (take sizeof_sac file)"
  assumes "sac_valid h mem"
  shows "\<exists>b. f32_val (word_at h mem w_b) = Some b \<and>
    epochs (head r) = of_int (passcal_htoe (sac_date h mem) False + c_trunc b)
      + of_int (int_at h mem (w_nzyear + 5) + c_trunc (to_float ((b - of_int (c_trunc b)) * 1000))) / 1000 \<and>
    0 \<le> m_secs (head r) \<and> m_secs (head r) \<le> 1000"
proof -
  have n: "0 \<le> int_at h mem (w_nzyear + 5)" "int_at h mem (w_nzyear + 5) \<le> 999"
    using assms(3) by (simp_all add: sac_valid_def Let_def)
  from assms(1) obtain b ib milli e ms where b: "f32_val (word_at h mem w_b) = Some b" "to_int b = Some ib"
      "to_int (round_float 128 ((b - of_int ib) * 1000)) = Some milli"
      "sac_start (passcal_htoe (sac_date h mem) False + ib) (int_at h mem (w_nzyear + 5)) milli = (e, ms)"
      "epochs (head r) = of_int e + of_int ms / 1000" "m_secs (head r) = ms"
    by (auto simp: get_sac_hedr_def mem_def [symmetric] Let_def split: if_splits prod.splits Option.bind_splits)
  have ib: "ib = c_trunc b" using b(2) by (auto simp: to_int_def Let_def split: if_splits)
  note m = milli_range [OF b(3) [unfolded ib]]
  show ?thesis using sac_start_spec [OF b(4) n] m b ib by auto
qed

lemma demo_sac_text: "440 \<le> off \<Longrightarrow> off + 8 \<le> 632 \<Longrightarrow> strip_field off (take sizeof_sac demo_sac) = Some (take sizeof_sac demo_sac)"
proof -
  assume off: "440 \<le> off" "off + 8 \<le> 632"
  let ?m = "take sizeof_sac demo_sac"
  obtain pre where m: "?m = pre @ replicate 276 0" "length pre = 356" by (simp add: demo_sac_def sizeof_sac_def)
  have d: "drop off ?m = replicate (632 - off) 0" using off unfolding m(1) by (simp add: m(2))
  then have z: "?m ! (off + i) = 0" if "i < 8" for i
    using that off nth_drop [of off ?m i] by (simp add: demo_sac_def sizeof_sac_def)
  have "632 - off = Suc (631 - off)" using off by simp
  then have "drop off ?m = 0 # replicate (631 - off) 0" using d by simp
  then have "g_strchug off ?m = Some ?m" by (simp add: g_strchug_def Let_def isspace_def)
  moreover have "find (\<lambda>i. ?m ! (off + i) = 32) [0..<8] = None" using z by (auto simp: find_None_iff)
  ultimately show ?thesis by (simp add: strip_field_def CHOMP_def)
qed

lemma demo_sac_reads: "\<exists>r. get_sac_hedr LittleHost [] demo_sac (calloc_trace :: i32 traceInfo) = Some (PQLXSUCCESS, r)"
proof -
  let ?m = "take sizeof_sac demo_sac"
  have r4: "replicate 4 (0::byte) = [0, 0, 0, 0]" by (simp add: numeral_eq_Suc)
  have w: "word_at LittleHost ?m w_delta = 0x3F800000" "word_at LittleHost ?m w_b = 0"
    by (simp_all add: word_at_def demo_sac_def sac_layout r4 be_word_def)
  have v: "f32_val 0x3F800000 = Some 1" "f32_val 0 = Some 0"
    by (simp_all add: f32_val_def f32_exp_def Let_def power_int_def power_one_over)
  have f: "sac_fields ?m = Some ?m" by (simp add: sac_fields_def demo_sac_text o_kstnm_def o_khole_def o_kcmpnm_def o_knetwk_def)
  have "to_float 0 = 0" using to_float_of_int [of 0] by simp
  then have "round_float 128 0 = 0" using round_float_small [of 0 128] by simp
  then show ?thesis
    by (simp add: get_sac_hedr_def Let_def w v f sac_head_def calloc_trace_def calloc_head_def to_int_def case_prod_beta)
      (simp add: demo_sac_def sizeof_sac_def c_trunc_def)
qed

theorem sac_start_time_witness:
  "\<exists>r :: i32 traceInfo. get_sac_hedr LittleHost [] demo_sac calloc_trace = Some (PQLXSUCCESS, r) \<and> m_secs (head r) \<le> 1000"
proof -
  have s: "sac_head LittleHost (endianSwap (head (calloc_trace :: i32 traceInfo))) (take sizeof_sac demo_sac) = take sizeof_sac demo_sac"
    by (simp add: sac_head_def calloc_trace_def calloc_head_def)
  obtain r where r: "get_sac_hedr LittleHost [] demo_sac (calloc_trace :: i32 traceInfo) = Some (PQLXSUCCESS, r)"
    using demo_sac_reads by blast
  from sac_start_time [OF this] s demo_sac_valid r show ?thesis by auto
qed

section \<open>Text that nothing ends\<close>

text \<open>
  The text fields of a header written with blanks, as the format has it, contain no 0: then taking the length
  of the station name reads past the end of the header, whatever the fields hold.
\<close>

theorem sac_text_overread:
  assumes "0 \<notin> set (drop o_kstnm hdr)"
  shows "sac_fields hdr = None"
proof -
  let ?s = "drop o_kstnm hdr"
  let ?t = "drop (length (takeWhile isspace ?s)) ?s"
  have "\<forall>c\<in>set ?t. c \<noteq> 0" using assms by (metis in_set_dropD)
  then have all: "takeWhile (\<lambda>c. c \<noteq> 0) ?t = ?t" by simp
  have "length (takeWhile isspace ?s) + length (takeWhile (\<lambda>c. c \<noteq> 0) ?t) = length ?s"
    unfolding all using length_takeWhile_le [of isspace ?s] by simp
  then have "g_strchug o_kstnm hdr = None" unfolding g_strchug_def Let_def by (rule if_P)
  then show ?thesis by (simp add: sac_fields_def strip_field_def)
qed

theorem sac_text_overread_witness: "sac_fields (replicate 440 0 @ replicate 192 32) = None"
  using sac_text_overread [of "replicate 440 0 @ replicate 192 32"] by (simp add: o_kstnm_def)

end
