(* ===== verification/Segy.thy ===== *)
theory Segy
  imports Trace Bytes Float32
begin

text \<open>
  PASSCAL SEG-Y files: \<^verbatim>\<open>utils/data/data_segy.c\<close> and \<^verbatim>\<open>utils/data/include/segy.h\<close>. A file is a header of 240 bytes
  and the samples, 16 or 32 bits each. The byte order is decided from a few header values, and all fields are
  swapped if they only make sense in the other order. A sample is kept as its value. \<open>None\<close> is a text that
  does not fit its array and a scale factor that is not a finite number, which the model leaves out. The
  properties show that the byte order of a file does not matter when it is recognised, for which dates it
  is taken for the wrong one, and what becomes of dates before 1970.
\<close>

section \<open>The header\<close>

text \<open>Fields of the header, as signed integers of two and of four bytes.\<close>

definition short_at :: "host \<Rightarrow> byte list \<Rightarrow> nat \<Rightarrow> int" where
  "short_at h mem off = sint (load h (take 2 (drop off mem)) :: u16)"

definition long_at :: "host \<Rightarrow> byte list \<Rightarrow> nat \<Rightarrow> int" where
  "long_at h mem off = sint (load h (take 4 (drop off mem)) :: i32)"

definition sizeof_segy :: nat where "sizeof_segy = 240"

text \<open>
  \<^verbatim>\<open>swapSegyHdr\<close>: each field is replaced by its bytes in reverse. The fields are named by offset and size, in
  the order of the code; between the first four and the others, \<^verbatim>\<open>energySourcePt\<close> is set from \<^verbatim>\<open>channel_number\<close>.
\<close>

definition swap_field :: "nat \<times> nat \<Rightarrow> byte list \<Rightarrow> byte list" where
  "swap_field f mem =
     (let (off, n) = f in take off mem @ rev (take n (drop off mem)) @ drop (off + n) mem)"

definition segy_fields :: "(nat \<times> nat) list" where
  "segy_fields =
     [(20, 4), (24, 4), (28, 2), (30, 2), (32, 2), (34, 2), (36, 4), (40, 4), (44, 4), (48, 4), (52, 4), (56, 4),
      (60, 4), (64, 4), (68, 2), (70, 2), (72, 4), (76, 4), (80, 4), (84, 4)]
     @ map (\<lambda>k. (88 + 2 * k, 2)) [0..<46]
     @ [(198, 2), (200, 4)] @ map (\<lambda>k. (204 + 2 * k, 2)) [0..<8]
     @ [(220, 4), (224, 2), (226, 2), (228, 4), (232, 4), (236, 4)]"

definition set_energySourcePt :: "byte list \<Rightarrow> byte list" where
  "set_energySourcePt mem = take 16 mem @ rev (take 4 (drop 12 mem)) @ drop 20 mem"

definition swapSegyHdr :: "byte list \<Rightarrow> byte list" where
  "swapSegyHdr mem =
     fold swap_field segy_fields (set_energySourcePt (fold swap_field [(0, 4), (4, 4), (8, 4), (12, 4)] mem))"

text \<open>The test of \<^verbatim>\<open>check_endian\<close>; the second is on the header with six fields swapped. \<open>None\<close> is \<^verbatim>\<open>FAILURE\<close>.\<close>

definition segy_valid :: "host \<Rightarrow> byte list \<Rightarrow> bool" where
  "segy_valid h mem \<longleftrightarrow>
     \<not> (short_at h mem 156 = 0 \<or> (long_at h mem 200 = 0 \<and> short_at h mem 116 = 0) \<or>
        (short_at h mem 158 < 0 \<or> short_at h mem 158 > 366) \<or> (short_at h mem 160 < 0 \<or> short_at h mem 160 > 23) \<or>
        (short_at h mem 162 < 0 \<or> short_at h mem 162 > 59) \<or> (short_at h mem 164 < 0 \<or> short_at h mem 164 > 60))"

definition segy_check_endian :: "host \<Rightarrow> byte list \<Rightarrow> bool option" where
  "segy_check_endian h mem =
     (if segy_valid h mem then Some False
      else if segy_valid h (fold swap_field [(156, 2), (158, 2), (160, 2), (162, 2), (164, 2), (200, 4)] mem) then Some True
      else None)"

section \<open>The reader\<close>

text \<open>The date: a year before 1970 resets it.\<close>

definition segy_date :: "host \<Rightarrow> byte list \<Rightarrow> int list" where
  "segy_date h mem =
     (if short_at h mem 156 < 1970 then [1970, 0, 0, 0, 0, 0]
      else map (short_at h mem) [156, 158, 160, 162, 164, 206])"

text \<open>\<^verbatim>\<open>get_segy_hedr\<close>. The copy of the header that is kept for display is not part of the trace.\<close>

definition segy_head :: "bool \<Rightarrow> byte list \<Rightarrow> byte list" where
  "segy_head swap hdr = (if swap then swapSegyHdr hdr else hdr)"

definition segy_trace :: "host \<Rightarrow> byte list \<Rightarrow> 'd traceInfo \<Rightarrow> (status \<times> 'd traceInfo) option" where
  "segy_trace h mem trace =
     (let form = short_at h mem 204; dt = segy_date h mem;
          gain = short_at h mem 120; inst = uint (load h (take 2 (drop 224 mem)) :: u16); ch = long_at h mem 12;
          n = (if long_at h mem 228 = 0 then short_at h mem 114 else long_at h mem 228);
          si = real_of_int (if short_at h mem 116 \<noteq> 1 then short_at h mem 116 else long_at h mem 200);
          oneSample = round_float 128 (1 / (1000000 / si));
          date = \<lparr>yr = dt ! 0, mo = 0, day = dt ! 1, jday = 0, hr = dt ! 2, mn = dt ! 3, sec = of_int (dt ! 4)\<rparr>
      in do {
        scale \<leftarrow> f32_val (load h (take 4 (drop 220 mem)));
        if 10 \<le> length (show_int ch) then None
        else Some (PQLXSUCCESS, trace\<lparr>head := (head trace)
          \<lparr>data_form := (if form = 1 then BIT32 else BIT16), dataSize := (if form = 1 then 4 else 2),
           year := dt ! 0, dayOfYear := dt ! 1, hour := dt ! 2, minute := dt ! 3, second := dt ! 4, m_secs := dt ! 5,
           gainConst := (if gain = 0 then 1 else gain), scale_fac := (if scale = 0 then 1 else scale),
           sampInt := si,
           secsLength := round_float 128 (round_float 128 (round_float 128 (of_int n) * round_float 128 (si / 1000000)) - oneSample),
           sensorID := show_int inst, channel := show_int ch,
           descr1 := date_descr (dt ! 0) (dt ! 1) (dt ! 2) (dt ! 3),
           descr2 := lit ''ID: '' @ show_pad 3 inst @ lit '' C: '' @ show_int ch,
           longFN := fileName trace, shortFN := base_name (fileName trace),
           epochs := of_int (passcal_htoe date False) + of_int (dt ! 5) / 1000\<rparr>,
          dataInfo := (dataInfo trace)\<lparr>numSamples := n\<rparr>\<rparr>) })"

definition get_segy_hedr :: "host \<Rightarrow> byte list \<Rightarrow> 'd traceInfo \<Rightarrow> (status \<times> 'd traceInfo) option" where
  "get_segy_hedr h file trace =
     (if length file < sizeof_segy then Some (FAILURE, trace)
      else segy_trace h (segy_head (endianSwap (head trace)) (take sizeof_segy file)) trace)"

text \<open>The samples: complete ones only. A form other than 16 or 32 bits is read as 16 bits and never swapped.\<close>

definition segy_sample :: "host \<Rightarrow> bool \<Rightarrow> int \<Rightarrow> nat \<Rightarrow> byte list \<Rightarrow> nat \<Rightarrow> int" where
  "segy_sample h swap form dsz bs k =
     (if dsz = 4 then (let w = load h (take 4 (drop (4 * k) bs)) :: i32 in sint (if swap \<and> form = 1 then swap_4byte w else w))
      else (let w = load h (take 2 (drop (2 * k) bs)) :: u16 in sint (if swap \<and> form = 0 then swap_2byte w else w)))"

definition get_segy_data :: "host \<Rightarrow> byte list \<Rightarrow> int traceInfo \<Rightarrow> status \<times> int traceInfo" where
  "get_segy_data h file trace =
     (if length file < sizeof_segy then (FAILURE, trace)
      else (let swap = endianSwap (head trace); mem = segy_head swap (take sizeof_segy file); bs = drop sizeof_segy file;
                n = numSamples (dataInfo trace); dsz = dataSize (head trace)
            in if sampInt (head trace) < 1 then (FAILURE, trace)
               else if n \<le> 0 then (FAILURE, trace)
               else (let xs = map (segy_sample h swap (short_at h mem 204) dsz bs) [0..<min (nat n) (length bs div dsz)]
                     in (PQLXSUCCESS, trace\<lparr>dataInfo :=
                          \<lparr>d_data = Some xs, numSamples = int (length xs), d_form = data_form (head trace),
                           d_sampInt = sampInt (head trace), secsPsamp = sampInt (head trace) / 1000000\<rparr>\<rparr>))))"

definition check_segy :: "host \<Rightarrow> byte list \<Rightarrow> 'd traceInfo \<Rightarrow> (status \<times> 'd traceInfo) option" where
  "check_segy h file trace =
     (if length file < sizeof_segy then Some (FAILURE, trace)
      else case segy_check_endian h (take sizeof_segy file) of
        None \<Rightarrow> Some (FAILURE, trace)
      | Some swap \<Rightarrow> get_segy_hedr h file (trace\<lparr>fileType := SEGY_DATA, head := (head trace)\<lparr>endianSwap := swap\<rparr>\<rparr>))"

definition IDsegy :: "host \<Rightarrow> byte list \<Rightarrow> cstr \<Rightarrow> 'd traceInfo list option" where
  "IDsegy h file fn =
     (if length file < sizeof_segy then Some []
      else case segy_check_endian h (take sizeof_segy file) of
        None \<Rightarrow> Some []
      | Some swap \<Rightarrow>
          map_option (\<lambda>(ret, trace). if ret = PQLXSUCCESS then [trace] else [])
            (get_segy_hedr h file (calloc_trace\<lparr>fileName := fn, fileType := SEGY_DATA, head := calloc_head\<lparr>endianSwap := swap\<rparr>\<rparr>)))"

section \<open>Byte order\<close>

text \<open>Fields one after the other, none overlapping.\<close>

fun chain :: "nat \<Rightarrow> (nat \<times> nat) list \<Rightarrow> bool" where
  "chain lo [] = True"
| "chain lo ((off, n) # fs) = (lo \<le> off \<and> off + n \<le> sizeof_segy \<and> chain (off + n) fs)"

lemma chain_segy: "chain 20 segy_fields" "chain 0 [(0, 4), (4, 4), (8, 4), (12, 4)]"
  by (simp_all add: segy_fields_def sizeof_segy_def upt_rec)

lemma chain_member: "chain lo fs \<Longrightarrow> (off, n) \<in> set fs \<Longrightarrow> lo \<le> off \<and> off + n \<le> sizeof_segy"
  by (induction lo fs rule: chain.induct) force+

lemma swap_field_length [simp]: "off + n \<le> length mem \<Longrightarrow> length (swap_field (off, n) mem) = length mem"
  by (simp add: swap_field_def)

lemma read_swap_same:
  "off + n \<le> length mem \<Longrightarrow> take n (drop off (swap_field (off, n) mem)) = rev (take n (drop off mem))"
  by (simp add: swap_field_def)

lemma read_swap_other:
  assumes "o1 + n1 \<le> length mem" and "off + n \<le> length mem" and "off + n \<le> o1 \<or> o1 + n1 \<le> off"
  shows "take n (drop off (swap_field (o1, n1) mem)) = take n (drop off mem)"
proof (cases "off + n \<le> o1")
  case True
  have "take n (drop off (take o1 mem)) = take n (drop off mem)" using True by (simp add: drop_take min_def)
  moreover have "n \<le> length (drop off (take o1 mem))" using True assms by simp
  ultimately show ?thesis using True by (simp add: swap_field_def)
next
  case False
  then have "drop off (swap_field (o1, n1) mem) = drop off mem" using assms by (simp add: swap_field_def)
  then show ?thesis by simp
qed

lemma fold_swap_length [simp]: "chain lo fs \<Longrightarrow> length mem = sizeof_segy \<Longrightarrow> length (fold swap_field fs mem) = sizeof_segy"
  by (induction lo fs arbitrary: mem rule: chain.induct) auto

lemma fold_swap_before:
  "chain lo fs \<Longrightarrow> length mem = sizeof_segy \<Longrightarrow> off + n \<le> lo \<Longrightarrow> off + n \<le> sizeof_segy \<Longrightarrow>
   take n (drop off (fold swap_field fs mem)) = take n (drop off mem)"
  by (induction lo fs arbitrary: mem rule: chain.induct) (simp_all add: read_swap_other)

lemma fold_swap_in:
  "chain lo fs \<Longrightarrow> length mem = sizeof_segy \<Longrightarrow> (off, n) \<in> set fs \<Longrightarrow>
   take n (drop off (fold swap_field fs mem)) = rev (take n (drop off mem))"
proof (induction lo fs arbitrary: mem rule: chain.induct)
  case (2 lo o1 n1 fs)
  have o1: "o1 + n1 \<le> sizeof_segy" "chain (o1 + n1) fs" using "2.prems"(1) by simp_all
  show ?case
  proof (cases "(off, n) \<in> set fs")
    case True
    have "o1 + n1 \<le> off" "off + n \<le> sizeof_segy" using chain_member [OF o1(2) True] by simp_all
    then show ?thesis using "2.IH" [OF o1(2) _ True, of "swap_field (o1, n1) mem"] o1 "2.prems"(2) by (simp add: read_swap_other)
  next
    case False
    then have f: "off = o1" "n = n1" using "2.prems"(3) by simp_all
    show ?thesis
      using fold_swap_before [OF o1(2), of "swap_field (o1, n1) mem" off n] o1 "2.prems"(2) by (simp add: f read_swap_same)
  qed
qed simp

lemma read_swapSegyHdr:
  assumes "length mem = sizeof_segy" and "(off, n) \<in> set segy_fields \<or> (off, n) = (12, 4)"
  shows "take n (drop off (swapSegyHdr mem)) = rev (take n (drop off mem))"
proof -
  let ?m1 = "fold swap_field [(0, 4), (4, 4), (8, 4), (12, 4)] mem"
  have l1: "length ?m1 = sizeof_segy" using fold_swap_length [OF chain_segy(2) assms(1)] .
  have l2: "length (set_energySourcePt ?m1) = sizeof_segy" using l1 by (simp add: set_energySourcePt_def sizeof_segy_def)
  show ?thesis
  proof (cases "(off, n) \<in> set segy_fields")
    case True
    have off: "20 \<le> off" "off + n \<le> sizeof_segy" using chain_member [OF chain_segy(1) True] by simp_all
    have "take n (drop off (set_energySourcePt ?m1)) = take n (drop off ?m1)"
      using off l1 by (simp add: set_energySourcePt_def sizeof_segy_def)
    moreover have "take n (drop off ?m1) = take n (drop off mem)"
      using off assms(1) by (simp add: read_swap_other sizeof_segy_def)
    ultimately show ?thesis
      using fold_swap_in [OF chain_segy(1) l2 True] by (simp add: swapSegyHdr_def del: fold.simps)
  next
    case False
    then have f: "off = 12" "n = 4" using assms(2) by simp_all
    have "take 4 (drop 12 (set_energySourcePt ?m1)) = take 4 (drop 12 ?m1)"
      using l1 by (simp add: set_energySourcePt_def sizeof_segy_def drop_take del: fold.simps)
    moreover have "take 4 (drop 12 ?m1) = rev (take 4 (drop 12 mem))"
      using fold_swap_in [OF chain_segy(2) assms(1), of 12 4] by simp
    ultimately show ?thesis
      using fold_swap_before [OF chain_segy(1) l2, of 12 4] by (simp add: f swapSegyHdr_def sizeof_segy_def del: fold.simps)
  qed
qed

lemma swapSegyHdr_length [simp]: "length mem = sizeof_segy \<Longrightarrow> length (swapSegyHdr mem) = sizeof_segy"
  unfolding swapSegyHdr_def
  by (rule fold_swap_length [OF chain_segy(1)])
    (simp add: set_energySourcePt_def fold_swap_length [OF chain_segy(2)] sizeof_segy_def del: fold.simps)

text \<open>The fields that the reader uses.\<close>

definition used_fields :: "(nat \<times> nat) list" where
  "used_fields = [(12, 4), (114, 2), (116, 2), (120, 2), (156, 2), (158, 2), (160, 2), (162, 2), (164, 2),
     (200, 4), (204, 2), (206, 2), (220, 4), (224, 2), (228, 4)]"

lemma used_fields_swapped: "f \<in> set used_fields \<Longrightarrow> f \<in> set segy_fields \<or> f = (12, 4)"
  by (auto simp: used_fields_def segy_fields_def upt_rec)

lemma read_swapped_used:
  "length mem = sizeof_segy \<Longrightarrow> (off, n) \<in> set used_fields \<Longrightarrow> take n (drop off (swapSegyHdr mem)) = rev (take n (drop off mem))"
  using used_fields_swapped read_swapSegyHdr by blast

lemma read_twice:
  "length mem = sizeof_segy \<Longrightarrow> (off, n) \<in> set used_fields \<Longrightarrow>
   take n (drop off (swapSegyHdr (swapSegyHdr mem))) = take n (drop off mem)"
  by (simp add: read_swapped_used)

lemma short_twice:
  "length mem = sizeof_segy \<Longrightarrow> (off, 2) \<in> set used_fields \<Longrightarrow> short_at h (swapSegyHdr (swapSegyHdr mem)) off = short_at h mem off"
  by (simp add: short_at_def read_twice)

lemma long_twice:
  "length mem = sizeof_segy \<Longrightarrow> (off, 4) \<in> set used_fields \<Longrightarrow> long_at h (swapSegyHdr (swapSegyHdr mem)) off = long_at h mem off"
  by (simp add: long_at_def read_twice)

lemma segy_trace_twice:
  assumes "length mem = sizeof_segy"
  shows "segy_trace h (swapSegyHdr (swapSegyHdr mem)) t = segy_trace h mem t"
proof -
  have m: "(12, 4) \<in> set used_fields" "(228, 4) \<in> set used_fields" "(200, 4) \<in> set used_fields" "(220, 4) \<in> set used_fields"
    "(204, 2) \<in> set used_fields" "(120, 2) \<in> set used_fields" "(114, 2) \<in> set used_fields" "(116, 2) \<in> set used_fields"
    "(224, 2) \<in> set used_fields"
    by (simp_all add: used_fields_def)
  have "segy_date h (swapSegyHdr (swapSegyHdr mem)) = segy_date h mem"
    by (simp add: segy_date_def short_twice [OF assms] used_fields_def)
  then show ?thesis
    by (simp only: segy_trace_def m(1-3) [THEN long_twice [OF assms]] m(5-8) [THEN short_twice [OF assms]]
      m(4,9) [THEN read_twice [OF assms]])
qed

lemma segy_trace_endian:
  "segy_trace h mem (t\<lparr>head := (head t)\<lparr>endianSwap := b\<rparr>\<rparr>) =
   map_option (\<lambda>(ret, r). (ret, r\<lparr>head := (head r)\<lparr>endianSwap := b\<rparr>\<rparr>)) (segy_trace h mem t)"
  by (cases "f32_val (load h (take 4 (drop 220 mem)))") (simp_all add: segy_trace_def Let_def)

lemma get_segy_hedr_swapped:
  assumes "length hdr = sizeof_segy" and "\<not> endianSwap (head t)"
  shows "get_segy_hedr h (swapSegyHdr hdr @ data') (t\<lparr>head := (head t)\<lparr>endianSwap := True\<rparr>\<rparr>) =
    map_option (\<lambda>(ret, r). (ret, r\<lparr>head := (head r)\<lparr>endianSwap := True\<rparr>\<rparr>)) (get_segy_hedr h (hdr @ data) t)"
  using assms by (simp add: get_segy_hedr_def segy_head_def segy_trace_twice segy_trace_endian)

lemma short_rev_zero:
  "length bs = 2 \<Longrightarrow> (sint (load h (rev bs) :: u16) = 0) = (sint (load h bs :: u16) = 0)"
proof -
  assume l: "length bs = 2"
  have "swap_2byte 0 = 0" by (simp add: swap_2byte_def)
  then have "swap_2byte w = 0 \<longleftrightarrow> w = 0" for w
    using swap_2byte_swap_2byte [of w] by auto
  moreover have "sint w = 0 \<longleftrightarrow> w = 0" for w :: u16 by (metis signed_0 signed_word_eqI)
  ultimately show ?thesis by (simp only: swap_2byte_load [OF l, symmetric])
qed

lemma check_endian_native:
  assumes "length hdr = sizeof_segy" and "segy_valid h hdr" and "\<not> segy_valid h (swapSegyHdr hdr)"
  shows "segy_check_endian h (swapSegyHdr hdr) = Some True"
proof -
  let ?fs = "[(156, 2), (158, 2), (160, 2), (162, 2), (164, 2), (200, 4)] :: (nat \<times> nat) list"
  let ?m = "fold swap_field ?fs (swapSegyHdr hdr)"
  have c: "chain 118 ?fs" by (simp add: sizeof_segy_def)
  have r: "take n (drop off ?m) = take n (drop off hdr)" if "(off, n) \<in> set ?fs" for off n
    using fold_swap_in [OF c _ that, of "swapSegyHdr hdr"] read_swapped_used [OF assms(1), of off n] that assms(1)
    by (auto simp: used_fields_def)
  have "take 2 (drop 116 ?m) = rev (take 2 (drop 116 hdr))"
    using fold_swap_before [OF c, of "swapSegyHdr hdr" 116 2] read_swapped_used [OF assms(1), of 116 2] assms(1)
    by (simp add: used_fields_def sizeof_segy_def del: fold.simps)
  then have "(short_at h ?m 116 = 0) = (short_at h hdr 116 = 0)"
    unfolding short_at_def using short_rev_zero [of "take 2 (drop 116 hdr)" h] assms(1) by (simp add: sizeof_segy_def)
  moreover have "short_at h ?m off = short_at h hdr off" if "off \<in> {156, 158, 160, 162, 164}" for off
    using r [of off 2] that by (auto simp: short_at_def)
  moreover have "long_at h ?m 200 = long_at h hdr 200" using r [of 200 4] by (simp add: long_at_def)
  ultimately have "segy_valid h ?m" using assms(2) by (simp add: segy_valid_def del: fold.simps)
  then show ?thesis using assms(3) by (simp add: segy_check_endian_def del: fold.simps)
qed

section \<open>Properties\<close>

text \<open>The samples of a file in the other byte order: the bytes of each complete sample in reverse.\<close>

function swap_units :: "nat \<Rightarrow> byte list \<Rightarrow> byte list" where
  "swap_units d bs = (if d = 0 \<or> length bs < d then bs else rev (take d bs) @ swap_units d (drop d bs))"
  by auto
termination
  by (relation "measure (\<lambda>(d, bs). length bs)") auto

declare swap_units.simps [simp del]

lemma swap_units_length [simp]: "length (swap_units d bs) = length bs"
  by (induction d bs rule: swap_units.induct) (subst swap_units.simps, simp)

lemma swap_units_nth:
  "0 < d \<Longrightarrow> k < length bs div d \<Longrightarrow> take d (drop (d * k) (swap_units d bs)) = rev (take d (drop (d * k) bs))"
proof (induction k arbitrary: bs)
  case 0
  then have "d \<le> length bs" by (simp add: div_greater_zero_iff)
  then show ?case using 0 by (subst swap_units.simps) simp
next
  case (Suc k)
  have d: "d \<le> length bs" using Suc.prems by (metis div_less not_less not_less_zero)
  have "k < length (drop d bs) div d" using Suc.prems d by (simp add: le_div_geq)
  from Suc.IH [OF Suc.prems(1) this] show ?case
    using Suc.prems d by (subst swap_units.simps) (simp add: add.commute)
qed

lemma segy_sample_swapped:
  assumes "k < length bs div dsz" and "dsz = (if form = 1 then 4 else 2)" and "form = 0 \<or> form = 1"
  shows "segy_sample h True form dsz (swap_units dsz bs) k = segy_sample h False form dsz bs k"
proof -
  have "dsz * k + dsz \<le> length bs"
    using assms(1) mult_le_mono2 [of "Suc k" "length bs div dsz" dsz] times_div_less_eq_dividend [of dsz "length bs"]
    by (metis Suc_leI add.commute le_trans mult_Suc_right)
  then have l: "length (take dsz (drop (dsz * k) bs)) = dsz" by simp
  have u: "take dsz (drop (dsz * k) (swap_units dsz bs)) = rev (take dsz (drop (dsz * k) bs))"
    using assms by (intro swap_units_nth) (simp_all split: if_splits)
  show ?thesis
    using assms(2,3) l u
    by (auto simp: segy_sample_def Let_def swap_2byte_load swap_4byte_load)
qed

text \<open>The whole file in the other byte order.\<close>

definition segy_swapped_file :: "host \<Rightarrow> byte list \<Rightarrow> byte list" where
  "segy_swapped_file h file =
     swapSegyHdr (take sizeof_segy file)
     @ swap_units (if short_at h (take sizeof_segy file) 204 = 1 then 4 else 2) (drop sizeof_segy file)"

lemma get_segy_data_swapped:
  assumes "sizeof_segy \<le> length file" and "\<not> endianSwap (head t)"
    and "short_at h (take sizeof_segy file) 204 \<in> {0, 1}"
    and "dataSize (head t) = (if short_at h (take sizeof_segy file) 204 = 1 then 4 else 2)"
  shows "get_segy_data h (segy_swapped_file h file) (t\<lparr>head := (head t)\<lparr>endianSwap := True\<rparr>\<rparr>) =
    map_prod id (\<lambda>r. r\<lparr>head := (head r)\<lparr>endianSwap := True\<rparr>\<rparr>) (get_segy_data h file t)"
proof -
  let ?hdr = "take sizeof_segy file" and ?bs = "drop sizeof_segy file"
  let ?d = "dataSize (head t)" and ?form = "short_at h (take sizeof_segy file) 204"
  let ?new = "segy_swapped_file h file"
  have l: "length ?hdr = sizeof_segy" using assms(1) by simp
  have f: "take sizeof_segy ?new = swapSegyHdr ?hdr" "drop sizeof_segy ?new = swap_units ?d ?bs" "\<not> length ?new < sizeof_segy"
    using l by (simp_all add: segy_swapped_file_def assms(4))
  have form: "short_at h (swapSegyHdr (swapSegyHdr ?hdr)) 204 = ?form"
    by (rule short_twice [OF l]) (simp add: used_fields_def)
  have "map (segy_sample h True ?form ?d (swap_units ?d ?bs)) [0..<min n (length ?bs div ?d)] =
      map (segy_sample h False ?form ?d ?bs) [0..<min n (length ?bs div ?d)]" for n
    using assms(3,4) by (intro map_cong refl segy_sample_swapped) auto
  then show ?thesis
    using assms(1,2) f(3) by (simp add: get_segy_data_def f(1,2) segy_head_def form Let_def del: map_eq_conv)
qed


text \<open>A header of day 100 of 2004 at noon with two samples of 16 bits, in the order of a little-endian machine.\<close>

definition demo_segy :: "byte list" where
  "demo_segy = replicate 116 0 @ [0xE8, 3] @ replicate 38 0 @ [0xD4, 7, 100, 0, 12, 0] @ replicate 66 0
     @ [2, 0, 0, 0] @ replicate 8 0 @ [1, 2, 3, 4]"

lemma demo_segy_reads:
  "length demo_segy = 244"
  "take 2 (drop 116 demo_segy) = [0xE8, 3]" "take 2 (drop 156 demo_segy) = [0xD4, 7]" "take 2 (drop 158 demo_segy) = [100, 0]"
  "take 2 (drop 160 demo_segy) = [12, 0]" "take 2 (drop 162 demo_segy) = [0, 0]" "take 2 (drop 164 demo_segy) = [0, 0]"
  "take 4 (drop 200 demo_segy) = [0, 0, 0, 0]" "take 2 (drop 204 demo_segy) = [0, 0]"
  by (simp_all add: demo_segy_def numeral_eq_Suc)

lemma take_header: "off + n \<le> sizeof_segy \<Longrightarrow> take n (drop off (take sizeof_segy mem)) = take n (drop off mem)"
  by (simp add: drop_take min_def)

lemma demo_segy_header:
  "segy_valid LittleHost (take sizeof_segy demo_segy)" "\<not> segy_valid LittleHost (swapSegyHdr (take sizeof_segy demo_segy))"
  "short_at LittleHost (take sizeof_segy demo_segy) 204 = 0"
proof -
  have off: "off + 2 \<le> 240 \<Longrightarrow> take 2 (drop off (take sizeof_segy demo_segy)) = take 2 (drop off demo_segy)"
    "off + 4 \<le> 240 \<Longrightarrow> take 4 (drop off (take sizeof_segy demo_segy)) = take 4 (drop off demo_segy)" for off
    by (rule take_header; simp add: sizeof_segy_def)+
  show "segy_valid LittleHost (take sizeof_segy demo_segy)" "short_at LittleHost (take sizeof_segy demo_segy) 204 = 0"
    by (simp_all add: segy_valid_def short_at_def long_at_def off demo_segy_reads be_word_def)
  have "length (take sizeof_segy demo_segy) = sizeof_segy" by (simp add: demo_segy_reads sizeof_segy_def)
  then have "take 2 (drop 158 (swapSegyHdr (take sizeof_segy demo_segy))) = rev [100, 0]"
    by (subst read_swapped_used) (simp_all add: off demo_segy_reads used_fields_def)
  then show "\<not> segy_valid LittleHost (swapSegyHdr (take sizeof_segy demo_segy))"
    by (simp add: segy_valid_def short_at_def be_word_def)
qed


section \<open>Dates\<close>

lemma sint16: "sint w = (if uint w < 32768 then uint w else uint w - 65536)" for w :: u16
proof -
  have "0 \<le> uint w" "uint w < 65536" using uint_lt2p [of w] by simp_all
  then have "uint w div 32768 = (if uint w < 32768 then 0 else 1)"
    by (auto intro: div_pos_pos_trivial int_div_pos_eq [where r = "uint w - 32768"])
  then show ?thesis
    using \<open>0 \<le> uint w\<close> \<open>uint w < 65536\<close>
    by (auto simp: sint_uint signed_take_bit_eq_take_bit_minus take_bit_int_eq_self bit_iff_odd)
qed

text \<open>A small number of two bytes, with its bytes in reverse.\<close>

lemma short_reversed:
  assumes "length bs = 2" and "sint (load h bs :: u16) = d" and "0 \<le> d" and "d \<le> 366"
  shows "sint (load h (rev bs) :: u16) =
    (if d mod 256 < 128 then 256 * (d mod 256) + d div 256 else 256 * (d mod 256) + d div 256 - 65536)"
proof -
  have r: "sint (be_word [b, a] :: u16) = (if d mod 256 < 128 then 256 * (d mod 256) + d div 256 else 256 * (d mod 256) + d div 256 - 65536)"
    if "sint (be_word [a, b] :: u16) = d" for a b :: byte
  proof -
    have ab: "0 \<le> uint a" "uint a < 256" "0 \<le> uint b" "uint b < 256" using uint_lt2p [of a] uint_lt2p [of b] by simp_all
    then have "d = 256 * uint a + uint b" using that assms(3,4) by (auto simp: sint16 uint_be_word2 split: if_splits)
    then have "d div 256 = uint a" "d mod 256 = uint b" using ab by simp_all
    moreover have "uint b * 256 + uint a < 32768 \<longleftrightarrow> uint b < 128" using ab by (intro iffI; linarith)
    ultimately show ?thesis by (simp add: sint16 uint_be_word2)
  qed
  obtain a b where "bs = [a, b]" using assms(1) by (auto simp: numeral_eq_Suc length_Suc_conv)
  then show ?thesis using r assms(2) by (cases h) (simp_all)
qed

lemma short_swapped:
  assumes "length hdr = sizeof_segy" and "(off, 2) \<in> set used_fields" and "0 \<le> short_at h hdr off" and "short_at h hdr off \<le> 366"
  shows "short_at h (swapSegyHdr hdr) off = (let d = short_at h hdr off; v = 256 * (d mod 256) + d div 256
    in if d mod 256 < 128 then v else v - 65536)"
proof -
  have "off + 2 \<le> sizeof_segy" using assms(2) by (auto simp: used_fields_def sizeof_segy_def)
  then have "length (take 2 (drop off hdr)) = 2" using assms(1) by simp
  from short_reversed [OF this, of h] show ?thesis
    using assms(3,4) by (simp add: short_at_def read_swapped_used [OF assms(1,2)] Let_def)
qed

lemma long_rev_zero: "length bs = 4 \<Longrightarrow> (sint (load h (rev bs) :: i32) = 0) = (sint (load h bs :: i32) = 0)"
proof -
  assume l: "length bs = 4"
  have "swap_4byte 0 = 0" by (simp add: swap_4byte_def)
  then have "swap_4byte w = 0 \<longleftrightarrow> w = 0" for w
    using swap_4byte_swap_4byte [of w] by auto
  moreover have "sint w = 0 \<longleftrightarrow> w = 0" for w :: i32 by (metis signed_0 signed_word_eqI)
  ultimately show ?thesis by (simp only: swap_4byte_load [OF l, symmetric])
qed

text \<open>The tests of \<open>segy_valid\<close> on the reversed value of a field that is valid.\<close>

lemma day_reversed:
  assumes "0 \<le> d" and "d \<le> (366 :: int)"
  shows "(let v = 256 * (d mod 256) + d div 256; r = if d mod 256 < 128 then v else v - 65536 in 0 \<le> r \<and> r \<le> n)
    \<longleftrightarrow> 256 * (d mod 256) + d div 256 \<le> n \<and> d mod 256 < 128"
proof -
  have "0 \<le> d mod 256" "d mod 256 < 256" "0 \<le> d div 256" "d div 256 \<le> 1" using assms by (simp_all add: pos_imp_zdiv_nonneg_iff)
  then show ?thesis by (auto simp: Let_def)
qed

lemma day_cases:
  assumes "0 \<le> d" and "d \<le> (366 :: int)"
  shows "256 * (d mod 256) + d div 256 \<le> 366 \<and> d mod 256 < 128 \<longleftrightarrow> d \<in> {0, 1, 256, 257}"
proof -
  have m: "256 * (d div 256) + d mod 256 = d" "0 \<le> d mod 256" by simp_all
  have "d div 256 = 0 \<or> d div 256 = 1" using assms by linarith
  then have "d div 256 = 0 \<and> d mod 256 = d \<or> d div 256 = 1 \<and> d mod 256 = d - 256" using m(1) by linarith
  then show ?thesis using assms m(2) by auto
qed

lemma time_cases:
  assumes "0 \<le> d" and "d \<le> (60 :: int)" and "0 \<le> n" and "n \<le> 60"
  shows "256 * (d mod 256) + d div 256 \<le> n \<and> d mod 256 < 128 \<longleftrightarrow> d = 0"
proof -
  have "d mod 256 = d" "d div 256 = 0" using assms by simp_all
  then show ?thesis using assms by auto
qed

text \<open>
  When the byte order is not recognised: for a header that is valid in the order of the machine, the same
  header in the other order is taken for the order of the machine if and only if the trace starts on day 0, 1,
  256 or 257 of a year at midnight, to the second. The year is only tested against zero, and an hour, minute or
  second other than zero is too large when its bytes are reversed.
\<close>

theorem segy_misdetected:
  assumes "length hdr = sizeof_segy" and "segy_valid h hdr"
  shows "segy_check_endian h (swapSegyHdr hdr) = Some False \<longleftrightarrow>
    short_at h hdr 158 \<in> {0, 1, 256, 257} \<and> short_at h hdr 160 = 0 \<and> short_at h hdr 162 = 0 \<and> short_at h hdr 164 = 0"
proof -
  let ?s = "swapSegyHdr hdr"
  note v = assms(2) [unfolded segy_valid_def]
  have m: "(158, 2) \<in> set used_fields" "(160, 2) \<in> set used_fields" "(162, 2) \<in> set used_fields" "(164, 2) \<in> set used_fields"
    by (simp_all add: used_fields_def)
  have z: "(short_at h ?s off = 0) = (short_at h hdr off = 0)" if "off = 156 \<or> off = 116" for off
    unfolding short_at_def using read_swapped_used [OF assms(1), of off 2] short_rev_zero [of "take 2 (drop off hdr)" h] that assms(1)
    by (auto simp: used_fields_def sizeof_segy_def)
  have zl: "(long_at h ?s 200 = 0) = (long_at h hdr 200 = 0)"
    unfolding long_at_def using read_swapped_used [OF assms(1), of 200 4] long_rev_zero [of "take 4 (drop 200 hdr)" h] assms(1)
    by (auto simp: used_fields_def sizeof_segy_def)
  have r: "(0 \<le> short_at h ?s off \<and> short_at h ?s off \<le> n) =
      (256 * (short_at h hdr off mod 256) + short_at h hdr off div 256 \<le> n \<and> short_at h hdr off mod 256 < 128)"
    if "(off, 2) \<in> set used_fields" "0 \<le> short_at h hdr off" "short_at h hdr off \<le> 366" for off n
    using day_reversed [OF that(2,3), of n] by (simp only: short_swapped [OF assms(1) that] Let_def)
  have d: "(0 \<le> short_at h ?s 158 \<and> short_at h ?s 158 \<le> 366) = (short_at h hdr 158 \<in> {0, 1, 256, 257})"
    using r [OF m(1)] day_cases [of "short_at h hdr 158"] v by simp
  have t: "(0 \<le> short_at h ?s off \<and> short_at h ?s off \<le> n) = (short_at h hdr off = 0)"
    if "(off, 2) \<in> set used_fields" "0 \<le> short_at h hdr off" "short_at h hdr off \<le> 60" "0 \<le> n" "n \<le> 60" for off n
    using r [OF that(1,2)] time_cases [OF that(2-5)] that by simp
  have "segy_valid h ?s \<longleftrightarrow> short_at h hdr 158 \<in> {0, 1, 256, 257} \<and> short_at h hdr 160 = 0 \<and> short_at h hdr 162 = 0 \<and> short_at h hdr 164 = 0"
    using v z [of 156] z [of 116] zl d t [OF m(2), of 23] t [OF m(3), of 59] t [OF m(4), of 60]
    unfolding segy_valid_def de_Morgan_disj not_less by (simp only: conj_assoc [symmetric]) auto
  then show ?thesis by (simp add: segy_check_endian_def)
qed

text \<open>The header of 2004, day 256, at midnight.\<close>

definition demo_midnight :: "byte list" where
  "demo_midnight = replicate 116 0 @ [0xE8, 3] @ replicate 38 0 @ [0xD4, 7, 0, 1] @ replicate 80 0"

lemma demo_midnight_header:
  "length demo_midnight = sizeof_segy" "segy_valid LittleHost demo_midnight" "short_at LittleHost demo_midnight 158 = 256"
  "short_at LittleHost demo_midnight 160 = 0" "short_at LittleHost demo_midnight 162 = 0" "short_at LittleHost demo_midnight 164 = 0"
proof -
  have "take 2 (drop 116 demo_midnight) = [0xE8, 3]" "take 2 (drop 156 demo_midnight) = [0xD4, 7]" "take 2 (drop 158 demo_midnight) = [0, 1]"
    "take 2 (drop 160 demo_midnight) = [0, 0]" "take 2 (drop 162 demo_midnight) = [0, 0]" "take 2 (drop 164 demo_midnight) = [0, 0]"
    "take 4 (drop 200 demo_midnight) = [0, 0, 0, 0]"
    by (simp_all add: demo_midnight_def numeral_eq_Suc)
  note r = this
  show "length demo_midnight = sizeof_segy" by (simp add: demo_midnight_def sizeof_segy_def)
  show "segy_valid LittleHost demo_midnight" "short_at LittleHost demo_midnight 158 = 256"
    "short_at LittleHost demo_midnight 160 = 0" "short_at LittleHost demo_midnight 162 = 0" "short_at LittleHost demo_midnight 164 = 0"
    by (simp_all add: segy_valid_def short_at_def long_at_def r be_word_def)
qed

theorem segy_misdetected_witness: "segy_check_endian LittleHost (swapSegyHdr demo_midnight) = Some False"
  using segy_misdetected [OF demo_midnight_header(1,2)] demo_midnight_header by simp

text \<open>
  A trace whose header has a year before 1970 is dated one day before 1970: the date is reset to
  day 0 of 1970, which counts from 1.
\<close>

theorem segy_before_1970:
  assumes "get_segy_hedr h file t = Some (PQLXSUCCESS, r)"
    and "short_at h (segy_head (endianSwap (head t)) (take sizeof_segy file)) 156 < 1970"
  shows "epochs (head r) = -86400 \<and> year (head r) = 1970 \<and> dayOfYear (head r) = 0"
proof -
  have "c_trunc (of_int (- 1) * 86400) = - 86400"
    using c_trunc_of_int [of "- 86400"] by simp
  then have p: "passcal_htoe \<lparr>yr = 1970, mo = 0, day = 0, jday = 0, hr = 0, mn = 0, sec = 0\<rparr> False = - 86400"
    by (simp add: passcal_htoe_def htoe_days_def Let_def)
  let ?mem = "segy_head (endianSwap (head t)) (take sizeof_segy file)"
  have "\<not> length file < sizeof_segy" "segy_trace h ?mem t = Some (PQLXSUCCESS, r)"
    using assms(1) by (auto simp: get_segy_hedr_def split: if_splits)
  moreover obtain scale where "f32_val (load h (take 4 (drop 220 ?mem))) = Some scale"
    using calculation(2) by (cases "f32_val (load h (take 4 (drop 220 ?mem)))") (simp_all add: segy_trace_def Let_def)
  moreover have "segy_date h ?mem = [1970, 0, 0, 0, 0, 0]" using assms(2) by (simp add: segy_date_def)
  ultimately show ?thesis
    by (cases "10 \<le> length (show_int (long_at h ?mem 12))") (auto simp: segy_trace_def Let_def p)
qed

lemma segy_trace_succeeds:
  "f32_val (load h (take 4 (drop 220 mem))) = Some scale \<Longrightarrow> length (show_int (long_at h mem 12)) < 10 \<Longrightarrow>
   \<exists>r. segy_trace h mem t = Some (PQLXSUCCESS, r)"
  by (simp add: segy_trace_def Let_def)

theorem segy_before_1970_witness:
  "\<exists>r :: int traceInfo. get_segy_hedr LittleHost (replicate 240 0) calloc_trace = Some (PQLXSUCCESS, r) \<and> epochs (head r) = -86400"
proof -
  let ?mem = "replicate 240 (0 :: byte)"
  have z: "take 4 (drop 220 ?mem) = [0, 0, 0, 0]" "take 4 (drop 12 ?mem) = [0, 0, 0, 0]" "take 2 (drop 156 ?mem) = [0, 0]"
    by (simp_all add: numeral_eq_Suc)
  have "f32_val (load LittleHost (take 4 (drop 220 ?mem))) = Some 0" unfolding z by (simp add: be_word_def f32_val_def f32_exp_def Let_def)
  moreover have "long_at LittleHost ?mem 12 = 0" unfolding long_at_def z by (simp add: be_word_def)
  then have "length (show_int (long_at LittleHost ?mem 12)) < 10" by (simp add: show_int_def show_nat_def show_base.simps)
  ultimately obtain r :: "int traceInfo" where "segy_trace LittleHost ?mem calloc_trace = Some (PQLXSUCCESS, r)"
    using segy_trace_succeeds by blast
  moreover have "\<not> endianSwap (head (calloc_trace :: int traceInfo))" by (simp add: calloc_trace_def calloc_head_def)
  ultimately have r: "get_segy_hedr LittleHost ?mem calloc_trace = Some (PQLXSUCCESS, r)"
    by (simp add: get_segy_hedr_def segy_head_def sizeof_segy_def)
  have "short_at LittleHost (segy_head (endianSwap (head (calloc_trace :: int traceInfo))) (take sizeof_segy ?mem)) 156 < 1970"
    unfolding short_at_def by (simp add: calloc_trace_def calloc_head_def segy_head_def sizeof_segy_def) (simp add: numeral_eq_Suc be_word_def)
  then show ?thesis using segy_before_1970 [OF r] r by blast
qed

end
