(* ===== verification/Reftek.thy ===== *)
theory Reftek
  imports Trace Bytes
begin

text \<open>
  What the three REFTEK readers share: the conversions of \<^verbatim>\<open>utils/data/reftek_utils.c\<close> and the field
  macros of \<^verbatim>\<open>utils/data/include/reftek.h\<close> and \<^verbatim>\<open>tapestrc.h\<close>. A packet is the list of its bytes and
  a field is read at its offset. The lemmas show what the binary coded decimals mean, that the
  time conversion agrees with the calendar of \<open>Calendar\<close>, and how unit numbers are read.
\<close>

definition u8 :: "byte list \<Rightarrow> nat \<Rightarrow> int" where
  "u8 b i = uint (b ! i)"

section \<open>Binary coded decimals\<close>

fun sbcdhx_loop :: "byte list \<Rightarrow> nat \<Rightarrow> int \<Rightarrow> int" where
  "sbcdhx_loop ch 0 num = num"
| "sbcdhx_loop ch (Suc k) num =
     sbcdhx_loop (tl ch) k (10 * (10 * num + uint (hd ch) div 16) + uint (hd ch) mod 16)"

definition sbcdhx :: "byte list \<Rightarrow> nat \<Rightarrow> int" where
  "sbcdhx ch dgts = sbcdhx_loop ch ((dgts + 1) div 2) 0"

text \<open>The loop of \<^verbatim>\<open>bch2int\<close>; \<open>nn\<close> is the power of 16 of the low nibble.\<close>

fun bch2int_loop :: "byte list \<Rightarrow> nat \<Rightarrow> nat list \<Rightarrow> int \<Rightarrow> int" where
  "bch2int_loop ch nn [] num = num"
| "bch2int_loop ch nn (i # is) num =
     (let num = num + uint (drop_bit 4 (ch ! i AND 0xF0)) * 16 ^ (nn + 1);
          num = num + uint (ch ! i AND 0x0F) * 16 ^ nn
      in if i = 0 \<and> num \<le> 35225 then sbcdhx ch 4 else bch2int_loop ch (nn - 2) is num)"

definition bch2int :: "byte list \<Rightarrow> nat \<Rightarrow> int" where
  "bch2int ch n = bch2int_loop ch (n div 2) [0..<n div 2] 0"

text \<open>The two letters that name a packet, as a number in the order of the file.\<close>

definition ConvertRefType :: "host \<Rightarrow> byte list \<Rightarrow> int" where
  "ConvertRefType h str =
     uint (load h (if testByteOrder h = BigHost then c_memcpy [0, 0] str 2
                   else rmemcpy [0, 0] str 2) :: u16)"

section \<open>Times\<close>

record RTTime =
  t_year :: int
  t_day :: int
  t_hour :: int
  t_min :: int
  t_sec :: int
  t_msec :: int
  t_usec :: int

record RTEpoch =
  e_sec :: int
  e_usec :: int

text \<open>\<open>atime\<close> is the packet from the first byte of the \<^verbatim>\<open>EventTime\<close>.\<close>

definition ascii2bin :: "byte list \<Rightarrow> RTTime" where
  "ascii2bin atime =
     (if atime ! 0 = 32 then
        \<lparr>t_year = 1970, t_day = 1, t_hour = 0, t_min = 0, t_sec = 0, t_msec = 0, t_usec = 0\<rparr>
      else
        \<lparr>t_year = sscanf_d 4 atime 0, t_day = sscanf_d 3 (drop 4 atime) 0,
         t_hour = sscanf_d 2 (drop 7 atime) 0, t_min = sscanf_d 2 (drop 9 atime) 0,
         t_sec = sscanf_d 2 (drop 11 atime) 0, t_msec = sscanf_d 3 (drop 13 atime) 0,
         t_usec = 0\<rparr>)"

definition gmt2epoch :: "RTTime \<Rightarrow> int \<Rightarrow> RTEpoch" where
  "gmt2epoch t leap_sec =
     (let epoch_year = 1970;
          y = (if t_year t < epoch_year then epoch_year else t_year t);
          d = (if t_day t < 1 then 1 else t_day t);
          years_since = y - epoch_year;
          leap_years = (years_since + 1) div 4;
          days = years_since * 365 + d + leap_years - 1;
          s = days * 86400 + t_hour t * 3600 + t_min t * 60 + t_sec t
      in \<lparr>e_sec = to_int32 (s + leap_sec),
          e_usec = (if t_msec t > 0 then t_msec t * 1000 else t_usec t)\<rparr>)"

section \<open>RT-130 fields\<close>

definition RT130_PKT_SIZE :: nat where
  "RT130_PKT_SIZE = 1024"

definition RT130_HEADER_SIZE :: nat where
  "RT130_HEADER_SIZE = 24"

definition RT130STREAMNM :: "byte list \<Rightarrow> int" where
  "RT130STREAMNM block = sbcdhx (drop 18 block) 2 + 1"

definition RT130CHANNELNM :: "byte list \<Rightarrow> int" where
  "RT130CHANNELNM block = sbcdhx (drop 19 block) 2 + 1"

definition RT130CHANNELNUM :: "byte list \<Rightarrow> int" where
  "RT130CHANNELNUM block = sbcdhx (drop 18 block) 2 * 3 + (sbcdhx (drop 19 block) 2 + 1)"

definition HDRCHANNELNUM :: "cstr \<Rightarrow> int" where
  "HDRCHANNELNUM a = (atoi a - 1) * 3 + (case after_last 58 a of Some r \<Rightarrow> atoi r | None \<Rightarrow> 0)"

definition RT130NUMSAMPS :: "byte list \<Rightarrow> int" where
  "RT130NUMSAMPS block = sbcdhx (drop 20 block) 4"

definition RT130DATAFORM :: "byte list \<Rightarrow> byte" where
  "RT130DATAFORM block = block ! 23"

definition RT130UNITID :: "byte list \<Rightarrow> int" where
  "RT130UNITID block = bch2int (drop 4 block) 4"

text \<open>The gain that a letter stands for; any other letter leaves the variable as it was.\<close>

definition RT130CHGAIN :: "byte \<Rightarrow> int \<Rightarrow> int" where
  "RT130CHGAIN a b =
     (case map_of [(49, 0x1), (50, 0x8), (51, 0x32), (52, 0x128), (53, 0x512), (54, 0x2048),
                   (55, 0x8192), (56, 0x100), (65, 12), (66, 24), (67, 36), (68, 48), (69, 64),
                   (70, 0x2), (71, 0x4), (72, 0x16), (73, 0x64), (74, 0x256)] a of
        Some g \<Rightarrow> g | None \<Rightarrow> b)"

section \<open>RT-125 and RT-125A fields\<close>

definition be16 :: "byte list \<Rightarrow> nat \<Rightarrow> int" where
  "be16 b i = u8 b i * 256 + u8 b (i + 1)"

definition RT125AUNITID :: "byte list \<Rightarrow> int" where
  "RT125AUNITID b = be16 b 1 + 10000"

text \<open>The fields of an event time at offset \<open>j\<close>.\<close>

definition RT125AYEAR :: "byte list \<Rightarrow> nat \<Rightarrow> int" where
  "RT125AYEAR b j = u8 b j + 1984"

definition RT125AJDAY :: "byte list \<Rightarrow> nat \<Rightarrow> int" where
  "RT125AJDAY b j = u8 b (j + 1) * 100 + u8 b (j + 2) + 1"

definition RT125AHOUR :: "byte list \<Rightarrow> nat \<Rightarrow> int" where
  "RT125AHOUR b j = u8 b (j + 3)"

definition RT125AMIN :: "byte list \<Rightarrow> nat \<Rightarrow> int" where
  "RT125AMIN b j = u8 b (j + 4)"

definition RT125ASEC :: "byte list \<Rightarrow> nat \<Rightarrow> int" where
  "RT125ASEC b j = u8 b (j + 5)"

definition RT125AGAIN :: "byte \<Rightarrow> int \<Rightarrow> int" where
  "RT125AGAIN a b =
     (case map_of [(0, 32), (1, 1), (2, 2), (3, 4), (4, 8), (5, 16), (6, 32), (7, 64), (8, 128),
                   (9, 256)] a of Some g \<Rightarrow> g | None \<Rightarrow> b)"

text \<open>A 24-bit sample, most significant byte first, extended to 32 bits.\<close>

definition sample24 :: "byte \<Rightarrow> byte \<Rightarrow> byte \<Rightarrow> i32" where
  "sample24 d0 d1 d2 =
     (let x = push_bit 16 (ucast d0) OR push_bit 8 (ucast d1) OR ucast d2
      in if d0 AND 0x80 \<noteq> 0 then x OR 0xFF000000 else x)"

text \<open>
  \<^verbatim>\<open>cnt\<close> samples from offset \<open>off\<close> of a packet, and the store of a run of values in an array;
  \<open>None\<close> is an access past the end.
\<close>

definition get_samples24 :: "byte list \<Rightarrow> nat \<Rightarrow> nat \<Rightarrow> i32 list option" where
  "get_samples24 b off cnt =
     (if off + 3 * cnt \<le> length b
      then Some (map (\<lambda>i. sample24 (b ! (off + 3 * i)) (b ! (off + 3 * i + 1)) (b ! (off + 3 * i + 2)))
                   [0..<cnt])
      else None)"

definition put_at :: "'d list \<Rightarrow> nat \<Rightarrow> 'd list \<Rightarrow> 'd list option" where
  "put_at buf pos xs =
     (if pos + length xs \<le> length buf
      then Some (take pos buf @ xs @ drop (pos + length xs) buf) else None)"

section \<open>The time conversion and the calendar\<close>

lemma leap_1970_2099: "1970 \<le> y \<Longrightarrow> y \<le> 2099 \<Longrightarrow> passcal_isleap y \<longleftrightarrow> y mod 4 = 0"
proof -
  assume y: "1970 \<le> y" "y \<le> 2099"
  have "y = 2000" if "y mod 100 = 0"
  proof -
    have "100 dvd y" using that by (simp add: dvd_eq_mod_eq_0)
    then obtain k where k: "y = 100 * k" by (rule dvdE)
    then have "19 < k" "k < 21" using y by simp_all
    then show ?thesis using k by simp
  qed
  then show ?thesis by (auto simp: passcal_isleap_def)
qed

lemma ydays_julian:
  assumes "1970 \<le> y" and "y \<le> 2100"
  shows "ydays 1970 y = 365 * (y - 1970) + (y - 1969) div 4"
  using assms
proof (induction y rule: int_ge_induct)
  case (step y)
  then have "diy y = (if y mod 4 = 0 then 366 else 365)" by (simp add: diy_def leap_1970_2099)
  moreover have "(y + 1 - 1969) div 4 = (y - 1969) div 4 + (if y mod 4 = 0 then 1 else 0)"
    by presburger
  ultimately show ?case using step ydays_right [of 1970 y] by simp
qed simp

definition clock_ok :: "RTTime \<Rightarrow> bool" where
  "clock_ok t \<longleftrightarrow> 1 \<le> t_day t \<and> t_day t \<le> 366 \<and> 0 \<le> t_hour t \<and> t_hour t < 24
     \<and> 0 \<le> t_min t \<and> t_min t < 60 \<and> 0 \<le> t_sec t \<and> t_sec t < 60"

text \<open>
  for every time of the years 1970 to 2037, \<^verbatim>\<open>gmt2epoch\<close>, which counts a leap day every fourth
  year, gives the epoch second that \<^verbatim>\<open>passcal_htoe\<close> computes from the calendar for the same year, day
  of the year and time of day, and it fits 32 bits.
\<close>

theorem gmt2epoch_calendar:
  assumes "1970 \<le> t_year t" and "t_year t \<le> 2037" and "clock_ok t"
  shows "e_sec (gmt2epoch t 0) =
    passcal_htoe \<lparr>yr = t_year t, mo = 0, day = t_day t, jday = 0, hr = t_hour t, mn = t_min t,
                  sec = of_int (t_sec t)\<rparr> False"
proof -
  let ?y = "t_year t" and ?s = "t_hour t * 3600 + t_min t * 60 + t_sec t"
  have clock: "1 \<le> t_day t" "t_day t \<le> 366" "0 \<le> ?s" "?s < 86400"
    using assms(3) by (auto simp: clock_ok_def)
  have d: "htoe_days ?y = 365 * (?y - 1970) + (?y - 1969) div 4"
    using assms(1,2) by (simp add: htoe_days_eq ydays_julian)
  have dd: "0 \<le> htoe_days ?y" "htoe_days ?y \<le> 24472"
    using assms(1,2) d by auto
  have "c_trunc (of_int (t_hour t) * 3600 + of_int (t_min t) * 60 + of_int (t_sec t)) = ?s"
    using c_trunc_of_int [of ?s] by simp
  moreover have "c_trunc (of_int k * 86400) = k * 86400" for k
    using c_trunc_of_int [of "k * 86400"] by simp
  ultimately have h: "passcal_htoe \<lparr>yr = ?y, mo = 0, day = t_day t, jday = 0, hr = t_hour t, mn = t_min t,
                  sec = of_int (t_sec t)\<rparr> False = (htoe_days ?y + t_day t - 1) * 86400 + ?s"
    by (simp add: passcal_htoe_def algebra_simps del: of_int_add of_int_diff)
  have "to_int32 ((htoe_days ?y + t_day t - 1) * 86400 + ?s) = (htoe_days ?y + t_day t - 1) * 86400 + ?s"
    using clock dd by (intro to_int32_id) auto
  then show ?thesis
    using assms(1) clock(1) unfolding h gmt2epoch_def Let_def
    by (simp add: d algebra_simps)
qed

theorem gmt2epoch_calendar_witness:
  "e_sec (gmt2epoch \<lparr>t_year = 2012, t_day = 60, t_hour = 1, t_min = 2, t_sec = 3, t_msec = 0, t_usec = 0\<rparr> 0)
   = passcal_htoe \<lparr>yr = 2012, mo = 0, day = 60, jday = 0, hr = 1, mn = 2, sec = 3\<rparr> False"
  using gmt2epoch_calendar
    [of "\<lparr>t_year = 2012, t_day = 60, t_hour = 1, t_min = 2, t_sec = 3, t_msec = 0, t_usec = 0\<rparr>"]
  by (simp add: clock_ok_def)

section \<open>Reading back a printed time\<close>

text \<open>An \<^verbatim>\<open>EventTime\<close> as the recorder writes it: YYYYDDDHHMMSSTTT.\<close>

definition event_time :: "RTTime \<Rightarrow> cstr" where
  "event_time t = show_pad 4 (t_year t) @ show_pad 3 (t_day t) @ show_pad 2 (t_hour t)
     @ show_pad 2 (t_min t) @ show_pad 2 (t_sec t) @ show_pad 3 (t_msec t)"

lemma sscanf_show_pad:
  assumes "0 < w" and "0 \<le> k" and "k < 10 ^ w"
  shows "sscanf_d w (show_pad w k @ rest) old = k"
proof -
  let ?p = "show_pad w k"
  note p = show_pad_props [OF assms]
  obtain b bs where b: "?p = b # bs" using p(1) assms(1) by (cases ?p) simp_all
  then have d: "isdigit b" using p(2) by simp
  have "dropWhile isspace (?p @ rest) = ?p @ rest" using isdigit_not_space [OF d] by (simp add: b)
  moreover have "c_sign ?p = (1, ?p)" using isdigit_not_sign [OF d] by (simp add: b)
  moreover have "?p \<noteq> []" using b by simp
  ultimately show ?thesis
    using p by (simp add: sscanf_d_def Let_def takeWhile_eq_all_conv [THEN iffD2])
qed

text \<open>
  a time printed in the recorder's format is read back by \<^verbatim>\<open>ascii2bin\<close>, whatever follows it in
  the packet.
\<close>

theorem ascii2bin_event_time:
  assumes "0 \<le> t_year t" "t_year t < 10000" "0 \<le> t_msec t" "t_msec t < 1000" "clock_ok t"
    and "t_usec t = 0"
  shows "ascii2bin (event_time t @ rest) = t"
proof -
  have c: "0 \<le> t_day t" "t_day t < 1000" "0 \<le> t_hour t" "t_hour t < 100" "0 \<le> t_min t" "t_min t < 100"
    "0 \<le> t_sec t" "t_sec t < 100"
    using assms(5) by (auto simp: clock_ok_def)
  note y = show_pad_props [of 4 "t_year t", simplified, OF assms(1,2)]
  have l: "length (show_pad 3 (t_day t)) = 3" "length (show_pad 2 (t_hour t)) = 2"
    "length (show_pad 2 (t_min t)) = 2" "length (show_pad 2 (t_sec t)) = 2"
    using c by (simp_all add: show_pad_props)
  have "isdigit (show_pad 4 (t_year t) ! 0)" using y(1,2) by simp
  then have "show_pad 4 (t_year t) ! 0 \<noteq> 32" using isdigit_not_space by (auto simp: isspace_def)
  then show ?thesis
    using c assms l y(1)
    by (simp add: ascii2bin_def event_time_def nth_append sscanf_show_pad)
qed

theorem ascii2bin_event_time_witness:
  "ascii2bin (event_time \<lparr>t_year = 2012, t_day = 60, t_hour = 1, t_min = 2, t_sec = 3, t_msec = 40, t_usec = 0\<rparr>)
   = \<lparr>t_year = 2012, t_day = 60, t_hour = 1, t_min = 2, t_sec = 3, t_msec = 40, t_usec = 0\<rparr>"
  using ascii2bin_event_time
    [of "\<lparr>t_year = 2012, t_day = 60, t_hour = 1, t_min = 2, t_sec = 3, t_msec = 40, t_usec = 0\<rparr>" "[]"]
  by (simp add: clock_ok_def)

section \<open>Bytes and digits\<close>

text \<open>Four binary coded digits in two bytes.\<close>

definition bcd4 :: "int \<Rightarrow> byte list" where
  "bcd4 n = [word_of_int (n div 1000 mod 10 * 16 + n div 100 mod 10),
             word_of_int (n div 10 mod 10 * 16 + n mod 10)]"

lemma sbcdhx_two: "sbcdhx (a # b # rest) 4 =
    (uint a div 16) * 1000 + (uint a mod 16) * 100 + (uint b div 16) * 10 + uint b mod 16"
proof -
  have "(4 + 1) div 2 = Suc (Suc 0)" by simp
  then show ?thesis by (simp only: sbcdhx_def sbcdhx_loop.simps list.sel algebra_simps)
qed

lemma sbcdhx_one: "sbcdhx (a # rest) 2 = (uint a div 16) * 10 + uint a mod 16"
proof -
  have "(2 + 1) div 2 = Suc 0" by simp
  then show ?thesis by (simp only: sbcdhx_def sbcdhx_loop.simps list.sel algebra_simps)
qed

lemma nibble_bounds: "0 \<le> uint a div 16" "uint a div 16 < 16" "0 \<le> uint a mod 16" "uint a mod 16 < 16"
  for a :: byte
proof -
  have a: "0 \<le> uint a" "uint a < 256" using uint_lt2p [of a] by simp_all
  show "0 \<le> uint a div 16" using a by (intro pos_imp_zdiv_nonneg_iff [THEN iffD2]) simp_all
  show "uint a div 16 < 16" "0 \<le> uint a mod 16" "uint a mod 16 < 16" using a by simp_all
qed

lemma sbcdhx_one_bounds: "0 \<le> sbcdhx (a # rest) 2" "sbcdhx (a # rest) 2 \<le> 165"
  using nibble_bounds [of a] unfolding sbcdhx_one by linarith+

lemma sbcdhx_two_bounds: "0 \<le> sbcdhx (a # b # rest) 4" "sbcdhx (a # b # rest) 4 \<le> 16665"
  using nibble_bounds [of a] nibble_bounds [of b] unfolding sbcdhx_two by linarith+

lemma uint_byte_of_digits:
  assumes "0 \<le> x" "x < 10" "0 \<le> y" "y < 10"
  shows "uint (word_of_int (x * 16 + y) :: byte) div 16 = x"
    and "uint (word_of_int (x * 16 + y) :: byte) mod 16 = y"
proof -
  have "uint (word_of_int (x * 16 + y) :: byte) = x * 16 + y"
    using assms by (simp add: uint_word_of_int take_bit_int_eq_self del: of_int_add of_int_mult)
  then show "uint (word_of_int (x * 16 + y) :: byte) div 16 = x"
    "uint (word_of_int (x * 16 + y) :: byte) mod 16 = y"
    using assms by simp_all
qed

lemma sbcdhx_bcd4: "0 \<le> n \<Longrightarrow> n < 10000 \<Longrightarrow> sbcdhx (bcd4 n @ rest) 4 = n"
proof -
  assume n: "0 \<le> n" "n < 10000"
  have d: "n div 100 = n div 10 div 10" "n div 1000 = n div 10 div 10 div 10" by simp_all
  have b: "0 \<le> k mod 10" "k mod 10 < 10" for k :: int by simp_all
  have "n div 10 div 10 div 10 < 10" using n by simp
  then have "n div 10 div 10 div 10 mod 10 = n div 10 div 10 div 10" using n by simp
  then show ?thesis
    unfolding bcd4_def append.simps sbcdhx_two d uint_byte_of_digits [OF b b]
    using div_mult_mod_eq [of n 10] div_mult_mod_eq [of "n div 10" 10]
      div_mult_mod_eq [of "n div 10 div 10" 10] by linarith
qed

lemma shift_or_add: "0 \<le> y \<Longrightarrow> y < 2 ^ k \<Longrightarrow> push_bit k x OR y = x * 2 ^ k + y" for x y :: int
proof -
  assume y: "0 \<le> y" "y < 2 ^ k"
  then have "take_bit k y = y" by (simp add: take_bit_int_eq_self)
  then have "\<not> bit y n" if "k \<le> n" for n using that by (metis bit_take_bit_iff not_less)
  then have "push_bit k x + y = push_bit k x OR y"
    by (intro disjunctive_add_eq_or) (auto simp: bit_eq_iff bit_simps)
  then show ?thesis by (simp add: push_bit_eq_mult)
qed

lemma byte_range: "0 \<le> uint a" "uint a < 256" for a :: byte
  using uint_lt2p [of a] by simp_all

lemma ConvertRefType_be: "ConvertRefType h (a # b # rest) = uint a * 256 + uint b"
  by (cases h) (simp_all add: ConvertRefType_def c_memcpy_def rmemcpy_eq uint_be_word2 numeral_2_eq_2)

text \<open>
  The samples of the RT-125 and RT-125A are signed: the 32-bit word built from the three bytes is
  the two's complement value of the 24 bits.
\<close>

theorem sample24_signed:
  "sint (sample24 d0 d1 d2) =
     (let v = uint d0 * 65536 + uint d1 * 256 + uint d2 in if v < 2 ^ 23 then v else v - 2 ^ 24)"
proof -
  let ?v = "uint d0 * 65536 + uint d1 * 256 + uint d2"
  let ?x = "push_bit 16 (ucast d0) OR push_bit 8 (ucast d1) OR ucast d2 :: i32"
  have x: "uint ?x = ?v"
  proof -
    have "uint ?x = push_bit 16 (uint d0) OR (push_bit 8 (uint d1) OR uint d2)"
      by (rule bit_eqI) (auto simp: bit_simps dest: bit_imp_le_length)
    also have "push_bit 8 (uint d1) OR uint d2 = uint d1 * 256 + uint d2"
      using shift_or_add [of "uint d2" 8 "uint d1"] byte_range by simp
    also have "push_bit 16 (uint d0) OR (uint d1 * 256 + uint d2) = ?v"
      using shift_or_add [of "uint d1 * 256 + uint d2" 16 "uint d0"] byte_range [of d1] byte_range [of d2]
      by simp
    finally show ?thesis .
  qed
  have v: "0 \<le> ?v" "?v < 2 ^ 24" using byte_range [of d0] byte_range [of d1] byte_range [of d2] by simp_all
  have neg: "d0 AND 0x80 \<noteq> 0 \<longleftrightarrow> 128 \<le> uint d0"
  proof -
    have "d0 AND 0x80 \<noteq> 0 \<longleftrightarrow> bit d0 7" using and_exp_eq_0_iff_not_bit [of d0 7] by simp
    also have "\<dots> \<longleftrightarrow> bit (uint d0) 7" by (simp add: bit_unsigned_iff)
    also have "\<dots> \<longleftrightarrow> odd (uint d0 div 128)" by (simp add: bit_iff_odd)
    also have "uint d0 div 128 = (if uint d0 < 128 then 0 else 1)"
      using byte_range [of d0]
      by (auto intro: div_pos_pos_trivial int_div_pos_eq [where r = "uint d0 - 128"])
    finally show ?thesis by auto
  qed
  have sint: "sint w = (if uint w < 2 ^ 31 then uint w else uint w - 2 ^ 32)" for w :: i32
  proof -
    have w: "0 \<le> uint w" "uint w < 4294967296" using uint_lt2p [of w] by simp_all
    have "uint w div 2147483648 = (if uint w < 2147483648 then 0 else 1)"
      using w by (auto intro: div_pos_pos_trivial int_div_pos_eq [where r = "uint w - 2147483648"])
    with w show ?thesis
      by (auto simp: sint_uint signed_take_bit_eq_take_bit_minus take_bit_int_eq_self bit_iff_odd)
  qed
  show ?thesis
  proof (cases "128 \<le> uint d0")
    case True
    have "uint (?x OR 0xFF000000) = push_bit 24 0xFF OR ?v"
      unfolding unsigned_or_eq [of ?x] x by (simp add: or.commute)
    then have "uint (?x OR 0xFF000000) = 0xFF000000 + ?v"
      using shift_or_add [OF v, of "0xFF"] by simp
    moreover have "8388608 \<le> ?v" using True byte_range [of d1] byte_range [of d2] by linarith
    ultimately show ?thesis using True neg by (simp add: sample24_def Let_def sint)
  next
    case False
    moreover have "?v < 8388608" using False byte_range [of d1] byte_range [of d2] by linarith
    ultimately show ?thesis using neg x by (simp add: sample24_def Let_def sint)
  qed
qed

section \<open>Filling an array packet by packet\<close>

text \<open>
  The interface of the loops that copy the samples of one event or channel into the array
  allocated for it: a packet of interest appends its payload, any other is skipped. \<open>ok\<close> is the
  condition under which the payload lies inside the packet.
\<close>

locale packet_writer =
  fixes want :: "'p \<Rightarrow> bool" and ok :: "'p \<Rightarrow> bool" and payload :: "'p \<Rightarrow> 'd list"
    and step :: "'p \<Rightarrow> ('d list \<times> nat) option \<Rightarrow> ('d list \<times> nat) option"
  assumes step_want: "want p \<Longrightarrow> ok p \<Longrightarrow>
      step p (Some (data, n)) = map_option (\<lambda>d. (d, n + length (payload p))) (put_at data n (payload p))"
    and step_skip: "\<not> want p \<Longrightarrow> step p (Some st) = Some st"
begin

lemma fill_from:
  "\<forall>p\<in>set ps. want p \<longrightarrow> ok p \<Longrightarrow>
   length (concat (map payload (filter want ps))) \<le> length room \<Longrightarrow>
   fold step ps (Some (pre @ room, length pre)) =
     (let xs = concat (map payload (filter want ps))
      in Some (pre @ xs @ drop (length xs) room, length pre + length xs))"
proof (induction ps arbitrary: pre room)
  case (Cons p ps)
  show ?case
  proof (cases "want p")
    case True
    let ?x = "payload p"
    have ok: "ok p" and len: "length ?x \<le> length room" using Cons.prems True by auto
    have "put_at (pre @ room) (length pre) ?x = Some ((pre @ ?x) @ drop (length ?x) room)"
      using len by (simp add: put_at_def)
    then have "step p (Some (pre @ room, length pre))
        = Some ((pre @ ?x) @ drop (length ?x) room, length (pre @ ?x))"
      using step_want [OF True ok] by simp
    then show ?thesis
      using Cons.IH [of "drop (length ?x) room" "pre @ ?x"] Cons.prems True
      by (simp add: Let_def add.commute)
  next
    case False
    then show ?thesis using Cons by (simp add: step_skip)
  qed
qed simp

text \<open>An array of exactly the right length is filled completely.\<close>

lemma fill_exact:
  assumes "\<forall>p\<in>set ps. want p \<longrightarrow> ok p"
    and "length room = length (concat (map payload (filter want ps)))"
  shows "fold step ps (Some (room, 0)) =
    Some (concat (map payload (filter want ps)), length (concat (map payload (filter want ps))))"
  using fill_from [of ps room "[]"] assms by (simp add: Let_def)

end

end
