(* ===== verification/RT125.thy ===== *)
theory RT125
  imports Reftek
begin

text \<open>
  The RT-125 reader, \<^verbatim>\<open>utils/data/data_rt125.c\<close>: the packet types, the table of events built by
  \<^verbatim>\<open>get_rt125_hedr\<close>, the samples extracted by \<^verbatim>\<open>get_rt125_data\<close>, the file check and the state of
  health messages. A file is the list of its bytes; \<open>buf\<close> is what the packet buffer holds before
  the first read. \<open>None\<close> is an access outside an array. The properties show that the events of a
  file have distinct numbers and the right sample counts, that reading the data of an event fills
  exactly the array that was allocated for it, and when a file is accepted.
\<close>

section \<open>Packets\<close>

definition RT125_PKT_SIZE :: nat where
  "RT125_PKT_SIZE = 528"

definition RT125_MAX_PKT_RD :: nat where
  "RT125_MAX_PKT_RD = 1000"

datatype pagetype = PIC | PSH | PDT | PET | PER | InvalidPage

text \<open>The \<^verbatim>\<open>switch\<close> of \<^verbatim>\<open>rd_pack\<close>; \<open>InvalidPage\<close> is its value -10.\<close>

definition rd_type :: "byte list \<Rightarrow> pagetype" where
  "rd_type array =
     (if array ! 0 = 0x00 then PIC else if array ! 0 = 0x01 then PSH else if array ! 0 = 0x03 then PDT
      else if array ! 0 = 0x05 then PET else if array ! 0 = 0xFF then PER else InvalidPage)"

text \<open>The fields of a data packet: flags, event number, sample count; the extended header is at 10.\<close>

definition dp_flags :: "byte list \<Rightarrow> byte" where
  "dp_flags b = b ! 5"

definition dp_eventNum :: "byte list \<Rightarrow> int" where
  "dp_eventNum b = be16 b 7"

definition dp_sampleCnt :: "byte list \<Rightarrow> int" where
  "dp_sampleCnt b = u8 b 9"

record RT125ATRACE =
  ev_fileName :: cstr
  ev_unit_id :: int
  ev_eventNum :: int
  ev_sampsPsec :: int
  ev_year :: int
  ev_jday :: int
  ev_hour :: int
  ev_minute :: int
  ev_second :: int
  ev_numSamps :: int
  ev_gain :: int

text \<open>The condition on the flags, with the bitwise \<^verbatim>\<open>|\<close> that the source has.\<close>

definition first_or_ext :: "byte list \<Rightarrow> bool" where
  "first_or_ext b \<longleftrightarrow> dp_flags b OR 1 \<noteq> 0 \<or> dp_flags b OR 4 \<noteq> 0"

definition getEvent :: "int \<Rightarrow> RT125ATRACE \<Rightarrow> bool" where
  "getEvent eventNum one \<longleftrightarrow> ev_eventNum one - eventNum = 0"

definition rt125_new :: "cstr \<Rightarrow> byte list \<Rightarrow> RT125ATRACE" where
  "rt125_new fn b =
     \<lparr>ev_fileName = fn, ev_unit_id = RT125AUNITID b, ev_eventNum = dp_eventNum b,
      ev_sampsPsec = be16 b 16, ev_year = RT125AYEAR b 10, ev_jday = RT125AJDAY b 10,
      ev_hour = RT125AHOUR b 10, ev_minute = RT125AMIN b 10, ev_second = RT125ASEC b 10,
      ev_numSamps = 0, ev_gain = 0\<rparr>"

definition add_samps :: "byte list \<Rightarrow> RT125ATRACE \<Rightarrow> RT125ATRACE" where
  "add_samps b e = e\<lparr>ev_numSamps := ev_numSamps e + dp_sampleCnt b\<rparr>"

text \<open>The body of the loop of \<^verbatim>\<open>get_rt125_hedr\<close>.\<close>

definition rt125_hedr_step :: "cstr \<Rightarrow> byte list \<Rightarrow> RT125ATRACE list \<Rightarrow> RT125ATRACE list" where
  "rt125_hedr_step fn b events =
     (if rd_type b = PDT then
        (if first_or_ext b then
           upsert (getEvent (dp_eventNum b)) (add_samps b (rt125_new fn b)) (add_samps b) events
         else update_first (getEvent (dp_eventNum b)) (add_samps b) events)
      else events)"

text \<open>\<open>'d\<close> is the element of the sample array, an \<^verbatim>\<open>int\<close> here.\<close>

definition make_rt125_trace :: "RT125ATRACE \<Rightarrow> i32 traceInfo" where
  "make_rt125_trace e =
     (let date = \<lparr>yr = ev_year e, mo = 0, day = ev_jday e, jday = 0, hr = ev_hour e,
                  mn = ev_minute e, sec = of_int (ev_second e)\<rparr>;
          h = calloc_head\<lparr>year := ev_year e, dayOfYear := ev_jday e, hour := ev_hour e,
                minute := ev_minute e, second := ev_second e,
                epochs := of_int (passcal_htoe date False), gainConst := ev_gain e, scale_fac := 1,
                sensorID := show_int (ev_unit_id e), sampInt := 1000000 / of_int (ev_sampsPsec e),
                channel := show_int (ev_eventNum e),
                descr1 := date_descr (ev_year e) (ev_jday e) (ev_hour e) (ev_minute e),
                descr2 := lit ''ID: '' @ show_int (ev_unit_id e) @ lit '' E#: '' @ show_int (ev_eventNum e),
                longFN := ev_fileName e,
                shortFN := base_name (ev_fileName e) @ lit '':#'' @ show_int (ev_eventNum e),
                data_form := BIT32, dataSize := 4\<rparr>
      in calloc_trace\<lparr>fileType := RT125_DATA, fileName := ev_fileName e, head := h,
           dataInfo := (dataInfo calloc_trace)\<lparr>numSamples := ev_numSamps e\<rparr>\<rparr>)"

definition rt125_events :: "byte list \<Rightarrow> byte list \<Rightarrow> cstr \<Rightarrow> RT125ATRACE list" where
  "rt125_events buf fp fn = fold (rt125_hedr_step fn) (blocks RT125_PKT_SIZE buf fp) []"

text \<open>Each event with samples is put in front of the list of traces.\<close>

definition get_rt125_hedr :: "byte list \<Rightarrow> byte list \<Rightarrow> cstr \<Rightarrow> i32 traceInfo list" where
  "get_rt125_hedr buf fp fn =
     fold (\<lambda>e traces. if ev_numSamps e \<noteq> 0 then make_rt125_trace e # traces else traces)
       (rt125_events buf fp fn) []"

section \<open>Data\<close>

text \<open>One packet: its samples are stored from \<^verbatim>\<open>sampsRead\<close> on.\<close>

definition rt125_data_step ::
  "int \<Rightarrow> byte list \<Rightarrow> (i32 list \<times> nat) option \<Rightarrow> (i32 list \<times> nat) option" where
  "rt125_data_step chan b st =
     (case st of None \<Rightarrow> None
      | Some (data, sampsRead) \<Rightarrow>
          if rd_type b = PDT \<and> dp_eventNum b = chan then
            (let rtCntr = (if first_or_ext b then 9 else 0)
             in do { xs \<leftarrow> get_samples24 b (10 + rtCntr) (nat (dp_sampleCnt b));
                     data' \<leftarrow> put_at data sampsRead xs;
                     Some (data', sampsRead + length xs) })
          else Some (data, sampsRead))"

text \<open>
  What every REFTEK reader stores at the end: the number of samples read, the length in seconds,
  in \<^verbatim>\<open>float\<close> arithmetic, and the copies of the header fields.
\<close>

definition finish_data :: "nat \<Rightarrow> 'd list \<Rightarrow> 'd traceInfo \<Rightarrow> 'd traceInfo" where
  "finish_data sampsRead data trace =
     (let h = head trace;
          oneSample = to_float (1 / (1000000 / sampInt h))
      in trace\<lparr>dataInfo := \<lparr>d_data = Some data, numSamples = int sampsRead, d_form = data_form h,
                              d_sampInt = sampInt h, secsPsamp = sampInt h / 1000000\<rparr>,
               head := h\<lparr>secsLength := of_nat sampsRead * to_float (sampInt h / 1000000) - oneSample\<rparr>\<rparr>)"

text \<open>\<open>fp\<close> is the file, \<open>None\<close> when it cannot be opened.\<close>

definition get_rt125_data ::
  "byte list \<Rightarrow> byte list option \<Rightarrow> i32 traceInfo \<Rightarrow> (status \<times> i32 traceInfo) option" where
  "get_rt125_data buf fp trace =
     (case fp of None \<Rightarrow> Some (FAILURE, trace)
      | Some bytes \<Rightarrow>
          do { (data, sampsRead) \<leftarrow>
                 fold (rt125_data_step (atoi (channel (head trace)))) (blocks RT125_PKT_SIZE buf bytes)
                   (Some (replicate (nat (numSamples (dataInfo trace))) 0, 0));
               if sampsRead = 0
               then Some (NOT_ENOUGH_DATA, trace\<lparr>dataInfo := (dataInfo trace)\<lparr>d_data := None\<rparr>\<rparr>)
               else Some (PQLXSUCCESS, finish_data sampsRead data trace) })"

section \<open>Identification\<close>

text \<open>The loop of \<^verbatim>\<open>rt125_check\<close> over the first packets, and what it has found.\<close>

fun check_loop :: "nat \<Rightarrow> pagetype \<Rightarrow> bool \<Rightarrow> bool \<Rightarrow> byte list list \<Rightarrow> status" where
  "check_loop 0 want fw fd bs = FAILURE"
| "check_loop (Suc i) want fw fd [] = FAILURE"
| "check_loop (Suc i) want fw fd (b # bs) =
     (let fw = (fw \<or> rd_type b = want); fd = (fd \<or> rd_type b = PDT)
      in if fw \<and> fd then PQLXSUCCESS else check_loop i want fw fd bs)"

definition rt125_check :: "byte list \<Rightarrow> byte list \<Rightarrow> status" where
  "rt125_check buf fp =
     check_loop RT125_MAX_PKT_RD PSH False False (blocks RT125_PKT_SIZE buf fp)"

text \<open>The check and the header reader each have a packet buffer of their own.\<close>

definition IDrt125 :: "byte list \<Rightarrow> byte list \<Rightarrow> byte list \<Rightarrow> cstr \<Rightarrow> i32 traceInfo list" where
  "IDrt125 buf buf' fp fn =
     (if rt125_check buf fp \<noteq> FAILURE then get_rt125_hedr buf' fp fn else [])"

section \<open>State of health\<close>

record SOHMSG =
  s_year :: int
  s_jday :: int
  s_hour :: int
  s_minute :: int
  s_second :: int
  s_msg :: cstr

record SOHINFO =
  seqnum :: int
  msgs :: "SOHMSG list"

text \<open>The messages of a packet from offset \<open>p\<close>: six bytes of time, then text up to CR LF.\<close>

fun soh_msgs :: "nat \<Rightarrow> byte list \<Rightarrow> nat \<Rightarrow> SOHMSG list option" where
  "soh_msgs 0 b p = Some []"
| "soh_msgs (Suc k) b p =
     (if length b < p + 6 then None
      else case strstr_crlf (drop (p + 6) b) of
             None \<Rightarrow> None
           | Some None \<Rightarrow> Some []
           | Some (Some loc) \<Rightarrow>
               map_option ((#) \<lparr>s_year = RT125AYEAR b p, s_jday = RT125AJDAY b p, s_hour = RT125AHOUR b p,
                                s_minute = RT125AMIN b p, s_second = RT125ASEC b p,
                                s_msg = take loc (drop (p + 6) b)\<rparr>)
                 (soh_msgs k b (p + 6 + loc + 2)))"

definition get_rt125_SOH :: "byte list \<Rightarrow> byte list \<Rightarrow> SOHINFO list option" where
  "get_rt125_SOH buf fp =
     fold (\<lambda>b st. do { sohMsgList \<leftarrow> st;
                       if rd_type b = PSH
                       then do { ms \<leftarrow> soh_msgs (nat (u8 b 9)) b 10;
                                 Some (sohMsgList @ [\<lparr>seqnum = be16 b 3, msgs = ms\<rparr>]) }
                       else Some sohMsgList })
       (blocks RT125_PKT_SIZE buf fp) (Some [])"

section \<open>The event table\<close>

text \<open>The bitwise or with a mask that is not zero is never zero: the condition always holds.\<close>

lemma first_or_ext_True [simp]: "first_or_ext b"
proof -
  have "bit (dp_flags b OR 1) 0" by (simp add: bit_or_iff)
  then have "dp_flags b OR 1 \<noteq> 0" by (metis bit_0_eq bot_apply bot_bool_def)
  then show ?thesis by (simp add: first_or_ext_def)
qed

interpretation rt125: keyed_table ev_eventNum dp_eventNum "\<lambda>b. add_samps b (rt125_new fn b)" add_samps
    ev_numSamps dp_sampleCnt "\<lambda>e. e\<lparr>ev_numSamps := 0\<rparr>" "rt125_new fn" for fn
  by unfold_locales (simp_all add: add_samps_def rt125_new_def)

text \<open>The data packets of a file.\<close>

definition data_packets :: "byte list \<Rightarrow> byte list \<Rightarrow> byte list list" where
  "data_packets buf fp = filter (\<lambda>b. rd_type b = PDT) (blocks RT125_PKT_SIZE buf fp)"

lemma getEvent_eq: "getEvent k = (\<lambda>e. ev_eventNum e = k)"
  by (auto simp: getEvent_def)

lemma rt125_events_table:
  "rt125_events buf fp fn =
     fold (\<lambda>b. upsert (\<lambda>e. ev_eventNum e = dp_eventNum b) (add_samps b (rt125_new fn b)) (add_samps b))
       (data_packets buf fp) []"
proof -
  have step: "rt125_hedr_step fn = (\<lambda>b ev. if rd_type b = PDT then
      upsert (\<lambda>e. ev_eventNum e = dp_eventNum b) (add_samps b (rt125_new fn b)) (add_samps b) ev else ev)"
    by (rule ext, rule ext) (simp add: rt125_hedr_step_def getEvent_eq)
  show ?thesis
    unfolding rt125_events_def data_packets_def step by (rule fold_filter_if)
qed

lemma get_rt125_hedr_traces:
  "get_rt125_hedr buf fp fn =
     rev (map make_rt125_trace (filter (\<lambda>e. ev_numSamps e \<noteq> 0) (rt125_events buf fp fn)))"
  by (simp add: get_rt125_hedr_def fold_prepend)

lemma be16_range: "0 \<le> be16 b i" "be16 b i < 65536"
  using byte_range [of "b ! i"] byte_range [of "b ! (i + 1)"] by (simp_all add: be16_def u8_def)

lemma show_int_inj: "show_int a = show_int b \<Longrightarrow> 0 \<le> a \<Longrightarrow> a < 65536 \<Longrightarrow> 0 \<le> b \<Longrightarrow> b < 65536 \<Longrightarrow> a = b"
proof -
  assume eq: "show_int a = show_int b" and r: "0 \<le> a" "a < 65536" "0 \<le> b" "b < 65536"
  have "atoi (show_int a) = a" "atoi (show_int b) = b" using r by (auto intro!: atoi_show_int)
  then show "a = b" unfolding eq by simp
qed

lemma event_of_table:
  assumes "e \<in> set (rt125_events buf fp fn)"
  shows "\<exists>q qs. filter (\<lambda>b. dp_eventNum b = ev_eventNum e) (data_packets buf fp) = q # qs
    \<and> e = (rt125_new fn q)\<lparr>ev_numSamps := sum_list (map dp_sampleCnt (q # qs))\<rparr>"
proof -
  obtain q qs where q: "filter (\<lambda>b. dp_eventNum b = ev_eventNum e) (data_packets buf fp) = q # qs"
    and i: "e\<lparr>ev_numSamps := 0\<rparr> = rt125_new fn q" and c: "ev_numSamps e = sum_list (map dp_sampleCnt (q # qs))"
    using rt125.fold_entry [of e fn "data_packets buf fp"] assms unfolding rt125_events_table by blast
  have "e = (e\<lparr>ev_numSamps := 0\<rparr>)\<lparr>ev_numSamps := ev_numSamps e\<rparr>" by simp
  then show ?thesis using q unfolding i c by blast
qed

lemma event_num_range:
  assumes "e \<in> set (rt125_events buf fp fn)"
  shows "0 \<le> ev_eventNum e" "ev_eventNum e < 65536"
  using event_of_table [OF assms] be16_range by (auto simp: rt125_new_def dp_eventNum_def)

lemma dp_sampleCnt_range: "0 \<le> dp_sampleCnt b" "dp_sampleCnt b < 256"
  using byte_range by (simp_all add: dp_sampleCnt_def u8_def)

text \<open>
  \<^verbatim>\<open>get_rt125_hedr\<close> makes exactly one trace for every event number that has samples, whatever the
  order of the packets: no two traces have the same channel, a trace carries the sum of the sample
  counts of its event's data packets and takes its header from the first of them, and every data
  packet with samples belongs to a trace.
\<close>

theorem rt125_hedr_traces:
  "distinct (map (\<lambda>t. channel (head t)) (get_rt125_hedr buf fp fn))
   \<and> (\<forall>t\<in>set (get_rt125_hedr buf fp fn). \<exists>q qs.
        filter (\<lambda>b. show_int (dp_eventNum b) = channel (head t)) (data_packets buf fp) = q # qs
        \<and> t = make_rt125_trace ((rt125_new fn q)\<lparr>ev_numSamps := sum_list (map dp_sampleCnt (q # qs))\<rparr>)
        \<and> 0 < numSamples (dataInfo t))
   \<and> (\<forall>b\<in>set (data_packets buf fp). 0 < dp_sampleCnt b \<longrightarrow>
        (\<exists>t\<in>set (get_rt125_hedr buf fp fn). channel (head t) = show_int (dp_eventNum b)))"
proof (intro conjI ballI impI)
  let ?ev = "rt125_events buf fp fn"
  have ch: "channel (head (make_rt125_trace e)) = show_int (ev_eventNum e)" for e
    by (simp add: make_rt125_trace_def Let_def)
  have "distinct (map ev_eventNum ?ev)"
    using rt125.fold_keys [of "[]" fn] unfolding rt125_events_table by simp
  then have "distinct (map (\<lambda>e. show_int (ev_eventNum e)) ?ev)"
    unfolding distinct_map inj_on_def using event_num_range show_int_inj by metis
  then show "distinct (map (\<lambda>t. channel (head t)) (get_rt125_hedr buf fp fn))"
    by (simp add: get_rt125_hedr_traces rev_map [symmetric] comp_def ch distinct_map_filter)
next
  let ?ev = "rt125_events buf fp fn"
  fix t assume "t \<in> set (get_rt125_hedr buf fp fn)"
  then obtain e where e: "e \<in> set ?ev" "ev_numSamps e \<noteq> 0" "t = make_rt125_trace e"
    by (auto simp: get_rt125_hedr_traces)
  obtain q qs where q: "filter (\<lambda>b. dp_eventNum b = ev_eventNum e) (data_packets buf fp) = q # qs"
    and ee: "e = (rt125_new fn q)\<lparr>ev_numSamps := sum_list (map dp_sampleCnt (q # qs))\<rparr>"
    using event_of_table [OF e(1)] by blast
  have "(\<lambda>b. show_int (dp_eventNum b) = channel (head t)) = (\<lambda>b. dp_eventNum b = ev_eventNum e)"
    using show_int_inj event_num_range [OF e(1)] be16_range
    by (auto simp: e(3) make_rt125_trace_def Let_def dp_eventNum_def)
  moreover have "0 \<le> sum_list (map dp_sampleCnt (q # qs))"
    using dp_sampleCnt_range by (intro sum_list_nonneg) auto
  then have "0 < numSamples (dataInfo t)"
    using e(2,3) ee by (simp add: make_rt125_trace_def Let_def)
  ultimately show "\<exists>q qs. filter (\<lambda>b. show_int (dp_eventNum b) = channel (head t)) (data_packets buf fp) = q # qs
        \<and> t = make_rt125_trace ((rt125_new fn q)\<lparr>ev_numSamps := sum_list (map dp_sampleCnt (q # qs))\<rparr>)
        \<and> 0 < numSamples (dataInfo t)"
    using q ee e(3) by metis
next
  fix b assume b: "b \<in> set (data_packets buf fp)" "0 < dp_sampleCnt b"
  obtain e where e: "e \<in> set (rt125_events buf fp fn)" "ev_eventNum e = dp_eventNum b"
    using rt125.fold_has_entry [OF b(1), of fn] unfolding rt125_events_table by auto
  obtain qs where qs: "filter (\<lambda>b. dp_eventNum b = ev_eventNum e) (data_packets buf fp) = qs"
    and c: "ev_numSamps e = sum_list (map dp_sampleCnt qs)"
    using event_of_table [OF e(1)] by force
  have "b \<in> set qs" using b(1) e(2) unfolding qs [symmetric] by simp
  then have "dp_sampleCnt b \<le> sum_list (map dp_sampleCnt qs)"
    using dp_sampleCnt_range by (intro member_le_sum_list) auto
  then have "make_rt125_trace e \<in> set (get_rt125_hedr buf fp fn)"
    using b(2) c e(1) by (auto simp: get_rt125_hedr_traces)
  then show "\<exists>t\<in>set (get_rt125_hedr buf fp fn). channel (head t) = show_int (dp_eventNum b)"
    using e(2) by (intro bexI [where x = "make_rt125_trace e"]) (simp_all add: make_rt125_trace_def Let_def)
qed

text \<open>A packet of two samples of event 5, for the witnesses.\<close>

definition packet5 :: "byte list" where
  "packet5 = [0x03, 0, 7, 0, 0, 0, 0, 0, 5, 2] @ replicate 518 0"

lemma packet5_file: "data_packets (replicate 528 0) packet5 = [packet5]"
proof -
  have l: "length packet5 = 528" by (simp add: packet5_def)
  then have "chunks 528 packet5 = [packet5]" by (simp add: chunks_def)
  moreover have "rd_type packet5 = PDT" by (simp add: rd_type_def packet5_def)
  ultimately show ?thesis
    using l by (simp add: data_packets_def RT125_PKT_SIZE_def blocks_aligned)
qed

lemma packet5_fields: "dp_eventNum packet5 = 5" "dp_sampleCnt packet5 = 2"
  by (simp_all add: dp_eventNum_def dp_sampleCnt_def be16_def u8_def packet5_def)

theorem rt125_hedr_traces_witness:
  "\<exists>t\<in>set (get_rt125_hedr (replicate 528 0) packet5 (lit ''a.trd'')). channel (head t) = show_int 5"
  using rt125_hedr_traces [of "replicate 528 0" packet5 "lit ''a.trd''"]
  by (simp add: packet5_file packet5_fields)

section \<open>Reading the samples\<close>

text \<open>The samples of a data packet, as the reader takes them.\<close>

definition packet_samples :: "byte list \<Rightarrow> i32 list" where
  "packet_samples b =
     map (\<lambda>i. sample24 (b ! (19 + 3 * i)) (b ! (19 + 3 * i + 1)) (b ! (19 + 3 * i + 2)))
       [0..<nat (dp_sampleCnt b)]"

lemma length_packet_samples [simp]: "int (length (packet_samples b)) = dp_sampleCnt b"
  using dp_sampleCnt_range by (simp add: packet_samples_def)

interpretation rt125w: packet_writer "\<lambda>b. rd_type b = PDT \<and> dp_eventNum b = chan"
    "\<lambda>b. 19 + 3 * dp_sampleCnt b \<le> int (length b)" packet_samples "rt125_data_step chan" for chan
proof unfold_locales
  fix b :: "byte list" and data :: "i32 list" and n :: nat
  assume w: "rd_type b = PDT \<and> dp_eventNum b = chan" and ok: "19 + 3 * dp_sampleCnt b \<le> int (length b)"
  have "nat (dp_sampleCnt b) * 3 + 19 \<le> length b" using ok dp_sampleCnt_range [of b] by simp
  then have "get_samples24 b 19 (nat (dp_sampleCnt b)) = Some (packet_samples b)"
    by (simp add: get_samples24_def packet_samples_def mult.commute add.commute)
  then show "rt125_data_step chan b (Some (data, n)) =
      map_option (\<lambda>d. (d, n + length (packet_samples b))) (put_at data n (packet_samples b))"
    using w by (simp add: rt125_data_step_def Let_def map_option_case bind_eq_Some_conv split: option.split)
qed (auto simp: rt125_data_step_def)

lemma sum_samples: "int (length (concat (map packet_samples bs))) = sum_list (map dp_sampleCnt bs)"
  by (induction bs) simp_all

text \<open>The samples of an event, in the order of the file.\<close>

lemma rt125_event_samples:
  assumes "RT125_PKT_SIZE dvd length fp" and "length buf = RT125_PKT_SIZE" and "length buf' = RT125_PKT_SIZE"
    and "\<forall>b\<in>set (data_packets buf fp). dp_sampleCnt b \<le> 169"
    and "e \<in> set (rt125_events buf fp fn)" and "ev_numSamps e \<noteq> 0" and "t = make_rt125_trace e"
    and "xs = concat (map packet_samples (filter (\<lambda>b. dp_eventNum b = ev_eventNum e) (data_packets buf fp)))"
  shows "int (length xs) = numSamples (dataInfo t)
    \<and> get_rt125_data buf' (Some fp) t = Some (PQLXSUCCESS, finish_data (length xs) xs t)"
proof -
  note rng = event_num_range [OF assms(5)]
  let ?k = "ev_eventNum e" and ?bs = "blocks RT125_PKT_SIZE buf fp"
  have t: "channel (head t) = show_int ?k" "numSamples (dataInfo t) = ev_numSamps e"
    by (simp_all add: assms(7) make_rt125_trace_def Let_def)
  have xs: "xs = concat (map packet_samples (filter (\<lambda>b. rd_type b = PDT \<and> dp_eventNum b = ?k) ?bs))"
    unfolding assms(8) data_packets_def filter_filter by (simp add: conj_commute)
  have cnt: "int (length xs) = ev_numSamps e"
    unfolding assms(8) sum_samples using event_of_table [OF assms(5)] by force
  have ch: "atoi (channel (head t)) = ?k" unfolding t using rng by (auto intro!: atoi_show_int)
  have bs: "blocks RT125_PKT_SIZE buf' fp = ?bs" "\<forall>b\<in>set ?bs. length b = 528"
    using assms(1-3) by (simp_all add: blocks_aligned chunk_length RT125_PKT_SIZE_def)
  have ok: "\<forall>b\<in>set ?bs. rd_type b = PDT \<and> dp_eventNum b = ?k \<longrightarrow> 19 + 3 * dp_sampleCnt b \<le> int (length b)"
    using assms(4) bs(2) by (fastforce simp: data_packets_def)
  have "length (replicate (nat (ev_numSamps e)) (0 :: i32))
      = length (concat (map packet_samples (filter (\<lambda>b. rd_type b = PDT \<and> dp_eventNum b = ?k) ?bs)))"
    using cnt unfolding xs [symmetric] by simp
  from rt125w.fill_exact [OF ok this]
  have "fold (rt125_data_step ?k) ?bs (Some (replicate (nat (ev_numSamps e)) 0, 0)) = Some (xs, length xs)"
    unfolding xs [symmetric] .
  moreover have "length xs \<noteq> 0" using cnt assms(6) by auto
  ultimately show ?thesis
    using cnt by (simp add: get_rt125_data_def bs(1) ch t(2))
qed



text \<open>
  the flags of a data packet have no effect on reading it. The source tests them with a bitwise or,
  which is never zero, so a page that is neither a first page nor has an extended header is read
  like one: its nine bytes of samples before offset 19 are skipped.
\<close>

theorem rt125_flags_ignored:
  "rt125_data_step chan (b[5 := f]) st = rt125_data_step chan b st
   \<and> rt125_hedr_step fn (b[5 := f]) events = rt125_hedr_step fn b events"
proof -
  have nth: "b[5 := f] ! i = b ! i" if "i \<noteq> 5" for i using that by simp
  have fields: "rd_type (b[5 := f]) = rd_type b" "dp_eventNum (b[5 := f]) = dp_eventNum b"
    "dp_sampleCnt (b[5 := f]) = dp_sampleCnt b" "rt125_new fn (b[5 := f]) = rt125_new fn b"
    by (simp_all add: rd_type_def dp_eventNum_def dp_sampleCnt_def rt125_new_def be16_def u8_def RT125AUNITID_def
        RT125AYEAR_def RT125AJDAY_def RT125AHOUR_def RT125AMIN_def RT125ASEC_def)
  have samples: "get_samples24 (b[5 := f]) 19 n = get_samples24 b 19 n" for n
    by (simp add: get_samples24_def)
  have add: "add_samps (b[5 := f]) = add_samps b" by (rule ext) (simp add: add_samps_def fields)
  have "rt125_data_step chan (b[5 := f]) st = rt125_data_step chan b st"
    unfolding rt125_data_step_def fields Let_def by (cases st) (auto simp: samples)
  then show ?thesis by (simp add: rt125_hedr_step_def fields add)
qed

section \<open>File identification\<close>

lemma check_loop_spec:
  "\<not> (fw \<and> fd) \<Longrightarrow> check_loop n want fw fd bs = PQLXSUCCESS \<longleftrightarrow>
     (fw \<or> (\<exists>b\<in>set (take n bs). rd_type b = want)) \<and> (fd \<or> (\<exists>b\<in>set (take n bs). rd_type b = PDT))"
proof (induction n want fw fd bs rule: check_loop.induct)
  case (3 i want fw fd b bs)
  show ?case
  proof (cases "(fw \<or> rd_type b = want) \<and> (fd \<or> rd_type b = PDT)")
    case True
    then show ?thesis by (auto simp: Let_def)
  next
    case False
    from 3(1) [OF refl refl this] False show ?thesis by (auto simp: Let_def)
  qed
qed simp_all

lemma check_loop_cases: "check_loop n want fw fd bs \<noteq> FAILURE \<longleftrightarrow> check_loop n want fw fd bs = PQLXSUCCESS"
  by (induction n want fw fd bs rule: check_loop.induct) (simp_all add: Let_def)

text \<open>
  A file yields traces only if a state of health packet and a data packet occur among its first
  thousand packets, and then it yields those of \<^verbatim>\<open>get_rt125_hedr\<close>.
\<close>

theorem IDrt125_accepts:
  "IDrt125 buf buf' fp fn =
     (if (\<exists>b\<in>set (take 1000 (blocks RT125_PKT_SIZE buf fp)). rd_type b = PSH)
         \<and> (\<exists>b\<in>set (take 1000 (blocks RT125_PKT_SIZE buf fp)). rd_type b = PDT)
      then get_rt125_hedr buf' fp fn else [])"
  unfolding IDrt125_def rt125_check_def check_loop_cases RT125_MAX_PKT_RD_def
  by (subst check_loop_spec) simp_all

section \<open>Reading back state of health messages\<close>

text \<open>A message as the recorder writes it.\<close>

definition soh_bytes :: "SOHMSG \<Rightarrow> byte list" where
  "soh_bytes m =
     [word_of_int (s_year m - 1984), word_of_int ((s_jday m - 1) div 100), word_of_int ((s_jday m - 1) mod 100),
      word_of_int (s_hour m), word_of_int (s_minute m), word_of_int (s_second m)] @ s_msg m @ [13, 10]"

definition soh_ok :: "SOHMSG \<Rightarrow> bool" where
  "soh_ok m \<longleftrightarrow> 1984 \<le> s_year m \<and> s_year m < 2240 \<and> 1 \<le> s_jday m \<and> s_jday m \<le> 366
     \<and> 0 \<le> s_hour m \<and> s_hour m < 24 \<and> 0 \<le> s_minute m \<and> s_minute m < 60 \<and> 0 \<le> s_second m \<and> s_second m < 60
     \<and> 0 \<notin> set (s_msg m) \<and> 13 \<notin> set (s_msg m)"

lemma uint_byte_id: "0 \<le> k \<Longrightarrow> k < 256 \<Longrightarrow> uint (word_of_int k :: byte) = k"
  by (simp add: uint_word_of_int take_bit_int_eq_self)

lemma soh_fields:
  assumes "soh_ok m" and "p = length pre" and "b = pre @ soh_bytes m @ rest"
  shows "RT125AYEAR b p = s_year m" "RT125AJDAY b p = s_jday m" "RT125AHOUR b p = s_hour m"
    "RT125AMIN b p = s_minute m" "RT125ASEC b p = s_second m" "drop (p + 6) b = s_msg m @ 13 # 10 # rest"
    "p + 6 \<le> length b"
proof -
  have n: "b ! (p + i) = soh_bytes m ! i" if "i < 6" for i
    using that assms(2,3) by (simp add: nth_append) (simp add: soh_bytes_def)
  have l6: "6 \<le> length (soh_bytes m)" by (simp add: soh_bytes_def)
  have n0: "b ! p = soh_bytes m ! 0" "b ! Suc p = soh_bytes m ! 1" "b ! Suc (Suc p) = soh_bytes m ! 2"
    using n [of 0] n [of 1] n [of 2] by (simp_all add: numeral_2_eq_2)
  have jd: "(s_jday m - 1) div 100 * 100 + (s_jday m - 1) mod 100 + 1 = s_jday m" by simp
  have "0 \<le> (s_jday m - 1) div 100" "(s_jday m - 1) div 100 < 256" "0 \<le> (s_jday m - 1) mod 100"
      "(s_jday m - 1) mod 100 < 256"
    using assms(1) by (auto simp: soh_ok_def pos_imp_zdiv_nonneg_iff intro: order.strict_trans [of _ 100])
  note r = this uint_byte_id
  show "RT125AYEAR b p = s_year m" "RT125AHOUR b p = s_hour m"
    "RT125AMIN b p = s_minute m" "RT125ASEC b p = s_second m"
    using assms(1) r
    by (simp_all add: RT125AYEAR_def RT125AHOUR_def RT125AMIN_def RT125ASEC_def u8_def n n0 soh_bytes_def soh_ok_def
        del: of_int_diff)
  show "RT125AJDAY b p = s_jday m"
    using r jd by (simp add: RT125AJDAY_def u8_def n n0 soh_bytes_def del: of_int_diff)
  show "drop (p + 6) b = s_msg m @ 13 # 10 # rest" "p + 6 \<le> length b"
    using assms(2,3) by (simp_all add: soh_bytes_def)
qed

text \<open>
  The state of health messages of a packet are read back: when a packet holds \<open>n\<close> messages, each a
  binary time, a text without zero or carriage return bytes and CR LF, the message loop of
  \<^verbatim>\<open>get_rt125_SOH\<close> returns exactly these messages and does not leave the packet.
\<close>

theorem soh_msgs_read_back:
  assumes "\<forall>m\<in>set ms. soh_ok m"
  shows "soh_msgs (length ms) (pre @ concat (map soh_bytes ms) @ rest) (length pre) = Some ms"
  using assms
proof (induction ms arbitrary: pre)
  case (Cons m ms)
  let ?r = "concat (map soh_bytes ms) @ rest" and ?b = "pre @ soh_bytes m @ concat (map soh_bytes ms) @ rest"
  have ok: "soh_ok m" "0 \<notin> set (s_msg m)" "13 \<notin> set (s_msg m)" using Cons.prems by (auto simp: soh_ok_def)
  note f = soh_fields [OF ok(1) refl, of ?b pre ?r, OF refl]
  have s: "strstr_crlf (drop (length pre + 6) ?b) = Some (Some (length (s_msg m)))"
    unfolding f(6) by (rule strstr_crlf_found [OF ok(2,3)])
  have "length pre + 6 + length (s_msg m) + 2 = length (pre @ soh_bytes m)" by (simp add: soh_bytes_def)
  then have "soh_msgs (length ms) ?b (length pre + 6 + length (s_msg m) + 2) = Some ms"
    using Cons.IH [of "pre @ soh_bytes m"] Cons.prems by (simp only: append_assoc) simp
  moreover have "take (length (s_msg m)) (drop (length pre + 6) ?b) = s_msg m" unfolding f(6) by simp
  ultimately show ?case
    using f(7) s by (simp add: f(1-5) del: drop_append take_append)
qed simp

theorem soh_msgs_read_back_witness:
  "soh_msgs 1 ([0] @ soh_bytes \<lparr>s_year = 2010, s_jday = 123, s_hour = 4, s_minute = 5, s_second = 6, s_msg = [65, 66]\<rparr>) 1
   = Some [\<lparr>s_year = 2010, s_jday = 123, s_hour = 4, s_minute = 5, s_second = 6, s_msg = [65, 66]\<rparr>]"
  using soh_msgs_read_back
    [of "[\<lparr>s_year = 2010, s_jday = 123, s_hour = 4, s_minute = 5, s_second = 6, s_msg = [65, 66]\<rparr>]" "[0]" "[]"]
  by (simp add: soh_ok_def)

end
