(* ===== verification/RT125A.thy ===== *)
theory RT125A
  imports RT125
begin

text \<open>
  The RT-125A reader, \<^verbatim>\<open>utils/data/data_rt125a.c\<close>. Its events are known by their start times: a
  first pass over the file collects the event tables, a second pass adds the data packets to the
  event with the same time. The packet types and the state of health packets are those of the
  RT-125. The comparison function reads the time through a \<^verbatim>\<open>char\<close> pointer, so its bytes are signed
  there and unsigned everywhere else; the properties are about files whose time bytes are below 128.
\<close>

section \<open>Event tables\<close>

definition RT125A_PKT_SIZE :: nat where
  "RT125A_PKT_SIZE = 528"

definition RT125A_MAX_PKT_RD :: nat where
  "RT125A_MAX_PKT_RD = 1000"

text \<open>\<^verbatim>\<open>rd_pack\<close> is the same function as in \<^verbatim>\<open>data_rt125.c\<close>.\<close>

definition rd_type_A :: "byte list \<Rightarrow> pagetype" where
  "rd_type_A array = rd_type array"

type_synonym event_key = "int \<times> int \<times> int \<times> int \<times> int"

text \<open>An event time at offset \<open>j\<close>, with unsigned and with signed bytes, and that of an event.\<close>

definition etime :: "byte list \<Rightarrow> nat \<Rightarrow> event_key" where
  "etime b j = (RT125AYEAR b j, RT125AJDAY b j, RT125AHOUR b j, RT125AMIN b j, RT125ASEC b j)"

definition s8 :: "byte list \<Rightarrow> nat \<Rightarrow> int" where
  "s8 b i = sint (b ! i)"

definition stime :: "byte list \<Rightarrow> nat \<Rightarrow> event_key" where
  "stime b j = (s8 b j + 1984, s8 b (j + 1) * 100 + s8 b (j + 2) + 1, s8 b (j + 3), s8 b (j + 4), s8 b (j + 5))"

definition ev_time :: "RT125ATRACE \<Rightarrow> event_key" where
  "ev_time e = (ev_year e, ev_jday e, ev_hour e, ev_minute e, ev_second e)"

definition getEvent_A :: "byte list \<Rightarrow> nat \<Rightarrow> RT125ATRACE \<Rightarrow> bool" where
  "getEvent_A b j one \<longleftrightarrow> ev_time one = stime b j"

definition rt125A_new :: "cstr \<Rightarrow> byte list \<Rightarrow> nat \<Rightarrow> RT125ATRACE" where
  "rt125A_new fn b j =
     \<lparr>ev_fileName = fn, ev_unit_id = RT125AUNITID b, ev_eventNum = 0, ev_sampsPsec = 0,
      ev_year = RT125AYEAR b j, ev_jday = RT125AJDAY b j, ev_hour = RT125AHOUR b j,
      ev_minute = RT125AMIN b j, ev_second = RT125ASEC b j, ev_numSamps = 0, ev_gain = 0\<rparr>"

text \<open>
  The entries of a table packet: entry \<open>i\<close> is at offset \<open>14 + 8 i\<close>. \<open>None\<close> when the number of
  entries in the packet leads outside it.
\<close>

definition pet_entries :: "byte list \<Rightarrow> (byte list \<times> nat) list option" where
  "pet_entries b =
     (let n = nat (u8 b 7)
      in if n = 0 \<or> 14 + 8 * (n - 1) + 6 \<le> length b then Some (map (\<lambda>i. (b, 14 + 8 * i)) [0..<n]) else None)"

definition add_entry :: "cstr \<Rightarrow> byte list \<times> nat \<Rightarrow> RT125ATRACE list \<Rightarrow> RT125ATRACE list" where
  "add_entry fn = (\<lambda>(b, j) events. upsert (getEvent_A b j) (rt125A_new fn b j) (\<lambda>e. e) events)"

definition rt125A_pet_step ::
  "cstr \<Rightarrow> byte list \<Rightarrow> RT125ATRACE list option \<Rightarrow> RT125ATRACE list option" where
  "rt125A_pet_step fn b st =
     (if rd_type_A b = PET
      then do { events \<leftarrow> st; es \<leftarrow> pet_entries b; Some (fold (add_entry fn) es events) }
      else st)"

text \<open>The second pass: the first data packet of an event also gives rate, gain and number.\<close>

definition rt125A_fill :: "byte list \<Rightarrow> RT125ATRACE \<Rightarrow> RT125ATRACE" where
  "rt125A_fill b e =
     (let e = (if ev_sampsPsec e = 0
               then e\<lparr>ev_sampsPsec := be16 b 16, ev_gain := RT125AGAIN (b ! 6) (ev_gain e),
                      ev_eventNum := be16 b 7\<rparr>
               else e)
      in e\<lparr>ev_numSamps := ev_numSamps e + dp_sampleCnt b\<rparr>)"

definition rt125A_pdt_step :: "byte list \<Rightarrow> RT125ATRACE list \<Rightarrow> RT125ATRACE list" where
  "rt125A_pdt_step b events =
     (if rd_type_A b = PDT then update_first (getEvent_A b 10) (rt125A_fill b) events else events)"

definition make_rt125A_trace :: "RT125ATRACE \<Rightarrow> i32 traceInfo" where
  "make_rt125A_trace e =
     (let date = \<lparr>yr = ev_year e, mo = 0, day = ev_jday e, jday = 0, hr = ev_hour e,
                  mn = ev_minute e, sec = of_int (ev_second e)\<rparr>;
          h = calloc_head\<lparr>year := ev_year e, dayOfYear := ev_jday e, hour := ev_hour e,
                minute := ev_minute e, second := ev_second e,
                epochs := of_int (passcal_htoe date False), gainConst := ev_gain e, scale_fac := 1,
                sensorID := show_int (ev_unit_id e), sampInt := 1000000 / of_int (ev_sampsPsec e),
                channel := show_int (ev_eventNum e),
                descr1 := date_descr (ev_year e) (ev_jday e) (ev_hour e) (ev_minute e),
                descr2 := lit ''ID: '' @ show_int (ev_unit_id e) @ lit '' E#: '' @ show_int (ev_eventNum e),
                longFN := ev_fileName e,
                shortFN := base_name (ev_fileName e) @ lit '':#'' @ show_int (ev_eventNum e),
                data_form := BIT32, dataSize := 4\<rparr>
      in calloc_trace\<lparr>fileType := RT125A_DATA, fileName := ev_fileName e, head := h,
           dataInfo := (dataInfo calloc_trace)\<lparr>numSamples := ev_numSamps e\<rparr>\<rparr>)"

definition rt125A_events :: "byte list \<Rightarrow> byte list \<Rightarrow> cstr \<Rightarrow> RT125ATRACE list option" where
  "rt125A_events buf fp fn =
     do { table \<leftarrow> fold (rt125A_pet_step fn) (blocks RT125A_PKT_SIZE buf fp) (Some []);
          Some (fold rt125A_pdt_step (blocks RT125A_PKT_SIZE buf fp) table) }"

definition get_rt125A_hedr :: "byte list \<Rightarrow> byte list \<Rightarrow> cstr \<Rightarrow> i32 traceInfo list option" where
  "get_rt125A_hedr buf fp fn =
     do { events \<leftarrow> rt125A_events buf fp fn;
          Some (fold (\<lambda>e traces. if ev_gain e \<noteq> 0 then make_rt125A_trace e # traces else traces)
                  events []) }"

section \<open>Data\<close>

definition head_time :: "headinfo \<Rightarrow> event_key" where
  "head_time h = (year h, dayOfYear h, hour h, minute h, second h)"

definition rt125A_data_step ::
  "event_key \<Rightarrow> byte list \<Rightarrow> (i32 list \<times> nat) option \<Rightarrow> (i32 list \<times> nat) option" where
  "rt125A_data_step tm b st =
     (case st of None \<Rightarrow> None
      | Some (data, sampsRead) \<Rightarrow>
          if rd_type_A b = PDT \<and> etime b 10 = tm then
            do { xs \<leftarrow> get_samples24 b 19 (nat (dp_sampleCnt b));
                 data' \<leftarrow> put_at data sampsRead xs;
                 Some (data', sampsRead + length xs) }
          else Some (data, sampsRead))"

definition get_rt125A_data ::
  "byte list \<Rightarrow> byte list option \<Rightarrow> i32 traceInfo \<Rightarrow> (status \<times> i32 traceInfo) option" where
  "get_rt125A_data buf fp trace =
     (case fp of None \<Rightarrow> Some (FAILURE, trace)
      | Some bytes \<Rightarrow>
          do { (data, sampsRead) \<leftarrow>
                 fold (rt125A_data_step (head_time (head trace))) (blocks RT125A_PKT_SIZE buf bytes)
                   (Some (replicate (nat (numSamples (dataInfo trace))) 0, 0));
               if sampsRead = 0
               then Some (NOT_ENOUGH_DATA, trace\<lparr>dataInfo := (dataInfo trace)\<lparr>d_data := None\<rparr>\<rparr>)
               else Some (PQLXSUCCESS, finish_data sampsRead data trace) })"

section \<open>Identification and state of health\<close>

definition rt125A_check :: "byte list \<Rightarrow> byte list \<Rightarrow> status" where
  "rt125A_check buf fp =
     check_loop RT125A_MAX_PKT_RD PET False False (blocks RT125A_PKT_SIZE buf fp)"

definition IDrt125A :: "byte list \<Rightarrow> byte list \<Rightarrow> byte list \<Rightarrow> cstr \<Rightarrow> i32 traceInfo list option" where
  "IDrt125A buf buf' fp fn =
     (if rt125A_check buf fp \<noteq> FAILURE then get_rt125A_hedr buf' fp fn else Some [])"

text \<open>\<^verbatim>\<open>get_rt125A_SOH\<close> repeats the function of the RT-125 reader, with its packet layout.\<close>

definition get_rt125A_SOH :: "byte list \<Rightarrow> byte list \<Rightarrow> SOHINFO list option" where
  "get_rt125A_SOH buf fp = get_rt125_SOH buf fp"

section \<open>The event table of a file\<close>

definition valid_time :: "byte list \<Rightarrow> nat \<Rightarrow> bool" where
  "valid_time b j \<longleftrightarrow> (\<forall>i<6. uint (b ! (j + i)) < 128)"

text \<open>At most 64 entries in a table, and time bytes below 128 in tables and data packets.\<close>

definition tables_ok :: "byte list list \<Rightarrow> bool" where
  "tables_ok bs \<longleftrightarrow>
     (\<forall>b\<in>set bs. length b = 528
        \<and> (rd_type b = PET \<longrightarrow> u8 b 7 \<le> 64 \<and> (\<forall>i<nat (u8 b 7). valid_time b (14 + 8 * i)))
        \<and> (rd_type b = PDT \<longrightarrow> valid_time b 10))"

lemma sint_small: "uint (x :: byte) < 128 \<Longrightarrow> sint x = uint x"
proof -
  assume "uint x < 128"
  moreover have "- 128 \<le> uint x" using byte_range(1) [of x] by linarith
  ultimately have "signed_take_bit 7 (uint x) = uint x" by (intro signed_take_bit_int_eq_self) simp_all
  then show ?thesis by (simp add: sint_uint)
qed

lemma stime_valid: "valid_time b j \<Longrightarrow> stime b j = etime b j"
proof -
  assume v: "valid_time b j"
  have "s8 b (j + i) = u8 b (j + i)" if "i < 6" for i
    using v that by (auto simp: s8_def u8_def valid_time_def intro: sint_small)
  from this [of 0] this [of 1] this [of 2] this [of 3] this [of 4] this [of 5] show ?thesis
    by (simp add: stime_def etime_def RT125AYEAR_def RT125AJDAY_def RT125AHOUR_def RT125AMIN_def RT125ASEC_def)
qed

lemma getEvent_A_valid: "valid_time b j \<Longrightarrow> getEvent_A b j = (\<lambda>e. ev_time e = etime b j)"
  by (auto simp: getEvent_A_def stime_valid)

interpretation rt125A: keyed_table ev_time "\<lambda>p. etime (fst p) (snd p)" "\<lambda>p. rt125A_new fn (fst p) (snd p)"
    "\<lambda>p e. e" ev_numSamps "\<lambda>p. 0" "\<lambda>e. e" "\<lambda>p. rt125A_new fn (fst p) (snd p)" for fn
  by unfold_locales (simp_all add: rt125A_new_def ev_time_def etime_def)

definition entry_list :: "byte list \<Rightarrow> (byte list \<times> nat) list" where
  "entry_list b = (if rd_type b = PET then map (\<lambda>i. (b, 14 + 8 * i)) [0..<nat (u8 b 7)] else [])"

abbreviation pet_table :: "cstr \<Rightarrow> (byte list \<times> nat) list \<Rightarrow> RT125ATRACE list \<Rightarrow> RT125ATRACE list" where
  "pet_table fn \<equiv> fold (\<lambda>p. upsert (\<lambda>e. ev_time e = etime (fst p) (snd p))
                             (rt125A_new fn (fst p) (snd p)) (\<lambda>e. e))"

lemma add_entries_valid:
  "\<forall>(b, j)\<in>set es. valid_time b j \<Longrightarrow> fold (add_entry fn) es t = pet_table fn es t"
  by (induction es arbitrary: t) (auto simp: add_entry_def getEvent_A_valid)

lemma pet_pass:
  "tables_ok bs \<Longrightarrow> fold (rt125A_pet_step fn) bs (Some t) = Some (pet_table fn (concat (map entry_list bs)) t)"
proof (induction bs arbitrary: t)
  case (Cons b bs)
  then have ok: "length b = 528" "rd_type b = PET \<Longrightarrow> u8 b 7 \<le> 64"
      "rd_type b = PET \<Longrightarrow> \<forall>(b, j)\<in>set (entry_list b). valid_time b j" and t: "tables_ok bs"
    by (auto simp: tables_ok_def entry_list_def)
  have "rt125A_pet_step fn b (Some t) = Some (pet_table fn (entry_list b) t)"
  proof (cases "rd_type b = PET")
    case True
    have "nat (u8 b 7) = 0 \<or> 14 + 8 * (nat (u8 b 7) - 1) + 6 \<le> length b" using ok(1,2) True by linarith
    then have "pet_entries b = Some (entry_list b)"
      by (simp add: pet_entries_def entry_list_def True Let_def)
    then show ?thesis using ok(3) True by (simp add: rt125A_pet_step_def rd_type_A_def add_entries_valid)
  qed (simp add: rt125A_pet_step_def rd_type_A_def entry_list_def)
  then show ?case using Cons.IH [OF t] by simp
qed simp

lemma ev_time_fill [simp]: "ev_time (rt125A_fill b e) = ev_time e"
  by (simp add: rt125A_fill_def ev_time_def Let_def)

lemma pdt_pass:
  assumes "tables_ok bs" and "distinct (map ev_time t)"
  shows "fold rt125A_pdt_step bs t =
    map (\<lambda>e. fold rt125A_fill (filter (\<lambda>b. rd_type b = PDT \<and> etime b 10 = ev_time e) bs) e) t"
proof -
  have "fold rt125A_pdt_step bs t = fold (\<lambda>b. update_first (\<lambda>e. ev_time e = etime b 10) (rt125A_fill b))
      (filter (\<lambda>b. rd_type b = PDT) bs) t"
    using assms(1)
  proof (induction bs arbitrary: t)
    case (Cons b bs)
    then have "tables_ok bs" "rd_type b = PDT \<Longrightarrow> valid_time b 10" by (auto simp: tables_ok_def)
    then show ?case using Cons.IH by (simp add: rt125A_pdt_step_def rd_type_A_def getEvent_A_valid)
  qed simp
  also have "\<dots> = map (\<lambda>e. fold rt125A_fill
      (filter (\<lambda>b. etime b 10 = ev_time e) (filter (\<lambda>b. rd_type b = PDT) bs)) e) t"
    by (rule fold_update_first [OF assms(2)]) simp
  finally show ?thesis by (simp add: conj_commute)
qed

lemma fill_numSamps: "ev_numSamps (fold rt125A_fill bs e) = ev_numSamps e + sum_list (map dp_sampleCnt bs)"
  by (induction bs arbitrary: e) (simp_all add: rt125A_fill_def Let_def)

lemma fill_time: "ev_time (fold rt125A_fill bs e) = ev_time e"
  by (induction bs arbitrary: e) simp_all

text \<open>What the two passes leave: distinct times, those of the tables, and the counts of their packets.\<close>

lemma rt125A_events_spec:
  assumes "bs = blocks RT125A_PKT_SIZE buf fp" and "tables_ok bs"
  obtains events where "rt125A_events buf fp fn = Some events" and "distinct (map ev_time events)"
    and "\<forall>e\<in>set events. ev_numSamps e
           = sum_list (map dp_sampleCnt (filter (\<lambda>b. rd_type b = PDT \<and> etime b 10 = ev_time e) bs))"
    and "ev_time ` set events = (\<lambda>(b, j). etime b j) ` set (concat (map entry_list bs))"
proof -
  let ?es = "concat (map entry_list bs)"
  let ?t = "pet_table fn ?es []"
  let ?f = "\<lambda>e. fold rt125A_fill (filter (\<lambda>b. rd_type b = PDT \<and> etime b 10 = ev_time e) bs) e"
  have d: "distinct (map ev_time ?t)" and k: "ev_time ` set ?t = (\<lambda>p. etime (fst p) (snd p)) ` set ?es"
    using rt125A.fold_keys [of "[]" fn ?es] by simp_all
  have ev: "rt125A_events buf fp fn = Some (map ?f ?t)"
    using pet_pass [OF assms(2), of fn "[]"] pdt_pass [OF assms(2) d]
    by (simp add: rt125A_events_def assms(1) [symmetric])
  have z: "ev_numSamps e = 0" if "e \<in> set ?t" for e
    using rt125A.fold_entry [OF that] by auto
  show ?thesis
  proof (rule that [OF ev])
    show "distinct (map ev_time (map ?f ?t))" using d by (simp add: comp_def fill_time)
    show "\<forall>e\<in>set (map ?f ?t). ev_numSamps e
           = sum_list (map dp_sampleCnt (filter (\<lambda>b. rd_type b = PDT \<and> etime b 10 = ev_time e) bs))"
      using z by (auto simp: fill_numSamps fill_time)
    show "ev_time ` set (map ?f ?t) = (\<lambda>(b, j). etime b j) ` set ?es"
      using k by (simp add: image_image fill_time case_prod_beta')
  qed
qed

section \<open>Properties\<close>

lemma get_rt125A_hedr_traces:
  "rt125A_events buf fp fn = Some events \<Longrightarrow>
   get_rt125A_hedr buf fp fn = Some (rev (map make_rt125A_trace (filter (\<lambda>e. ev_gain e \<noteq> 0) events)))"
  by (simp add: get_rt125A_hedr_def fold_prepend)

lemma head_time_make: "head_time (head (make_rt125A_trace e)) = ev_time e"
  by (simp add: make_rt125A_trace_def Let_def head_time_def ev_time_def)

lemma numSamples_make: "numSamples (dataInfo (make_rt125A_trace e)) = ev_numSamps e"
  by (simp add: make_rt125A_trace_def Let_def)

text \<open>
  on a file with well-formed tables \<^verbatim>\<open>get_rt125A_hedr\<close> stays inside its packets and makes at most one
  trace for a start time; a trace's time is that of a table entry, and its number of samples is the sum
  over the data packets with that time, wherever they are in the file.
\<close>

theorem rt125A_hedr_traces:
  assumes "bs = blocks RT125A_PKT_SIZE buf fp" and "tables_ok bs"
  shows "\<exists>traces. get_rt125A_hedr buf fp fn = Some traces
    \<and> distinct (map (\<lambda>t. head_time (head t)) traces)
    \<and> (\<forall>t\<in>set traces. numSamples (dataInfo t) =
          sum_list (map dp_sampleCnt (filter (\<lambda>b. rd_type b = PDT \<and> etime b 10 = head_time (head t)) bs)))
    \<and> (\<forall>t\<in>set traces. \<exists>(b, j)\<in>set (concat (map entry_list bs)). head_time (head t) = etime b j)"
proof -
  obtain events where ev: "rt125A_events buf fp fn = Some events" and d: "distinct (map ev_time events)"
    and n: "\<forall>e\<in>set events. ev_numSamps e
           = sum_list (map dp_sampleCnt (filter (\<lambda>b. rd_type b = PDT \<and> etime b 10 = ev_time e) bs))"
    and k: "ev_time ` set events = (\<lambda>(b, j). etime b j) ` set (concat (map entry_list bs))"
    by (rule rt125A_events_spec [OF assms, where fn = fn])
  have tm: "\<exists>(b, j)\<in>set (concat (map entry_list bs)). ev_time e = etime b j" if "e \<in> set events" for e
  proof -
    have "ev_time e \<in> (\<lambda>(b, j). etime b j) ` set (concat (map entry_list bs))"
      using that k by (metis imageI)
    then show ?thesis by (auto simp: image_iff split: prod.splits)
  qed
  show ?thesis
    unfolding get_rt125A_hedr_traces [OF ev]
    using d n tm
    by (intro exI [where x = "rev (map make_rt125A_trace (filter (\<lambda>e. ev_gain e \<noteq> 0) events))"])
      (auto simp: rev_map [symmetric] comp_def head_time_make numSamples_make distinct_map_filter)
qed

text \<open>A table packet with one entry and a data packet of three samples for it.\<close>

definition demo_pet :: "byte list" where
  "demo_pet = [0x05, 0, 7, 0, 0, 0, 0, 1, 0, 1, 0, 0, 0, 0, 26, 1, 22, 4, 5, 6] @ replicate 508 0"

definition demo_pdt :: "byte list" where
  "demo_pdt = [0x03, 0, 7, 0, 0, 0, 1, 0, 5, 3, 26, 1, 22, 4, 5, 6, 1, 0] @ replicate 510 0"

lemma demo_length: "length demo_pet = 528" "length demo_pdt = 528"
  by (simp_all add: demo_pet_def demo_pdt_def)

lemma demo_blocks:
  "blocks RT125A_PKT_SIZE (replicate 528 0) (demo_pet @ demo_pdt) = [demo_pet, demo_pdt]"
  by (simp add: RT125A_PKT_SIZE_def blocks_aligned chunks_def demo_length numeral_2_eq_2)

lemma lt6: "(\<forall>i<6. P i) \<longleftrightarrow> P 0 \<and> P 1 \<and> P 2 \<and> P 3 \<and> P 4 \<and> P (5 :: nat)"
proof -
  have "{i::nat. i < 6} = {0, 1, 2, 3, 4, 5}" by auto
  then show ?thesis by (metis (no_types, lifting) insert_iff mem_Collect_eq empty_iff)
qed

lemma demo_fields:
  "rd_type demo_pet = PET" "rd_type demo_pdt = PDT" "u8 demo_pet 7 = 1" "dp_sampleCnt demo_pdt = 3"
  "valid_time demo_pet 14" "valid_time demo_pdt 10" "demo_pdt ! 6 = 1" "be16 demo_pdt 16 = 256"
  "etime demo_pet 14 = (2010, 123, 4, 5, 6)" "etime demo_pdt 10 = (2010, 123, 4, 5, 6)"
  by (simp_all add: demo_pet_def demo_pdt_def rd_type_def u8_def dp_sampleCnt_def valid_time_def lt6 be16_def
      etime_def RT125AYEAR_def RT125AJDAY_def RT125AHOUR_def RT125AMIN_def RT125ASEC_def)

lemma demo_ok: "tables_ok [demo_pet, demo_pdt]"
  by (simp add: tables_ok_def demo_length demo_fields)

lemma demo_hedr:
  "\<exists>t. get_rt125A_hedr (replicate 528 0) (demo_pet @ demo_pdt) fn = Some [t] \<and> numSamples (dataInfo t) = 3
     \<and> head_time (head t) = (2010, 123, 4, 5, 6)"
proof -
  let ?e = "rt125A_new fn demo_pet 14"
  have tm: "ev_time ?e = (2010, 123, 4, 5, 6)"
    using demo_fields(9) by (simp add: rt125A_new_def ev_time_def etime_def)
  have "pet_table fn (concat (map entry_list [demo_pet, demo_pdt])) [] = [?e]"
    by (simp add: entry_list_def demo_fields upsert_if)
  then have "rt125A_events (replicate 528 0) (demo_pet @ demo_pdt) fn = Some [rt125A_fill demo_pdt ?e]"
    using pet_pass [OF demo_ok, of fn "[]"] pdt_pass [OF demo_ok, of "[?e]"]
    by (simp add: rt125A_events_def demo_blocks demo_fields tm)
  moreover have "ev_gain (rt125A_fill demo_pdt ?e) = 1" "ev_numSamps (rt125A_fill demo_pdt ?e) = 3"
    by (simp_all add: rt125A_fill_def rt125A_new_def demo_fields RT125AGAIN_def)
  ultimately show ?thesis
    by (simp add: get_rt125A_hedr_traces numSamples_make head_time_make tm)
qed

theorem rt125A_hedr_traces_witness:
  "\<exists>traces. get_rt125A_hedr (replicate 528 0) (demo_pet @ demo_pdt) (lit ''a.trd'') = Some traces
     \<and> distinct (map (\<lambda>t. head_time (head t)) traces)"
  using rt125A_hedr_traces [OF refl, of "replicate 528 0" "demo_pet @ demo_pdt" "lit ''a.trd''"] demo_ok
  by (auto simp: demo_blocks)

interpretation rt125Aw: packet_writer "\<lambda>b. rd_type b = PDT \<and> etime b 10 = tm"
    "\<lambda>b. 19 + 3 * dp_sampleCnt b \<le> int (length b)" packet_samples "rt125A_data_step tm" for tm
proof unfold_locales
  fix b :: "byte list" and data :: "i32 list" and n :: nat
  assume w: "rd_type b = PDT \<and> etime b 10 = tm" and ok: "19 + 3 * dp_sampleCnt b \<le> int (length b)"
  have "nat (dp_sampleCnt b) * 3 + 19 \<le> length b" using ok dp_sampleCnt_range [of b] by simp
  then have "get_samples24 b 19 (nat (dp_sampleCnt b)) = Some (packet_samples b)"
    by (simp add: get_samples24_def packet_samples_def mult.commute add.commute)
  then show "rt125A_data_step tm b (Some (data, n)) =
      map_option (\<lambda>d. (d, n + length (packet_samples b))) (put_at data n (packet_samples b))"
    using w by (simp add: rt125A_data_step_def rd_type_A_def map_option_case bind_eq_Some_conv split: option.split)
qed (auto simp: rt125A_data_step_def rd_type_A_def)

text \<open>
  C25: reading back. On a file of whole packets with well-formed tables, whose data packets count at most
  169 samples, \<^verbatim>\<open>get_rt125A_data\<close> on a trace that \<^verbatim>\<open>get_rt125A_hedr\<close> made fills the allocated array
  exactly with the samples of the packets of the trace's time; it reports \<^verbatim>\<open>NOT_ENOUGH_DATA\<close>
  when they hold none.
\<close>

theorem rt125A_data_exact:
  assumes "RT125A_PKT_SIZE dvd length fp" and "length buf = RT125A_PKT_SIZE" and "length buf' = RT125A_PKT_SIZE"
    and "bs = blocks RT125A_PKT_SIZE buf fp" and "tables_ok bs"
    and "\<forall>b\<in>set bs. rd_type b = PDT \<longrightarrow> dp_sampleCnt b \<le> 169"
    and "get_rt125A_hedr buf fp fn = Some traces" and "t \<in> set traces"
    and "xs = concat (map packet_samples (filter (\<lambda>b. rd_type b = PDT \<and> etime b 10 = head_time (head t)) bs))"
  shows "int (length xs) = numSamples (dataInfo t)
    \<and> get_rt125A_data buf' (Some fp) t =
        (if xs = [] then Some (NOT_ENOUGH_DATA, t\<lparr>dataInfo := (dataInfo t)\<lparr>d_data := None\<rparr>\<rparr>)
         else Some (PQLXSUCCESS, finish_data (length xs) xs t))"
proof -
  obtain events where ev: "rt125A_events buf fp fn = Some events" and "distinct (map ev_time events)"
    and n: "\<forall>e\<in>set events. ev_numSamps e
           = sum_list (map dp_sampleCnt (filter (\<lambda>b. rd_type b = PDT \<and> etime b 10 = ev_time e) bs))"
    and "ev_time ` set events = (\<lambda>(b, j). etime b j) ` set (concat (map entry_list bs))"
    by (rule rt125A_events_spec [OF assms(4,5), where fn = fn])
  obtain e where e: "e \<in> set events" "t = make_rt125A_trace e"
    using assms(7,8) get_rt125A_hedr_traces [OF ev] by auto
  have cnt: "int (length xs) = numSamples (dataInfo t)"
    using n e unfolding assms(9) sum_samples by (simp add: numSamples_make head_time_make)
  have bs: "blocks RT125A_PKT_SIZE buf' fp = bs"
    using assms(1-4) by (simp add: blocks_aligned RT125A_PKT_SIZE_def)
  have ok: "\<forall>b\<in>set bs. rd_type b = PDT \<and> etime b 10 = head_time (head t)
      \<longrightarrow> 19 + 3 * dp_sampleCnt b \<le> int (length b)"
    using assms(5,6) by (fastforce simp: tables_ok_def)
  have "length (replicate (nat (numSamples (dataInfo t))) (0 :: i32))
      = length (concat (map packet_samples (filter (\<lambda>b. rd_type b = PDT \<and> etime b 10 = head_time (head t)) bs)))"
    using cnt unfolding assms(9) by simp
  from rt125Aw.fill_exact [OF ok this]
  have "fold (rt125A_data_step (head_time (head t))) bs
      (Some (replicate (nat (numSamples (dataInfo t))) 0, 0)) = Some (xs, length xs)"
    unfolding assms(9) .
  then show ?thesis using cnt by (simp add: get_rt125A_data_def bs)
qed

theorem rt125A_data_exact_witness:
  "\<exists>t xs. length xs = 3 \<and> get_rt125A_data (replicate 528 0) (Some (demo_pet @ demo_pdt)) t
     = Some (PQLXSUCCESS, finish_data (length xs) xs t)"
proof -
  obtain t where t: "get_rt125A_hedr (replicate 528 0) (demo_pet @ demo_pdt) [] = Some [t]"
      and n: "numSamples (dataInfo t) = 3"
    using demo_hedr [of "[]"] by blast
  have "\<exists>xs. int (length xs) = 3
    \<and> get_rt125A_data (replicate 528 0) (Some (demo_pet @ demo_pdt)) t =
        (if xs = [] then Some (NOT_ENOUGH_DATA, t\<lparr>dataInfo := (dataInfo t)\<lparr>d_data := None\<rparr>\<rparr>)
         else Some (PQLXSUCCESS, finish_data (length xs) xs t))"
    unfolding n [symmetric]
    by (rule exI, rule rt125A_data_exact [OF _ _ _ demo_blocks [symmetric] demo_ok _ t _ refl])
      (simp_all add: RT125A_PKT_SIZE_def demo_length demo_fields)
  then obtain xs where xs: "length xs = 3"
    "get_rt125A_data (replicate 528 0) (Some (demo_pet @ demo_pdt)) t =
        (if xs = [] then Some (NOT_ENOUGH_DATA, t\<lparr>dataInfo := (dataInfo t)\<lparr>d_data := None\<rparr>\<rparr>)
         else Some (PQLXSUCCESS, finish_data (length xs) xs t))" by auto
  then have "xs \<noteq> []" by auto
  with xs show ?thesis by (intro exI [where x = t] exI [where x = xs]) simp
qed

end
