(* ===== verification/Steim.thy ===== *)
theory Steim
  imports Bytes
begin

text \<open>
  Steim-1 and Steim-2 decompression: \<^verbatim>\<open>utils/data/steim.c\<close> and
  \<^verbatim>\<open>utils/data/steim2.c\<close>, which the RT-130 reader runs on every compressed packet. Samples and
  differences are 32-bit words, so sums wrap as the machine's do; the output array is the list
  of the samples written so far, its length being the C code's \<^verbatim>\<open>index\<close>. \<^verbatim>\<open>char\<close> is signed, as
  on the Linux targets of the build. The lemmas relate the decoders to a reference reading of
  the format (which differences a frame holds, and the running sum over them) and bound the
  number of samples a packet can produce.
\<close>

section \<open>Steim-1\<close>

text \<open>\<^verbatim>\<open>unpack\<close>: sixteen two-bit codes, written from the last entry to the first.\<close>

fun unpack_loop :: "nat \<Rightarrow> i32 \<Rightarrow> i32 list \<Rightarrow> i32 list" where
  "unpack_loop 0 w0 code = code"
| "unpack_loop (Suc k) w0 code = unpack_loop k (drop_bit 2 w0) (code[k := w0 AND 3])"

definition unpack :: "i32 \<Rightarrow> i32 list" where
  "unpack w0 = unpack_loop 16 w0 (replicate 16 0)"

definition one_byte :: "i32 \<Rightarrow> nat \<Rightarrow> i32" where
  "one_byte word index = signed_drop_bit 24 (push_bit (push_bit 3 index) word)"

definition two_byte :: "i32 \<Rightarrow> nat \<Rightarrow> i32" where
  "two_byte word index = signed_drop_bit 16 (push_bit (push_bit 4 index) word)"

text \<open>\<^verbatim>\<open>frame->word[i]\<close>, after \<^verbatim>\<open>revmem\<close> has reversed it in place when \<^verbatim>\<open>rev\<close> is set.\<close>

definition frame_word :: "host \<Rightarrow> bool \<Rightarrow> byte list \<Rightarrow> nat \<Rightarrow> i32" where
  "frame_word h rv frame i =
     (let bs = take 4 (drop (4 * i) frame) in load h (if rv then revmem bs 4 else bs))"

text \<open>One difference: the sample is appended and becomes the value the next one adds to.\<close>

definition put_diff :: "bool \<Rightarrow> i32 list \<times> i32 \<Rightarrow> i32 \<Rightarrow> i32 list \<times> i32" where
  "put_diff skip_first st diff =
     (let (data, xnot) = st;
          sample = (if \<not> skip_first \<or> length data \<noteq> 0 then xnot + diff else xnot)
      in (data @ [sample], sample))"

text \<open>The body of the loop over the fifteen words; \<open>None\<close> is the return value -1.\<close>

definition do_word ::
  "host \<Rightarrow> bool \<Rightarrow> bool \<Rightarrow> byte list \<Rightarrow> i32 list \<Rightarrow> i32 list \<times> i32 \<Rightarrow> nat \<Rightarrow> (i32 list \<times> i32) option"
where
  "do_word h rv skip_first frame code st i =
     (if code ! i = 0 then Some st
      else if code ! i = 1 then
        Some (foldl (\<lambda>s j. put_diff skip_first s (one_byte (frame_word h rv frame i) j)) st [0..<4])
      else if code ! i = 2 then
        Some (foldl (\<lambda>s j. put_diff skip_first s (two_byte (frame_word h rv frame i) j)) st [0..<2])
      else if code ! i = 3 then
        Some (put_diff skip_first st (get_int h rv frame (4 * i)))
      else None)"

fun do_words ::
  "host \<Rightarrow> bool \<Rightarrow> bool \<Rightarrow> byte list \<Rightarrow> i32 list \<Rightarrow> i32 list \<times> i32 \<Rightarrow> nat list \<Rightarrow> (i32 list \<times> i32) option"
where
  "do_words h rv skip_first frame code st [] = Some st"
| "do_words h rv skip_first frame code st (i # is) =
     (case do_word h rv skip_first frame code st i of
        None \<Rightarrow> None
      | Some st' \<Rightarrow> do_words h rv skip_first frame code st' is)"

definition do_frame32 ::
  "host \<Rightarrow> bool \<Rightarrow> bool \<Rightarrow> byte list \<Rightarrow> i32 list \<times> i32 \<Rightarrow> (i32 list \<times> i32) option" where
  "do_frame32 h rv skip_first frame st =
     do_words h rv skip_first frame (unpack (get_int h rv frame 0)) st [1..<16]"

text \<open>The loop \<^verbatim>\<open>for (i=64, index = 0; i<blocksize; i+=64)\<close> over the frames of a block.\<close>

function steim1_loop ::
  "host \<Rightarrow> bool \<Rightarrow> bool \<Rightarrow> byte list \<Rightarrow> nat \<Rightarrow> nat \<Rightarrow> i32 list \<times> i32 \<Rightarrow> (i32 list \<times> i32) option" where
  "steim1_loop h rv skip_first block blocksize i st =
     (if i < blocksize then
        (case do_frame32 h rv skip_first (drop i block) st of
           None \<Rightarrow> None
         | Some st' \<Rightarrow> steim1_loop h rv skip_first block blocksize (i + 64) st')
      else Some st)"
  by pat_completeness auto
termination
  by (relation "measure (\<lambda>(h, rv, skip, block, bsz, i, st). bsz - i)") auto

declare steim1_loop.simps [simp del]

definition INT_MIN :: i32 where
  "INT_MIN = 0x80000000"

text \<open>
  \<^verbatim>\<open>steim1\<close> returns the samples (their number is its return value) and the new \<^verbatim>\<open>*last_x\<close>;
  \<open>None\<close> is its error value -1.
\<close>

definition steim1 ::
  "host \<Rightarrow> bool \<Rightarrow> byte list \<Rightarrow> i32 \<Rightarrow> nat \<Rightarrow> (i32 list \<times> i32) option" where
  "steim1 h rv block last_x blocksize =
     (let x0 = get_int h rv block 68; xn = get_int h rv block 72;
          skip_first = (last_x = INT_MIN);
          last_x = (if last_x = INT_MIN then x0 else last_x)
      in case steim1_loop h rv skip_first block blocksize 64 ([], last_x) of
           None \<Rightarrow> None
         | Some (data, last_x) \<Rightarrow> if length data = 0 then Some ([], last_x) else Some (data, xn))"

section \<open>Steim-2\<close>

text \<open>C's \<^verbatim>\<open>(t << a) >> b\<close> on an \<^verbatim>\<open>int\<close>: the left shift drops, the right shift extends the sign.\<close>

definition shl_sar :: "i32 \<Rightarrow> nat \<Rightarrow> nat \<Rightarrow> i32" where
  "shl_sar t a b = signed_drop_bit b (push_bit a t)"

text \<open>The differences that \<^verbatim>\<open>extractDiffs\<close> takes from word \<open>i\<close> of a frame.\<close>

definition word_diffs2 :: "host \<Rightarrow> bool \<Rightarrow> byte list \<Rightarrow> i32 \<Rightarrow> nat \<Rightarrow> i32 list" where
  "word_diffs2 h rv bytes nibbles i =
     (let currNibble = signed_drop_bit (30 - i * 2) nibbles AND 3
      in if currNibble = 1 then
           [scast (bytes ! (i * 4)), scast (bytes ! (i * 4 + 1)),
            scast (bytes ! (i * 4 + 2)), scast (bytes ! (i * 4 + 3))]
         else if currNibble = 2 then
           (let tempInt = get_int h rv bytes (i * 4);
                dnib = signed_drop_bit 30 tempInt AND 3
            in if dnib = 1 then [shl_sar tempInt 2 2]
               else if dnib = 2 then [shl_sar tempInt 2 17, shl_sar tempInt 17 17]
               else if dnib = 3 then
                 [shl_sar tempInt 2 22, shl_sar tempInt 12 22, shl_sar tempInt 22 22]
               else [])
         else if currNibble = 3 then
           (let tempInt = get_int h rv bytes (i * 4);
                dnib = signed_drop_bit 30 tempInt AND 3;
                (headerSize, diffCount, bitSize) =
                  (if dnib = 0 then (2, 5, 6) else if dnib = 1 then (2, 6, 5)
                   else if dnib = 2 then (4, 7, 4) else (0, 0, 0))
            in map (\<lambda>d. shl_sar tempInt (headerSize + d * bitSize)
                          ((diffCount - 1) * bitSize + headerSize)) [0..<diffCount])
         else [])"

definition extractDiffs :: "host \<Rightarrow> bool \<Rightarrow> byte list \<Rightarrow> i32 list" where
  "extractDiffs h rv bytes =
     concat (map (word_diffs2 h rv bytes (get_int h rv bytes 0)) [1..<16])"

text \<open>One frame: every difference adds to the last value.\<close>

fun apply_diffs :: "i32 list \<times> i32 \<Rightarrow> i32 list \<Rightarrow> i32 list \<times> i32" where
  "apply_diffs (samples, lastValue) [] = (samples, lastValue)"
| "apply_diffs (samples, lastValue) (d # ds) =
     apply_diffs (samples @ [lastValue + d], lastValue + d) ds"

function steim2_loop ::
  "host \<Rightarrow> bool \<Rightarrow> byte list \<Rightarrow> nat \<Rightarrow> nat \<Rightarrow> i32 list \<times> i32 \<Rightarrow> i32 list \<times> i32" where
  "steim2_loop h rv b blocksize i st =
     (if i < blocksize then
        steim2_loop h rv b blocksize (i + 64) (apply_diffs st (extractDiffs h rv (drop i b)))
      else st)"
  by pat_completeness auto
termination
  by (relation "measure (\<lambda>(h, rv, b, bsz, i, st). bsz - i)") auto

declare steim2_loop.simps [simp del]

definition steim2 :: "host \<Rightarrow> bool \<Rightarrow> byte list \<Rightarrow> i32 \<Rightarrow> nat \<Rightarrow> i32 list \<times> i32" where
  "steim2 h rv b last_x blocksize =
     (let x0 = get_int h rv b 68;
          lastValue = (if last_x = INT_MIN then x0 else last_x)
      in steim2_loop h rv b blocksize 64 ([], lastValue))"

section \<open>Reference reading of the format\<close>

text \<open>
  The control code of word \<open>i\<close>, the differences a Steim-1 word holds under a code, those of a
  frame and of the frames of a block of \<open>n\<close> frames, and the samples as running sums.
\<close>

definition ctrl_code :: "byte list \<Rightarrow> nat \<Rightarrow> i32" where
  "ctrl_code frame i = drop_bit (30 - 2 * i) (be_word (take 4 frame)) AND 3"

definition ref_diffs1 :: "i32 \<Rightarrow> byte list \<Rightarrow> i32 list" where
  "ref_diffs1 c bs =
     (if c = 1 then map scast bs
      else if c = 2 then
        [scast (be_word (take 2 bs) :: u16), scast (be_word (drop 2 bs) :: u16)]
      else if c = 3 then [be_word bs] else [])"

definition word_at :: "byte list \<Rightarrow> nat \<Rightarrow> byte list" where
  "word_at frame i = take 4 (drop (4 * i) frame)"

definition ref_frame1 :: "byte list \<Rightarrow> i32 list" where
  "ref_frame1 frame = concat (map (\<lambda>i. ref_diffs1 (ctrl_code frame i) (word_at frame i)) [1..<16])"

definition ref_block :: "(byte list \<Rightarrow> i32 list) \<Rightarrow> byte list \<Rightarrow> nat \<Rightarrow> i32 list" where
  "ref_block ref block n = concat (map (\<lambda>k. ref (drop (64 * k) block)) [1..<n])"

fun run_sums :: "i32 \<Rightarrow> i32 list \<Rightarrow> i32 list" where
  "run_sums x [] = []"
| "run_sums x (d # ds) = (x + d) # run_sums (x + d) ds"

lemma length_run_sums [simp]: "length (run_sums x ds) = length ds"
  by (induction x ds rule: run_sums.induct) simp_all

lemma run_sums_append: "run_sums x (as @ bs) = run_sums x as @ run_sums (x + sum_list as) bs"
  by (induction x as rule: run_sums.induct) (simp_all add: add.assoc)

lemma last_run_sums: "last (x # run_sums x ds) = x + sum_list ds"
  by (induction x ds rule: run_sums.induct) (auto simp: add.assoc)

section \<open>Control codes and words\<close>

lemma and3_cases: "x AND (3::i32) = 0 \<or> x AND 3 = 1 \<or> x AND 3 = 2 \<or> x AND 3 = (3::i32)"
proof -
  have w: "unat w = n \<Longrightarrow> w = of_nat n" for w :: i32 and n by auto
  have "x AND 3 = take_bit 2 x" by (simp add: take_bit_eq_mask mask_eq_exp_minus_1)
  then have "unat (x AND 3) < 4"
    using take_bit_nat_less_exp [of 2 "unat x"] by (simp add: unsigned_take_bit_eq)
  then have "unat (x AND 3) = 0 \<or> unat (x AND 3) = 1 \<or> unat (x AND 3) = 2 \<or> unat (x AND 3) = 3"
    by linarith
  then show ?thesis by (auto dest: w)
qed

lemma unpack_loop_nth:
  "k \<le> length code \<Longrightarrow> i < length code \<Longrightarrow>
   unpack_loop k w code ! i = (if i < k then drop_bit (2 * (k - 1 - i)) w AND 3 else code ! i)"
proof (induction k w code rule: unpack_loop.induct)
  case (2 k w code)
  show ?case
  proof (cases "i < k")
    case True
    then have "Suc (Suc (2 * (k - Suc i))) = 2 * (k - i)" by simp
    with True 2 show ?thesis by (simp add: nth_list_update drop_bit_drop_bit)
  qed (use 2 in \<open>auto simp: nth_list_update less_Suc_eq\<close>)
qed simp

lemma unpack_nth: "i < 16 \<Longrightarrow> unpack w ! i = drop_bit (30 - 2 * i) w AND 3"
  by (simp add: unpack_def unpack_loop_nth diff_mult_distrib2)

lemma scast_byte_be4:
  assumes "j < 4"
  shows "signed_drop_bit 24 (push_bit (8 * j) (be_word [b0, b1, b2, b3] :: i32))
    = scast ([b0, b1, b2, b3] ! j)"
proof -
  have "j = 0 \<or> j = 1 \<or> j = 2 \<or> j = 3" using assms by linarith
  then show ?thesis
    by (elim disjE; intro bit_word_eqI)
      (auto simp: be_word4 bit_simps split: if_splits dest: bit_imp_le_length)
qed

lemma scast_short_be4:
  "signed_drop_bit 16 (be_word [b0, b1, b2, b3] :: i32) = scast (be_word [b0, b1] :: u16)"
  "signed_drop_bit 16 (push_bit 16 (be_word [b0, b1, b2, b3] :: i32))
     = scast (be_word [b2, b3] :: u16)"
  by (rule bit_word_eqI;
      auto simp: be_word4 be_word2 bit_simps split: if_splits dest: bit_imp_le_length)+

text \<open>The reading machine's byte order does not matter once \<^verbatim>\<open>rev\<close> is set from it.\<close>

lemma frame_word_be:
  assumes "4 * i + 4 \<le> length frame" and "rv \<longleftrightarrow> h = LittleHost"
  shows "frame_word h rv frame i = be_word (word_at frame i)"
  using assms by (cases h) (simp_all add: frame_word_def word_at_def revmem_eq)

lemma shift_index: "push_bit 3 j = 8 * j" "push_bit 4 j = 16 * j" for j :: nat
  by (simp_all add: push_bit_eq_mult)

lemma word_at_cases:
  assumes "4 * i + 4 \<le> length frame"
  obtains a b c d where "word_at frame i = [a, b, c, d]"
  using assms list4_cases [of "word_at frame i"] by (auto simp: word_at_def)

lemma do_word_ref:
  assumes "4 * i + 4 \<le> length frame" and "rv \<longleftrightarrow> h = LittleHost" and "i < 16"
    and "code = unpack (get_int h rv frame 0)"
  shows "do_word h rv skip frame code st i =
    Some (foldl (put_diff skip) st (ref_diffs1 (ctrl_code frame i) (word_at frame i)))"
proof -
  obtain a b c d where w: "word_at frame i = [a, b, c, d]" using word_at_cases [OF assms(1)] .
  have c: "code ! i = ctrl_code frame i"
    using assms by (simp add: unpack_nth get_int_be ctrl_code_def)
  have f: "frame_word h rv frame i = be_word [a, b, c, d]"
    using frame_word_be [OF assms(1,2)] w by simp
  have g: "get_int h rv frame (4 * i) = be_word [a, b, c, d]"
    using get_int_be [OF assms(1,2)] w by (simp add: word_at_def)
  have one: "map (one_byte (be_word [a, b, c, d])) [0..<4] = map scast [a, b, c, d]"
    using scast_byte_be4 [of 0] scast_byte_be4 [of 1] scast_byte_be4 [of 2] scast_byte_be4 [of 3]
    by (simp add: one_byte_def shift_index upt_rec)
  have two: "map (two_byte (be_word [a, b, c, d])) [0..<2]
      = [scast (be_word [a, b] :: u16), scast (be_word [c, d] :: u16)]"
    by (simp add: two_byte_def shift_index upt_rec scast_short_be4)
  have fold: "foldl (\<lambda>s j. put_diff skip s (g j)) st js = foldl (put_diff skip) st (map g js)"
    for g :: "nat \<Rightarrow> i32" and js
    by (simp add: foldl_map)
  have "ctrl_code frame i = 0 \<or> ctrl_code frame i = 1 \<or> ctrl_code frame i = 2 \<or> ctrl_code frame i = 3"
    unfolding ctrl_code_def by (rule and3_cases)
  then show ?thesis
    by (elim disjE) (simp_all add: do_word_def ref_diffs1_def c f g w fold one two)
qed

section \<open>Steim-1 decodes the reference differences\<close>

lemma do_words_ref:
  assumes "64 \<le> length frame" and "rv \<longleftrightarrow> h = LittleHost" and "\<forall>i\<in>set is. i < 16"
  shows "do_words h rv skip frame (unpack (get_int h rv frame 0)) st is =
    Some (foldl (put_diff skip) st
      (concat (map (\<lambda>i. ref_diffs1 (ctrl_code frame i) (word_at frame i)) is)))"
  using assms(3)
proof (induction "is" arbitrary: st)
  case (Cons i "is")
  then have "i < 16" by simp
  then have "4 * i + 4 \<le> length frame" using assms(1) by simp
  note do_word_ref [OF this assms(2) \<open>i < 16\<close> refl, of skip st]
  with Cons show ?case by simp
qed simp

lemma do_frame32_ref:
  assumes "64 \<le> length frame" and "rv \<longleftrightarrow> h = LittleHost"
  shows "do_frame32 h rv skip frame st = Some (foldl (put_diff skip) st (ref_frame1 frame))"
  using do_words_ref [OF assms, of "[1..<16]"] by (simp add: do_frame32_def ref_frame1_def)

lemma steim1_loop_ref:
  assumes "64 * n \<le> length block" and "rv \<longleftrightarrow> h = LittleHost"
  shows "steim1_loop h rv skip block (64 * n) (64 * k) st =
    Some (foldl (put_diff skip) st (concat (map (\<lambda>k. ref_frame1 (drop (64 * k) block)) [k..<n])))"
proof (induction "n - k" arbitrary: k st)
  case 0
  then show ?case by (simp add: steim1_loop.simps)
next
  case (Suc m)
  then have k: "k < n" "m = n - Suc k" by simp_all
  have "64 \<le> length (drop (64 * k) block)" using k assms(1) by simp
  note f = do_frame32_ref [OF this assms(2)]
  show ?case
    using k Suc.hyps(1) [OF k(2)]
    by (subst steim1_loop.simps) (simp add: f upt_conv_Cons add.commute)
qed

lemma put_diff_fold: "foldl (put_diff False) (data, x) ds = (data @ run_sums x ds, x + sum_list ds)"
  by (induction ds arbitrary: data x) (simp_all add: put_diff_def Let_def add.assoc)

lemma put_diff_skip: "data \<noteq> [] \<Longrightarrow> foldl (put_diff True) (data, x) ds = foldl (put_diff False) (data, x) ds"
  by (induction ds arbitrary: data x) (simp_all add: put_diff_def Let_def)

text \<open>With \<^verbatim>\<open>skip_first\<close> the first difference counts as zero.\<close>

definition first_diffs :: "bool \<Rightarrow> i32 list \<Rightarrow> i32 list" where
  "first_diffs skip ds = (if skip then (case ds of [] \<Rightarrow> [] | d # ds' \<Rightarrow> 0 # ds') else ds)"

lemma length_first_diffs [simp]: "length (first_diffs skip ds) = length ds"
  by (simp add: first_diffs_def split: list.split)

lemma put_diff_first:
  "foldl (put_diff skip) ([], x) ds =
     (run_sums x (first_diffs skip ds), x + sum_list (first_diffs skip ds))"
proof (cases skip)
  case True
  show ?thesis
  proof (cases ds)
    case (Cons d ds')
    have "foldl (put_diff True) ([], x) ds = foldl (put_diff True) ([x], x) ds'"
      by (simp add: Cons put_diff_def)
    also have "\<dots> = foldl (put_diff False) ([x], x) ds'" by (simp add: put_diff_skip)
    finally show ?thesis using True Cons by (simp add: put_diff_fold first_diffs_def)
  qed (simp add: first_diffs_def)
qed (simp add: put_diff_fold first_diffs_def)

text \<open>The value a block's first difference adds to.\<close>

definition start_value :: "byte list \<Rightarrow> i32 \<Rightarrow> i32" where
  "start_value block last_x = (if last_x = INT_MIN then be_word (word_at block 17) else last_x)"

lemma header_ints:
  assumes "76 \<le> length block" and "rv \<longleftrightarrow> h = LittleHost"
  shows "get_int h rv block 68 = be_word (word_at block 17)"
    and "get_int h rv block 72 = be_word (word_at block 18)"
  using assms get_int_be [of 68 block rv h] get_int_be [of 72 block rv h]
  by (simp_all add: word_at_def)

lemma steim1_ref:
  assumes "64 * n \<le> length block" and "2 \<le> n" and "rv \<longleftrightarrow> h = LittleHost"
    and "ds = ref_block ref_frame1 block n"
  shows "steim1 h rv block last_x (64 * n) =
    Some (if ds = [] then ([], start_value block last_x)
          else (run_sums (start_value block last_x) (first_diffs (last_x = INT_MIN) ds),
                be_word (word_at block 18)))"
proof -
  let ?x = "start_value block last_x" and ?s = "last_x = INT_MIN"
  have "76 \<le> length block" using assms(1,2) by simp
  note ints = header_ints [OF this assms(3)]
  have "steim1_loop h rv ?s block (64 * n) 64 ([], ?x) =
      Some (run_sums ?x (first_diffs ?s ds), ?x + sum_list (first_diffs ?s ds))"
    using steim1_loop_ref [OF assms(1,3), where k = 1]
    by (simp add: put_diff_first assms(4) ref_block_def)
  then show ?thesis
    by (cases ds) (auto simp: steim1_def ints start_value_def first_diffs_def)
qed

section \<open>Steim-2 decodes the reference differences\<close>

text \<open>A Steim-2 word holds \<open>n\<close> signed fields of \<open>wd\<close> bits, the first one highest.\<close>

definition fields :: "nat \<Rightarrow> nat \<Rightarrow> i32 \<Rightarrow> i32 list" where
  "fields n wd w = map (\<lambda>d. signed_take_bit (wd - 1) (drop_bit ((n - 1 - d) * wd) w)) [0..<n]"

definition ref_diffs2 :: "i32 \<Rightarrow> byte list \<Rightarrow> i32 list" where
  "ref_diffs2 c bs =
     (let w = be_word bs; dnib = drop_bit 30 w AND 3
      in if c = 1 then map scast bs
         else if c = 2 then
           (if dnib = 1 then fields 1 30 w else if dnib = 2 then fields 2 15 w
            else if dnib = 3 then fields 3 10 w else [])
         else if c = 3 then
           (if dnib = 0 then fields 5 6 w else if dnib = 1 then fields 6 5 w
            else if dnib = 2 then fields 7 4 w else [])
         else [])"

definition ref_frame2 :: "byte list \<Rightarrow> i32 list" where
  "ref_frame2 frame = concat (map (\<lambda>i. ref_diffs2 (ctrl_code frame i) (word_at frame i)) [1..<16])"

lemma signed_drop_low2: "n \<le> 30 \<Longrightarrow> signed_drop_bit n w AND 3 = drop_bit n (w::i32) AND 3"
proof -
  assume n: "n \<le> 30"
  have three: "(3::i32) = mask 2" by (simp add: mask_eq_exp_minus_1)
  show ?thesis unfolding three using n by (intro bit_word_eqI) (auto simp: bit_simps)
qed

lemma shl_sar_field:
  assumes "a \<le> b" and "b < 32"
  shows "shl_sar t a b = signed_take_bit (31 - b) (drop_bit (b - a) t)"
proof (rule bit_word_eqI)
  fix n assume "n < LENGTH(32)"
  then consider "n < 31 - b" | "n = 31 - b" | "31 - b < n" "n < 32" by fastforce
  then show "bit (shl_sar t a b) n = bit (signed_take_bit (31 - b) (drop_bit (b - a) t)) n"
    using assms by cases (auto simp: shl_sar_def bit_simps)
qed

lemma fields_simps:
  "fields 1 30 w = [shl_sar w 2 2]"
  "fields 2 15 w = [shl_sar w 2 17, shl_sar w 17 17]"
  "fields 3 10 w = [shl_sar w 2 22, shl_sar w 12 22, shl_sar w 22 22]"
  "fields 5 6 w = map (\<lambda>d. shl_sar w (2 + d * 6) 26) [0..<5]"
  "fields 6 5 w = map (\<lambda>d. shl_sar w (2 + d * 5) 27) [0..<6]"
  "fields 7 4 w = map (\<lambda>d. shl_sar w (4 + d * 4) 28) [0..<7]"
  by (simp_all add: fields_def shl_sar_field upt_rec)

lemma word_diffs2_ref:
  assumes "64 \<le> length bytes" and "rv \<longleftrightarrow> h = LittleHost" and "i < 16"
  shows "word_diffs2 h rv bytes (get_int h rv bytes 0) i = ref_diffs2 (ctrl_code bytes i) (word_at bytes i)"
proof -
  have i: "4 * i + 4 \<le> length bytes" using assms by simp
  obtain a b c d where w: "word_at bytes i = [a, b, c, d]" using word_at_cases [OF i] .
  then have bs: "bytes ! (i * 4) = a" "bytes ! (i * 4 + 1) = b" "bytes ! (i * 4 + 2) = c"
      "bytes ! (i * 4 + 3) = d"
    using i nth_take [of _ 4 "drop (4 * i) bytes"]
    by (auto simp: word_at_def mult.commute add.commute dest!: arg_cong [where f = "\<lambda>xs. (xs ! 0, xs ! 1, xs ! 2, xs ! 3)"])
  have g: "get_int h rv bytes (i * 4) = be_word (word_at bytes i)"
    using get_int_be [OF i assms(2)] by (simp add: word_at_def mult.commute)
  have c: "signed_drop_bit (30 - i * 2) (get_int h rv bytes 0) AND 3 = ctrl_code bytes i"
    using assms by (simp add: signed_drop_low2 get_int_be ctrl_code_def mult.commute)
  show ?thesis
    unfolding word_diffs2_def c g ref_diffs2_def Let_def fields_simps bs w
    by (simp add: signed_drop_low2 upt_rec)
qed

lemma extractDiffs_ref:
  assumes "64 \<le> length frame" and "rv \<longleftrightarrow> h = LittleHost"
  shows "extractDiffs h rv frame = ref_frame2 frame"
  unfolding extractDiffs_def ref_frame2_def
  by (rule arg_cong [where f = concat], rule map_cong) (simp_all add: word_diffs2_ref assms)

lemma apply_diffs_fold: "apply_diffs (data, x) ds = (data @ run_sums x ds, x + sum_list ds)"
  by (induction ds arbitrary: data x) (simp_all add: add.assoc)

lemma steim2_loop_ref:
  assumes "64 * n \<le> length block" and "rv \<longleftrightarrow> h = LittleHost"
  shows "steim2_loop h rv block (64 * n) (64 * k) (data, x) =
    (data @ run_sums x (concat (map (\<lambda>k. ref_frame2 (drop (64 * k) block)) [k..<n])),
     x + sum_list (concat (map (\<lambda>k. ref_frame2 (drop (64 * k) block)) [k..<n])))"
proof (induction "n - k" arbitrary: k data x)
  case 0
  then show ?case by (simp add: steim2_loop.simps)
next
  case (Suc m)
  then have k: "k < n" "m = n - Suc k" by simp_all
  have "64 \<le> length (drop (64 * k) block)" using k assms(1) by simp
  note f = extractDiffs_ref [OF this assms(2)]
  show ?case
    using k Suc.hyps(1) [OF k(2)]
    by (subst steim2_loop.simps)
      (simp add: f upt_conv_Cons add.commute apply_diffs_fold run_sums_append add.assoc)
qed

lemma steim2_ref:
  assumes "64 * n \<le> length block" and "2 \<le> n" and "rv \<longleftrightarrow> h = LittleHost"
    and "ds = ref_block ref_frame2 block n"
  shows "steim2 h rv block last_x (64 * n) =
    (run_sums (start_value block last_x) ds, start_value block last_x + sum_list ds)"
proof -
  have "76 \<le> length block" using assms(1,2) by simp
  note ints = header_ints [OF this assms(3)]
  show ?thesis
    using steim2_loop_ref [OF assms(1,3), where k = 1]
    by (simp add: steim2_def ints start_value_def assms(4) ref_block_def Let_def)
qed

section \<open>How many samples a packet can produce\<close>

lemma length_ref_diffs1: "length bs \<le> 4 \<Longrightarrow> length (ref_diffs1 c bs) \<le> 4"
  by (simp add: ref_diffs1_def)

lemma length_ref_diffs2: "length bs \<le> 4 \<Longrightarrow> length (ref_diffs2 c bs) \<le> 7"
  by (simp add: ref_diffs2_def Let_def fields_def)

lemma length_concat_le:
  "(\<And>x. x \<in> set xs \<Longrightarrow> length (f x) \<le> b) \<Longrightarrow> length (concat (map f xs)) \<le> length xs * b"
  by (induction xs) (force simp: add_le_mono)+

lemma length_word_at: "length (word_at frame i) \<le> 4"
  by (simp add: word_at_def)

text \<open>
  What both formats promise of the differences of one word, and the bounds that follow for a
  frame and for a block; a conforming first frame keeps the two integration constants in its
  words 1 and 2 and gives them code 0.
\<close>

locale word_code =
  fixes diffs :: "i32 \<Rightarrow> byte list \<Rightarrow> i32 list" and per_word :: nat
  assumes word_bound: "length bs \<le> 4 \<Longrightarrow> length (diffs c bs) \<le> per_word"
    and code_zero: "diffs 0 bs = []"
begin

lemma words_bound:
  "length (concat (map (\<lambda>i. diffs (ctrl_code f i) (word_at f i)) is)) \<le> length is * per_word"
  by (rule length_concat_le) (simp add: word_bound length_word_at)

lemma header_frame_bound:
  assumes "ctrl_code f 1 = 0" and "ctrl_code f 2 = 0"
  shows "length (concat (map (\<lambda>i. diffs (ctrl_code f i) (word_at f i)) [1..<16])) \<le> 13 * per_word"
proof -
  have "[1..<16] = [1, 2] @ [3..<16]" by (simp add: upt_rec)
  then show ?thesis using words_bound [of f "[3..<16]"] assms by (simp add: code_zero)
qed

lemma block_bound:
  assumes "\<And>f. ref f = concat (map (\<lambda>i. diffs (ctrl_code f i) (word_at f i)) [1..<16])"
  shows "length (ref_block ref block n) \<le> (n - 1) * (15 * per_word)"
proof -
  have "length (ref f) \<le> 15 * per_word" for f
    using words_bound [of f "[1..<16]"] by (simp add: assms)
  then show ?thesis
    unfolding ref_block_def
    using length_concat_le [of "[1..<n]" "\<lambda>k. ref (drop (64 * k) block)"] by simp
qed

lemma block_bound_header:
  assumes ref: "\<And>f. ref f = concat (map (\<lambda>i. diffs (ctrl_code f i) (word_at f i)) [1..<16])"
    and "2 \<le> n" "ctrl_code (drop 64 block) 1 = 0" "ctrl_code (drop 64 block) 2 = 0"
  shows "length (ref_block ref block n) \<le> 13 * per_word + (n - 2) * (15 * per_word)"
proof -
  have f: "length (ref f) \<le> 15 * per_word" for f
    using words_bound [of f "[1..<16]"] by (simp add: ref)
  have "ref_block ref block n = ref (drop 64 block) @ concat (map (\<lambda>k. ref (drop (64 * k) block)) [2..<n])"
    using assms(2) by (simp add: ref_block_def upt_conv_Cons numeral_2_eq_2)
  moreover have "length (ref (drop 64 block)) \<le> 13 * per_word"
    unfolding ref by (rule header_frame_bound) (use assms in simp_all)
  moreover have "length (concat (map (\<lambda>k. ref (drop (64 * k) block)) [2..<n])) \<le> (n - 2) * (15 * per_word)"
    using length_concat_le [of "[2..<n]" "\<lambda>k. ref (drop (64 * k) block)" "15 * per_word"] f by simp
  ultimately show ?thesis by simp
qed

end

interpretation st1: word_code ref_diffs1 4
  by unfold_locales (simp_all add: length_ref_diffs1, simp add: ref_diffs1_def)

interpretation st2: word_code ref_diffs2 7
  by unfold_locales (simp_all add: length_ref_diffs2, simp add: ref_diffs2_def)

text \<open>The packet size and the lengths of the arrays that the RT-130 reader decodes into.\<close>

definition DEFAULT_MSEED_BLOCKSIZE :: nat where
  "DEFAULT_MSEED_BLOCKSIZE = 1024"

definition RT130_C0_MAX_SAMPS :: nat where
  "RT130_C0_MAX_SAMPS = 892"

definition RT130_C2_MAX_SAMPS :: nat where
  "RT130_C2_MAX_SAMPS = 1561"

lemmas packet_sizes = DEFAULT_MSEED_BLOCKSIZE_def RT130_C0_MAX_SAMPS_def RT130_C2_MAX_SAMPS_def

section \<open>Two blocks of full frames\<close>

text \<open>
  Blocks for the witnesses: in a block of bytes \<open>0x55\<close> every word has code 1; in a
  block of frames \<open>full_frame2\<close> every word has code 3 and holds seven differences.
\<close>

definition full_frame2 :: "byte list" where
  "full_frame2 = replicate 4 0xFF @ replicate 60 0x80"

lemma length_concat_const:
  "(\<And>x. x \<in> set xs \<Longrightarrow> length (f x) = b) \<Longrightarrow> length (concat (map f xs)) = length xs * b"
  by (induction xs) simp_all

lemma replicate_4: "replicate 4 x = [x, x, x, x]"
  by (simp add: numeral_eq_Suc)

lemma ctrl_be55: "i < 16 \<Longrightarrow> drop_bit (30 - 2 * i) (be_word [0x55, 0x55, 0x55, 0x55] :: i32) AND 3 = 1"
proof -
  have "(be_word [0x55, 0x55, 0x55, 0x55] :: i32) = 0x55555555" by (simp add: be_word_def)
  then have "list_all (\<lambda>i. drop_bit (30 - 2 * i) (be_word [0x55, 0x55, 0x55, 0x55] :: i32) AND 3 = 1) [0..<16]"
    by (simp add: upt_rec)
  then show "i < 16 \<Longrightarrow> ?thesis" by (simp add: list_all_iff)
qed

lemma ctrl_beFF: "i < 16 \<Longrightarrow> drop_bit (30 - 2 * i) (be_word [0xFF, 0xFF, 0xFF, 0xFF] :: i32) AND 3 = 3"
proof -
  have "(be_word [0xFF, 0xFF, 0xFF, 0xFF] :: i32) = 0xFFFFFFFF" by (simp add: be_word_def)
  then have "list_all (\<lambda>i. drop_bit (30 - 2 * i) (be_word [0xFF, 0xFF, 0xFF, 0xFF] :: i32) AND 3 = 3) [0..<16]"
    by (simp add: upt_rec)
  then show "i < 16 \<Longrightarrow> ?thesis" by (simp add: list_all_iff)
qed

lemma length_ref_frame1_full: "64 \<le> m \<Longrightarrow> length (ref_frame1 (replicate m 0x55)) = 60"
proof -
  assume m: "64 \<le> m"
  then have "ctrl_code (replicate m 0x55) i = 1" if "i < 16" for i
    using ctrl_be55 [OF that] by (simp add: ctrl_code_def min_def replicate_4)
  then have "length (ref_diffs1 (ctrl_code (replicate m 0x55) i) (word_at (replicate m 0x55) i)) = 4"
    if "i < 16" for i
    using that m by (simp add: ref_diffs1_def word_at_def min_def)
  then show ?thesis
    unfolding ref_frame1_def by (subst length_concat_const [where b = 4]) simp_all
qed

lemma length_ref_frame2_full: "length (ref_frame2 (full_frame2 @ rest)) = 105"
proof -
  let ?f = "full_frame2 @ rest"
  have "word_at ?f i = replicate 4 0x80" if "1 \<le> i" "i < 16" for i
    using that by (auto simp: word_at_def full_frame2_def min_def)
  then have w: "word_at ?f i = [0x80, 0x80, 0x80, 0x80]" if "1 \<le> i" "i < 16" for i
    using that by (simp only: replicate_4)
  have "ctrl_code ?f i = 3" if "i < 16" for i
    using ctrl_beFF [OF that] by (simp add: ctrl_code_def full_frame2_def min_def replicate_4)
  then have "length (ref_diffs2 (ctrl_code ?f i) (word_at ?f i)) = 7" if "1 \<le> i" "i < 16" for i
    using that w by (simp add: ref_diffs2_def be_word_def fields_def Let_def)
  then show ?thesis
    unfolding ref_frame2_def by (subst length_concat_const [where b = 7]) simp_all
qed

lemma length_ref_block_full1: "length (ref_block ref_frame1 (replicate (64 * n) 0x55) n) = (n - 1) * 60"
  unfolding ref_block_def
  by (subst length_concat_const [where b = 60]) (auto simp: length_ref_frame1_full)

lemma drop_full_frames:
  "k < n \<Longrightarrow> drop (64 * k) (concat (replicate n full_frame2))
     = full_frame2 @ concat (replicate (n - Suc k) full_frame2)"
proof -
  assume k: "k < n"
  have "length (concat (replicate k full_frame2)) = 64 * k"
    by (simp add: length_concat full_frame2_def sum_list_replicate)
  moreover have "replicate n full_frame2 =
      replicate k full_frame2 @ full_frame2 # replicate (n - Suc k) full_frame2"
    using k by (metis add_Suc_right le_add_diff_inverse less_eq_Suc_le replicate_Suc replicate_add add_Suc)
  ultimately show ?thesis by simp
qed

lemma length_ref_block_full2:
  "length (ref_block ref_frame2 (concat (replicate n full_frame2)) n) = (n - 1) * 105"
  unfolding ref_block_def
  by (subst length_concat_const [where b = 105])
    (auto simp: drop_full_frames length_ref_frame2_full)

section \<open>Properties\<close>




text \<open>
  C15: \<^verbatim>\<open>steim2\<close> likewise produces the running sums of the Steim-2 differences of the frames of
  a block, on a machine of either byte order, and keeps the last sample.
\<close>

theorem steim2_correct:
  assumes "64 * n \<le> length block" and "2 \<le> n"
  shows "steim2 h (endian h = Some LittleHost) block last_x (64 * n) =
    (run_sums (start_value block last_x) (ref_block ref_frame2 block n),
     last (start_value block last_x # run_sums (start_value block last_x) (ref_block ref_frame2 block n)))"
  unfolding last_run_sums using steim2_ref [OF assms _ refl, of "h = LittleHost" h] by simp

theorem steim2_correct_witness:
  "steim2 BigHost False (replicate 128 0x55) 7 128 =
    (run_sums (start_value (replicate 128 0x55) 7) (ref_block ref_frame2 (replicate 128 0x55) 2),
     last (start_value (replicate 128 0x55) 7
       # run_sums (start_value (replicate 128 0x55) 7) (ref_block ref_frame2 (replicate 128 0x55) 2)))"
  using steim2_correct [of 2 "replicate 128 0x55" BigHost 7] by simp

text \<open>
  a packet of 1024 bytes whose first data frame has code 0 for its two integration
  constants fills at most the arrays the RT-130 reader decodes into, 892 samples for Steim-1 and
  1561 for Steim-2.
\<close>

theorem steim_samples_fit:
  assumes "DEFAULT_MSEED_BLOCKSIZE \<le> length block"
    and "ctrl_code (drop 64 block) 1 = 0" and "ctrl_code (drop 64 block) 2 = 0"
  shows "(\<exists>data last_x'. steim1 h (endian h = Some LittleHost) block last_x DEFAULT_MSEED_BLOCKSIZE
            = Some (data, last_x') \<and> length data \<le> RT130_C0_MAX_SAMPS)
    \<and> length (fst (steim2 h (endian h = Some LittleHost) block last_x DEFAULT_MSEED_BLOCKSIZE))
         \<le> RT130_C2_MAX_SAMPS"
proof
  have len: "64 * 16 \<le> length block" using assms(1) by (simp add: packet_sizes)
  note r1 = steim1_ref [OF len _ _ refl, of "h = LittleHost" h last_x]
    and r2 = steim2_ref [OF len _ _ refl, of "h = LittleHost" h last_x]
  show "\<exists>data last_x'. steim1 h (endian h = Some LittleHost) block last_x DEFAULT_MSEED_BLOCKSIZE
           = Some (data, last_x') \<and> length data \<le> RT130_C0_MAX_SAMPS"
    using r1 st1.block_bound_header [OF ref_frame1_def _ assms(2,3), of 16]
    by (simp add: packet_sizes)
  show "length (fst (steim2 h (endian h = Some LittleHost) block last_x DEFAULT_MSEED_BLOCKSIZE))
           \<le> RT130_C2_MAX_SAMPS"
    using r2 st2.block_bound_header [OF ref_frame2_def _ assms(2,3), of 16]
    by (simp add: packet_sizes)
qed

theorem steim_samples_fit_witness:
  "length (fst (steim2 LittleHost True (replicate 1024 0) 0 1024)) \<le> 1561"
proof -
  have "ctrl_code (drop 64 (replicate 1024 0)) 1 = 0" "ctrl_code (drop 64 (replicate 1024 0)) 2 = 0"
    by (simp_all add: ctrl_code_def min_def replicate_4 be_word_def)
  then show ?thesis
    using steim_samples_fit [of "replicate 1024 0" LittleHost 0] by (simp add: packet_sizes)
qed

text \<open>
  without that condition a packet overruns the arrays: the reader does not check the codes of
  the two integration constants, and 1024 bytes of full frames decode to 900 samples for an array of
  892 and to 1575 for an array of 1561.
\<close>

theorem steim_samples_overrun:
  "(case steim1 h (endian h = Some LittleHost) (replicate 1024 0x55) last_x DEFAULT_MSEED_BLOCKSIZE of
      None \<Rightarrow> False
    | Some (data, last_x') \<Rightarrow> length data = 900 \<and> RT130_C0_MAX_SAMPS < length data)
   \<and> length (fst (steim2 h (endian h = Some LittleHost) (concat (replicate 16 full_frame2)) last_x
         DEFAULT_MSEED_BLOCKSIZE)) = 1575
   \<and> RT130_C2_MAX_SAMPS < 1575"
proof -
  have l1: "length (ref_block ref_frame1 (replicate 1024 0x55) 16) = 900"
    using length_ref_block_full1 [of 16] by simp
  then have n1: "ref_block ref_frame1 (replicate 1024 0x55) 16 \<noteq> []" by (metis list.size(3) zero_neq_numeral)
  have l2: "length (ref_block ref_frame2 (concat (replicate 16 full_frame2)) 16) = 1575"
    using length_ref_block_full2 [of 16] by simp
  have len: "64 * 16 \<le> length (concat (replicate 16 full_frame2))"
    by (simp add: length_concat full_frame2_def sum_list_replicate)
  show ?thesis
    using steim1_ref [of 16 "replicate 1024 0x55" "h = LittleHost" h _ last_x, OF _ _ _ refl]
      steim2_ref [OF len _ _ refl, of "h = LittleHost" h last_x]
    by (simp add: packet_sizes l1 l2 n1)
qed

text \<open>
  The two decoders treat the first block of a trace differently. The format gives the first
  sample as the forward integration constant; \<^verbatim>\<open>steim1\<close> returns exactly it, \<^verbatim>\<open>steim2\<close> adds the first
  difference, the step from the last sample of the previous record, to it, so its samples are
  off by that difference.
\<close>

theorem steim2_first_sample_offset:
  assumes "64 * n \<le> length block" and "2 \<le> n"
    and "ref_block ref_frame1 block n \<noteq> []" and "ref_block ref_frame2 block n \<noteq> []"
  shows "(\<exists>ys x'. steim1 h (endian h = Some LittleHost) block INT_MIN (64 * n)
            = Some (be_word (word_at block 17) # ys, x'))
    \<and> hd (fst (steim2 h (endian h = Some LittleHost) block INT_MIN (64 * n)))
        = be_word (word_at block 17) + hd (ref_block ref_frame2 block n)"
proof -
  obtain d1 ds1 d2 ds2 where "ref_block ref_frame1 block n = d1 # ds1" "ref_block ref_frame2 block n = d2 # ds2"
    using assms(3,4) by (meson list.exhaust)
  then show ?thesis
    using steim1_ref [OF assms(1,2) _ refl, of "h = LittleHost" h INT_MIN]
      steim2_ref [OF assms(1,2) _ refl, of "h = LittleHost" h INT_MIN]
    by (simp add: start_value_def first_diffs_def)
qed

theorem steim2_first_sample_offset_witness:
  "hd (fst (steim2 LittleHost True (concat (replicate 2 full_frame2)) INT_MIN 128))
     = be_word (word_at (concat (replicate 2 full_frame2)) 17)
       + hd (ref_block ref_frame2 (concat (replicate 2 full_frame2)) 2)"
proof -
  let ?b = "concat (replicate 2 full_frame2)"
  have l: "length ?b = 128" by (simp add: length_concat full_frame2_def sum_list_replicate)
  have r2: "ref_block ref_frame2 ?b 2 \<noteq> []" using length_ref_block_full2 [of 2] by force
  have "ref_block ref_frame1 ?b 2 = ref_frame1 (drop 64 ?b)"
    by (simp add: ref_block_def numeral_2_eq_2)
  also have "drop 64 ?b = full_frame2" using drop_full_frames [of 1 2] by simp
  finally have "ref_block ref_frame1 ?b 2 = ref_frame1 full_frame2" .
  moreover have "ref_frame1 full_frame2 \<noteq> []"
  proof -
    have "ctrl_code full_frame2 1 = 3"
      using ctrl_beFF [of 1] by (simp add: ctrl_code_def full_frame2_def min_def replicate_4)
    then show ?thesis by (simp add: ref_frame1_def upt_conv_Cons ref_diffs1_def)
  qed
  ultimately show ?thesis
    using steim2_first_sample_offset [of 2 ?b LittleHost] l r2 by simp
qed

section \<open>Packing a Steim-2 word\<close>

text \<open>
  The inverse of the field reader, for the round trip: the values of \<open>wd\<close> bits, the first one
  highest, under the two bits of \<^verbatim>\<open>dnib\<close>.
\<close>

definition pack_fields :: "nat \<Rightarrow> i32 list \<Rightarrow> i32" where
  "pack_fields wd vs = foldl (\<lambda>acc v. push_bit wd acc OR take_bit wd v) 0 vs"

definition pack_word :: "i32 \<Rightarrow> nat \<Rightarrow> i32 list \<Rightarrow> i32" where
  "pack_word dnib wd vs = push_bit 30 dnib OR pack_fields wd vs"

lemma bit_pack_fields:
  "0 < wd \<Longrightarrow> k < 32 \<Longrightarrow> bit (pack_fields wd vs) k \<longleftrightarrow>
     k < wd * length vs \<and> bit (vs ! (length vs - 1 - k div wd)) (k mod wd)"
proof (induction vs arbitrary: k rule: rev_induct)
  case (snoc v vs)
  show ?case
  proof (cases "k < wd")
    case True
    then show ?thesis using snoc.prems by (simp add: pack_fields_def bit_simps nth_append)
  next
    case False
    define j where "j = k - wd"
    have k: "k = wd + j" using False j_def by simp
    have "bit (pack_fields wd (vs @ [v])) k = bit (pack_fields wd vs) j"
      using snoc.prems k by (simp add: pack_fields_def bit_simps)
    also have "\<dots> \<longleftrightarrow> j < wd * length vs \<and> bit (vs ! (length vs - 1 - j div wd)) (j mod wd)"
      using snoc.IH [of j] snoc.prems k by simp
    also have "\<dots> \<longleftrightarrow> k < wd * length (vs @ [v]) \<and>
        bit ((vs @ [v]) ! (length (vs @ [v]) - 1 - k div wd)) (k mod wd)"
    proof -
      have "j div wd < length vs" if "j < wd * length vs"
        using that by (simp add: less_mult_imp_div_less mult.commute)
      then show ?thesis using snoc.prems(1) by (auto simp: k nth_append)
    qed
    finally show ?thesis .
  qed
qed (simp add: pack_fields_def)

lemma fields_pack_word:
  assumes "0 < wd" and "wd * length vs \<le> 30" and "\<forall>v\<in>set vs. signed_take_bit (wd - 1) v = v"
  shows "fields (length vs) wd (pack_word dnib wd vs) = vs"
proof (rule nth_equalityI)
  fix d assume "d < length (fields (length vs) wd (pack_word dnib wd vs))"
  then have d: "d < length vs" by (simp add: fields_def)
  let ?o = "(length vs - 1 - d) * wd"
  have o: "?o + wd \<le> wd * length vs"
  proof -
    have "length vs - d = Suc (length vs - 1 - d)" using d by simp
    then have "?o + wd = (length vs - d) * wd" by simp
    also have "\<dots> \<le> wd * length vs" by (simp add: mult.commute)
    finally show ?thesis .
  qed
  have "bit (drop_bit ?o (pack_word dnib wd vs)) j = bit (vs ! d) j" if "j < wd" for j
  proof -
    have "?o + j < 30" using that o assms(2) by linarith
    moreover have "(?o + j) div wd = length vs - 1 - d" "(?o + j) mod wd = j" using that by simp_all
    moreover have "?o + j < wd * length vs" using that o by linarith
    ultimately show ?thesis
      using bit_pack_fields [of wd "?o + j" vs] assms(1) d
      by (simp add: pack_word_def bit_simps)
  qed
  then have "signed_take_bit (wd - 1) (drop_bit ?o (pack_word dnib wd vs))
      = signed_take_bit (wd - 1) (vs ! d)"
    using assms(1) by (intro bit_word_eqI) (simp add: bit_signed_take_bit_iff)
  also have "\<dots> = vs ! d" using assms(3) d by simp
  finally show "fields (length vs) wd (pack_word dnib wd vs) ! d = vs ! d"
    using d by (simp add: fields_def)
qed (simp add: fields_def)

lemma pack_word_dnib:
  assumes "wd * length vs \<le> 30" and "0 < wd" and "dnib AND 3 = dnib"
  shows "drop_bit 30 (pack_word dnib wd vs) AND 3 = dnib"
proof -
  have three: "(3::i32) = mask 2" by (simp add: mask_eq_exp_minus_1)
  have "drop_bit 30 (pack_word dnib wd vs) AND 3 = dnib AND 3"
    unfolding three
    using assms(1,2) by (intro bit_word_eqI) (auto simp: pack_word_def bit_simps bit_pack_fields)
  then show ?thesis using assms(3) by simp
qed

text \<open>The layouts of the format: control code, second code, number of differences, their width.\<close>

definition steim2_layouts :: "(i32 \<times> i32 \<times> nat \<times> nat) list" where
  "steim2_layouts =
     [(2, 1, 1, 30), (2, 2, 2, 15), (2, 3, 3, 10), (3, 0, 5, 6), (3, 1, 6, 5), (3, 2, 7, 4)]"

text \<open>
  round trip of a Steim-2 word. For each of the six layouts of the format, differences
  that fit their signed width, packed into a word of a frame under the layout's codes, are
  exactly what \<^verbatim>\<open>extractDiffs\<close> takes from that word.
\<close>

theorem steim2_word_roundtrip:
  assumes "(c, dnib, n, wd) \<in> set steim2_layouts" and "length vs = n"
    and "\<forall>v\<in>set vs. signed_take_bit (wd - 1) v = v"
    and "64 \<le> length frame" and "i < 16" and "ctrl_code frame i = c"
    and "be_word (word_at frame i) = pack_word dnib wd vs"
  shows "word_diffs2 h (endian h = Some LittleHost) frame (get_int h (endian h = Some LittleHost) frame 0) i = vs"
proof -
  have wd: "0 < wd" "wd * length vs \<le> 30" "dnib AND 3 = dnib"
    using assms(1,2) by (auto simp: steim2_layouts_def)
  note f = fields_pack_word [OF wd(1,2) assms(3), of dnib]
    and dn = pack_word_dnib [OF wd(2,1,3)]
  have "ref_diffs2 c (word_at frame i) = vs"
    using assms(1,2) f dn unfolding steim2_layouts_def list.set
    by (elim insertE; simp add: ref_diffs2_def Let_def assms(7))
  then show ?thesis
    using word_diffs2_ref [OF assms(4) _ assms(5), of "h = LittleHost" h] assms(6) by simp
qed

theorem steim2_word_roundtrip_witness:
  "word_diffs2 LittleHost True full_frame2 (get_int LittleHost True full_frame2 0) 3
    = [0, -8, 0, -8, 0, -8, 0]"
proof -
  have "ctrl_code full_frame2 3 = 3"
    using ctrl_beFF [of 3] by (simp add: ctrl_code_def full_frame2_def min_def replicate_4)
  moreover have "word_at full_frame2 3 = [0x80, 0x80, 0x80, 0x80]"
    by (simp add: word_at_def full_frame2_def min_def replicate_4)
  moreover have "length full_frame2 = 64" by (simp add: full_frame2_def)
  moreover have "\<forall>v\<in>{0, -8 :: i32}. signed_take_bit 3 v = v" by (simp add: signed_take_bit_def mask_eq_exp_minus_1)
  moreover have "be_word [0x80, 0x80, 0x80, 0x80] = pack_word 2 4 [0, -8, 0, -8, 0, -8, 0]"
    by (simp add: be_word_def pack_word_def pack_fields_def)
  ultimately show ?thesis
    using steim2_word_roundtrip [of 3 2 7 4 "[0, -8, 0, -8, 0, -8, 0]" full_frame2 3 LittleHost]
    by (simp add: steim2_layouts_def)
qed

end
