(* ===== verification/RT130.thy ===== *)
theory RT130
  imports RT125 Steim
begin

text \<open>
  The RT-130 reader, \<^verbatim>\<open>utils/data/data_rt130.c\<close>: event headers and data packets of 1024 bytes, the
  table of channels built by \<^verbatim>\<open>get_rt130_hedr\<close>, the sample formats read by \<^verbatim>\<open>get_rt130_data\<close> (two
  plain ones and the two Steim compressions of \<open>Steim\<close>) and the state of health text. \<open>h\<close> is
  the byte order of the machine and \<open>rv\<close> the static variable \<^verbatim>\<open>rev\<close>. \<open>None\<close> is an access outside an
  array or the use of an event header that was never read. The Steim-1 decoder reverses words of
  the packet buffer in place; the next packet overwrites them, so files of whole packets, which the
  properties are about, never see it.
\<close>

section \<open>Packets\<close>

definition AD :: int where "AD = 0x4144"
definition CD :: int where "CD = 0x4344"
definition DR :: int where "DR = 0x4452"
definition DS :: int where "DS = 0x4453"
definition DT :: int where "DT = 0x4454"
definition EH :: int where "EH = 0x4548"
definition ET :: int where "ET = 0x4554"
definition OM :: int where "OM = 0x4F4D"
definition SH :: int where "SH = 0x5348"
definition SC :: int where "SC = 0x5343"
definition FD :: int where "FD = 0x4644"

lemmas rt130_types = AD_def CD_def DR_def DS_def DT_def EH_def ET_def OM_def SH_def SC_def FD_def

text \<open>The \<^verbatim>\<open>switch\<close> of \<^verbatim>\<open>rd_pack\<close>.\<close>

definition rd_type130 :: "host \<Rightarrow> byte list \<Rightarrow> int" where
  "rd_type130 h array =
     (let t = ConvertRefType h array
      in if t \<in> set [DT, ET, EH, DS, SC, CD, OM, AD, DR, SH, FD] then t else 0)"

section \<open>Headers\<close>

record CHANINFO =
  c_fileName :: cstr
  strmNm :: int
  chnNm :: int
  chnNum :: int
  c_data_form :: byte
  c_numSamps :: int
  c_gain :: int

record EHINFO =
  eh_fileName :: cstr
  eh_unit_id :: int
  eh_sampsPsec :: real
  eh_epoch :: RTEpoch

record hedr130 =
  channels :: "CHANINFO list"
  EHInfo :: "EHINFO option"
  gains :: "int list option"

definition getChannel :: "int \<Rightarrow> CHANINFO \<Rightarrow> bool" where
  "getChannel n one \<longleftrightarrow> chnNum one - n = 0"

definition chan_new :: "cstr \<Rightarrow> byte list \<Rightarrow> int \<Rightarrow> CHANINFO" where
  "chan_new fn block g =
     \<lparr>c_fileName = fn, strmNm = RT130STREAMNM block, chnNm = RT130CHANNELNM block,
      chnNum = RT130CHANNELNUM block, c_data_form = RT130DATAFORM block, c_numSamps = 0, c_gain = g\<rparr>"

definition chan_add :: "byte list \<Rightarrow> CHANINFO \<Rightarrow> CHANINFO" where
  "chan_add block c = c\<lparr>c_numSamps := c_numSamps c + RT130NUMSAMPS block\<rparr>"

text \<open>The gain of a new channel: zero before the gains are known, else an element of the array.\<close>

definition chan_gain :: "int list option \<Rightarrow> byte list \<Rightarrow> int option" where
  "chan_gain gs block =
     (case gs of None \<Rightarrow> Some 0
      | Some g \<Rightarrow> (let i = nat (RT130CHANNELNM block - 1) in if i < length g then Some (g ! i) else None))"

text \<open>
  The gain array of an event header: \<^verbatim>\<open>calloc(totChans, sizeof(int *))\<close> has room for twice as many
  \<^verbatim>\<open>int\<close>s; a negative number of channels makes \<^verbatim>\<open>calloc\<close> fail. The letters are read from offset 416.
\<close>

definition eh_gains :: "byte list \<Rightarrow> int list option option" where
  "eh_gains block =
     (let totChans = atoi (drop 860 block)
      in if totChans \<le> 0 then Some None
         else if 416 + nat totChans \<le> length block
         then Some (Some (map (\<lambda>i. RT130CHGAIN (block ! (416 + i)) 0) [0..<nat totChans]
                          @ replicate (nat totChans) 0))
         else None)"

definition eh_info :: "cstr \<Rightarrow> byte list \<Rightarrow> EHINFO" where
  "eh_info fn block =
     \<lparr>eh_fileName = fn, eh_unit_id = RT130UNITID block, eh_sampsPsec = to_float (atof (drop 88 block)),
      eh_epoch = gmt2epoch (ascii2bin (drop 112 block)) 0\<rparr>"

text \<open>The body of the loop of \<^verbatim>\<open>get_rt130_hedr\<close>.\<close>

definition rt130_hedr_step :: "host \<Rightarrow> cstr \<Rightarrow> byte list \<Rightarrow> hedr130 option \<Rightarrow> hedr130 option" where
  "rt130_hedr_step h fn block st =
     do { s \<leftarrow> st;
          if rd_type130 h block = DT then
            (case find (getChannel (RT130CHANNELNUM block)) (channels s) of
               Some _ \<Rightarrow> Some (s\<lparr>channels := update_first (getChannel (RT130CHANNELNUM block)) (chan_add block)
                                               (channels s)\<rparr>)
             | None \<Rightarrow> do { g \<leftarrow> chan_gain (gains s) block;
                             Some (s\<lparr>channels := chan_add block (chan_new fn block g) # channels s\<rparr>) })
          else if rd_type130 h block = EH then
            (case gains s of
               Some g \<Rightarrow> Some (s\<lparr>EHInfo := Some (eh_info fn block)\<rparr>)
             | None \<Rightarrow> do { g \<leftarrow> eh_gains block;
                             Some (s\<lparr>EHInfo := Some (eh_info fn block), gains := g\<rparr>) })
          else Some s }"

definition rt130_form :: "byte \<Rightarrow> headinfo \<Rightarrow> headinfo" where
  "rt130_form f hi =
     (if f = 0x16 then hi\<lparr>data_form := BIT16, dataSize := 2\<rparr>
      else if f = 0x32 \<or> f = 0xc0 \<or> f = 0xc2 then hi\<lparr>data_form := BIT32, dataSize := 4\<rparr>
      else hi)"

definition make_rt130_trace :: "EHINFO \<Rightarrow> CHANINFO \<Rightarrow> byte traceInfo" where
  "make_rt130_trace e c =
     (let date = passcal_etoh (of_int (e_sec (eh_epoch e)));
          d = get_julday (mo date) (day date) (yr date);
          ms = e_usec (eh_epoch e) sdiv 1000;
          chn = show_int (strmNm c) @ lit '':'' @ show_int (chnNm c);
          sid = show_hex (nat (eh_unit_id e));
          hi = calloc_head\<lparr>year := yr date, dayOfYear := d, hour := hr date, minute := mn date,
                 second := c_trunc (sec date), m_secs := ms,
                 epochs := of_int (e_sec (eh_epoch e)) + of_int ms / 1000,
                 gainConst := (if c_gain c \<noteq> 0 then c_gain c else 1), scale_fac := 1, sensorID := sid,
                 sampInt := 1000000 / eh_sampsPsec e, channel := chn,
                 descr1 := date_descr (yr date) d (hr date) (mn date),
                 descr2 := lit ''ID: '' @ sid @ lit '' C: '' @ chn,
                 longFN := eh_fileName e, shortFN := base_name (eh_fileName e) @ lit ''.'' @ chn\<rparr>
      in calloc_trace\<lparr>fileType := RT130_DATA, fileName := eh_fileName e, head := rt130_form (c_data_form c) hi,
           dataInfo := (dataInfo calloc_trace)\<lparr>numSamples := c_numSamps c\<rparr>\<rparr>)"

definition rt130_scan :: "host \<Rightarrow> byte list \<Rightarrow> byte list \<Rightarrow> cstr \<Rightarrow> hedr130 option" where
  "rt130_scan h buf fp fn =
     fold (rt130_hedr_step h fn) (blocks RT130_PKT_SIZE buf fp)
       (Some \<lparr>channels = [], EHInfo = None, gains = None\<rparr>)"

definition get_rt130_hedr :: "host \<Rightarrow> byte list \<Rightarrow> byte list \<Rightarrow> cstr \<Rightarrow> byte traceInfo list option" where
  "get_rt130_hedr h buf fp fn =
     do { s \<leftarrow> rt130_scan h buf fp fn;
          (case channels s of [] \<Rightarrow> Some []
           | _ \<Rightarrow> do { e \<leftarrow> EHInfo s;
                       Some (fold (\<lambda>c traces. make_rt130_trace e c # traces) (channels s) []) }) }"

section \<open>Data\<close>

definition store32 :: "host \<Rightarrow> i32 \<Rightarrow> byte list" where
  "store32 h w =
     (let bs = [ucast (drop_bit 24 w), ucast (drop_bit 16 w), ucast (drop_bit 8 w), ucast w]
      in if h = BigHost then bs else rev bs)"

text \<open>
  What one data packet contributes: the bytes copied, the number of samples and the new last value.
  The inner \<open>None\<close> is the error return of \<^verbatim>\<open>steim1\<close>; a format without a case contributes nothing.
\<close>

definition rt130_payload ::
  "host \<Rightarrow> bool \<Rightarrow> nat \<Rightarrow> byte list \<Rightarrow> i32 \<Rightarrow> (byte list \<times> nat \<times> i32) option option" where
  "rt130_payload h rv dsz block last_x =
     (let n = nat (RT130NUMSAMPS block); f = RT130DATAFORM block
      in if f = 0x32 \<or> f = 0x16 then
           (if RT130_HEADER_SIZE + dsz * n \<le> length block
            then Some (Some (take (dsz * n) (drop RT130_HEADER_SIZE block), n, last_x)) else None)
         else if f = 0xc0 then
           (case steim1 h rv block last_x DEFAULT_MSEED_BLOCKSIZE of
              None \<Rightarrow> Some None
            | Some (data, last_x') \<Rightarrow>
                if length data \<le> RT130_C0_MAX_SAMPS
                then Some (Some (take (dsz * length data) (concat (map (store32 h) data)), length data, last_x'))
                else None)
         else if f = 0xc2 then
           (case steim2 h rv block last_x DEFAULT_MSEED_BLOCKSIZE of
              (data, last_x') \<Rightarrow>
                if length data \<le> RT130_C2_MAX_SAMPS
                then Some (Some (take (dsz * length data) (concat (map (store32 h) data)), length data, last_x'))
                else None)
         else Some (Some ([], 0, last_x)))"

text \<open>The loop: the array, \<^verbatim>\<open>sampsRead\<close> and \<^verbatim>\<open>last_x\<close>; \<open>Inl ()\<close> after the return of an error.\<close>

definition rt130_data_step ::
  "host \<Rightarrow> bool \<Rightarrow> nat \<Rightarrow> int \<Rightarrow> byte list \<Rightarrow> (unit + byte list \<times> nat \<times> i32) option \<Rightarrow>
   (unit + byte list \<times> nat \<times> i32) option" where
  "rt130_data_step h rv dsz chn block st =
     (case st of None \<Rightarrow> None | Some (Inl u) \<Rightarrow> Some (Inl u)
      | Some (Inr (data, sampsRead, last_x)) \<Rightarrow>
          if rd_type130 h block = DT \<and> RT130CHANNELNUM block = chn then
            (case rt130_payload h rv dsz block last_x of
               None \<Rightarrow> None
             | Some None \<Rightarrow> Some (Inl ())
             | Some (Some (bs, n, last_x')) \<Rightarrow>
                 map_option (\<lambda>data'. Inr (data', sampsRead + n, last_x')) (put_at data (sampsRead * dsz) bs))
          else Some (Inr (data, sampsRead, last_x)))"

definition get_rt130_data ::
  "host \<Rightarrow> bool \<Rightarrow> byte list \<Rightarrow> byte list option \<Rightarrow> byte traceInfo \<Rightarrow> (status \<times> byte traceInfo) option" where
  "get_rt130_data h rv buf fp trace =
     (let dsz = dataSize (head trace)
      in case fp of None \<Rightarrow> Some (FAILURE, trace)
         | Some bytes \<Rightarrow>
             (case fold (rt130_data_step h rv dsz (HDRCHANNELNUM (channel (head trace))))
                     (blocks RT130_PKT_SIZE buf bytes)
                     (Some (Inr (replicate (nat (numSamples (dataInfo trace)) * dsz) 0, 0, INT_MIN))) of
                None \<Rightarrow> None
              | Some (Inl _) \<Rightarrow> Some (FAILURE, trace\<lparr>dataInfo := (dataInfo trace)\<lparr>d_data := None\<rparr>\<rparr>)
              | Some (Inr (data, sampsRead, _)) \<Rightarrow> Some (PQLXSUCCESS, finish_data sampsRead data trace)))"

section \<open>Identification\<close>

definition rt130_check :: "host \<Rightarrow> byte list \<Rightarrow> byte list \<Rightarrow> status" where
  "rt130_check h buf fp =
     (case blocks RT130_PKT_SIZE buf fp of [] \<Rightarrow> FAILURE
      | block # _ \<Rightarrow>
          if rd_type130 h block = EH \<and> RT130DATAFORM block \<in> set [0x16, 0x32, 0xc0, 0xc2]
          then PQLXSUCCESS else FAILURE)"

text \<open>The traces and the static variable \<^verbatim>\<open>rev\<close> that the first call sets.\<close>

definition IDrt130 ::
  "host \<Rightarrow> byte list \<Rightarrow> byte list \<Rightarrow> byte list \<Rightarrow> cstr \<Rightarrow> bool \<times> byte traceInfo list option" where
  "IDrt130 h buf buf' fp fn =
     (endian h = Some LittleHost,
      if rt130_check h buf fp \<noteq> FAILURE then get_rt130_hedr h buf' fp fn else Some [])"

section \<open>State of health\<close>

text \<open>The messages of a packet from offset \<open>p\<close>: DDD:HH:MM:SS, a space, then text up to CR LF.\<close>

function soh130_msgs :: "byte list \<Rightarrow> nat \<Rightarrow> SOHMSG list option" where
  "soh130_msgs b p =
     (if p < RT130_PKT_SIZE then
        (if length b < p + 13 then None
         else case strstr_crlf (drop (p + 13) b) of
                None \<Rightarrow> None
              | Some None \<Rightarrow> Some []
              | Some (Some loc) \<Rightarrow>
                  map_option ((#) \<lparr>s_year = 0, s_jday = atoi (drop p b), s_hour = atoi (drop (p + 4) b),
                                   s_minute = atoi (drop (p + 7) b), s_second = atoi (drop (p + 10) b),
                                   s_msg = take loc (drop (p + 13) b)\<rparr>)
                    (soh130_msgs b (p + 13 + loc + 2)))
      else Some [])"
  by pat_completeness auto
termination
  by (relation "measure (\<lambda>(b, p). RT130_PKT_SIZE - p)") auto

declare soh130_msgs.simps [simp del]

text \<open>The static counter \<^verbatim>\<open>seqNum\<close> goes in and out.\<close>

definition get_rt130_SOH ::
  "host \<Rightarrow> byte list \<Rightarrow> byte list \<Rightarrow> int \<Rightarrow> (SOHINFO list \<times> int) option" where
  "get_rt130_SOH h buf fp seqNum =
     fold (\<lambda>b st. do { (sohMsgList, n) \<leftarrow> st;
                       if rd_type130 h b = SH
                       then do { ms \<leftarrow> soh130_msgs b RT130_HEADER_SIZE;
                                 Some (sohMsgList @ [\<lparr>seqnum = n, msgs = ms\<rparr>], n + 1) }
                       else Some (sohMsgList, n) })
       (blocks RT130_PKT_SIZE buf fp) (Some ([], seqNum))"

section \<open>Channel numbers\<close>

lemma drop_block: "n < length b \<Longrightarrow> drop n b = b ! n # drop (Suc n) b"
  by (rule Cons_nth_drop_Suc [symmetric])

lemma lit_colon: "lit '':'' = [58]"
  by (simp add: lit_def)

lemma show_nat_no_colon: "58 \<notin> set (show_nat n)"
  using show_nat_digits [of n] by (auto simp: isdigit_def)

lemma HDRCHANNELNUM_print:
  assumes "0 \<le> s" "s < 1000" "0 \<le> c" "c < 1000"
  shows "HDRCHANNELNUM (show_int s @ lit '':'' @ show_int c) = (s - 1) * 3 + c"
proof -
  have a: "atoi (show_int s @ 58 # show_int c) = s"
    using assms by (intro atoi_number) (simp_all add: isdigit_def)
  have "after_last 58 (show_int s @ 58 # show_int c) = Some (show_int c)"
    using assms show_nat_no_colon by (intro after_last_append) (simp add: show_int_def)
  moreover have "atoi (show_int c) = c" using assms by (auto intro!: atoi_show_int)
  ultimately show ?thesis using a by (simp add: HDRCHANNELNUM_def lit_colon)
qed

lemma stream_channel_bounds:
  assumes "24 \<le> length b"
  shows "0 \<le> RT130STREAMNM b" "RT130STREAMNM b < 1000" "0 \<le> RT130CHANNELNM b" "RT130CHANNELNM b < 1000"
    "0 \<le> RT130NUMSAMPS b"
proof -
  have d: "drop 18 b = b ! 18 # drop 19 b" "drop 19 b = b ! 19 # drop 20 b"
      "drop 20 b = b ! 20 # b ! 21 # drop 22 b"
    using assms by (simp_all add: drop_block)
  show "0 \<le> RT130STREAMNM b" "RT130STREAMNM b < 1000"
    using sbcdhx_one_bounds [of "b ! 18" "drop 19 b"] by (simp_all add: RT130STREAMNM_def d(1))
  show "0 \<le> RT130CHANNELNM b" "RT130CHANNELNM b < 1000"
    using sbcdhx_one_bounds [of "b ! 19" "drop 20 b"] by (simp_all add: RT130CHANNELNM_def d(2))
  show "0 \<le> RT130NUMSAMPS b"
    using sbcdhx_two_bounds [of "b ! 20" "b ! 21" "drop 22 b"] by (simp add: RT130NUMSAMPS_def d(3))
qed

text \<open>
  the channel name that the header reader prints selects in the data reader exactly the packets
  it was made from: \<^verbatim>\<open>HDRCHANNELNUM\<close> of \<^verbatim>\<open>"stream:channel"\<close> is \<^verbatim>\<open>RT130CHANNELNUM\<close> of the packet.
\<close>

theorem rt130_channel_roundtrip:
  assumes "24 \<le> length b"
  shows "HDRCHANNELNUM (show_int (RT130STREAMNM b) @ lit '':'' @ show_int (RT130CHANNELNM b)) = RT130CHANNELNUM b"
  using HDRCHANNELNUM_print [OF stream_channel_bounds(1-4) [OF assms]]
  by (simp add: RT130STREAMNM_def RT130CHANNELNM_def RT130CHANNELNUM_def)

theorem rt130_channel_roundtrip_witness:
  "HDRCHANNELNUM (show_int (RT130STREAMNM (replicate 24 0x02)) @ lit '':'' @ show_int (RT130CHANNELNM (replicate 24 0x02)))
     = RT130CHANNELNUM (replicate 24 0x02)"
  by (rule rt130_channel_roundtrip) simp

section \<open>The channel table\<close>

lemma getChannel_eq: "getChannel k = (\<lambda>c. chnNum c = k)"
  by (auto simp: getChannel_def)

type_synonym chan_packet = "byte list \<times> int"

definition cinfo :: "CHANINFO \<Rightarrow> cstr \<times> int \<times> int \<times> byte" where
  "cinfo c = (c_fileName c, strmNm c, chnNm c, c_data_form c)"

text \<open>A data packet is taken with the gain its channel would get if the packet were its first.\<close>

interpretation rt130: keyed_table chnNum "\<lambda>p. RT130CHANNELNUM (fst p)"
    "\<lambda>p. chan_add (fst p) (chan_new fn (fst p) (snd p))" "\<lambda>p. chan_add (fst p)"
    c_numSamps "\<lambda>p. RT130NUMSAMPS (fst p)" cinfo
    "\<lambda>p. (fn, RT130STREAMNM (fst p), RT130CHANNELNM (fst p), RT130DATAFORM (fst p))" for fn
  by unfold_locales (simp_all add: chan_add_def chan_new_def cinfo_def)

abbreviation chan_table :: "cstr \<Rightarrow> chan_packet list \<Rightarrow> CHANINFO list \<Rightarrow> CHANINFO list" where
  "chan_table fn \<equiv> fold (\<lambda>p. upsert (\<lambda>c. chnNum c = RT130CHANNELNUM (fst p))
                             (chan_add (fst p) (chan_new fn (fst p) (snd p))) (chan_add (fst p)))"

lemma hedr_fold_None: "fold (rt130_hedr_step h fn) bs None = None"
  by (induction bs) (simp_all add: rt130_hedr_step_def)

lemma EH_not_DT: "EH \<noteq> DT" "DT \<noteq> EH"
  by (simp_all add: rt130_types)

lemma hedr_step_channels:
  assumes "rt130_hedr_step h fn b (Some s) = Some s'"
  shows "\<exists>ps. map fst ps = (if rd_type130 h b = DT then [b] else []) \<and> channels s' = chan_table fn ps (channels s)"
proof (cases "rd_type130 h b = DT")
  case True
  show ?thesis
  proof (cases "find (\<lambda>c. chnNum c = RT130CHANNELNUM b) (channels s)")
    case None
    then obtain g where "channels s' = chan_add b (chan_new fn b g) # channels s"
      using assms True by (auto simp: rt130_hedr_step_def getChannel_eq split: Option.bind_splits)
    then show ?thesis using True None by (intro exI [where x = "[(b, g)]"]) (simp add: upsert_def)
  next
    case (Some x)
    then show ?thesis
      using assms True by (intro exI [where x = "[(b, 0)]"]) (auto simp: upsert_def rt130_hedr_step_def getChannel_eq)
  qed
next
  case False
  then show ?thesis
    using assms by (auto simp: rt130_hedr_step_def split: if_splits option.splits Option.bind_splits)
qed

lemma scan_channels:
  "fold (rt130_hedr_step h fn) bs (Some s) = Some s' \<Longrightarrow>
   \<exists>ps. map fst ps = filter (\<lambda>b. rd_type130 h b = DT) bs \<and> channels s' = chan_table fn ps (channels s)"
proof (induction bs arbitrary: s)
  case (Cons b bs)
  then obtain s1 where s1: "rt130_hedr_step h fn b (Some s) = Some s1"
    by (cases "rt130_hedr_step h fn b (Some s)") (simp_all add: hedr_fold_None)
  obtain ps1 where 1: "map fst ps1 = (if rd_type130 h b = DT then [b] else [])"
      "channels s1 = chan_table fn ps1 (channels s)"
    using hedr_step_channels [OF s1] by blast
  obtain ps2 where 2: "map fst ps2 = filter (\<lambda>b. rd_type130 h b = DT) bs"
      "channels s' = chan_table fn ps2 (channels s1)"
    using Cons s1 by auto
  show ?case using 1 2 by (intro exI [where x = "ps1 @ ps2"]) simp
qed simp

definition dt_packets :: "host \<Rightarrow> byte list \<Rightarrow> byte list \<Rightarrow> byte list list" where
  "dt_packets h buf fp = filter (\<lambda>b. rd_type130 h b = DT) (blocks RT130_PKT_SIZE buf fp)"

lemma filter_map_fst: "filter P (map fst ps) = map fst (filter (\<lambda>p. P (fst p)) ps)"
  by (induction ps) simp_all

text \<open>The channels found by a scan of the file.\<close>

lemma rt130_scan_spec:
  assumes "rt130_scan h buf fp fn = Some s"
  shows "distinct (map chnNum (channels s))"
    and "\<forall>c\<in>set (channels s). \<exists>q qs. filter (\<lambda>b. RT130CHANNELNUM b = chnNum c) (dt_packets h buf fp) = q # qs
      \<and> cinfo c = (fn, RT130STREAMNM q, RT130CHANNELNM q, RT130DATAFORM q)
      \<and> c_numSamps c = sum_list (map RT130NUMSAMPS (q # qs))"
    and "\<forall>b\<in>set (dt_packets h buf fp). \<exists>c\<in>set (channels s). chnNum c = RT130CHANNELNUM b"
proof -
  obtain ps where ps: "map fst ps = dt_packets h buf fp" and s: "channels s = chan_table fn ps []"
    using scan_channels assms unfolding rt130_scan_def dt_packets_def by fastforce
  show "distinct (map chnNum (channels s))" unfolding s using rt130.fold_keys [of "[]" fn ps] by simp
  show "\<forall>c\<in>set (channels s). \<exists>q qs. filter (\<lambda>b. RT130CHANNELNUM b = chnNum c) (dt_packets h buf fp) = q # qs
      \<and> cinfo c = (fn, RT130STREAMNM q, RT130CHANNELNM q, RT130DATAFORM q)
      \<and> c_numSamps c = sum_list (map RT130NUMSAMPS (q # qs))"
  proof
    fix c assume "c \<in> set (channels s)"
    then obtain q qs where "filter (\<lambda>p. RT130CHANNELNUM (fst p) = chnNum c) ps = q # qs"
      "cinfo c = (fn, RT130STREAMNM (fst q), RT130CHANNELNM (fst q), RT130DATAFORM (fst q))"
      "c_numSamps c = sum_list (map (\<lambda>p. RT130NUMSAMPS (fst p)) (q # qs))"
      unfolding s using rt130.fold_entry [of c fn ps] by blast
    then show "\<exists>q qs. filter (\<lambda>b. RT130CHANNELNUM b = chnNum c) (dt_packets h buf fp) = q # qs
      \<and> cinfo c = (fn, RT130STREAMNM q, RT130CHANNELNM q, RT130DATAFORM q)
      \<and> c_numSamps c = sum_list (map RT130NUMSAMPS (q # qs))"
      unfolding ps [symmetric] filter_map_fst
      by (intro exI [where x = "fst q"] exI [where x = "map fst qs"]) (simp add: comp_def)
  qed
  show "\<forall>b\<in>set (dt_packets h buf fp). \<exists>c\<in>set (channels s). chnNum c = RT130CHANNELNUM b"
    unfolding s ps [symmetric] using rt130.fold_has_entry [of _ ps fn] by auto
qed

lemma channel_make: "channel (head (make_rt130_trace e c)) = show_int (strmNm c) @ lit '':'' @ show_int (chnNm c)"
  by (simp add: make_rt130_trace_def Let_def rt130_form_def)

lemma numSamples_make130: "numSamples (dataInfo (make_rt130_trace e c)) = c_numSamps c"
  by (simp add: make_rt130_trace_def Let_def)

lemma dataSize_make: "dataSize (head (make_rt130_trace e c)) =
    (if c_data_form c = 0x16 then 2 else if c_data_form c \<in> {0x32, 0xc0, 0xc2} then 4 else 0)"
  by (simp add: make_rt130_trace_def Let_def rt130_form_def calloc_head_def)

lemma get_rt130_hedr_traces:
  assumes "get_rt130_hedr h buf fp fn = Some traces" and "t \<in> set traces"
  obtains s e c where "rt130_scan h buf fp fn = Some s" "traces = rev (map (make_rt130_trace e) (channels s))"
    "c \<in> set (channels s)" "t = make_rt130_trace e c"
proof -
  have f: "fold (\<lambda>c traces. g c # traces) cs acc = rev (map g cs) @ acc" for g :: "CHANINFO \<Rightarrow> byte traceInfo" and cs acc
    by (induction cs arbitrary: acc) simp_all
  obtain s where s: "rt130_scan h buf fp fn = Some s"
    using assms(1) by (auto simp: get_rt130_hedr_def split: Option.bind_splits)
  have ne: "channels s \<noteq> []" using assms s by (auto simp: get_rt130_hedr_def)
  obtain e where "traces = rev (map (make_rt130_trace e) (channels s))"
    using assms(1) s ne by (cases "EHInfo s") (auto simp: get_rt130_hedr_def f split: list.splits)
  then show thesis using that [OF s] assms(2) by auto
qed

lemma chan_trace_num:
  assumes "rt130_scan h buf fp fn = Some s" and "c \<in> set (channels s)" and "length buf = RT130_PKT_SIZE"
  shows "HDRCHANNELNUM (channel (head (make_rt130_trace e c))) = chnNum c"
proof -
  obtain q qs where q: "filter (\<lambda>b. RT130CHANNELNUM b = chnNum c) (dt_packets h buf fp) = q # qs"
    and c: "strmNm c = RT130STREAMNM q" "chnNm c = RT130CHANNELNM q"
    using rt130_scan_spec(2) [OF assms(1)] assms(2) by (force simp: cinfo_def)
  have "q \<in> set (filter (\<lambda>b. RT130CHANNELNUM b = chnNum c) (dt_packets h buf fp))" unfolding q by simp
  then have m: "q \<in> set (blocks RT130_PKT_SIZE buf fp)" "RT130CHANNELNUM q = chnNum c"
    by (auto simp: dt_packets_def)
  have "24 \<le> length q" using blocks_length [OF assms(3) m(1)] by (simp add: RT130_PKT_SIZE_def)
  then have "HDRCHANNELNUM (show_int (RT130STREAMNM q) @ lit '':'' @ show_int (RT130CHANNELNM q)) = RT130CHANNELNUM q"
    using HDRCHANNELNUM_print [OF stream_channel_bounds(1-4)]
    by (simp add: RT130STREAMNM_def RT130CHANNELNM_def RT130CHANNELNUM_def)
  then show ?thesis using m(2) by (simp add: channel_make c)
qed

text \<open>
  whenever \<^verbatim>\<open>get_rt130_hedr\<close> returns traces, they have distinct channel numbers, and each has the sum
  of the sample counts of the data packets with its number and the data format of the first of them.
\<close>

theorem rt130_hedr_traces:
  assumes "get_rt130_hedr h buf fp fn = Some traces" and "length buf = RT130_PKT_SIZE"
  shows "distinct (map (\<lambda>t. HDRCHANNELNUM (channel (head t))) traces)
    \<and> (\<forall>t\<in>set traces. \<exists>q qs.
         filter (\<lambda>b. RT130CHANNELNUM b = HDRCHANNELNUM (channel (head t))) (dt_packets h buf fp) = q # qs
         \<and> numSamples (dataInfo t) = sum_list (map RT130NUMSAMPS (q # qs))
         \<and> dataSize (head t) =
             (if RT130DATAFORM q = 0x16 then 2 else if RT130DATAFORM q \<in> {0x32, 0xc0, 0xc2} then 4 else 0))"
proof (intro conjI ballI)
  show "distinct (map (\<lambda>t. HDRCHANNELNUM (channel (head t))) traces)"
  proof (cases traces)
    case (Cons t ts)
    then have "t \<in> set traces" by simp
    from get_rt130_hedr_traces [OF assms(1) this] obtain s e where s: "rt130_scan h buf fp fn = Some s"
      and tr: "traces = rev (map (make_rt130_trace e) (channels s))" by metis
    have m: "map (\<lambda>t. HDRCHANNELNUM (channel (head t))) (map (make_rt130_trace e) (channels s)) = map chnNum (channels s)"
      using chan_trace_num [OF s _ assms(2)] by simp
    show ?thesis
      unfolding tr rev_map [symmetric] distinct_rev m by (rule rt130_scan_spec(1) [OF s])
  qed simp
next
  fix t assume "t \<in> set traces"
  from get_rt130_hedr_traces [OF assms(1) this] obtain s e c where s: "rt130_scan h buf fp fn = Some s"
    and c: "c \<in> set (channels s)" and t: "t = make_rt130_trace e c" by metis
  note num = chan_trace_num [OF s c assms(2)]
  show "\<exists>q qs.
         filter (\<lambda>b. RT130CHANNELNUM b = HDRCHANNELNUM (channel (head t))) (dt_packets h buf fp) = q # qs
         \<and> numSamples (dataInfo t) = sum_list (map RT130NUMSAMPS (q # qs))
         \<and> dataSize (head t) =
             (if RT130DATAFORM q = 0x16 then 2 else if RT130DATAFORM q \<in> {0x32, 0xc0, 0xc2} then 4 else 0)"
    using rt130_scan_spec(2) [OF s] c unfolding t num numSamples_make130 dataSize_make
    by (force simp: cinfo_def)
qed

section \<open>Reading the samples\<close>

text \<open>What the packets of a channel decode to, one after the other.\<close>

fun rt130_decode :: "host \<Rightarrow> bool \<Rightarrow> nat \<Rightarrow> byte list list \<Rightarrow> i32 \<Rightarrow> (byte list \<times> nat) option" where
  "rt130_decode h rv dsz [] x = Some ([], 0)"
| "rt130_decode h rv dsz (b # bs) x =
     (case rt130_payload h rv dsz b x of
        Some (Some (d, n, x')) \<Rightarrow> map_option (\<lambda>(ds, m). (d @ ds, n + m)) (rt130_decode h rv dsz bs x')
      | _ \<Rightarrow> None)"

lemma length_concat_store32: "length (concat (map (store32 h) xs)) = 4 * length xs"
  by (induction xs) (simp_all add: store32_def Let_def)

lemma payload_length:
  assumes "rt130_payload h rv dsz b x = Some (Some (d, n, x'))" and "dsz \<le> 4"
  shows "length d = n * dsz"
proof -
  have "min (4 * k) (dsz * k) = dsz * k" for k
    using mult_le_mono1 [OF assms(2), of k] by (simp add: min_absorb2)
  then have "length d = dsz * n"
    using assms(1)
    by (auto simp: rt130_payload_def Let_def length_concat_store32 split: if_splits option.splits prod.splits)
  then show ?thesis by (simp add: mult.commute)
qed

lemma data_fold_None: "fold (rt130_data_step h rv dsz chn) bs None = None"
  by (induction bs) (simp_all add: rt130_data_step_def)

text \<open>The loop appends the decoded bytes, and leaves the array as soon as there is no room for them.\<close>

lemma data_fold:
  assumes "dsz \<le> 4" and "0 < dsz" and "length pre = k * dsz"
    and "rt130_decode h rv dsz (filter (\<lambda>b. rd_type130 h b = DT \<and> RT130CHANNELNUM b = chn) bs) x = Some (ds, m)"
  shows "(length ds = m * dsz) \<and>
    (case fold (rt130_data_step h rv dsz chn) bs (Some (Inr (pre @ room, k, x))) of
       None \<Rightarrow> length room < m * dsz
     | Some (Inl _) \<Rightarrow> False
     | Some (Inr (data, n, _)) \<Rightarrow> m * dsz \<le> length room \<and> data = pre @ ds @ drop (m * dsz) room \<and> n = k + m)"
  using assms(3,4)
proof (induction bs arbitrary: pre room k x ds m)
  case (Cons b bs)
  show ?case
  proof (cases "rd_type130 h b = DT \<and> RT130CHANNELNUM b = chn")
    case False
    then have "rt130_data_step h rv dsz chn b (Some (Inr (pre @ room, k, x))) = Some (Inr (pre @ room, k, x))"
      unfolding rt130_data_step_def if_not_P [OF False] by simp
    moreover have "rt130_decode h rv dsz (filter (\<lambda>b. rd_type130 h b = DT \<and> RT130CHANNELNUM b = chn) bs) x = Some (ds, m)"
      using Cons.prems(2) False by (simp only: filter.simps if_False)
    note Cons.IH [OF Cons.prems(1) this, of room]
    ultimately show ?thesis by (simp only: fold_simps)
  next
    case True
    obtain d n x' ds' m' where p: "rt130_payload h rv dsz b x = Some (Some (d, n, x'))"
      and r: "rt130_decode h rv dsz (filter (\<lambda>b. rd_type130 h b = DT \<and> RT130CHANNELNUM b = chn) bs) x' = Some (ds', m')"
      and ds: "ds = d @ ds'" "m = n + m'"
      using Cons.prems(2) True by (auto split: option.splits)
    have l: "length d = n * dsz" using payload_length [OF p assms(1)] .
    show ?thesis
    proof (cases "length d \<le> length room")
      case False
      then have "rt130_data_step h rv dsz chn b (Some (Inr (pre @ room, k, x))) = None"
        using True p Cons.prems(1) by (simp add: rt130_data_step_def put_at_def)
      moreover have "length ds' = m' * dsz"
        using Cons.IH [of "pre @ d" "k + n" x' ds' m' "[]"] Cons.prems(1) l r by (simp add: add_mult_distrib)
      ultimately show ?thesis
        using False l by (simp add: data_fold_None ds add_mult_distrib)
    next
      case fits: True
      then have "rt130_data_step h rv dsz chn b (Some (Inr (pre @ room, k, x)))
          = Some (Inr ((pre @ d) @ drop (length d) room, k + n, x'))"
        using True p Cons.prems(1) by (simp add: rt130_data_step_def put_at_def)
      moreover have "length (pre @ d) = (k + n) * dsz" using Cons.prems(1) l by (simp add: add_mult_distrib)
      note ih = Cons.IH [OF this r, of "drop (length d) room"]
      ultimately show ?thesis
        using fits l by (auto simp: ds add_mult_distrib add.commute split: option.splits sum.splits prod.splits)
    qed
  qed
qed simp

lemma get_rt130_data_decode:
  assumes "dsz = dataSize (head t)" and "0 < dsz" and "dsz \<le> 4"
    and "rt130_decode h rv dsz
           (filter (\<lambda>b. rd_type130 h b = DT \<and> RT130CHANNELNUM b = HDRCHANNELNUM (channel (head t)))
              (blocks RT130_PKT_SIZE buf fp)) INT_MIN = Some (ds, m)"
    and "N = nat (numSamples (dataInfo t))"
  shows "length ds = m * dsz \<and> get_rt130_data h rv buf (Some fp) t =
    (if m \<le> N then Some (PQLXSUCCESS, finish_data m (ds @ replicate ((N - m) * dsz) 0) t) else None)"
proof -
  let ?r = "fold (rt130_data_step h rv dsz (HDRCHANNELNUM (channel (head t)))) (blocks RT130_PKT_SIZE buf fp)
      (Some (Inr (replicate (N * dsz) 0, 0, INT_MIN)))"
  note f = data_fold [OF assms(3,2), of "[]" 0, OF _ assms(4), of "replicate (N * dsz) 0", simplified]
  have d: "(N - m) * dsz = N * dsz - m * dsz" by (simp add: diff_mult_distrib)
  show ?thesis
    using f assms(2) unfolding get_rt130_data_def
    by (auto simp: assms(1) [symmetric] assms(5) [symmetric] d Let_def split: option.splits sum.splits prod.splits)
qed


lemma decode_plain:
  "\<forall>b\<in>set bs. RT130DATAFORM b \<in> {0x32, 0x16} \<and> RT130_HEADER_SIZE + dsz * nat (RT130NUMSAMPS b) \<le> length b \<Longrightarrow>
   rt130_decode h rv dsz bs x =
     Some (concat (map (\<lambda>b. take (dsz * nat (RT130NUMSAMPS b)) (drop RT130_HEADER_SIZE b)) bs),
           sum_list (map (\<lambda>b. nat (RT130NUMSAMPS b)) bs))"
  by (induction bs) (auto simp: rt130_payload_def Let_def)

lemma nat_sum_list: "\<forall>b\<in>set bs. 0 \<le> f b \<Longrightarrow> sum_list (map (\<lambda>b. nat (f b)) bs) = nat (sum_list (map f bs))"
proof (induction bs)
  case (Cons b bs)
  then have "0 \<le> sum_list (map f bs)" by (intro sum_list_nonneg) auto
  with Cons show ?case by (simp add: nat_add_distrib)
qed simp

text \<open>
  C26: reading back uncompressed data. On a file of whole packets, for a trace of \<^verbatim>\<open>get_rt130_hedr\<close> whose
  packets are all of the 16-bit or the 32-bit format and hold what they count, \<^verbatim>\<open>get_rt130_data\<close> fills the
  array exactly with the sample bytes of the packets, in the order of the file.
\<close>

theorem rt130_plain_exact:
  assumes "RT130_PKT_SIZE dvd length fp" and "length buf = RT130_PKT_SIZE" and "length buf' = RT130_PKT_SIZE"
    and "get_rt130_hedr h buf fp fn = Some traces" and "t \<in> set traces" and "dsz = dataSize (head t)"
    and "bs = filter (\<lambda>b. RT130CHANNELNUM b = HDRCHANNELNUM (channel (head t))) (dt_packets h buf fp)"
    and "\<forall>b\<in>set bs. RT130DATAFORM b \<in> {0x32, 0x16} \<and> RT130_HEADER_SIZE + dsz * nat (RT130NUMSAMPS b) \<le> RT130_PKT_SIZE"
  shows "get_rt130_data h rv buf' (Some fp) t =
    Some (PQLXSUCCESS, finish_data (nat (numSamples (dataInfo t)))
      (concat (map (\<lambda>b. take (dsz * nat (RT130NUMSAMPS b)) (drop RT130_HEADER_SIZE b)) bs)) t)"
proof -
  obtain s e c where s: "rt130_scan h buf fp fn = Some s" and c: "c \<in> set (channels s)" and t: "t = make_rt130_trace e c"
    using get_rt130_hedr_traces [OF assms(4,5)] by metis
  note num = chan_trace_num [OF s c assms(2), of e]
  obtain q qs where q: "bs = q # qs" and cf: "c_data_form c = RT130DATAFORM q"
      and n: "c_numSamps c = sum_list (map RT130NUMSAMPS bs)"
    using rt130_scan_spec(2) [OF s] c unfolding assms(7) t num by (force simp: cinfo_def)
  have len: "\<forall>b\<in>set bs. length b = RT130_PKT_SIZE"
    using blocks_length [OF assms(2)] by (auto simp: assms(7) dt_packets_def)
  have "RT130DATAFORM q \<in> {0x32, 0x16}" using assms(8) q by simp
  then have dsz: "0 < dsz" "dsz \<le> 4" unfolding assms(6) t dataSize_make cf by auto
  have bs: "filter (\<lambda>b. rd_type130 h b = DT \<and> RT130CHANNELNUM b = HDRCHANNELNUM (channel (head t)))
      (blocks RT130_PKT_SIZE buf' fp) = bs"
    using assms(1-3) by (simp add: blocks_aligned assms(7) dt_packets_def conj_commute)
  have "sum_list (map (\<lambda>b. nat (RT130NUMSAMPS b)) bs) = nat (sum_list (map RT130NUMSAMPS bs))"
    using len stream_channel_bounds(5) by (intro nat_sum_list) (auto simp: RT130_PKT_SIZE_def)
  also have "\<dots> = nat (numSamples (dataInfo t))" by (simp add: t numSamples_make130 n)
  finally have sum: "sum_list (map (\<lambda>b. nat (RT130NUMSAMPS b)) bs) = nat (numSamples (dataInfo t))" .
  have "rt130_decode h rv dsz bs INT_MIN =
      Some (concat (map (\<lambda>b. take (dsz * nat (RT130NUMSAMPS b)) (drop RT130_HEADER_SIZE b)) bs),
            nat (numSamples (dataInfo t)))"
    using decode_plain [of bs dsz] assms(8) len unfolding sum by simp
  then have dec: "rt130_decode h rv dsz
      (filter (\<lambda>b. rd_type130 h b = DT \<and> RT130CHANNELNUM b = HDRCHANNELNUM (channel (head t)))
         (blocks RT130_PKT_SIZE buf' fp)) INT_MIN =
      Some (concat (map (\<lambda>b. take (dsz * nat (RT130NUMSAMPS b)) (drop RT130_HEADER_SIZE b)) bs),
            nat (numSamples (dataInfo t)))" unfolding bs .
  show ?thesis using get_rt130_data_decode [OF assms(6) dsz dec refl] by simp
qed

text \<open>An event header and a packet with one 32-bit sample, for the witnesses.\<close>

definition demo_eh :: "byte list" where
  "demo_eh = [0x45, 0x48] @ replicate 1022 0"

definition demo_dt :: "byte list" where
  "demo_dt = ([0x44, 0x54] @ replicate 16 0) @ [0, 0, 0, 1, 0, 0x32, 1, 2, 3, 4] @ replicate 996 0"

lemma demo130_length: "length demo_eh = 1024" "length demo_dt = 1024"
  by (simp_all add: demo_eh_def demo_dt_def)

lemma demo130_types: "rd_type130 h demo_eh = EH" "rd_type130 h demo_dt = DT"
  by (simp_all add: rd_type130_def demo_eh_def demo_dt_def ConvertRefType_be rt130_types)

lemma demo130_fields:
  "RT130DATAFORM demo_dt = 0x32" "RT130CHANNELNUM demo_dt = 1" "RT130STREAMNM demo_dt = 1"
  "RT130CHANNELNM demo_dt = 1" "RT130NUMSAMPS demo_dt = 1"
  by (simp_all add: RT130DATAFORM_def RT130CHANNELNUM_def RT130STREAMNM_def RT130CHANNELNM_def RT130NUMSAMPS_def
      demo_dt_def sbcdhx_one sbcdhx_two nth_append)

lemma demo130_blocks:
  "blocks RT130_PKT_SIZE (replicate 1024 0) (demo_eh @ demo_dt) = [demo_eh, demo_dt]"
  by (simp add: RT130_PKT_SIZE_def blocks_aligned chunks_def demo130_length numeral_2_eq_2)

lemma demo130_gains: "eh_gains demo_eh = Some None"
proof -
  have "\<not> isspace 0" "\<not> isdigit 0" by (simp_all add: isspace_def isdigit_def)
  then have "atoi (replicate n 0) = 0" for n
    by (cases n) (simp_all add: atoi_def dec_value_def LONG_MAX_def to_int32_def)
  then show ?thesis by (simp add: eh_gains_def demo_eh_def)
qed

lemma demo130_hedr:
  "get_rt130_hedr h (replicate 1024 0) (demo_eh @ demo_dt) fn =
     Some [make_rt130_trace (eh_info fn demo_eh) (chan_add demo_dt (chan_new fn demo_dt 0))]"
  by (simp add: get_rt130_hedr_def rt130_scan_def demo130_blocks rt130_hedr_step_def demo130_types
      EH_not_DT demo130_gains chan_gain_def)

theorem rt130_hedr_traces_witness:
  "\<exists>traces. get_rt130_hedr BigHost (replicate 1024 0) (demo_eh @ demo_dt) [] = Some traces
     \<and> distinct (map (\<lambda>t. HDRCHANNELNUM (channel (head t))) traces)"
  using rt130_hedr_traces [OF demo130_hedr, where h = BigHost and fn = "[]"] demo130_hedr [of BigHost "[]"]
  by (auto simp: RT130_PKT_SIZE_def)

theorem rt130_plain_exact_witness:
  "\<exists>t. get_rt130_data LittleHost True (replicate 1024 0) (Some (demo_eh @ demo_dt)) t =
     Some (PQLXSUCCESS, finish_data 1 [1, 2, 3, 4] t)"
proof -
  let ?t = "make_rt130_trace (eh_info [] demo_eh) (chan_add demo_dt (chan_new [] demo_dt 0))"
  have t: "dataSize (head ?t) = 4" "numSamples (dataInfo ?t) = 1"
    "HDRCHANNELNUM (channel (head ?t)) = RT130CHANNELNUM demo_dt"
    by (simp_all add: dataSize_make numSamples_make130 channel_make chan_add_def chan_new_def demo130_fields
        HDRCHANNELNUM_print)
  have bs: "filter (\<lambda>b. RT130CHANNELNUM b = HDRCHANNELNUM (channel (head ?t)))
      (dt_packets LittleHost (replicate 1024 0) (demo_eh @ demo_dt)) = [demo_dt]"
    by (simp add: dt_packets_def demo130_blocks demo130_types EH_not_DT t(3))
  have "take 4 (drop 24 demo_dt) = [1, 2, 3, 4]" by (simp add: demo_dt_def)
  then have "get_rt130_data LittleHost True (replicate 1024 0) (Some (demo_eh @ demo_dt)) ?t =
     Some (PQLXSUCCESS, finish_data 1 [1, 2, 3, 4] ?t)"
    using rt130_plain_exact [OF _ _ _ demo130_hedr _ refl bs [symmetric], where buf' = "replicate 1024 0" and rv = True]
    by (simp add: RT130_PKT_SIZE_def demo130_length demo130_fields t RT130_HEADER_SIZE_def)
  then show ?thesis by blast
qed


section \<open>Identification\<close>

text \<open>
  A file is taken for RT-130 data exactly if its first packet is an event header with one of the four
  known formats; otherwise \<^verbatim>\<open>IDrt130\<close> returns no trace.
\<close>

theorem IDrt130_accepts:
  assumes "fp \<noteq> []" and "length buf = RT130_PKT_SIZE"
    and "b = take RT130_PKT_SIZE fp @ drop (length (take RT130_PKT_SIZE fp)) buf"
  shows "snd (IDrt130 h buf buf' fp fn) =
    (if uint (b ! 0) * 256 + uint (b ! 1) = 0x4548 \<and> b ! 23 \<in> {0x16, 0x32, 0xc0, 0xc2}
     then get_rt130_hedr h buf' fp fn else Some [])"
proof -
  have "length b = 1024" using assms(2,3) by (simp add: RT130_PKT_SIZE_def min_def)
  then obtain a0 a1 r where "b = a0 # a1 # r" by (cases b; cases "tl b") auto
  then have c: "ConvertRefType h b = uint (b ! 0) * 256 + uint (b ! 1)" by (simp add: ConvertRefType_be)
  have e: "rd_type130 h b = EH \<longleftrightarrow> uint (b ! 0) * 256 + uint (b ! 1) = 0x4548"
    unfolding rd_type130_def c Let_def rt130_types by (auto split: if_splits)
  have "\<exists>r. blocks RT130_PKT_SIZE buf fp = b # r"
    using assms(1,3) by (subst blocks.simps) (simp add: Let_def RT130_PKT_SIZE_def)
  then show ?thesis
    by (auto simp: IDrt130_def rt130_check_def e RT130DATAFORM_def)
qed

theorem IDrt130_accepts_witness:
  "snd (IDrt130 BigHost (replicate 1024 0) [] (demo_eh @ demo_dt) []) = Some []"
proof -
  have "demo_eh ! 23 = 0" by (simp add: demo_eh_def)
  then show ?thesis
    using IDrt130_accepts [OF _ _ refl, of "demo_eh @ demo_dt" "replicate 1024 0" BigHost "[]" "[]"]
    by (simp add: RT130_PKT_SIZE_def demo130_length) (simp add: demo_eh_def)
qed

text \<open>
  the channel number is not a key of streams and channels: the fourth channel of a stream has the
  number of the first channel of the next one, so that a file holding both merges them into one trace.
\<close>

theorem rt130_channel_collision:
  assumes "sbcdhx (drop 18 b) 2 = s" and "sbcdhx (drop 19 b) 2 = c + 3"
    and "sbcdhx (drop 18 b') 2 = s + 1" and "sbcdhx (drop 19 b') 2 = c"
  shows "RT130CHANNELNUM b = RT130CHANNELNUM b' \<and> RT130STREAMNM b \<noteq> RT130STREAMNM b'"
  using assms by (simp add: RT130CHANNELNUM_def RT130STREAMNM_def)

theorem rt130_channel_collision_witness:
  "RT130CHANNELNUM (replicate 18 0 @ [0x00, 0x03, 0, 0]) = RT130CHANNELNUM (replicate 18 0 @ [0x01, 0x00, 0, 0])
   \<and> RT130STREAMNM (replicate 18 0 @ [0x00, 0x03, 0, 0]) \<noteq> RT130STREAMNM (replicate 18 0 @ [0x01, 0x00, 0, 0])"
  by (rule rt130_channel_collision [where s = 0 and c = 0]) (simp_all add: sbcdhx_one)

section \<open>Reading back state of health messages\<close>

text \<open>A message as it stands in the packet: DDD:HH:MM:SS, a space, the text, CR LF.\<close>

definition soh130_bytes :: "SOHMSG \<Rightarrow> byte list" where
  "soh130_bytes m =
     show_pad 3 (s_jday m) @ [58] @ show_pad 2 (s_hour m) @ [58] @ show_pad 2 (s_minute m) @ [58]
     @ show_pad 2 (s_second m) @ [32] @ s_msg m @ [13, 10]"

definition soh130_ok :: "SOHMSG \<Rightarrow> bool" where
  "soh130_ok m \<longleftrightarrow> s_year m = 0 \<and> 1 \<le> s_jday m \<and> s_jday m \<le> 366
     \<and> 0 \<le> s_hour m \<and> s_hour m < 24 \<and> 0 \<le> s_minute m \<and> s_minute m < 60 \<and> 0 \<le> s_second m \<and> s_second m < 60
     \<and> 0 \<notin> set (s_msg m) \<and> 13 \<notin> set (s_msg m)"

lemma soh130_fields:
  assumes "soh130_ok m" and "b = pre @ soh130_bytes m @ rest" and "p = length pre"
  shows "atoi (drop p b) = s_jday m" "atoi (drop (p + 4) b) = s_hour m" "atoi (drop (p + 7) b) = s_minute m"
    "atoi (drop (p + 10) b) = s_second m" "drop (p + 13) b = s_msg m @ 13 # 10 # rest" "p + 13 \<le> length b"
proof -
  have ok: "0 \<le> s_jday m" "s_jday m < 1000" "0 \<le> s_hour m" "s_hour m < 100" "0 \<le> s_minute m" "s_minute m < 100"
      "0 \<le> s_second m" "s_second m < 100"
    using assms(1) by (auto simp: soh130_ok_def)
  have c: "\<not> isdigit 58" "\<not> isdigit 32" by (simp_all add: isdigit_def)
  have l: "length (show_pad 3 (s_jday m)) = 3" "length (show_pad 2 (s_hour m)) = 2"
      "length (show_pad 2 (s_minute m)) = 2" "length (show_pad 2 (s_second m)) = 2"
    using ok by (simp_all add: show_pad_props)
  show "atoi (drop p b) = s_jday m" "atoi (drop (p + 4) b) = s_hour m" "atoi (drop (p + 7) b) = s_minute m"
    "atoi (drop (p + 10) b) = s_second m" "drop (p + 13) b = s_msg m @ 13 # 10 # rest" "p + 13 \<le> length b"
    using ok c l by (simp_all add: assms(2,3) soh130_bytes_def atoi_show_pad)
qed

text \<open>
  the state of health messages of an RT-130 packet are read back: a packet that holds messages in
  the recorder's format, filled up with at least fourteen zero bytes or not at all, gives exactly
  these messages. (With one to thirteen bytes left the reader looks past the end of the packet.)
\<close>

theorem soh130_read_back:
  assumes "\<forall>m\<in>set ms. soh130_ok m" and "b = pre @ concat (map soh130_bytes ms) @ replicate k 0"
    and "length b = RT130_PKT_SIZE" and "14 \<le> k \<or> k = 0"
  shows "soh130_msgs b (length pre) = Some ms"
  using assms(1,2)
proof (induction ms arbitrary: pre)
  case Nil
  show ?case
  proof (cases "k = 0")
    case True
    then show ?thesis using Nil assms(3) by (subst soh130_msgs.simps) simp
  next
    case False
    then have "14 \<le> k" using assms(4) by simp
    then obtain i where "k = 14 + i" using le_iff_add by blast
    then obtain j where k: "k = Suc j + 13" by auto
    then have "length pre + 13 \<le> length b" "drop (length pre + 13) b = 0 # replicate j 0"
      using Nil by (simp_all add: drop_replicate)
    then show ?thesis using Nil assms(3) k by (subst soh130_msgs.simps) simp
  qed
next
  case (Cons m ms)
  let ?r = "concat (map soh130_bytes ms) @ replicate k 0"
  have ok: "soh130_ok m" "0 \<notin> set (s_msg m)" "13 \<notin> set (s_msg m)" "s_year m = 0"
    using Cons.prems by (auto simp: soh130_ok_def)
  have b: "b = pre @ soh130_bytes m @ ?r" "b = (pre @ soh130_bytes m) @ ?r" using Cons.prems(2) by simp_all
  note f = soh130_fields [OF ok(1) b(1) refl]
  have s: "strstr_crlf (drop (length pre + 13) b) = Some (Some (length (s_msg m)))"
    unfolding f(5) by (rule strstr_crlf_found [OF ok(2,3)])
  have jd: "0 \<le> s_jday m" "s_jday m < 1000" "0 \<le> s_hour m" "s_hour m < 100" "0 \<le> s_minute m" "s_minute m < 100"
      "0 \<le> s_second m" "s_second m < 100"
    using ok(1) by (auto simp: soh130_ok_def)
  have e: "length pre + 13 + length (s_msg m) + 2 = length (pre @ soh130_bytes m)"
    using jd by (simp add: soh130_bytes_def show_pad_props)
  have "soh130_msgs b (length pre + 13 + length (s_msg m) + 2) = Some ms"
    unfolding e using Cons.IH [OF _ b(2)] Cons.prems(1) by simp
  moreover have "take (length (s_msg m)) (drop (length pre + 13) b) = s_msg m" unfolding f(5) by simp
  moreover have "length pre < RT130_PKT_SIZE" using f(6) assms(3) by simp
  ultimately show ?case
    using f(6) s ok(4) by (subst soh130_msgs.simps) (simp add: f(1-4))
qed

theorem soh130_read_back_witness:
  "soh130_msgs (replicate 24 0
       @ soh130_bytes \<lparr>s_year = 0, s_jday = 123, s_hour = 4, s_minute = 5, s_second = 6, s_msg = [65, 66]\<rparr>
       @ replicate 983 0) 24
   = Some [\<lparr>s_year = 0, s_jday = 123, s_hour = 4, s_minute = 5, s_second = 6, s_msg = [65, 66]\<rparr>]"
  using soh130_read_back [OF _ refl,
      of "[\<lparr>s_year = 0, s_jday = 123, s_hour = 4, s_minute = 5, s_second = 6, s_msg = [65, 66]\<rparr>]" "replicate 24 0" 983]
  by (simp add: soh130_ok_def RT130_PKT_SIZE_def soh130_bytes_def show_pad_props)

end
