(* ===== verification/Entry.thy ===== *)
theory Entry
  imports MseedData Sac Segy RT125A RT130
begin

text \<open>
  The entry points of the data library, \<^verbatim>\<open>utils/data/data_entry.c\<close>: what kind of file a file is and which traces it
  holds (\<^verbatim>\<open>identifyTrace\<close>, \<^verbatim>\<open>checkTrace\<close>), the samples of a trace (\<^verbatim>\<open>readTrace\<close>) and the state of health of an
  instrument (\<^verbatim>\<open>readInstSOH\<close>). The readers of the other theories are put together here. Samples are
  real numbers, whatever the reader keeps them as.

  Parameters are the file system, libmseed, and the readers of the AH, Nanometrics, DR100 and CWB
  formats. \<open>None\<close> is undefined behaviour of a reader. The properties say which reader a file is given to,
  that a trace that was identified is read by the reader that identified it, and what the guards return.
\<close>

section \<open>The surroundings\<close>

record 'g env =
  e_host :: host
  e_open :: "cstr \<Rightarrow> byte list option"
  e_dir :: "cstr \<Rightarrow> cstr list option"
  e_lib :: "(real, 'g) mslib"
  e_avail :: int
  e_stack :: "nat \<Rightarrow> byte list"
  e_beyond :: "byte list"
  e_rev :: bool
  get_ah_hedr :: "real traceInfo \<Rightarrow> status \<times> real traceInfo"
  get_nano_hedr :: "real traceInfo \<Rightarrow> status \<times> real traceInfo"
  check_dr100 :: "real traceInfo \<Rightarrow> status \<times> real traceInfo"
  IDah :: "cstr \<Rightarrow> real traceInfo list"
  IDnano :: "cstr \<Rightarrow> real traceInfo list"
  IDdr100 :: "cstr \<Rightarrow> real traceInfo list"
  get_ah_data :: "real traceInfo \<Rightarrow> status \<times> real traceInfo"
  get_nano_data :: "real traceInfo \<Rightarrow> status \<times> real traceInfo"
  get_dr100_data :: "real traceInfo \<Rightarrow> status \<times> real traceInfo"
  get_cwb_data :: "real traceInfo \<Rightarrow> status \<times> real traceInfo"

text \<open>
  The fields of \<open>env\<close>: the bytes of a file that can be opened; the entries of a directory in the order of
  \<^verbatim>\<open>readdir\<close>; libmseed and the largest block the allocator gives; the contents of an uninitialised buffer of \<open>n\<close>
  bytes and the memory behind a header; the static variable \<^verbatim>\<open>rev\<close> of the RT130 reader.

  Samples of other types: a trace without samples, and the values of samples as the readers keep them.
\<close>

definition retype :: "'a traceInfo \<Rightarrow> 'b traceInfo" where
  "retype t =
     \<lparr>fileName = fileName t, fileType = fileType t, head = head t,
      dataInfo = \<lparr>d_data = None, numSamples = numSamples (dataInfo t), d_form = d_form (dataInfo t),
                  d_sampInt = d_sampInt (dataInfo t), secsPsamp = secsPsamp (dataInfo t)\<rparr>,
      numGaps = numGaps t, numOlaps = numOlaps t, gaps = gaps t, overlaps = overlaps t, olapData = [],
      excerptS = excerptS t, excerptLen = excerptLen t, blkSize = blkSize t, mpackets = mpackets t\<rparr>"

definition with_values :: "('a list \<Rightarrow> real list option) \<Rightarrow> 'a traceInfo \<Rightarrow> real traceInfo option" where
  "with_values f t =
     (case d_data (dataInfo t) of None \<Rightarrow> Some (retype t)
      | Some xs \<Rightarrow> map_option (\<lambda>ys. (retype t)\<lparr>dataInfo := (dataInfo (retype t))\<lparr>d_data := Some ys\<rparr>\<rparr>) (f xs))"

definition int_values :: "int list \<Rightarrow> real list option" where
  "int_values xs = Some (map real_of_int xs)"

definition i32_values :: "i32 list \<Rightarrow> real list option" where
  "i32_values ws = Some (map (\<lambda>w. real_of_int (sint w)) ws)"

text \<open>Floating-point samples that are all finite numbers.\<close>

definition f32_values :: "i32 list \<Rightarrow> real list option" where
  "f32_values ws = (if None \<in> set (map f32_val ws) then None else Some (map (\<lambda>w. the (f32_val w)) ws))"

text \<open>Samples in memory, two or four bytes each.\<close>

definition mem_values :: "host \<Rightarrow> nat \<Rightarrow> byte list \<Rightarrow> real list option" where
  "mem_values h dsz bs =
     (if dsz = 4 then Some (map (\<lambda>k. real_of_int (sint (load h (take 4 (drop (4 * k) bs)) :: i32))) [0..<length bs div 4])
      else if dsz = 2 then Some (map (\<lambda>k. real_of_int (sint (load h (take 2 (drop (2 * k) bs)) :: u16))) [0..<length bs div 2])
      else None)"

section \<open>Which reader\<close>

text \<open>
  \<^verbatim>\<open>checkTrace\<close>: the readers are tried on the same trace, one after the other, and may change it even when
  they fail.
\<close>

definition lift_check :: "('a traceInfo \<Rightarrow> (status \<times> 'a traceInfo) option) \<Rightarrow> real traceInfo \<Rightarrow> (status \<times> real traceInfo) option" where
  "lift_check f trace = map_option (\<lambda>(ret, t). (ret, retype t)) (f (retype trace))"

fun try_checks :: "(real traceInfo \<Rightarrow> (status \<times> real traceInfo) option) list \<Rightarrow> real traceInfo \<Rightarrow> (status \<times> real traceInfo) option" where
  "try_checks [] trace = Some (FAILURE, trace)"
| "try_checks (f # fs) trace =
     (case f trace of None \<Rightarrow> None
      | Some (ret, t) \<Rightarrow> if ret \<noteq> FAILURE then Some (PQLXSUCCESS, t) else try_checks fs t)"

definition checkTrace :: "'g env \<Rightarrow> real traceInfo \<Rightarrow> (status \<times> real traceInfo) option" where
  "checkTrace env trace =
     (case e_open env (fileName trace) of None \<Rightarrow> Some (FILE_DNE, trace)
      | Some file \<Rightarrow>
          try_checks
            [\<lambda>t. Some (check_mseed (readmsr (e_lib env)) t),
             lift_check (check_sac (e_host env) (e_beyond env) file :: i32 traceInfo \<Rightarrow> _),
             lift_check (check_segy (e_host env) file :: int traceInfo \<Rightarrow> _),
             \<lambda>t. Some (get_ah_hedr env t), \<lambda>t. Some (get_nano_hedr env t), \<lambda>t. Some (check_dr100 env t)] trace)"

text \<open>\<^verbatim>\<open>identifyTrace\<close> returns a list, or a status cast to a list.\<close>

datatype ident = ID_STATUS status | ID_TRACES "real traceInfo list"

fun first_found :: "'t list option list \<Rightarrow> 't list option" where
  "first_found [] = Some []"
| "first_found (r # rs) = (case r of None \<Rightarrow> None | Some [] \<Rightarrow> first_found rs | Some (t # ts) \<Rightarrow> Some (t # ts))"

definition other_readers :: "'g env \<Rightarrow> byte list \<Rightarrow> cstr \<Rightarrow> real traceInfo list option list" where
  "other_readers env file fn =
     (let h = e_host env; b = e_stack env in
      [map_option (map retype) (IDsac h (e_beyond env) file fn :: i32 traceInfo list option),
       map_option (map retype) (IDsegy h file fn :: int traceInfo list option),
       Some (IDah env fn), Some (IDnano env fn), Some (IDdr100 env fn),
       map_option (map retype) (snd (IDrt130 h (b RT130_PKT_SIZE) (b RT130_PKT_SIZE) file fn)),
       map_option (map retype) (IDrt125A (b RT125A_PKT_SIZE) (b RT125A_PKT_SIZE) file fn),
       Some (map retype (IDrt125 (b RT125_PKT_SIZE) (b RT125_PKT_SIZE) file fn))])"

definition identifyTrace :: "'g env \<Rightarrow> cstr \<Rightarrow> mplx_mseed option \<Rightarrow> mseed_state \<Rightarrow> (ident \<times> mseed_state) option" where
  "identifyTrace env fn chnOptions st =
     (case e_open env fn of None \<Rightarrow> Some (ID_STATUS FILE_DNE, st)
      | Some file \<Rightarrow>
          (let ((found, traces), st) = IDmseed (readmsr (e_lib env)) fn chnOptions st
           in if found then Some (if traces = [] then ID_STATUS NO_CHANS else ID_TRACES traces, st)
              else map_option (\<lambda>traces. (ID_TRACES traces, st)) (first_found (other_readers env file fn))))"

section \<open>Reading a trace\<close>

definition FILETOOLARGE :: nat where "FILETOOLARGE = 120 * 1024 * 1024"

definition lift_data ::
  "('a traceInfo \<Rightarrow> (status \<times> 'a traceInfo) option) \<Rightarrow> ('a list \<Rightarrow> real list option) \<Rightarrow> real traceInfo \<Rightarrow> (status \<times> real traceInfo) option"
where
  "lift_data f vals trace =
     (case f (retype trace) of None \<Rightarrow> None
      | Some (ret, t) \<Rightarrow> map_option (\<lambda>r. (ret, r)) (with_values vals t))"

definition read_mseed :: "'g env \<Rightarrow> real traceInfo \<Rightarrow> (status \<times> real traceInfo) option" where
  "read_mseed env trace =
     (case get_mseed_data (e_lib env) (e_avail env) trace of
        None \<Rightarrow> None | Some (Inl e) \<Rightarrow> Some (e, trace) | Some (Inr t) \<Rightarrow> Some (PQLXSUCCESS, t))"

text \<open>The switch over the type of the file.\<close>

definition read_samples :: "'g env \<Rightarrow> real traceInfo \<Rightarrow> (status \<times> real traceInfo) option" where
  "read_samples env trace =
     (let h = e_host env; b = e_stack env; fp = e_open env (fileName trace); file = (case fp of None \<Rightarrow> [] | Some bs \<Rightarrow> bs)
      in case fileType trace of
           SEGY_DATA \<Rightarrow> lift_data (\<lambda>t. Some (get_segy_data h file t)) int_values trace
         | DR100_DATA \<Rightarrow> Some (get_dr100_data env trace)
         | AH_DATA \<Rightarrow> Some (get_ah_data env trace)
         | NANO_DATA \<Rightarrow> Some (get_nano_data env trace)
         | SAC_DATA \<Rightarrow> lift_data (get_sac_data h file) f32_values trace
         | MSEED_DATA \<Rightarrow> read_mseed env trace
         | MSEED_MPLEX_DATA \<Rightarrow> read_mseed env trace
         | RT130_DATA \<Rightarrow> lift_data (get_rt130_data h (e_rev env) (b RT130_PKT_SIZE) fp) (mem_values h (dataSize (head trace))) trace
         | RT125A_DATA \<Rightarrow> lift_data (get_rt125A_data (b RT125A_PKT_SIZE) fp) i32_values trace
         | RT125_DATA \<Rightarrow> lift_data (get_rt125_data (b RT125_PKT_SIZE) fp) i32_values trace
         | CWB_DATA \<Rightarrow> Some (get_cwb_data env trace))"

definition excerpt_wanted :: "'d traceInfo \<Rightarrow> bool" where
  "excerpt_wanted t \<longleftrightarrow> excerptS t \<noteq> 0 \<and> excerptLen t \<noteq> 0 \<and> fileType t \<noteq> CWB_DATA"

text \<open>For data of a server no file is looked at; the size that the code compares then is that of an uninitialised
  structure, taken to be small here.\<close>

definition readTrace :: "'g env \<Rightarrow> real traceInfo \<Rightarrow> (status \<times> real traceInfo) option" where
  "readTrace env trace =
     (if d_data (dataInfo trace) \<noteq> None then Some (PQLXSUCCESS, trace)
      else if fileType trace \<noteq> CWB_DATA \<and> e_open env (fileName trace) = None then Some (FILE_DNE, trace)
      else if fileType trace \<noteq> CWB_DATA \<and> FILETOOLARGE < length (the (e_open env (fileName trace))) then Some (FILE_TOO_LARGE, trace)
      else do {
        (ret, trace) \<leftarrow> (if year (head trace) = 0 \<and> fileType trace \<noteq> CWB_DATA then checkTrace env trace else Some (PQLXSUCCESS, trace));
        if ret = FAILURE then Some (FAILURE, trace)
        else do {
          (ret, trace) \<leftarrow> read_samples env trace;
          if ret = PQLXSUCCESS \<and> excerpt_wanted trace
          then map_option (\<lambda>(t, amps). (ret, t)) (trace_excerpt True trace trace)
          else Some (ret, trace) } })"

section \<open>State of health\<close>

text \<open>
  \<^verbatim>\<open>getSOHFile\<close>: an entry that can be opened as a directory is not a file. The loop goes on after a file, and
  an entry that is a directory clears the result.
\<close>

definition soh_entry :: "'g env \<Rightarrow> cstr \<Rightarrow> cstr \<Rightarrow> cstr option \<Rightarrow> cstr option" where
  "soh_entry env sohDir d_name sohFile =
     (if d_name = lit ''.'' \<or> d_name = lit ''..'' then sohFile
      else (let f = sohDir @ lit ''/'' @ d_name in if e_dir env f \<noteq> None then None else Some f))"

definition getSOHFile :: "'g env \<Rightarrow> cstr \<Rightarrow> cstr option" where
  "getSOHFile env sohDir =
     (case e_dir env sohDir of None \<Rightarrow> None | Some names \<Rightarrow> fold (soh_entry env sohDir) names None)"

text \<open>
  \<^verbatim>\<open>readInstSOH\<close>: the messages or a status, the file name, which is cut for an RT130 one character before its
  last slash, and the sequence number of the RT130 reader. Another type of file closes a null pointer.
\<close>

definition soh_dir :: "cstr \<Rightarrow> cstr option" where
  "soh_dir fn =
     (if 47 \<in> set fn
      then (let n = length fn - Suc (length (takeWhile (\<lambda>c. c \<noteq> 47) (rev fn))) in if n = 0 then None else Some (take (n - 1) fn))
      else Some fn)"

definition readInstSOH ::
  "'g env \<Rightarrow> cstr \<Rightarrow> ftype \<Rightarrow> int \<Rightarrow> ((status + SOHINFO list) \<times> cstr \<times> int) option" where
  "readInstSOH env fn ft seqNum =
     (let b = e_stack env
      in case ft of
           RT125_DATA \<Rightarrow>
             (case e_open env fn of None \<Rightarrow> Some (Inl FILE_DNE, fn, seqNum)
              | Some file \<Rightarrow> map_option (\<lambda>l. (Inr l, fn, seqNum)) (get_rt125_SOH (b RT125_PKT_SIZE) file))
         | RT125A_DATA \<Rightarrow>
             (case e_open env fn of None \<Rightarrow> Some (Inl FILE_DNE, fn, seqNum)
              | Some file \<Rightarrow> map_option (\<lambda>l. (Inr l, fn, seqNum)) (get_rt125A_SOH (b RT125A_PKT_SIZE) file))
         | RT130_DATA \<Rightarrow>
             (case soh_dir fn of None \<Rightarrow> None
              | Some dir \<Rightarrow>
                  (case Option.bind (getSOHFile env (dir @ lit ''0'')) (e_open env) of
                     None \<Rightarrow> Some (Inl FILE_DNE, dir, seqNum)
                   | Some file \<Rightarrow> map_option (\<lambda>(l, q). (Inr l, dir, q)) (get_rt130_SOH (e_host env) (b RT130_PKT_SIZE) file seqNum)))
         | _ \<Rightarrow> None)"

section \<open>Traces that are identified\<close>

text \<open>The traces of a file agree: one type, the name of the file, and no samples yet.\<close>

definition fresh_traces :: "cstr \<Rightarrow> ftype \<Rightarrow> real traceInfo list \<Rightarrow> bool" where
  "fresh_traces fn ft ts \<longleftrightarrow> (\<forall>t\<in>set ts. fileType t = ft \<and> fileName t = fn \<and> d_data (dataInfo t) = None)"

text \<open>
  What the entry points rely on: a reader identifies a file with traces of its own type, under the name
  of the file and without samples.
\<close>

locale trace_identifier =
  fixes ident :: "byte list \<Rightarrow> cstr \<Rightarrow> 'd traceInfo list option" and ft :: ftype
  assumes identified:
    "ident file fn = Some ts \<Longrightarrow> t \<in> set ts \<Longrightarrow> fileType t = ft \<and> fileName t = fn \<and> d_data (dataInfo t) = None"
begin

lemma retyped: "map_option (map retype) (ident f fn) = Some ts \<Longrightarrow> fresh_traces fn ft ts"
  using identified by (auto simp: retype_def fresh_traces_def)

end

lemma segy_trace_keeps:
  assumes "segy_trace h mem t = Some (ret, r)"
  shows "fileType r = fileType t \<and> fileName r = fileName t \<and> d_data (dataInfo r) = d_data (dataInfo t)"
  using assms
  by (cases "f32_val (load h (take 4 (drop 220 mem)))"; cases "10 \<le> length (show_int (long_at h mem 12))")
    (auto simp: segy_trace_def Let_def)

lemma get_segy_hedr_keeps:
  "get_segy_hedr h file t = Some (ret, r) \<Longrightarrow>
   fileType r = fileType t \<and> fileName r = fileName t \<and> d_data (dataInfo r) = d_data (dataInfo t)"
  using segy_trace_keeps [of h "segy_head (endianSwap (head t)) (take sizeof_segy file)" t ret r]
  by (simp add: get_segy_hedr_def split: if_splits)

interpretation segy_id: trace_identifier "IDsegy h" SEGY_DATA for h
proof
  fix f fn ts and t :: "'d traceInfo"
  assume "IDsegy h f fn = Some ts" "t \<in> set ts"
  then show "fileType t = SEGY_DATA \<and> fileName t = fn \<and> d_data (dataInfo t) = None"
    using get_segy_hedr_keeps [of h f]
    by (fastforce simp: IDsegy_def calloc_trace_def split: if_splits option.splits prod.splits)
qed

lemma get_sac_hedr_keeps:
  assumes "get_sac_hedr h beyond file t = Some (ret, r)"
  shows "fileType r = fileType t \<and> fileName r = fileName t \<and> d_data (dataInfo r) = d_data (dataInfo t)"
  using assms unfolding get_sac_hedr_def Let_def
  by (auto split: if_splits prod.splits Option.bind_splits)

interpretation sac_id: trace_identifier "IDsac h beyond" SAC_DATA for h beyond
proof
  fix f fn ts and t :: "'d traceInfo"
  assume "IDsac h beyond f fn = Some ts" "t \<in> set ts"
  then show "fileType t = SAC_DATA \<and> fileName t = fn \<and> d_data (dataInfo t) = None"
    using get_sac_hedr_keeps [of h beyond f]
    by (fastforce simp: IDsac_def calloc_trace_def split: if_splits option.splits prod.splits)
qed

text \<open>Entries of a table keep what new entries have and updates keep.\<close>

lemma all_update_first: "\<forall>e\<in>set xs. Q e \<Longrightarrow> (\<And>e. Q e \<Longrightarrow> Q (f e)) \<Longrightarrow> \<forall>e\<in>set (update_first P f xs). Q e"
  by (induction xs) auto

lemma all_upsert: "\<forall>e\<in>set xs. Q e \<Longrightarrow> Q new \<Longrightarrow> (\<And>e. Q e \<Longrightarrow> Q (f e)) \<Longrightarrow> \<forall>e\<in>set (upsert P new f xs). Q e"
  using all_update_first [of xs Q f P] by (simp add: upsert_def split: option.split)

lemma fold_keeps: "Q s \<Longrightarrow> (\<And>x s. Q s \<Longrightarrow> Q (f x s)) \<Longrightarrow> Q (fold f xs s)"
  by (induction xs arbitrary: s) simp_all

lemma rt125_events_name: "\<forall>e\<in>set (rt125_events buf fp fn). ev_fileName e = fn \<and> ev_year e \<noteq> 0"
  unfolding rt125_events_table
proof (rule fold_keeps)
  fix b and es :: "RT125ATRACE list" assume "\<forall>e\<in>set es. ev_fileName e = fn \<and> ev_year e \<noteq> 0"
  moreover have "RT125AYEAR b 10 \<noteq> 0" using byte_range(1) [of "b ! 10"] unfolding RT125AYEAR_def u8_def by linarith
  ultimately show "\<forall>e\<in>set (upsert (\<lambda>e. ev_eventNum e = dp_eventNum b) (add_samps b (rt125_new fn b)) (add_samps b) es).
      ev_fileName e = fn \<and> ev_year e \<noteq> 0"
    by (intro all_upsert) (simp_all add: add_samps_def rt125_new_def)
qed simp_all

interpretation rt125_id: trace_identifier "\<lambda>f fn. Some (IDrt125 buf buf' f fn)" RT125_DATA for buf buf'
  using rt125_events_name
  by unfold_locales (auto simp: IDrt125_def get_rt125_hedr_traces make_rt125_trace_def calloc_trace_def Let_def split: if_splits)

lemma rt125A_events_name:
  assumes "rt125A_events buf fp fn = Some events"
  shows "\<forall>e\<in>set events. ev_fileName e = fn"
proof -
  define ok where "ok es \<longleftrightarrow> (\<forall>e\<in>set es. ev_fileName e = fn)" for es :: "RT125ATRACE list"
  define ok' where "ok' st \<longleftrightarrow> (\<forall>es. st = Some es \<longrightarrow> ok es)" for st
  have "ok (add_entry fn e t)" if "ok t" for e t
    using that unfolding ok_def add_entry_def case_prod_beta by (rule all_upsert) (simp_all add: rt125A_new_def)
  then have "ok (fold (add_entry fn) es t)" if "ok t" for es t by (rule fold_keeps [where Q = ok, OF that])
  then have "ok' (rt125A_pet_step fn b st)" if "ok' st" for b st
    using that by (cases st; cases "pet_entries b") (auto simp: rt125A_pet_step_def ok'_def)
  moreover have "ok' (Some [])" by (simp add: ok'_def ok_def)
  ultimately have pet: "ok' (fold (rt125A_pet_step fn) bs (Some []))" for bs
    by (simp add: fold_keeps [where Q = ok'])
  have "ok (update_first Q (rt125A_fill b) t)" if "ok t" for b t Q
    using that unfolding ok_def by (rule all_update_first) (simp add: rt125A_fill_def Let_def)
  then have "ok (rt125A_pdt_step b t)" if "ok t" for b t using that by (simp add: rt125A_pdt_step_def)
  then have pdt: "ok (fold rt125A_pdt_step bs t)" if "ok t" for bs t by (rule fold_keeps [where Q = ok, OF that])
  obtain t where "fold (rt125A_pet_step fn) (blocks RT125A_PKT_SIZE buf fp) (Some []) = Some t"
      "events = fold rt125A_pdt_step (blocks RT125A_PKT_SIZE buf fp) t"
    using assms by (auto simp: rt125A_events_def split: Option.bind_splits)
  then have "ok events" using pet [of "blocks RT125A_PKT_SIZE buf fp"] pdt by (simp add: ok'_def)
  then show ?thesis by (simp add: ok_def)
qed

interpretation rt125A_id: trace_identifier "IDrt125A buf buf'" RT125A_DATA for buf buf'
proof
  fix f fn ts t
  assume a: "IDrt125A buf buf' f fn = Some ts" "t \<in> set ts"
  then obtain es where es: "rt125A_events buf' f fn = Some es"
    by (auto simp: IDrt125A_def get_rt125A_hedr_def split: if_splits Option.bind_splits)
  then obtain e where "e \<in> set es" "t = make_rt125A_trace e"
    using a by (auto simp: IDrt125A_def get_rt125A_hedr_traces [OF es] split: if_splits)
  then show "fileType t = RT125A_DATA \<and> fileName t = fn \<and> d_data (dataInfo t) = None"
    using rt125A_events_name [OF es] by (simp add: make_rt125A_trace_def calloc_trace_def Let_def)
qed

lemma rt130_scan_name:
  assumes "rt130_scan h buf fp fn = Some s" and "EHInfo s = Some e"
  shows "eh_fileName e = fn"
proof -
  define ok where "ok st \<longleftrightarrow> (\<forall>s e. st = Some s \<longrightarrow> EHInfo s = Some e \<longrightarrow> eh_fileName e = fn)" for st :: "hedr130 option"
  have step: "ok (rt130_hedr_step h fn b st)" if "ok st" for b st
  proof (cases st)
    case (Some s)
    have e: "EHInfo s' = EHInfo s \<or> EHInfo s' = Some (eh_info fn b)" if "rt130_hedr_step h fn b (Some s) = Some s'" for s'
      using that by (auto simp: rt130_hedr_step_def split: if_splits option.splits Option.bind_splits)
    have "eh_fileName e = fn" if "rt130_hedr_step h fn b (Some s) = Some s'" "EHInfo s' = Some e" for s' e
      using e [OF that(1)] that(2) \<open>ok st\<close> Some by (auto simp: ok_def eh_info_def)
    then show ?thesis unfolding ok_def Some by blast
  qed (simp add: rt130_hedr_step_def ok_def)
  have "ok (rt130_scan h buf fp fn)"
    unfolding rt130_scan_def by (rule fold_keeps) (simp_all add: ok_def [of "Some _"] step)
  then show ?thesis using assms by (simp add: ok_def)
qed

interpretation rt130_id: trace_identifier "\<lambda>f fn. snd (IDrt130 h buf buf' f fn)" RT130_DATA for h buf buf'
proof
  fix f fn ts t
  assume a: "snd (IDrt130 h buf buf' f fn) = Some ts" "t \<in> set ts"
  then have g: "get_rt130_hedr h buf' f fn = Some ts" by (auto simp: IDrt130_def split: if_splits)
  from g obtain s where s: "rt130_scan h buf' f fn = Some s"
    by (auto simp: get_rt130_hedr_def split: Option.bind_splits)
  with g a(2) obtain e where e: "EHInfo s = Some e" "ts = fold (\<lambda>c traces. make_rt130_trace e c # traces) (channels s) []"
    by (auto simp: get_rt130_hedr_def split: list.splits Option.bind_splits)
  have "fold (\<lambda>c traces. g c # traces) cs acc = rev (map g cs) @ acc" for g :: "CHANINFO \<Rightarrow> byte traceInfo" and cs acc
    by (induction cs arbitrary: acc) simp_all
  then obtain c where "t = make_rt130_trace e c" using a(2) e(2) by auto
  then show "fileType t = RT130_DATA \<and> fileName t = fn \<and> d_data (dataInfo t) = None"
    using rt130_scan_name [OF s e(1)] by (simp add: make_rt130_trace_def calloc_trace_def Let_def)
qed

text \<open>A file of libmseed: the index that is kept for a file has its name.\<close>

definition files_ok :: "mseed_state \<Rightarrow> bool" where
  "files_ok st \<longleftrightarrow> (\<forall>fn mm. mplex_files st fn = Some mm \<longrightarrow> f_fileName mm = fn)"

lemma index_mplex_name:
  assumes "files_ok st" and "index_mplex fs fn st = (r, st')"
  shows "files_ok st' \<and> (\<forall>mm. r = Some mm \<longrightarrow> f_fileName mm = fn)"
proof -
  have "f_fileName (index_records fn m ms) = fn" for m ms
    by (simp add: index_records_def split: prod.split)
  then show ?thesis
    using assms by (auto simp: index_mplex_def files_ok_def Let_def split: option.splits list.splits if_splits)
qed

lemma setHedrVals_keeps:
  "fileName (snd (setHedrVals trc t)) = fileName t" "fileType (snd (setHedrVals trc t)) = fileType t"
  "d_data (dataInfo (snd (setHedrVals trc t))) = d_data (dataInfo t)"
  by (simp_all add: setHedrVals_def setStartTime_def Let_def split: prod.split option.split)

lemma make_mseed_trace_keeps:
  "fileName (make_mseed_trace trc ft) = t_fileName trc" "fileType (make_mseed_trace trc ft) = ft"
  "d_data (dataInfo (make_mseed_trace trc ft)) = None"
  by (simp_all add: make_mseed_trace_def Let_def setHedrVals_keeps) (simp_all add: calloc_trace_def)

lemma makeTraces_name: "t \<in> set (makeTraces opts mm) \<Longrightarrow> t_fileName t = f_fileName mm"
proof -
  assume t: "t \<in> set (makeTraces opts mm)"
  define ok where "ok st \<longleftrightarrow> (\<forall>t\<in>set (fst st). t_fileName t = f_fileName mm)" for st :: "mm_trcinfo list \<times> int"
  have "ok (trace_packet opts mm ix p st)" if "ok st" for ix p st
  proof -
    have "\<forall>t\<in>set (update_first Q (add_to_trace p) (fst st)). t_fileName t = f_fileName mm" for Q
      using that unfolding ok_def by (rule all_update_first) (simp add: add_to_trace_def)
    then show ?thesis using that by (cases st) (simp add: ok_def trace_packet_def make_trcinfo_def Let_def)
  qed
  then have "ok (fold (trace_packet opts mm ix) ps st)" if "ok st" for ix ps st by (rule fold_keeps [where Q = ok, OF that])
  then have "ok (trace_channel opts mm ix st)" if "ok st" for ix st using that by (simp add: trace_channel_def)
  moreover have "ok ([], 0)" by (simp add: ok_def)
  ultimately have "ok (fold (trace_channel opts mm) (f_channels mm) ([], 0))" by (simp add: fold_keeps [where Q = ok])
  then show ?thesis
    using t by (cases "fold (trace_channel opts mm) (f_channels mm) ([], 0)") (auto simp: ok_def makeTraces_def split: if_splits)
qed

lemma IDmseed_traces:
  assumes "files_ok st" and "IDmseed fs fn opts st = ((b, ts), st')"
  shows "files_ok st' \<and> (fresh_traces fn MSEED_DATA ts \<or> fresh_traces fn MSEED_MPLEX_DATA ts)"
proof -
  obtain mm st1 where i: "index_mplex fs fn (st\<lparr>mplex_options := opts\<rparr>) = (mm, st1)" by fastforce
  have "files_ok (st\<lparr>mplex_options := opts\<rparr>)" using assms(1) by (simp add: files_ok_def)
  note n = index_mplex_name [OF this i]
  have "st' = (if check_MSFile fs fn then st1 else st\<lparr>mplex_options := opts\<rparr>)" using assms(2) i
    by (auto simp: IDmseed_def get_mseed_hedrM_def Let_def split: if_splits option.splits prod.splits)
  then have "files_ok st'" using n \<open>files_ok (st\<lparr>mplex_options := opts\<rparr>)\<close> by simp
  moreover have fresh: "fresh_traces fn ft (fold (\<lambda>t acc. make_mseed_trace t ft # acc) us [])" if "\<forall>t\<in>set us. t_fileName t = fn" for ft us
    using that fold_prepend [of "\<lambda>_. True" "\<lambda>t. make_mseed_trace t ft :: real traceInfo" us "[]"]
    by (simp add: fresh_traces_def make_mseed_trace_keeps)
  have "fresh_traces fn MSEED_DATA []" by (simp add: fresh_traces_def)
  ultimately show ?thesis
    using assms(2) i n fresh [of "[single_trcinfo fn ix]" MSEED_DATA for ix] fresh [of "makeTraces o' m" MSEED_MPLEX_DATA for o' m]
    by (auto simp: IDmseed_def get_mseed_hedrM_def single_trcinfo_def makeTraces_name Let_def split: if_splits option.splits prod.splits)
qed

definition other_ids_ok :: "'g env \<Rightarrow> cstr \<Rightarrow> bool" where
  "other_ids_ok env fn \<longleftrightarrow>
     fresh_traces fn AH_DATA (IDah env fn) \<and> fresh_traces fn NANO_DATA (IDnano env fn) \<and> fresh_traces fn DR100_DATA (IDdr100 env fn)"

lemma first_found_member: "first_found rs = Some ts \<Longrightarrow> ts \<noteq> [] \<Longrightarrow> Some ts \<in> set rs"
  by (induction rs rule: first_found.induct) (auto split: option.splits list.splits)

lemma other_readers_cases:
  assumes "Some ts \<in> set (other_readers env f fn)" and "other_ids_ok env fn"
  obtains ft where "ft \<in> {SAC_DATA, SEGY_DATA, AH_DATA, NANO_DATA, DR100_DATA, RT130_DATA, RT125A_DATA}" "fresh_traces fn ft ts"
    | "ts = map retype (IDrt125 (e_stack env RT125_PKT_SIZE) (e_stack env RT125_PKT_SIZE) f fn)"
proof -
  let ?h = "e_host env" and ?b = "e_stack env"
  from assms(1) consider
      "map_option (map retype) (IDsac ?h (e_beyond env) f fn :: i32 traceInfo list option) = Some ts"
    | "map_option (map retype) (IDsegy ?h f fn :: int traceInfo list option) = Some ts"
    | "ts = IDah env fn" | "ts = IDnano env fn" | "ts = IDdr100 env fn"
    | "map_option (map retype) (snd (IDrt130 ?h (?b RT130_PKT_SIZE) (?b RT130_PKT_SIZE) f fn)) = Some ts"
    | "map_option (map retype) (IDrt125A (?b RT125A_PKT_SIZE) (?b RT125A_PKT_SIZE) f fn) = Some ts"
    | "ts = map retype (IDrt125 (?b RT125_PKT_SIZE) (?b RT125_PKT_SIZE) f fn)"
    unfolding other_readers_def Let_def by (auto simp only: list.set insert_iff empty_iff option.inject)
  then show thesis
  proof cases
    case 1 then show thesis using that(1) [OF _ sac_id.retyped] by blast
  next
    case 2 then show thesis using that(1) [OF _ segy_id.retyped] by blast
  next
    case 6 then show thesis using that(1) [OF _ rt130_id.retyped] by blast
  next
    case 7 then show thesis using that(1) [OF _ rt125A_id.retyped] by blast
  qed (use assms(2) that in \<open>auto simp: other_ids_ok_def\<close>)
qed

lemma rt125_retyped:
  "fresh_traces fn RT125_DATA (map retype (IDrt125 buf buf' f fn))"
  using rt125_id.retyped [of buf buf' f fn] by simp


text \<open>What the guards of \<^verbatim>\<open>readTrace\<close> return.\<close>

lemma readTrace_dispatch:
  assumes "d_data (dataInfo t) = None" and "fileType t \<noteq> CWB_DATA" and "e_open env (fileName t) = Some f"
    and "length f \<le> FILETOOLARGE" and "year (head t) \<noteq> 0" and "read_samples env t = Some (ret, r)" and "\<not> excerpt_wanted r"
  shows "readTrace env t = Some (ret, r)"
  using assms by (simp add: readTrace_def)

lemma retype_back: "d_data (dataInfo t) = None \<Longrightarrow> olapData t = [] \<Longrightarrow> retype (retype t :: real traceInfo) = t"
  by (simp add: retype_def)


section \<open>Examples\<close>

text \<open>A file of a state of health packet and a data packet of two samples of event 5.\<close>

definition demo125 :: "byte list" where
  "demo125 = (1 # replicate 527 0) @ [3, 0, 7, 0, 0, 0, 0, 0, 5, 2] @ replicate 518 0"

definition demo_env :: "byte list \<Rightarrow> unit env" where
  "demo_env f = \<lparr>e_host = LittleHost, e_open = (\<lambda>_. Some f), e_dir = (\<lambda>_. None),
     e_lib = \<lparr>readmsr = (\<lambda>_. ([], MS_NOTSEED)), readtraces = (\<lambda>_. None), readmsr_at = (\<lambda>_ _. None), initgroup = (),
              addmsrtogroup = (\<lambda>_ _ _ _. None), group_traces = (\<lambda>_. None), msr_endtime = m_starttime\<rparr>,
     e_avail = 0, e_stack = (\<lambda>n. replicate n 0), e_beyond = [], e_rev = True,
     get_ah_hedr = (\<lambda>t. (FAILURE, t)), get_nano_hedr = (\<lambda>t. (FAILURE, t)), check_dr100 = (\<lambda>t. (FAILURE, t)),
     IDah = (\<lambda>_. []), IDnano = (\<lambda>_. []), IDdr100 = (\<lambda>_. []),
     get_ah_data = (\<lambda>t. (FAILURE, t)), get_nano_data = (\<lambda>t. (FAILURE, t)), get_dr100_data = (\<lambda>t. (FAILURE, t)),
     get_cwb_data = (\<lambda>t. (FAILURE, t))\<rparr>"

text \<open>Files whose year of a SAC header, or of a SEG-Y header, is zero.\<close>

lemma not_sac: "take 4 (drop 280 f) = [0, 0, 0, 0] \<Longrightarrow> IDsac h beyond f fn = Some []"
proof -
  assume f: "take 4 (drop 280 f) = [0, 0, 0, 0]"
  let ?m = "take sizeof_sac f" and ?ks = "[w_nzyear..<w_nzyear + 6] @ [w_unused16]"
  have m: "take 4 (drop 280 ?m) = [0, 0, 0, 0]" using f by (simp add: drop_take sizeof_sac_def)
  then have w: "Sac.word_at h ?m w_nzyear = 0"
    by (cases h) (simp_all add: Sac.word_at_def w_nzyear_def be_word_def del: take_drop drop_take)
  then have "\<not> sac_valid h ?m" by (simp add: sac_valid_def Let_def int_at_def)
  moreover have "\<not> sac_valid h (fold swap_word ?ks ?m)" if "sizeof_sac \<le> length f"
  proof -
    have "Sac.word_at h (fold swap_word ?ks ?m) w_nzyear = swap_4byte (Sac.word_at h ?m w_nzyear)"
      using that by (subst word_at_fold_swap) (auto simp: sac_layout)
    then have "int_at h (fold swap_word ?ks ?m) w_nzyear = 0" by (simp add: w int_at_def swap_4byte_def)
    then show ?thesis by (simp add: sac_valid_def Let_def del: fold_append)
  qed
  ultimately show ?thesis by (simp add: IDsac_def check_endian_def del: fold_append)
qed

lemma not_segy: "take 2 (drop 156 f) = [0, 0] \<Longrightarrow> IDsegy h f fn = Some []"
proof -
  assume f: "take 2 (drop 156 f) = [0, 0]"
  have z: "short_at h m 156 = 0" if "take 2 (drop 156 m) = [0, 0]" for m
    using that by (cases h) (simp_all add: short_at_def be_word_def)
  let ?m = "take sizeof_segy f" and ?fs = "[(156, 2), (158, 2), (160, 2), (162, 2), (164, 2), (200, 4)] :: (nat \<times> nat) list"
  have m: "take 2 (drop 156 ?m) = [0, 0]" using f take_header [of 156 2 f] by (simp add: sizeof_segy_def)
  have "\<not> segy_valid h ?m" using z [OF m] by (simp add: segy_valid_def)
  moreover have "\<not> segy_valid h (fold swap_field ?fs ?m)" if "sizeof_segy \<le> length f"
  proof -
    have "take 2 (drop 156 (fold swap_field ?fs ?m)) = rev (take 2 (drop 156 ?m))"
      using that by (intro fold_swap_in [where lo = 0]) (simp_all add: sizeof_segy_def)
    then show ?thesis using z m by (simp add: segy_valid_def del: fold.simps)
  qed
  ultimately show ?thesis by (simp add: IDsegy_def segy_check_endian_def del: fold.simps)
qed

lemma demo_env_fields [simp]:
  "e_host (demo_env f) = LittleHost" "e_open (demo_env f) = (\<lambda>_. Some f)" "e_stack (demo_env f) = (\<lambda>n. replicate n 0)"
  "readmsr (e_lib (demo_env f)) = (\<lambda>_. ([], MS_NOTSEED))" "IDah (demo_env f) = (\<lambda>_. [])" "IDnano (demo_env f) = (\<lambda>_. [])"
  "IDdr100 (demo_env f) = (\<lambda>_. [])"
  by (simp_all add: demo_env_def)

lemma demo_not_mseed: "IDmseed (readmsr (e_lib (demo_env f))) fn opts st = ((False, []), st\<lparr>mplex_options := opts\<rparr>)"
  by (simp add: IDmseed_def check_MSFile_def)

lemma demo125_packets:
  "blocks RT125_PKT_SIZE (replicate 528 0) demo125 = [1 # replicate 527 0, [3, 0, 7, 0, 0, 0, 0, 0, 5, 2] @ replicate 518 0]"
  by (simp add: RT125_PKT_SIZE_def blocks.simps demo125_def Let_def)

lemma not_rt130: "rd_type130 h (take 1024 f) \<noteq> EH \<Longrightarrow> 1024 \<le> length f \<Longrightarrow> length buf = 1024 \<Longrightarrow> snd (IDrt130 h buf buf' f fn) = Some []"
  by (simp add: IDrt130_def rt130_check_def blocks.simps RT130_PKT_SIZE_def Let_def)

lemma not_rt125A: "\<forall>b\<in>set (blocks RT125A_PKT_SIZE buf f). rd_type b \<noteq> PET \<Longrightarrow> IDrt125A buf buf' f fn = Some []"
proof -
  have "\<forall>b\<in>set bs. rd_type b \<noteq> PET \<Longrightarrow> check_loop n PET False fd bs = FAILURE" for n fd bs
    by (induction n PET False fd bs rule: check_loop.induct) simp_all
  then show "\<forall>b\<in>set (blocks RT125A_PKT_SIZE buf f). rd_type b \<noteq> PET \<Longrightarrow> ?thesis"
    by (simp add: IDrt125A_def rt125A_check_def)
qed

lemma demo125_identified:
  "identifyTrace (demo_env demo125) fn None st =
     Some (ID_TRACES (map retype (get_rt125_hedr (replicate 528 0) demo125 fn)), st\<lparr>mplex_options := None\<rparr>)"
proof -
  let ?b = "replicate 528 0 :: byte list"
  have t: "rd_type (1 # replicate 527 0) = PSH" "rd_type ([3, 0, 7, 0, 0, 0, 0, 0, 5, 2] @ replicate 518 0) = PDT"
    by (simp_all add: rd_type_def)
  have n1: "IDsac LittleHost beyond demo125 fn = Some ([] :: i32 traceInfo list)" for beyond
    by (rule not_sac) (simp add: demo125_def numeral_eq_Suc)
  have n2: "IDsegy LittleHost demo125 fn = Some ([] :: int traceInfo list)"
    by (rule not_segy) (simp add: demo125_def numeral_eq_Suc)
  have n3: "snd (IDrt130 LittleHost (replicate 1024 0) (replicate 1024 0) demo125 fn) = Some []"
    by (rule not_rt130) (simp_all add: rd_type130_def demo125_def ConvertRefType_be EH_def DT_def Let_def numeral_eq_Suc)
  have n4: "IDrt125A ?b ?b demo125 fn = Some []"
    using demo125_packets t by (intro not_rt125A) (simp add: RT125A_PKT_SIZE_def RT125_PKT_SIZE_def)
  have "rt125_check ?b demo125 = PQLXSUCCESS"
    using demo125_packets t by (simp add: rt125_check_def RT125_MAX_PKT_RD_def numeral_eq_Suc Let_def)
  then have "IDrt125 ?b ?b demo125 fn = get_rt125_hedr ?b demo125 fn" by (simp add: IDrt125_def)
  then show ?thesis
    using n1 n2 n3 n4 demo_not_mseed [of demo125 fn None st]
    by (simp add: identifyTrace_def other_readers_def RT130_PKT_SIZE_def RT125A_PKT_SIZE_def RT125_PKT_SIZE_def Let_def split: list.split)
qed

definition demo125_data :: "byte list" where
  "demo125_data = [3, 0, 7, 0, 0, 0, 0, 0, 5, 2] @ replicate 518 0"

lemma demo125_data_packet:
  "data_packets (replicate 528 0) demo125 = [demo125_data]" "dp_eventNum demo125_data = 5" "dp_sampleCnt demo125_data = 2"
  "packet_samples demo125_data = [0, 0]"
proof -
  show "data_packets (replicate 528 0) demo125 = [demo125_data]"
    unfolding data_packets_def demo125_packets by (simp add: rd_type_def demo125_data_def)
  show f: "dp_eventNum demo125_data = 5" "dp_sampleCnt demo125_data = 2"
    by (simp_all add: dp_eventNum_def dp_sampleCnt_def be16_def u8_def demo125_data_def)
  show "packet_samples demo125_data = [0, 0]"
    unfolding packet_samples_def f by (simp add: demo125_data_def sample24_def upt_rec nth_append Let_def)
qed

lemma demo125_trace:
  obtains t where "t \<in> set (get_rt125_hedr (replicate 528 0) demo125 fn)" "channel (head t) = show_int 5" "fileType t = RT125_DATA"
proof -
  let ?e = "add_samps demo125_data (rt125_new fn demo125_data)"
  have "rt125_events (replicate 528 0) demo125 fn = [?e]" by (simp add: rt125_events_table demo125_data_packet upsert_if)
  moreover have "ev_numSamps ?e \<noteq> 0" "ev_eventNum ?e = 5" by (simp_all add: add_samps_def rt125_new_def demo125_data_packet)
  ultimately show thesis
    using that [of "make_rt125_trace ?e"] by (simp add: get_rt125_hedr_traces) (simp add: make_rt125_trace_def Let_def)
qed

definition no_files :: mseed_state where
  "no_files = \<lparr>mplex_options = None, mplex_files = Map.empty\<rparr>"

lemma demo_hypotheses: "files_ok no_files" "other_ids_ok (demo_env f) fn"
  by (simp_all add: files_ok_def no_files_def other_ids_ok_def fresh_traces_def)



text \<open>A file of a data packet of sixty samples, two of them not zero, and a state of health packet.\<close>

definition quiet125 :: "byte list" where
  "quiet125 = [3, 0, 7, 0, 0, 0, 0, 0, 5, 60] @ replicate 107 0 @ [1] @ replicate 38 0 @ [1] @ replicate 371 0 @ (1 # replicate 527 0)"

lemma quiet125_segy:
  obtains u :: "int traceInfo" where "IDsegy LittleHost quiet125 fn = Some [u]" "fileType u = SEGY_DATA"
proof -
  let ?m = "take sizeof_segy quiet125"
  let ?t = "calloc_trace\<lparr>fileName := fn, fileType := SEGY_DATA, head := calloc_head\<lparr>endianSwap := False\<rparr>\<rparr> :: int traceInfo"
  have l: "sizeof_segy \<le> length quiet125" by (simp add: quiet125_def sizeof_segy_def)
  have r: "take 4 (drop 12 ?m) = [0, 0, 0, 0]" "take 2 (drop 116 ?m) = [0, 1]" "take 2 (drop 156 ?m) = [1, 0]" "take 2 (drop 158 ?m) = [0, 0]"
    "take 2 (drop 160 ?m) = [0, 0]" "take 2 (drop 162 ?m) = [0, 0]" "take 2 (drop 164 ?m) = [0, 0]" "take 4 (drop 220 ?m) = [0, 0, 0, 0]"
    by (simp_all add: quiet125_def sizeof_segy_def numeral_eq_Suc)
  have "segy_valid LittleHost ?m" unfolding segy_valid_def short_at_def r by (simp add: be_word_def)
  then have c: "segy_check_endian LittleHost ?m = Some False" by (simp add: segy_check_endian_def)
  have "f32_val (load LittleHost (take 4 (drop 220 ?m))) = Some 0" unfolding r by (simp add: be_word_def f32_val_def f32_exp_def Let_def)
  moreover have "long_at LittleHost ?m 12 = 0" unfolding long_at_def r by (simp add: be_word_def)
  then have "length (show_int (long_at LittleHost ?m 12)) < 10" by (simp add: show_int_def show_nat_def show_base.simps)
  ultimately obtain u where u: "segy_trace LittleHost ?m ?t = Some (PQLXSUCCESS, u)"
    using segy_trace_succeeds by blast
  then have "IDsegy LittleHost quiet125 fn = Some [u]" using l by (simp add: IDsegy_def c get_segy_hedr_def segy_head_def)
  then show thesis using that segy_trace_keeps [OF u] by simp
qed

text \<open>
  A quiet RT-125 file is taken for SEG-Y. The reader of SEG-Y files is asked first and accepts a header of small
  numbers, so that a file that starts with a data packet of samples that are all zero but for two small ones
  is identified as a SEG-Y trace, although the RT-125 reader would accept it and find its event.
\<close>

theorem quiet_rt125_taken_for_segy:
  "IDrt125 (replicate 528 0) (replicate 528 0) quiet125 fn \<noteq> [] \<and>
   (\<exists>t. identifyTrace (demo_env quiet125) fn opts st = Some (ID_TRACES [t], st\<lparr>mplex_options := opts\<rparr>) \<and> fileType t = SEGY_DATA)"
proof -
  let ?b = "replicate 528 0 :: byte list"
  define d where "d = [3, 0, 7, 0, 0, 0, 0, 0, 5, 60] @ replicate 107 0 @ [1] @ replicate 38 0 @ [1] @ replicate 371 (0 :: byte)"
  have p: "blocks RT125_PKT_SIZE ?b quiet125 = [d, 1 # replicate 527 0]"
    by (simp add: RT125_PKT_SIZE_def blocks.simps quiet125_def d_def Let_def)
  have t: "rd_type (1 # replicate 527 0) = PSH" "rd_type d = PDT" by (simp_all add: rd_type_def d_def)
  have "rt125_check ?b quiet125 = PQLXSUCCESS"
    using p t by (simp add: rt125_check_def RT125_MAX_PKT_RD_def numeral_eq_Suc Let_def)
  moreover have "data_packets ?b quiet125 = [d]" unfolding data_packets_def p using t by simp
  moreover have "dp_sampleCnt d = 60" by (simp add: dp_sampleCnt_def u8_def d_def)
  ultimately have "IDrt125 ?b ?b quiet125 fn \<noteq> []"
    by (simp add: IDrt125_def get_rt125_hedr_traces rt125_events_table upsert_if add_samps_def rt125_new_def)
  moreover have "IDsac LittleHost beyond quiet125 fn = Some ([] :: i32 traceInfo list)" for beyond
    by (rule not_sac) (simp add: quiet125_def numeral_eq_Suc)
  moreover obtain u :: "int traceInfo" where "IDsegy LittleHost quiet125 fn = Some [u]" "fileType u = SEGY_DATA"
    by (rule quiet125_segy)
  ultimately show ?thesis
    using demo_not_mseed [of quiet125 fn opts st] by (simp add: identifyTrace_def other_readers_def Let_def) (simp add: retype_def)
qed

section \<open>The file of state of health messages\<close>

text \<open>The last entry of the directory decides: if it is a directory, no file is found.\<close>

lemma getSOHFile_last:
  "getSOHFile env dir =
     (case e_dir env dir of None \<Rightarrow> None
      | Some names \<Rightarrow>
          (let es = filter (\<lambda>n. n \<noteq> lit ''.'' \<and> n \<noteq> lit ''..'') names; f = dir @ lit ''/'' @ last es
           in if es = [] \<or> e_dir env f \<noteq> None then None else Some f))"
proof -
  have "fold (soh_entry env dir) names None =
      (let es = filter (\<lambda>n. n \<noteq> lit ''.'' \<and> n \<noteq> lit ''..'') names; f = dir @ lit ''/'' @ last es
       in if es = [] \<or> e_dir env f \<noteq> None then None else Some f)" for names
    by (induction names rule: rev_induct) (auto simp: soh_entry_def Let_def)
  then show ?thesis by (simp add: getSOHFile_def split: option.split)
qed

lemma soh_dir_parent: "47 \<notin> set name \<Longrightarrow> soh_dir (dir @ [c] @ lit ''/'' @ name) = Some dir"
proof -
  assume "47 \<notin> set name"
  then have "takeWhile (\<lambda>c. c \<noteq> 47) (rev name @ 47 # xs) = rev name" for xs
    by (subst takeWhile_append2) auto
  moreover have "lit ''/'' = [47]" by (simp add: lit_def)
  ultimately show ?thesis by (simp add: soh_dir_def Let_def)
qed

text \<open>
  The messages for an RT130 file \<open>dir/s/name\<close>, where the directory of a stream has a name of one character, are
  read from the directory of stream 0 beside it: from its last entry in the order of the directory, and only if this
  is a file. The caller's file name is cut to the directory of the streams.
\<close>

theorem readInstSOH_rt130:
  assumes "47 \<notin> set name" and "e_dir env (dir @ lit ''0'') = Some names"
    and "es = filter (\<lambda>n. n \<noteq> lit ''.'' \<and> n \<noteq> lit ''..'') names" and "f = dir @ lit ''0'' @ lit ''/'' @ last es"
  shows "readInstSOH env (dir @ [c] @ lit ''/'' @ name) RT130_DATA seqNum =
    (if es = [] \<or> e_dir env f \<noteq> None then Some (Inl FILE_DNE, dir, seqNum)
     else case e_open env f of None \<Rightarrow> Some (Inl FILE_DNE, dir, seqNum)
       | Some bs \<Rightarrow> map_option (\<lambda>(l, q). (Inr l, dir, q)) (get_rt130_SOH (e_host env) (e_stack env RT130_PKT_SIZE) bs seqNum))"
  using assms(2-4) soh_dir_parent [OF assms(1), of dir c]
  by (simp add: readInstSOH_def getSOHFile_last Let_def)

theorem readInstSOH_rt130_witness:
  "readInstSOH ((demo_env [])\<lparr>e_dir := (\<lambda>d. if d = lit ''d/0'' then Some [lit ''.'', lit ''a''] else None)\<rparr>)
     (lit ''d/'' @ [49] @ lit ''/'' @ lit ''x'') RT130_DATA 0 = Some (Inr [], lit ''d/'', 0)"
  using readInstSOH_rt130 [of "lit ''x''" "(demo_env [])\<lparr>e_dir := (\<lambda>d. if d = lit ''d/0'' then Some [lit ''.'', lit ''a''] else None)\<rparr>"
      "lit ''d/''" "[lit ''.'', lit ''a'']", OF _ _ refl refl, of 49 0]
  by (simp add: lit_def get_rt130_SOH_def blocks.simps)

end
