(* ===== verification/Listsort.thy ===== *)
theory Listsort
  imports PQL_Prelude "HOL-Library.Multiset"
begin

text \<open>
  The merge sort of \<^verbatim>\<open>mst_groupsort\<close> (\<^verbatim>\<open>contrib/libmseed/traceutils.c\<close>) on a chain of any elements: runs of
  \<^verbatim>\<open>insize\<close> elements are merged pairwise in one pass over the chain, and \<^verbatim>\<open>insize\<close> is doubled until a pass makes
  one merge. A pointer into the chain is the list from its node on. A pass or a sort that never ends is
  \<open>None\<close>, as is the overflow of the \<^verbatim>\<open>int\<close> \<^verbatim>\<open>insize\<close>.

  The locale \<open>run_merge\<close> is the contract of the merging of two runs; from it follows that the sort ends and what
  its result is.
\<close>

section \<open>The loops\<close>

text \<open>The inner loop: the elements in the order in which they are linked, and \<open>q\<close> where the loop ends.\<close>

fun merge_loop :: "('a \<Rightarrow> 'a \<Rightarrow> int) \<Rightarrow> nat \<Rightarrow> 'a list \<Rightarrow> nat \<Rightarrow> 'a list \<Rightarrow> 'a list \<times> 'a list" where
  "merge_loop cmp psize p qsize q =
     (if 0 < psize \<or> 0 < qsize \<and> q \<noteq> [] then
        (if psize = 0 then apfst (Cons (hd q)) (merge_loop cmp psize p (qsize - 1) (tl q))
         else if qsize = 0 \<or> q = [] then apfst (Cons (hd p)) (merge_loop cmp (psize - 1) (tl p) qsize q)
         else if cmp (hd p) (hd q) \<le> 0 then apfst (Cons (hd p)) (merge_loop cmp (psize - 1) (tl p) qsize q)
         else apfst (Cons (hd q)) (merge_loop cmp psize p (qsize - 1) (tl q)))
      else ([], q))"

declare merge_loop.simps [simp del]

text \<open>The loop that steps \<^verbatim>\<open>insize\<close> places along.\<close>

fun step_along :: "nat \<Rightarrow> nat \<Rightarrow> 'a list \<Rightarrow> nat \<times> 'a list" where
  "step_along 0 psize q = (psize, q)"
| "step_along (Suc i) psize q = (if tl q = [] then (psize + 1, []) else step_along i (psize + 1) (tl q))"

text \<open>One pass: the chain after it and \<^verbatim>\<open>nmerges\<close>.\<close>

partial_function (option) sort_pass :: "('a \<Rightarrow> 'a \<Rightarrow> int) \<Rightarrow> nat \<Rightarrow> 'a list \<Rightarrow> ('a list \<times> nat) option" where
  "sort_pass cmp insize p =
     (if p = [] then Some ([], 0)
      else (let (psize, q) = step_along insize 0 p; (merged, q) = merge_loop cmp psize p insize q
            in Option.bind (sort_pass cmp insize q) (\<lambda>(rest, nmerges). Some (merged @ rest, nmerges + 1))))"

partial_function (option) sort_loop :: "('a \<Rightarrow> 'a \<Rightarrow> int) \<Rightarrow> nat \<Rightarrow> 'a list \<Rightarrow> 'a list option" where
  "sort_loop cmp insize l =
     Option.bind (sort_pass cmp insize l) (\<lambda>(l, nmerges).
       if nmerges \<le> 1 then Some l
       else if 2 * insize < 2 ^ 31 then sort_loop cmp (2 * insize) l else None)"

section \<open>Merging runs\<close>

text \<open>The merging of two whole lists, of which the inner loop is the version with counters.\<close>

fun lmerge :: "('a \<Rightarrow> 'a \<Rightarrow> int) \<Rightarrow> 'a list \<Rightarrow> 'a list \<Rightarrow> 'a list" where
  "lmerge cmp [] ys = ys"
| "lmerge cmp xs [] = xs"
| "lmerge cmp (x # xs) (y # ys) = (if cmp x y \<le> 0 then x # lmerge cmp xs (y # ys) else y # lmerge cmp (x # xs) ys)"

lemma lmerge_Nil2 [simp]: "lmerge cmp xs [] = xs"
  by (cases xs) simp_all

lemma mset_lmerge [simp]: "mset (lmerge cmp xs ys) = mset xs + mset ys"
  by (induction cmp xs ys rule: lmerge.induct) simp_all

lemma length_lmerge [simp]: "length (lmerge cmp xs ys) = length xs + length ys"
  by (induction cmp xs ys rule: lmerge.induct) simp_all

lemma set_lmerge [simp]: "set (lmerge cmp xs ys) = set xs \<union> set ys"
  by (induction cmp xs ys rule: lmerge.induct) auto

lemma merge_loop_eq:
  "psize \<le> length p \<Longrightarrow> merge_loop cmp psize p qsize q = (lmerge cmp (take psize p) (take qsize q), drop qsize q)"
proof (induction cmp psize p qsize q rule: merge_loop.induct)
  case (1 cmp psize p qsize q)
  consider "psize = 0" "qsize = 0 \<or> q = []" | "psize = 0" "0 < qsize" "q \<noteq> []" | "0 < psize" "qsize = 0 \<or> q = []" |
    "0 < psize" "0 < qsize" "q \<noteq> []" by blast
  then show ?case
  proof cases
    case 1
    then show ?thesis by (subst merge_loop.simps) auto
  next
    case 2
    then obtain y q' m where *: "q = y # q'" "qsize = Suc m" by (cases q; cases qsize) auto
    with 2 "1.IH"(1) show ?thesis by (subst merge_loop.simps) simp
  next
    case 3
    then obtain x p' n where *: "p = x # p'" "psize = Suc n" using "1.prems" by (cases p; cases psize) auto
    with 3 "1.IH"(2) "1.prems" show ?thesis by (subst merge_loop.simps) auto
  next
    case 4
    then obtain x p' n y q' m where *: "p = x # p'" "psize = Suc n" "q = y # q'" "qsize = Suc m"
      using "1.prems" by (cases p; cases psize; cases q; cases qsize) auto
    with "1.IH"(3,4) "1.prems" show ?thesis by (subst merge_loop.simps) simp
  qed
qed

lemma step_along_eq: "q \<noteq> [] \<Longrightarrow> step_along i n q = (n + min i (length q), drop i q)"
proof (induction i arbitrary: n q)
  case (Suc i)
  then show ?case by (cases q; cases "tl q") (simp_all add: drop_Suc)
qed simp

lemma sort_pass_Nil [simp]: "sort_pass cmp n [] = Some ([], 0)"
  by (simp add: sort_pass.simps)

lemma sort_pass_step:
  "p \<noteq> [] \<Longrightarrow> sort_pass cmp n p =
     map_option (\<lambda>(rest, m). (lmerge cmp (take n p) (take n (drop n p)) @ rest, m + 1)) (sort_pass cmp n (drop (2 * n) p))"
  by (subst sort_pass.simps)
    (simp add: step_along_eq merge_loop_eq mult_2 min_def map_conv_bind_option comp_def split_def
      split: option.splits)

section \<open>The contract of a merge and the result of the sort\<close>

text \<open>
  Runs of elements of a set satisfy \<open>Q\<close>, which merging keeps; merging and linking have the same effect on \<open>F\<close>.
\<close>

locale run_merge =
  fixes cmp :: "'a \<Rightarrow> 'a \<Rightarrow> int" and A :: "'a set" and Q :: "'a list \<Rightarrow> bool" and F :: "'a list \<Rightarrow> 'b" and comb :: "'b \<Rightarrow> 'b \<Rightarrow> 'b"
  assumes single: "x \<in> A \<Longrightarrow> Q [x]" and empty: "Q []"
    and merge: "Q xs \<Longrightarrow> Q ys \<Longrightarrow> Q (lmerge cmp xs ys)"
    and effect: "Q xs \<Longrightarrow> Q ys \<Longrightarrow> F (lmerge cmp xs ys) = comb (F xs) (F ys)"
    and append: "F (xs @ ys) = comb (F xs) (F ys)"
begin

definition runs :: "nat \<Rightarrow> 'a list \<Rightarrow> bool" where
  "runs n xs \<longleftrightarrow> (\<forall>k. Q (take n (drop (k * n) xs)))"

lemma runs_rest: "runs n p \<Longrightarrow> runs n (drop (j * n) p)"
  unfolding runs_def by (metis drop_drop add_mult_distrib)

lemma runs_link:
  assumes "Q m" and "length m = n \<or> rest = []" and "length m \<le> n" and "runs n rest"
  shows "runs n (m @ rest)"
  unfolding runs_def
proof
  fix k
  show "Q (take n (drop (k * n) (m @ rest)))"
  proof (cases k)
    case 0
    then show ?thesis using assms empty by (cases "rest = []") auto
  next
    case (Suc j)
    have "drop (k * n) m = []" using Suc assms(3) by simp
    moreover have "drop (k * n - length m) rest = drop (j * n) rest" using Suc assms(2) by auto
    ultimately show ?thesis using assms(4) by (simp add: runs_def)
  qed
qed

lemma pass:
  assumes "0 < n" and "runs n p"
  shows "\<exists>r m. sort_pass cmp n p = Some (r, m) \<and> runs (2 * n) r \<and> F r = F p \<and> length r = length p \<and> set r = set p \<and>
    (m \<le> 1 \<longleftrightarrow> length p \<le> 2 * n) \<and> (m = 0 \<longleftrightarrow> p = [])"
  using assms(2)
proof (induction "length p" arbitrary: p rule: less_induct)
  case less
  show ?case
  proof (cases "p = []")
    case True
    then show ?thesis using empty by (simp add: runs_def)
  next
    case False
    let ?p = "drop (2 * n) p" and ?m = "lmerge cmp (take n p) (take n (drop n p))"
    have "runs n ?p" using runs_rest [OF less.prems, of 2] .
    moreover have "length ?p < length p" using False assms(1) by simp
    ultimately obtain r m where IH: "sort_pass cmp n ?p = Some (r, m)" "runs (2 * n) r" "F r = F ?p" "length r = length ?p"
        "set r = set ?p" "m = 0 \<longleftrightarrow> ?p = []"
      using less.hyps by blast
    have q: "Q (take n p)" "Q (take n (drop n p))"
      using less.prems [unfolded runs_def, rule_format, of 0] less.prems [unfolded runs_def, rule_format, of 1] by simp_all
    have len: "length ?m = min (2 * n) (length p)" by (simp add: min_def) arith
    have "take n (drop n p) @ ?p = drop n p" by (metis append_take_drop_id drop_drop mult_2)
    then have p: "take n p @ take n (drop n p) @ ?p = p" by simp
    have "F p = F (take n p @ take n (drop n p) @ ?p)" "set p = set (take n p @ take n (drop n p) @ ?p)" by (simp_all only: p)
    then have "F p = F (?m @ r)" "set p = set (?m @ r)"
      using IH(3,5) effect [OF q] by (simp_all only: append append_assoc [symmetric] set_append set_lmerge)
    moreover have "length ?m = 2 * n \<or> r = []" using len IH(4) by (cases r) auto
    then have "runs (2 * n) (?m @ r)" using merge [OF q] len IH(2) by (intro runs_link) auto
    ultimately show ?thesis using False IH(1,4,6) len by (auto simp: sort_pass_step)
  qed
qed

lemma loop:
  assumes "0 < n" and "runs n p" and "length p \<le> 2 ^ 30"
  shows "\<exists>r. sort_loop cmp n p = Some r \<and> Q r \<and> F r = F p \<and> set r = set p"
  using assms
proof (induction "length p - n" arbitrary: n p rule: less_induct)
  case less
  from pass [OF less.prems(1,2)] obtain r m where r: "sort_pass cmp n p = Some (r, m)" "runs (2 * n) r" "F r = F p"
      "length r = length p" "set r = set p" "m \<le> 1 \<longleftrightarrow> length p \<le> 2 * n" by blast
  show ?case
  proof (cases "m \<le> 1")
    case True
    then have "Q r" using r(2) [unfolded runs_def, rule_format, of 0] r(4,6) by simp
    then show ?thesis using True r by (subst sort_loop.simps) simp
  next
    case False
    then have long: "2 * n < length p" using r(6) by simp
    then have "length r - 2 * n < length p - n" using r(4) less.prems(1) by simp
    with less.hyps [of r "2 * n"] less.prems r obtain r' where "sort_loop cmp (2 * n) r = Some r'" "Q r'" "F r' = F p" "set r' = set p"
      by auto
    moreover have "2 * n < 2 ^ 31" using long less.prems(3) by simp
    ultimately show ?thesis using False r(1) by (subst sort_loop.simps) simp
  qed
qed

lemma sorts:
  assumes "set p \<subseteq> A" and "length p \<le> 2 ^ 30"
  shows "\<exists>r. sort_loop cmp 1 p = Some r \<and> Q r \<and> F r = F p \<and> set r = set p"
proof -
  have "Q (take 1 (drop k p))" for k
  proof (cases "drop k p")
    case (Cons x xs)
    then have "x \<in> set p" using set_drop_subset [of k p] by simp
    then show ?thesis using Cons assms(1) single by auto
  qed (simp add: empty)
  then have "runs 1 p" by (simp add: runs_def)
  then show ?thesis using loop [of 1 p] assms(2) by simp
qed

end

section \<open>Merging with a comparison\<close>

lemma lmerge_nonempty [simp]: "lmerge cmp xs ys = [] \<longleftrightarrow> xs = [] \<and> ys = []"
  by (induction cmp xs ys rule: lmerge.induct) simp_all

lemma lmerge_hd: "xs \<noteq> [] \<Longrightarrow> hd (lmerge cmp xs (y # ys)) = (if cmp (hd xs) y \<le> 0 then hd xs else y)"
  by (cases xs) simp_all

lemma lmerge_hd2: "ys \<noteq> [] \<Longrightarrow> hd (lmerge cmp (x # xs) ys) = (if cmp x (hd ys) \<le> 0 then x else hd ys)"
  by (cases ys) simp_all

text \<open>Neighbours stay in order if the comparison is not positive both ways.\<close>

lemma successively_lmerge:
  assumes "\<And>x y. 0 < cmp x y \<Longrightarrow> cmp y x \<le> 0"
    and "successively (\<lambda>x y. cmp x y \<le> 0) xs" and "successively (\<lambda>x y. cmp x y \<le> 0) ys"
  shows "successively (\<lambda>x y. cmp x y \<le> 0) (lmerge cmp xs ys)"
  using assms
proof (induction cmp xs ys rule: lmerge.induct)
  case (3 cmp x xs y ys)
  show ?case
  proof (cases "cmp x y \<le> 0")
    case True
    have "successively (\<lambda>x y. cmp x y \<le> 0) (lmerge cmp xs (y # ys))"
      using 3 True by (cases "xs = []") (simp_all add: successively_Cons)
    moreover have "cmp x (hd (lmerge cmp xs (y # ys))) \<le> 0"
      using True "3.prems"(2) by (cases "xs = []") (auto simp: lmerge_hd successively_Cons)
    ultimately show ?thesis using True by (simp add: successively_Cons)
  next
    case False
    have "successively (\<lambda>x y. cmp x y \<le> 0) (lmerge cmp (x # xs) ys)"
      using 3 False by (cases "ys = []") (simp_all add: successively_Cons)
    moreover have "cmp y (hd (lmerge cmp (x # xs) ys)) \<le> 0"
      using False "3.prems"(1) [of x y] "3.prems"(3) by (cases "ys = []") (auto simp: lmerge_hd2 successively_Cons)
    ultimately show ?thesis using False by (simp add: successively_Cons)
  qed
qed auto

text \<open>
  If the comparison orders the elements of a set totally, the whole list is in order, and equal elements stay in
  the order in which they were.
\<close>

definition total_cmp :: "('a \<Rightarrow> 'a \<Rightarrow> int) \<Rightarrow> 'a set \<Rightarrow> bool" where
  "total_cmp cmp A \<longleftrightarrow>
     (\<forall>x\<in>A. \<forall>y\<in>A. 0 < cmp x y \<longrightarrow> cmp y x \<le> 0) \<and>
     (\<forall>x\<in>A. \<forall>y\<in>A. \<forall>z\<in>A. cmp x y \<le> 0 \<longrightarrow> cmp y z \<le> 0 \<longrightarrow> cmp x z \<le> 0)"

definition in_order :: "('a \<Rightarrow> 'a \<Rightarrow> int) \<Rightarrow> 'a set \<Rightarrow> 'a list \<Rightarrow> bool" where
  "in_order cmp A xs \<longleftrightarrow> set xs \<subseteq> A \<and> sorted_wrt (\<lambda>x y. cmp x y \<le> 0) xs"

definition same_place :: "('a \<Rightarrow> 'a \<Rightarrow> int) \<Rightarrow> 'a \<Rightarrow> 'a \<Rightarrow> bool" where
  "same_place cmp x y \<longleftrightarrow> cmp x y \<le> 0 \<and> cmp y x \<le> 0"

lemma in_order_lmerge:
  assumes "total_cmp cmp A" and "in_order cmp A xs" and "in_order cmp A ys"
  shows "in_order cmp A (lmerge cmp xs ys)"
  using assms
proof (induction cmp xs ys rule: lmerge.induct)
  case (3 cmp x xs y ys)
  have trans: "cmp a c \<le> 0" if "cmp a b \<le> 0" "cmp b c \<le> 0" "{a, b, c} \<subseteq> A" for a b c
    using "3.prems"(1) that unfolding total_cmp_def by blast
  have A: "set (x # xs) \<subseteq> A" "set (y # ys) \<subseteq> A" using "3.prems" by (auto simp: in_order_def)
  show ?case
  proof (cases "cmp x y \<le> 0")
    case True
    then have "cmp x z \<le> 0" if "z \<in> set ys" for z
      using trans [of x y z] that A "3.prems"(3) by (auto simp: in_order_def)
    then show ?thesis using 3 True by (auto simp: in_order_def)
  next
    case False
    then have yx: "cmp y x \<le> 0" using "3.prems"(1) A by (auto simp: total_cmp_def)
    then have "cmp y z \<le> 0" if "z \<in> set xs" for z
      using trans [of y x z] that A "3.prems"(2) by (auto simp: in_order_def)
    then show ?thesis using 3 False yx by (auto simp: in_order_def)
  qed
qed auto

lemma filter_lmerge:
  assumes "total_cmp cmp A" and "in_order cmp A xs" and "in_order cmp A ys" and "z \<in> A"
  shows "filter (same_place cmp z) (lmerge cmp xs ys) = filter (same_place cmp z) xs @ filter (same_place cmp z) ys"
  using assms
proof (induction cmp xs ys rule: lmerge.induct)
  case (3 cmp x xs y ys)
  show ?case
  proof (cases "cmp x y \<le> 0")
    case True
    then show ?thesis using 3 by (auto simp: in_order_def)
  next
    case False
    have trans: "cmp a c \<le> 0" if "cmp a b \<le> 0" "cmp b c \<le> 0" "{a, b, c} \<subseteq> A" for a b c
      using "3.prems"(1) that unfolding total_cmp_def by blast
    have A: "set (x # xs) \<subseteq> A" "set (y # ys) \<subseteq> A" using "3.prems" by (auto simp: in_order_def)
    have "\<not> same_place cmp z u" if "u \<in> set (x # xs)" "same_place cmp z y" for u
    proof
      assume u: "same_place cmp z u"
      have "cmp x x \<le> 0" using "3.prems"(1) A(1) unfolding total_cmp_def by (meson linorder_not_le list.set_intros(1) subsetD)
      then have "cmp x u \<le> 0" using that(1) "3.prems"(2) by (auto simp: in_order_def)
      then have "cmp x y \<le> 0"
        using trans [of x u z] trans [of x z y] u that A "3.prems"(4) by (auto simp: same_place_def)
      with False show False by simp
    qed
    then have "filter (same_place cmp z) (x # xs) = []" if "same_place cmp z y" using that by (auto simp: filter_empty_conv)
    moreover have "filter (same_place cmp z) (lmerge cmp (x # xs) ys) = filter (same_place cmp z) (x # xs) @ filter (same_place cmp z) ys"
      using 3 False by (auto simp: in_order_def)
    ultimately show ?thesis using False by (cases "same_place cmp z y") (simp_all del: filter.simps add: filter.simps(2) [of _ y])
  qed
qed auto

end
