(* ===== verification/MsGroup.thy ===== *)
theory MsGroup
  imports MseedData Listsort
begin

text \<open>
  The trace groups of libmseed, \<^verbatim>\<open>contrib/libmseed/traceutils.c\<close>, with \<^verbatim>\<open>msr_endtime\<close> of \<^verbatim>\<open>msrutils.c\<close>,
  \<^verbatim>\<open>ms_samplesize\<close> of \<^verbatim>\<open>lookup.c\<close> and \<^verbatim>\<open>ms_readtraces\<close> of \<^verbatim>\<open>fileutils.c\<close>: a record is added to the end or to the
  beginning of the first trace it fits, or starts a new one; the group is sorted with the merge sort of
  \<open>Listsort\<close>; and traces that follow each other are healed into one.

  A group is its chain of traces and the number it keeps of them. \<^verbatim>\<open>datasamples\<close> with \<^verbatim>\<open>numsamples\<close> is the list of
  samples, empty for a null pointer, and memory for samples is always found. Times are microseconds. The list
  of leap seconds, empty when no file of them was read, is a parameter. The section at the end gives the
  functions that the reader of miniSEED files calls, and what the reader delivers for a file of records.
\<close>

section \<open>Records and traces\<close>

record 'd mstg =
  numtraces :: int
  traces :: "'d mstrace list"

definition ms_samplesize :: "byte \<Rightarrow> nat" where
  "ms_samplesize c = (if c = 97 then 1 else if c = 105 \<or> c = 102 then 4 else if c = 100 then 8 else 0)"

definition MS_ISRATETOLERABLE :: "real \<Rightarrow> real \<Rightarrow> bool" where
  "MS_ISRATETOLERABLE a b \<longleftrightarrow> \<bar>1 - a / b\<bar> < 1 / 10000"

text \<open>The quotient by 0, infinite or not a number in C, is not below the tolerance; in HOL it is 0, with the same result.\<close>

definition end_span :: "'d msrecord \<Rightarrow> int" where
  "end_span msr =
     (if 0 < m_samprate msr \<and> 0 < m_samplecnt msr
      then c_trunc (of_int (m_samplecnt msr - 1) / m_samprate msr * of_int HPTMODULUS + 1 / 2) else 0)"

definition ms_endtime :: "int list \<Rightarrow> 'd msrecord \<Rightarrow> int" where
  "ms_endtime leaps msr =
     (let span = end_span msr;
          hit = (if leaps \<noteq> [] then \<exists>l\<in>set leaps. m_starttime msr < l \<and> l \<le> m_starttime msr + span - HPTMODULUS
                 else bit (m_act_flags msr) 4)
      in m_starttime msr + (if hit then span - HPTMODULUS else span))"

definition mst_initgroup :: "'d mstg" where
  "mst_initgroup = \<lparr>numtraces = 0, traces = []\<rparr>"

definition mst_init :: "'d mstrace" where
  "mst_init = \<lparr>g_network = [], g_station = [], g_location = [], g_channel = [], g_starttime = 0, g_endtime = 0,
     g_samprate = 0, g_samplecnt = 0, g_sampletype = 0, g_samples = [], g_dataquality = 0\<rparr>"

section \<open>Finding the trace that a record fits\<close>

datatype whence = AtEnd | AtBeginning

text \<open>The sample period and the tolerance in microseconds.\<close>

definition hpdelta :: "real \<Rightarrow> int" where
  "hpdelta samprate = c_trunc (if samprate \<noteq> 0 then of_int HPTMODULUS / samprate else 0)"

definition hptimetol :: "real \<Rightarrow> real \<Rightarrow> int" where
  "hptimetol samprate timetol =
     (if timetol = -1 then c_trunc (1 / 2 * of_int (hpdelta samprate))
      else if 0 \<le> timetol then c_trunc (timetol * of_int HPTMODULUS) else 0)"

definition span_fits :: "real \<Rightarrow> real \<Rightarrow> int \<Rightarrow> int \<Rightarrow> 'd mstrace \<Rightarrow> whence option" where
  "span_fits samprate timetol starttime endtime mst =
     (let postgap = starttime - g_endtime mst - hpdelta samprate;
          pregap = g_starttime mst - endtime - hpdelta samprate;
          tol = hptimetol samprate timetol
      in if timetol = -2 then Some (if \<bar>postgap\<bar> < \<bar>pregap\<bar> then AtEnd else AtBeginning)
         else if postgap \<le> tol \<and> - tol \<le> postgap then Some AtEnd
         else if pregap \<le> tol \<and> - tol \<le> pregap then Some AtBeginning
         else None)"

definition rate_fits :: "real \<Rightarrow> real \<Rightarrow> 'd mstrace \<Rightarrow> bool" where
  "rate_fits samprate sampratetol mst \<longleftrightarrow>
     sampratetol = -2 \<or>
     (if sampratetol = -1 then MS_ISRATETOLERABLE samprate (g_samprate mst)
      else \<bar>samprate - g_samprate mst\<bar> \<le> sampratetol)"

definition names_fit :: "byte \<Rightarrow> cstr \<Rightarrow> cstr \<Rightarrow> cstr \<Rightarrow> cstr \<Rightarrow> 'd mstrace \<Rightarrow> bool" where
  "names_fit dq net sta loc chan mst \<longleftrightarrow>
     (dq = 0 \<or> dq = g_dataquality mst) \<and> net = g_network mst \<and> sta = g_station mst \<and>
     loc = g_location mst \<and> chan = g_channel mst"

text \<open>The number of the trace in the chain and where the span fits it.\<close>

fun mst_findadjacent ::
  "'d mstrace list \<Rightarrow> byte \<Rightarrow> cstr \<Rightarrow> cstr \<Rightarrow> cstr \<Rightarrow> cstr \<Rightarrow> real \<Rightarrow> real \<Rightarrow> int \<Rightarrow> int \<Rightarrow> real \<Rightarrow> (nat \<times> whence) option" where
  "mst_findadjacent [] dq net sta loc chan samprate sampratetol starttime endtime timetol = None"
| "mst_findadjacent (mst # rest) dq net sta loc chan samprate sampratetol starttime endtime timetol =
     (let next = map_option (apfst Suc) (mst_findadjacent rest dq net sta loc chan samprate sampratetol starttime endtime timetol)
      in case span_fits samprate timetol starttime endtime mst of
           None \<Rightarrow> next
         | Some w \<Rightarrow>
             if rate_fits samprate sampratetol mst \<and> names_fit dq net sta loc chan mst then Some (0, w) else next)"

fun mst_findmatch :: "'d mstrace list \<Rightarrow> byte \<Rightarrow> cstr \<Rightarrow> cstr \<Rightarrow> cstr \<Rightarrow> cstr \<Rightarrow> nat option" where
  "mst_findmatch [] dq net sta loc chan = None"
| "mst_findmatch (mst # rest) dq net sta loc chan =
     (if names_fit dq net sta loc chan mst then Some 0 else map_option Suc (mst_findmatch rest dq net sta loc chan))"

section \<open>Adding to a trace and to a group\<close>

text \<open>
  \<open>None\<close> is the return value -1, which leaves the trace as it is; the end time is only wrong if
  \<^verbatim>\<open>mst_addmsrtogroup\<close> has refused the record before.
\<close>

definition add_samples :: "whence \<Rightarrow> 'd list \<Rightarrow> 'd mstrace \<Rightarrow> 'd mstrace" where
  "add_samples w xs mst = mst\<lparr>g_samples := (case w of AtEnd \<Rightarrow> g_samples mst @ xs | AtBeginning \<Rightarrow> xs @ g_samples mst)\<rparr>"

definition mst_addmsr :: "int list \<Rightarrow> 'd mstrace \<Rightarrow> 'd msrecord \<Rightarrow> whence \<Rightarrow> 'd mstrace option" where
  "mst_addmsr leaps mst msr w =
     (if m_samples msr \<noteq> [] \<and> (ms_samplesize (m_sampletype msr) = 0 \<or> m_sampletype msr \<noteq> g_sampletype mst) then None
      else if w = AtEnd \<and> ms_endtime leaps msr = HPTERROR then None
      else (let mst = add_samples w (m_samples msr) mst;
                mst = (case w of AtEnd \<Rightarrow> mst\<lparr>g_endtime := ms_endtime leaps msr\<rparr>
                       | AtBeginning \<Rightarrow> mst\<lparr>g_starttime := m_starttime msr\<rparr>);
                mst = (if g_dataquality mst \<noteq> 0 \<and> m_dataquality msr \<noteq> 0 \<and> g_dataquality mst \<noteq> m_dataquality msr
                       then mst\<lparr>g_dataquality := 0\<rparr> else mst)
            in Some (mst\<lparr>g_samplecnt := g_samplecnt mst + m_samplecnt msr\<rparr>)))"

definition mst_addspan :: "'d mstrace \<Rightarrow> int \<Rightarrow> int \<Rightarrow> 'd list \<Rightarrow> byte \<Rightarrow> whence \<Rightarrow> 'd mstrace option" where
  "mst_addspan mst starttime endtime xs sampletype w =
     (if xs \<noteq> [] \<and> (ms_samplesize sampletype = 0 \<or> sampletype \<noteq> g_sampletype mst) then None
      else (let mst = add_samples w xs mst;
                mst = (case w of AtEnd \<Rightarrow> mst\<lparr>g_endtime := endtime\<rparr> | AtBeginning \<Rightarrow> mst\<lparr>g_starttime := starttime\<rparr>)
            in Some (mst\<lparr>g_samplecnt := g_samplecnt mst + int (length xs)\<rparr>)))"

text \<open>The group after the call, and the trace that was changed or made; \<open>None\<close> is a null pointer.\<close>

definition new_mst :: "byte \<Rightarrow> 'd msrecord \<Rightarrow> 'd mstrace" where
  "new_mst dq msr = mst_init\<lparr>g_dataquality := dq, g_network := m_network msr, g_station := m_station msr,
     g_location := m_location msr, g_channel := m_channel msr, g_starttime := m_starttime msr,
     g_samprate := m_samprate msr, g_sampletype := m_sampletype msr\<rparr>"

definition mst_addtracetogroup :: "'d mstg \<Rightarrow> 'd mstrace \<Rightarrow> 'd mstg" where
  "mst_addtracetogroup mstg mst = \<lparr>numtraces = numtraces mstg + 1, traces = traces mstg @ [mst]\<rparr>"

definition mst_addmsrtogroup ::
  "int list \<Rightarrow> 'd mstg \<Rightarrow> 'd msrecord \<Rightarrow> bool \<Rightarrow> real \<Rightarrow> real \<Rightarrow> 'd mstg \<times> 'd mstrace option" where
  "mst_addmsrtogroup leaps mstg msr dataquality timetol sampratetol =
     (let dq = (if dataquality then m_dataquality msr else 0); endtime = ms_endtime leaps msr
      in if endtime = HPTERROR then (mstg, None)
         else (case mst_findadjacent (traces mstg) dq (m_network msr) (m_station msr) (m_location msr) (m_channel msr)
                      (m_samprate msr) sampratetol (m_starttime msr) endtime timetol of
             Some (k, w) \<Rightarrow>
               if m_samplecnt msr \<le> 0 \<or> m_samprate msr \<le> 0 then (mstg, Some (traces mstg ! k))
               else (case mst_addmsr leaps (traces mstg ! k) msr w of
                   None \<Rightarrow> (mstg, None)
                 | Some mst \<Rightarrow> (mstg\<lparr>traces := (traces mstg)[k := mst]\<rparr>, Some mst))
           | None \<Rightarrow>
               (case mst_addmsr leaps (new_mst dq msr) msr AtEnd of
                  None \<Rightarrow> (mstg, None)
                | Some mst \<Rightarrow> (mst_addtracetogroup mstg mst, Some mst))))"

text \<open>\<^verbatim>\<open>ms_readtraces\<close>: a record that cannot be added is left out.\<close>

definition ms_readtraces :: "int list \<Rightarrow> (cstr \<Rightarrow> 'd msfile) \<Rightarrow> cstr \<Rightarrow> real \<Rightarrow> real \<Rightarrow> bool \<Rightarrow> 'd mstg \<times> msret" where
  "ms_readtraces leaps rd fn timetol sampratetol dataquality =
     (let (recs, retcode) = rd fn
      in (fold (\<lambda>msr mstg. fst (mst_addmsrtogroup leaps mstg msr dataquality timetol sampratetol)) recs mst_initgroup,
          if retcode = MS_ENDOFFILE then MS_NOERROR else retcode))"

section \<open>Sorting\<close>

definition mst_srcname :: "bool \<Rightarrow> 'd mstrace \<Rightarrow> cstr" where
  "mst_srcname quality mst =
     g_network mst @ [95] @ g_station mst @ [95] @ g_location mst @ [95] @ g_channel mst @
     (if quality \<and> g_dataquality mst \<noteq> 0 then [95, g_dataquality mst] else [])"

text \<open>The order of \<^verbatim>\<open>strcmp\<close>: bytes are compared as unsigned numbers, and a string comes after its prefixes.\<close>

fun strcmp_gt :: "cstr \<Rightarrow> cstr \<Rightarrow> bool" where
  "strcmp_gt [] ys = False"
| "strcmp_gt (x # xs) [] = True"
| "strcmp_gt (x # xs) (y # ys) = (y < x \<or> x = y \<and> strcmp_gt xs ys)"

definition mst_groupsort_cmp :: "bool \<Rightarrow> 'd mstrace \<Rightarrow> 'd mstrace \<Rightarrow> int" where
  "mst_groupsort_cmp quality mst1 mst2 =
     (let src1 = mst_srcname quality mst1; src2 = mst_srcname quality mst2
      in if strcmp_gt src1 src2 then 1
         else if src1 = src2 then
           (if g_starttime mst1 > g_starttime mst2 then 1
            else if g_starttime mst1 = g_starttime mst2 then
              (if g_endtime mst1 < g_endtime mst2 then 1
               else if g_endtime mst1 = g_endtime mst2 then
                 (if \<not> MS_ISRATETOLERABLE (g_samprate mst1) (g_samprate mst2) \<and> g_samprate mst1 > g_samprate mst2 then 1 else 0)
               else 0)
            else 0)
         else 0)"

definition mst_groupsort :: "bool \<Rightarrow> 'd mstg \<Rightarrow> 'd mstg option" where
  "mst_groupsort quality mstg =
     (if traces mstg = [] then Some mstg
      else map_option (\<lambda>ts. mstg\<lparr>traces := ts\<rparr>) (sort_loop (mst_groupsort_cmp quality) 1 (traces mstg)))"

section \<open>Healing\<close>

text \<open>
  The inner loop. \<^verbatim>\<open>curtrace\<close> stands between the traces \<open>done\<close>, that were tried, and those to be tried; it is the same
  node until the loop ends. A position in the chain is given by the traces before it, \<open>before\<close>, and \<open>cur\<close> is
  \<open>None\<close> before the loop has passed \<^verbatim>\<open>curtrace\<close>. The tolerance is set at the first comparison and then kept.
\<close>

definition heal_candidate :: "real \<Rightarrow> 'd mstrace \<Rightarrow> 'd mstrace \<Rightarrow> bool" where
  "heal_candidate sampratetol search cur \<longleftrightarrow>
     g_network search = g_network cur \<and> g_station search = g_station cur \<and> g_location search = g_location cur \<and>
     g_channel search = g_channel cur \<and>
     (if sampratetol = -1 then MS_ISRATETOLERABLE (g_samprate search) (g_samprate cur)
      else \<bar>g_samprate search - g_samprate cur\<bar> \<le> sampratetol)"

definition heal_delta :: "'d mstrace \<Rightarrow> real" where
  "heal_delta cur = (if g_samprate cur \<noteq> 0 then 1 / g_samprate cur else 0)"

definition heal_fits :: "real \<Rightarrow> 'd mstrace \<Rightarrow> 'd mstrace \<Rightarrow> whence option" where
  "heal_fits timetol search cur =
     (let postgap = of_int (g_starttime search - g_endtime cur) / of_int HPTMODULUS - heal_delta cur;
          pregap = of_int (g_starttime cur - g_endtime search) / of_int HPTMODULUS - heal_delta cur
      in if \<bar>postgap\<bar> \<le> timetol then Some AtEnd else if \<bar>pregap\<bar> \<le> timetol then Some AtBeginning else None)"

text \<open>The value that \<^verbatim>\<open>mst_addspan\<close> returns is not looked at.\<close>

definition heal_merge :: "whence \<Rightarrow> 'd mstrace \<Rightarrow> 'd mstrace \<Rightarrow> 'd mstrace" where
  "heal_merge w search cur =
     (let cur = (case mst_addspan cur (g_starttime search) (g_endtime search) (g_samples search) (g_sampletype search) w of
                   None \<Rightarrow> cur | Some cur' \<Rightarrow> cur');
          cur = (if g_samples search = [] then cur\<lparr>g_samplecnt := g_samplecnt cur + g_samplecnt search\<rparr> else cur)
      in if g_dataquality cur \<noteq> g_dataquality search then cur\<lparr>g_dataquality := 0\<rparr> else cur)"

definition heal_tol :: "real \<Rightarrow> 'd mstrace \<Rightarrow> real" where
  "heal_tol timetol cur = (if timetol = -1 then 1 / 2 * heal_delta cur else timetol)"

text \<open>What is left of the traces tried, \<^verbatim>\<open>curtrace\<close> and \<^verbatim>\<open>timetol\<close>.\<close>

fun heal_search :: "real \<Rightarrow> 'd mstrace list \<Rightarrow> 'd mstrace \<Rightarrow> real \<Rightarrow> 'd mstrace list \<times> 'd mstrace \<times> real" where
  "heal_search sampratetol [] cur timetol = ([], cur, timetol)"
| "heal_search sampratetol (search # rest) cur timetol =
     (if \<not> heal_candidate sampratetol search cur then apfst (Cons search) (heal_search sampratetol rest cur timetol)
      else (case heal_fits (heal_tol timetol cur) search cur of
                None \<Rightarrow> apfst (Cons search) (heal_search sampratetol rest cur (heal_tol timetol cur))
              | Some w \<Rightarrow> heal_search sampratetol rest (heal_merge w search cur) (heal_tol timetol cur)))"

text \<open>The outer loop: the traces before \<^verbatim>\<open>curtrace\<close> and those from it on.\<close>

function heal_loop :: "real \<Rightarrow> 'd mstrace list \<Rightarrow> 'd mstrace list \<Rightarrow> real \<Rightarrow> 'd mstrace list" where
  "heal_loop sampratetol before [] timetol = before"
| "heal_loop sampratetol before (cur # after) timetol =
     (let (before, cur, timetol) = heal_search sampratetol before cur timetol;
          (after, cur, timetol) = heal_search sampratetol after cur timetol
      in heal_loop sampratetol (before @ [cur]) after timetol)"
  by pat_completeness auto

lemma heal_search_length: "length (fst (heal_search srtol ts cur tol)) \<le> length ts"
  by (induction ts arbitrary: cur tol) (auto split: option.splits intro: le_SucI)

termination heal_loop
proof (relation "measure (\<lambda>(_, _, ts, _). length ts)")
  fix srtol before cur after timetol x xa y xb yb xc xd yc xe ye
  assume "xc = heal_search srtol after xb yb" "(xd, yc) = xc" "(xe, ye) = yc"
  then have "xd = fst (heal_search srtol after xb yb)" by (metis fst_conv)
  then show "((srtol, xa @ [xe], xd, ye), srtol, before, cur # after, timetol) \<in> measure (\<lambda>(_, _, ts, _). length ts)"
    using heal_search_length [of srtol after xb yb] by simp
qed simp

text \<open>The group after healing and the number of merges.\<close>

definition mst_groupheal :: "'d mstg \<Rightarrow> real \<Rightarrow> real \<Rightarrow> ('d mstg \<times> int) option" where
  "mst_groupheal mstg timetol sampratetol =
     map_option (\<lambda>mstg.
        let ts = heal_loop sampratetol [] (traces mstg) timetol; mergings = int (length (traces mstg)) - int (length ts)
        in (mstg\<lparr>traces := ts, numtraces := numtraces mstg - mergings\<rparr>, mergings))
      (mst_groupsort True mstg)"

section \<open>The order of the traces\<close>

lemma strcmp_gt_irrefl [simp]: "\<not> strcmp_gt xs xs"
  by (induction xs) auto

lemma strcmp_gt_asym: "strcmp_gt xs ys \<Longrightarrow> \<not> strcmp_gt ys xs"
  by (induction xs ys rule: strcmp_gt.induct) auto

lemma strcmp_gt_total: "\<not> strcmp_gt xs ys \<Longrightarrow> \<not> strcmp_gt ys xs \<Longrightarrow> xs = ys"
proof (induction xs ys rule: strcmp_gt.induct)
  case (1 ys)
  then show ?case by (cases ys) auto
qed auto

lemma strcmp_gt_trans: "strcmp_gt xs ys \<Longrightarrow> strcmp_gt ys zs \<Longrightarrow> strcmp_gt xs zs"
proof (induction xs ys arbitrary: zs rule: strcmp_gt.induct)
  case (3 x xs y ys)
  then show ?case by (cases zs) auto
qed auto

text \<open>The order that the comparison means: by source name, then start, then the longest first.\<close>

definition comes_before :: "bool \<Rightarrow> 'd mstrace \<Rightarrow> 'd mstrace \<Rightarrow> bool" where
  "comes_before q a b \<longleftrightarrow>
     strcmp_gt (mst_srcname q b) (mst_srcname q a) \<or>
     mst_srcname q a = mst_srcname q b \<and>
     (g_starttime a < g_starttime b \<or> g_starttime a = g_starttime b \<and> g_endtime b \<le> g_endtime a)"

definition of_rate :: "real \<Rightarrow> 'd mstrace set" where
  "of_rate r = {t. g_samprate t = r}"

lemma cmp_before:
  assumes "a \<in> of_rate r" and "b \<in> of_rate r"
  shows "mst_groupsort_cmp q a b \<le> 0 \<longleftrightarrow> comes_before q a b"
  using assms strcmp_gt_asym [of "mst_srcname q a" "mst_srcname q b"] strcmp_gt_total [of "mst_srcname q a" "mst_srcname q b"]
  by (auto simp: mst_groupsort_cmp_def comes_before_def of_rate_def Let_def)

lemma in_order_before: "in_order (mst_groupsort_cmp q) (of_rate r) ts \<Longrightarrow> sorted_wrt (comes_before q) ts"
  unfolding in_order_def
proof (induction ts)
  case (Cons t ts)
  then show ?case using cmp_before [of t r _ q] by auto
qed simp

lemma comes_before_trans: "comes_before q a b \<Longrightarrow> comes_before q b c \<Longrightarrow> comes_before q a c"
  using strcmp_gt_trans [of "mst_srcname q c" "mst_srcname q b" "mst_srcname q a"] by (auto simp: comes_before_def)

lemma comes_before_total: "\<not> comes_before q a b \<Longrightarrow> comes_before q b a"
  using strcmp_gt_total [of "mst_srcname q a" "mst_srcname q b"] by (auto simp: comes_before_def)

lemma groupsort_cmp_asym: "0 < mst_groupsort_cmp q a b \<Longrightarrow> mst_groupsort_cmp q b a \<le> 0"
  using strcmp_gt_asym [of "mst_srcname q a" "mst_srcname q b"] by (auto simp: mst_groupsort_cmp_def Let_def split: if_splits)

lemma groupsort_total: "total_cmp (mst_groupsort_cmp q) (of_rate r)"
  unfolding total_cmp_def not_le [symmetric]
  by (auto simp: cmp_before [where r = r] dest: comes_before_total intro: comes_before_trans)

interpretation nb: run_merge "mst_groupsort_cmp q" UNIV "successively (\<lambda>a b. mst_groupsort_cmp q a b \<le> 0)" mset "(+)" for q
  by unfold_locales (auto intro: successively_lmerge groupsort_cmp_asym)

interpretation stable: run_merge "mst_groupsort_cmp q" "of_rate r" "in_order (mst_groupsort_cmp q) (of_rate r)"
    "filter (\<lambda>t. z \<in> of_rate r \<and> same_place (mst_groupsort_cmp q) z t)" "(@)" for q r z
proof (unfold_locales, goal_cases)
  case (3 xs ys)
  then show ?case using in_order_lmerge [OF groupsort_total] by blast
next
  case (4 xs ys)
  then show ?case using filter_lmerge [OF groupsort_total 4] by (cases "z \<in> of_rate r") simp_all
qed (auto simp: in_order_def)

text \<open>
  C16: \<^verbatim>\<open>mst_groupsort\<close> ends for every group of at most \<open>2^30\<close> traces; the traces are those of the group, and none
  is greater than the one after it.
\<close>

theorem mst_groupsort_ends:
  assumes "length (traces g) \<le> 2 ^ 30"
  shows "\<exists>g'. mst_groupsort q g = Some g' \<and> numtraces g' = numtraces g \<and> mset (traces g') = mset (traces g) \<and>
    successively (\<lambda>a b. mst_groupsort_cmp q a b \<le> 0) (traces g')"
  using nb.sorts [of "traces g" q] assms by (cases "traces g = []") (auto simp: mst_groupsort_def)

lemma groupsort_order:
  assumes "\<forall>t\<in>set (traces g). g_samprate t = r" and "length (traces g) \<le> 2 ^ 30"
  shows "\<exists>g'. mst_groupsort q g = Some g' \<and> numtraces g' = numtraces g \<and> mset (traces g') = mset (traces g) \<and>
    sorted_wrt (comes_before q) (traces g') \<and>
    (\<forall>z\<in>of_rate r. filter (same_place (mst_groupsort_cmp q) z) (traces g') = filter (same_place (mst_groupsort_cmp q) z) (traces g))"
proof (cases "traces g = []")
  case False
  have s: "set (traces g) \<subseteq> of_rate r" using assms(1) by (auto simp: of_rate_def)
  obtain ts where ts: "sort_loop (mst_groupsort_cmp q) 1 (traces g) = Some ts" "mset ts = mset (traces g)"
    using nb.sorts [of "traces g" q] assms(2) by auto
  have "in_order (mst_groupsort_cmp q) (of_rate r) ts"
    using stable.sorts [OF s assms(2), of q] ts(1) by auto
  then have "sorted_wrt (comes_before q) ts" by (rule in_order_before)
  moreover have "filter (same_place (mst_groupsort_cmp q) z) ts = filter (same_place (mst_groupsort_cmp q) z) (traces g)"
    if "z \<in> of_rate r" for z
    using stable.sorts [OF s assms(2), of q z] ts(1) that by auto
  ultimately show ?thesis using False ts by (auto simp: mst_groupsort_def)
qed (auto simp: mst_groupsort_def)

section \<open>Records and traces on the grid of sample times\<close>

text \<open>
  Records of one channel with a sample every \<open>P\<close> microseconds, and the traces that are made of them. The points of
  a segment are its samples, each with its place on the grid.
\<close>

definition grid_rate :: "int \<Rightarrow> real" where
  "grid_rate P = of_int HPTMODULUS / of_int P"

definition rec_ok :: "int \<Rightarrow> int \<Rightarrow> byte \<Rightarrow> headinfo \<Rightarrow> 'd msrecord \<Rightarrow> bool" where
  "rec_ok P s0 c h r \<longleftrightarrow>
     m_samples r \<noteq> [] \<and> m_samplecnt r = int (length (m_samples r)) \<and> s0 \<le> m_starttime r \<and> P dvd m_starttime r - s0 \<and>
     m_samprate r = grid_rate P \<and> m_sampletype r = c \<and> \<not> bit (m_act_flags r) 4 \<and>
     m_network r = network h \<and> m_station r = station h \<and> m_location r = location h \<and> m_channel r = channel h"

definition rec_seg :: "int \<Rightarrow> int \<Rightarrow> 'd msrecord \<Rightarrow> 'd seg" where
  "rec_seg P s0 r = (nat ((m_starttime r - s0) div P), m_samples r)"

definition trace_ok :: "int \<Rightarrow> int \<Rightarrow> byte \<Rightarrow> headinfo \<Rightarrow> 'd mstrace \<Rightarrow> bool" where
  "trace_ok P s0 c h t \<longleftrightarrow>
     on_grid P s0 t \<and> same_ids t h \<and> g_samprate t = grid_rate P \<and> g_sampletype t = c \<and> g_dataquality t = 0"

definition seg_points :: "'d seg \<Rightarrow> (nat \<times> 'd) multiset" where
  "seg_points s = mset (zip [fst s..<fst s + length (snd s)] (snd s))"

definition points :: "'d seg list \<Rightarrow> (nat \<times> 'd) multiset" where
  "points ss = (\<Sum>s\<leftarrow>ss. seg_points s)"

lemma points_simps [simp]:
  "points [] = {#}" "points (s # ss) = seg_points s + points ss" "points (ss @ ss') = points ss + points ss'"
  by (simp_all add: points_def)

lemma points_mset: "mset ss = mset ss' \<Longrightarrow> points ss = points ss'"
  unfolding points_def by (metis mset_map sum_mset_sum_list)

lemma seg_points_append: "seg_points (a, xs @ ys) = seg_points (a, xs) + seg_points (a + length xs, ys)"
  by (simp add: seg_points_def upt_add_eq_append [of a "a + length xs" "length ys", simplified, unfolded add.assoc [symmetric]]
      add.assoc [symmetric])

lemma rec_index:
  assumes "rec_ok P s0 c h r" and "0 < P"
  obtains b where "rec_seg P s0 r = (b, m_samples r)" "m_starttime r = s0 + P * int b" "m_samplecnt r = int (length (m_samples r))"
    "m_samples r \<noteq> []"
proof -
  from assms(1) obtain k where k: "m_starttime r - s0 = P * k" unfolding rec_ok_def by (auto elim: dvdE)
  moreover have "0 \<le> P * k" using assms(1) k by (simp add: rec_ok_def)
  then have "0 \<le> k" using assms(2) by (simp add: zero_le_mult_iff)
  ultimately show thesis
    using that [of "nat k"] assms by (auto simp: rec_ok_def rec_seg_def algebra_simps)
qed

lemma c_trunc_half: "c_trunc (of_int k + 1 / 2) = (k :: int)" if "0 \<le> k"
  using that by (simp add: c_trunc_def floor_eq_iff)

lemma rec_endtime:
  assumes "rec_ok P s0 c h r" and "0 < P"
  shows "ms_endtime [] r = m_starttime r + P * (int (length (m_samples r)) - 1)"
proof -
  let ?n = "int (length (m_samples r))"
  have n: "0 < ?n" "m_samplecnt r = ?n" "m_samprate r = grid_rate P" "\<not> bit (m_act_flags r) 4"
    using assms(1) by (auto simp: rec_ok_def)
  have "0 < grid_rate P" using assms(2) by (simp add: grid_rate_def HPTMODULUS_def)
  moreover have "of_int (?n - 1) / grid_rate P * of_int HPTMODULUS = of_int (P * (?n - 1))"
    using assms(2) by (simp add: grid_rate_def HPTMODULUS_def field_simps)
  moreover have "0 \<le> P * (?n - 1)" using n(1) assms(2) by simp
  ultimately have "end_span r = P * (?n - 1)"
    unfolding end_span_def n by (simp only: c_trunc_half n(1) if_True simp_thms)
  then show ?thesis using n(4) by (simp add: ms_endtime_def)
qed

lemma hpdelta_grid: "0 < P \<Longrightarrow> hpdelta (grid_rate P) = P"
  by (simp add: hpdelta_def grid_rate_def HPTMODULUS_def c_trunc_of_int)

lemma hptimetol_grid: "0 < P \<Longrightarrow> hptimetol (grid_rate P) (-1) = P div 2"
  by (simp add: hptimetol_def hpdelta_grid c_trunc_def floor_divide_of_int_eq [where 'a = real, of P 2, simplified])

lemma within_tolerance: "0 < P \<Longrightarrow> P * k \<le> P div 2 \<and> - (P div 2) \<le> P * k \<longleftrightarrow> k = (0 :: int)"
proof
  assume P: "0 < P" and k: "P * k \<le> P div 2 \<and> - (P div 2) \<le> P * k"
  then have "P * k < P * 1" "P * (-1) < P * k" by linarith+
  with P show "k = 0" by (simp only: mult_less_cancel_left_pos)
qed simp

lemma span_fits_grid:
  assumes "0 < P" and "g_starttime t = s0 + P * a" and "g_endtime t = s0 + P * (a + n - 1)"
  shows "span_fits (grid_rate P) (-1) (s0 + P * b) (s0 + P * (b + m - 1)) t =
    (if b = a + n then Some AtEnd else if a = b + m then Some AtBeginning else None)"
proof -
  have "s0 + P * b - g_endtime t - P = P * (b - (a + n))" "g_starttime t - (s0 + P * (b + m - 1)) - P = P * (a - (b + m))"
    using assms by (simp_all add: algebra_simps)
  then show ?thesis
    unfolding span_fits_def Let_def hpdelta_grid [OF assms(1)] hptimetol_grid [OF assms(1)]
    by (simp only: within_tolerance [OF assms(1)]) simp
qed

section \<open>What adding a record does to the points\<close>

lemma findadjacent_some:
  "mst_findadjacent ts dq net sta loc chan sr srtol st et tol = Some (k, w) \<Longrightarrow>
     k < length ts \<and> span_fits sr tol st et (ts ! k) = Some w \<and> rate_fits sr srtol (ts ! k) \<and> names_fit dq net sta loc chan (ts ! k)"
  by (induction ts arbitrary: k) (auto simp: Let_def split: option.splits if_splits)

lemma points_update:
  assumes "k < length ss" and "seg_points s = seg_points (ss ! k) + p"
  shows "points (ss[k := s]) = points ss + p"
proof -
  have "points (take k ss @ ss ! k # drop (Suc k) ss) = points ss" using id_take_nth_drop [OF assms(1)] by simp
  then show ?thesis using assms by (simp add: upd_conv_take_nth_drop ac_simps)
qed

lemma addmsr_grid:
  assumes t: "trace_ok P s0 c h t" and r: "rec_ok P s0 c h r" and c: "ms_samplesize c \<noteq> 0" and P: "0 < P" "HPTERROR < s0"
    and fits: "span_fits (grid_rate P) (-1) (m_starttime r) (ms_endtime [] r) t = Some w"
  shows "\<exists>t'. mst_addmsr [] t r w = Some t' \<and> trace_ok P s0 c h t' \<and>
    seg_points (grid_seg P s0 t') = seg_points (grid_seg P s0 t) + seg_points (rec_seg P s0 r)"
proof -
  obtain a where a: "grid_seg P s0 t = (a, g_samples t)" "g_starttime t = s0 + P * int a"
      "g_endtime t = s0 + P * (int a + int (length (g_samples t)) - 1)" "g_samplecnt t = int (length (g_samples t))" "g_samples t \<noteq> []"
    using t P(1) grid_index [of P s0 t] unfolding trace_ok_def by metis
  obtain b where b: "rec_seg P s0 r = (b, m_samples r)" "m_starttime r = s0 + P * int b"
      "m_samplecnt r = int (length (m_samples r))" "m_samples r \<noteq> []"
    using rec_index [OF r P(1)] .
  have e: "ms_endtime [] r = s0 + P * (int b + int (length (m_samples r)) - 1)"
    using rec_endtime [OF r P(1)] b(2) by (simp add: algebra_simps)
  have "0 \<le> P * (int b + int (length (m_samples r)) - 1)" using b(4) P(1) by (cases "m_samples r") auto
  then have ne: "ms_endtime [] r \<noteq> HPTERROR" using e P(2) by linarith
  define t' where "t' = the (mst_addmsr [] t r w)"
  have k: "g_sampletype t = c" "m_sampletype r = c" "g_dataquality t = 0" using t r by (auto simp: trace_ok_def rec_ok_def)
  have some: "mst_addmsr [] t r w = Some t'" using k c ne by (simp add: t'_def mst_addmsr_def Let_def)
  have fields: "same_ids t' h" "g_samprate t' = grid_rate P" "g_sampletype t' = c" "g_dataquality t' = 0"
      "g_samplecnt t' = int (length (g_samples t) + length (m_samples r))"
    using some k c ne t a(4) b(3) by (auto simp: mst_addmsr_def Let_def trace_ok_def same_ids_def add_samples_def split: whence.splits)
  from fits have "w = AtEnd \<and> int b = int a + int (length (g_samples t)) \<or>
      w = AtBeginning \<and> int a = int b + int (length (m_samples r))"
    unfolding e b(2) span_fits_grid [OF P(1) a(2,3)] by (auto split: if_splits)
  then show ?thesis
  proof
    assume w: "w = AtEnd \<and> int b = int a + int (length (g_samples t))"
    then have f: "g_samples t' = g_samples t @ m_samples r" "g_starttime t' = s0 + P * int a" "g_endtime t' = ms_endtime [] r"
      using some k c ne a(2) by (auto simp: mst_addmsr_def Let_def add_samples_def)
    have "on_grid P s0 t'" using f fields(5) w a(5) P(1) unfolding on_grid_def e by (simp add: algebra_simps)
    moreover have "grid_seg P s0 t' = (a, g_samples t @ m_samples r)" using f P(1) by (simp add: grid_seg_def)
    moreover have "b = a + length (g_samples t)" using w by simp
    ultimately show ?thesis using some fields a(1) b(1) by (auto simp: trace_ok_def seg_points_append)
  next
    assume w: "w = AtBeginning \<and> int a = int b + int (length (m_samples r))"
    then have f: "g_samples t' = m_samples r @ g_samples t" "g_starttime t' = s0 + P * int b" "g_endtime t' = g_endtime t"
      using some k c b(2) by (auto simp: mst_addmsr_def Let_def add_samples_def)
    have "on_grid P s0 t'" using f fields(5) w a(3,5) P(1) unfolding on_grid_def by (simp add: algebra_simps)
    moreover have "grid_seg P s0 t' = (b, m_samples r @ g_samples t)" using f P(1) by (simp add: grid_seg_def)
    moreover have "a = b + length (m_samples r)" using w by simp
    ultimately show ?thesis using some fields a(1) b(1) by (auto simp: trace_ok_def seg_points_append)
  qed
qed

lemma newmsr_grid:
  assumes r: "rec_ok P s0 c h r" and c: "ms_samplesize c \<noteq> 0" and P: "0 < P" "HPTERROR < s0"
  shows "\<exists>t'. mst_addmsr [] (new_mst 0 r) r AtEnd = Some t' \<and> trace_ok P s0 c h t' \<and> grid_seg P s0 t' = rec_seg P s0 r"
proof -
  have e: "ms_endtime [] r = m_starttime r + P * (int (length (m_samples r)) - 1)" using rec_endtime [OF r P(1)] .
  have "0 \<le> P * (int (length (m_samples r)) - 1)" using r P(1) by (cases "m_samples r") (auto simp: rec_ok_def)
  then have "ms_endtime [] r \<noteq> HPTERROR" using e P(2) r by (auto simp: rec_ok_def)
  then show ?thesis
    using r c e by (simp add: mst_addmsr_def new_mst_def mst_init_def Let_def add_samples_def trace_ok_def rec_ok_def on_grid_def
        same_ids_def grid_seg_def rec_seg_def)
qed

lemma addmsrtogroup_grid:
  assumes ts: "\<forall>t\<in>set (traces g). trace_ok P s0 c h t" and r: "rec_ok P s0 c h r" and c: "ms_samplesize c \<noteq> 0"
    and P: "0 < P" "HPTERROR < s0"
  defines "g' \<equiv> fst (mst_addmsrtogroup [] g r False (-1) (-1))"
  shows "(\<forall>t\<in>set (traces g'). trace_ok P s0 c h t) \<and> length (traces g') \<le> Suc (length (traces g)) \<and>
    numtraces g' - int (length (traces g')) = numtraces g - int (length (traces g)) \<and>
    points (map (grid_seg P s0) (traces g')) = points (map (grid_seg P s0) (traces g)) + seg_points (rec_seg P s0 r)"
proof -
  let ?find = "mst_findadjacent (traces g) 0 (m_network r) (m_station r) (m_location r) (m_channel r) (m_samprate r) (-1)
    (m_starttime r) (ms_endtime [] r) (-1)"
  have "ms_endtime [] r \<noteq> HPTERROR"
    using newmsr_grid [OF r c P] by (auto simp: mst_addmsr_def split: if_splits)
  moreover have "\<not> (m_samplecnt r \<le> 0 \<or> m_samprate r \<le> 0)" "m_samprate r = grid_rate P"
    using r P(1) by (auto simp: rec_ok_def grid_rate_def HPTMODULUS_def)
  ultimately show ?thesis
  proof (cases ?find)
    case None
    obtain t' where "mst_addmsr [] (new_mst 0 r) r AtEnd = Some t'" "trace_ok P s0 c h t'" "grid_seg P s0 t' = rec_seg P s0 r"
      using newmsr_grid [OF r c P] by blast
    with None \<open>ms_endtime [] r \<noteq> HPTERROR\<close> ts show ?thesis
      by (simp add: g'_def mst_addmsrtogroup_def mst_addtracetogroup_def Let_def)
  next
    case (Some kw)
    then obtain k w where kw: "?find = Some (k, w)" by (cases kw) auto
    from findadjacent_some [OF kw] have k: "k < length (traces g)" "span_fits (grid_rate P) (-1) (m_starttime r) (ms_endtime [] r) (traces g ! k) = Some w"
      using \<open>m_samprate r = grid_rate P\<close> by simp_all
    obtain t' where t': "mst_addmsr [] (traces g ! k) r w = Some t'" "trace_ok P s0 c h t'"
        "seg_points (grid_seg P s0 t') = seg_points (grid_seg P s0 (traces g ! k)) + seg_points (rec_seg P s0 r)"
      using addmsr_grid [OF _ r c P k(2)] ts k(1) by auto
    have "g' = g\<lparr>traces := (traces g)[k := t']\<rparr>"
      using kw t'(1) \<open>ms_endtime [] r \<noteq> HPTERROR\<close> \<open>\<not> (m_samplecnt r \<le> 0 \<or> m_samprate r \<le> 0)\<close>
      by (simp add: g'_def mst_addmsrtogroup_def Let_def)
    then show ?thesis
      using ts t'(2,3) k(1) points_update [of k "map (grid_seg P s0) (traces g)" "grid_seg P s0 t'"]
      by (auto simp: map_update dest: set_update_subset_insert [THEN subsetD])
  qed
qed

lemma fold_addmsr_grid:
  assumes "\<forall>t\<in>set (traces g). trace_ok P s0 c h t" and "\<forall>r\<in>set recs. rec_ok P s0 c h r" and c: "ms_samplesize c \<noteq> 0"
    and P: "0 < P" "HPTERROR < s0"
  defines "g' \<equiv> fold (\<lambda>msr g. fst (mst_addmsrtogroup [] g msr False (-1) (-1))) recs g"
  shows "(\<forall>t\<in>set (traces g'). trace_ok P s0 c h t) \<and> length (traces g') \<le> length recs + length (traces g) \<and>
    numtraces g' - int (length (traces g')) = numtraces g - int (length (traces g)) \<and>
    points (map (grid_seg P s0) (traces g')) = points (map (grid_seg P s0) (traces g)) + points (map (rec_seg P s0) recs)"
  using assms(1,2) unfolding g'_def
proof (induction recs arbitrary: g)
  case (Cons r recs)
  have *: "rec_ok P s0 c h r" using Cons.prems(2) by simp
  note r = addmsrtogroup_grid [OF Cons.prems(1) * c P]
  show ?case using Cons.IH [of "fst (mst_addmsrtogroup [] g r False (-1) (-1))"] r Cons.prems(2) by (auto simp: ac_simps)
qed simp

section \<open>What healing does to the points\<close>

lemma heal_delta_grid: "g_samprate t = grid_rate P \<Longrightarrow> 0 < P \<Longrightarrow> heal_delta t = of_int P / of_int HPTMODULUS"
  by (simp add: heal_delta_def grid_rate_def HPTMODULUS_def)

definition grid_tol :: "int \<Rightarrow> real" where
  "grid_tol P = 1 / 2 * (of_int P / of_int HPTMODULUS)"

lemma heal_within:
  assumes "0 < P"
  shows "\<bar>of_int (P * k) / of_int HPTMODULUS\<bar> \<le> grid_tol P \<longleftrightarrow> k = 0"
proof -
  have "\<bar>of_int (P * k) / of_int HPTMODULUS\<bar> \<le> grid_tol P \<longleftrightarrow> of_int P * \<bar>real_of_int k\<bar> \<le> of_int P * (1 / 2)"
    using assms by (simp add: grid_tol_def HPTMODULUS_def abs_mult field_simps)
  also have "\<dots> \<longleftrightarrow> \<bar>real_of_int k\<bar> \<le> 1 / 2" using assms by (simp only: mult_le_cancel_left_pos of_int_0_less_iff)
  also have "\<dots> \<longleftrightarrow> k = 0" by linarith
  finally show ?thesis .
qed

lemma heal_fits_grid:
  assumes "0 < P" and "g_samprate cur = grid_rate P" and "g_starttime cur = s0 + P * a" and "g_endtime cur = s0 + P * (a + n - 1)"
    and "g_starttime t = s0 + P * b" and "g_endtime t = s0 + P * (b + m - 1)"
  shows "heal_fits (grid_tol P) t cur = (if b = a + n then Some AtEnd else if a = b + m then Some AtBeginning else None)"
proof -
  have "of_int (g_starttime t - g_endtime cur) / of_int HPTMODULUS - heal_delta cur = real_of_int (P * (b - (a + n))) / of_int HPTMODULUS"
    "of_int (g_starttime cur - g_endtime t) / of_int HPTMODULUS - heal_delta cur = real_of_int (P * (a - (b + m))) / of_int HPTMODULUS"
    unfolding heal_delta_grid [OF assms(2,1)] assms(3-6) diff_divide_distrib [symmetric] of_int_diff [symmetric]
    by (simp_all add: algebra_simps)
  then show ?thesis unfolding heal_fits_def Let_def by (simp only: heal_within [OF assms(1)]) simp
qed

text \<open>The place of a trace on the grid, and the first place after it.\<close>

definition seg_from :: "int \<Rightarrow> int \<Rightarrow> 'd mstrace \<Rightarrow> nat" where
  "seg_from P s0 t = fst (grid_seg P s0 t)"

definition seg_to :: "int \<Rightarrow> int \<Rightarrow> 'd mstrace \<Rightarrow> nat" where
  "seg_to P s0 t = seg_from P s0 t + length (g_samples t)"

lemma trace_place:
  assumes "trace_ok P s0 c h t" and "0 < P"
  shows "g_starttime t = s0 + P * int (seg_from P s0 t)"
    and "g_endtime t = s0 + P * (int (seg_from P s0 t) + int (length (g_samples t)) - 1)"
    and "grid_seg P s0 t = (seg_from P s0 t, g_samples t)" and "seg_from P s0 t < seg_to P s0 t"
proof -
  obtain a where a: "grid_seg P s0 t = (a, g_samples t)" "g_starttime t = s0 + P * int a"
      "g_endtime t = s0 + P * (int a + g_samplecnt t - 1)" "g_samplecnt t = int (length (g_samples t))" "g_samples t \<noteq> []"
    using assms grid_index [of P s0 t] unfolding trace_ok_def by metis
  then show "g_starttime t = s0 + P * int (seg_from P s0 t)"
    "g_endtime t = s0 + P * (int (seg_from P s0 t) + int (length (g_samples t)) - 1)"
    "grid_seg P s0 t = (seg_from P s0 t, g_samples t)" "seg_from P s0 t < seg_to P s0 t"
    by (simp_all add: seg_from_def seg_to_def)
qed

lemma heal_candidate_grid: "trace_ok P s0 c h t \<Longrightarrow> trace_ok P s0 c h cur \<Longrightarrow> 0 < P \<Longrightarrow> heal_candidate (-1) t cur"
  by (simp add: heal_candidate_def trace_ok_def same_ids_def MS_ISRATETOLERABLE_def grid_rate_def HPTMODULUS_def)

lemma heal_fits_ok:
  assumes "trace_ok P s0 c h t" and "trace_ok P s0 c h cur" and "0 < P"
  shows "heal_fits (grid_tol P) t cur =
    (if seg_from P s0 t = seg_to P s0 cur then Some AtEnd else if seg_from P s0 cur = seg_to P s0 t then Some AtBeginning else None)"
proof -
  have "g_samprate cur = grid_rate P" using assms(2) by (simp add: trace_ok_def)
  from heal_fits_grid [OF assms(3) this trace_place(1,2) [OF assms(2,3)] trace_place(1,2) [OF assms(1,3)]]
  show ?thesis by (simp add: seg_to_def flip: of_nat_add)
qed

lemma heal_merge_end:
  assumes t: "trace_ok P s0 c h t" and cur: "trace_ok P s0 c h cur" and P: "0 < P" and c: "ms_samplesize c \<noteq> 0"
    and fits: "seg_from P s0 t = seg_to P s0 cur"
  shows "trace_ok P s0 c h (heal_merge AtEnd t cur)" and "seg_from P s0 (heal_merge AtEnd t cur) = seg_from P s0 cur"
    and "seg_to P s0 (heal_merge AtEnd t cur) = seg_to P s0 t"
    and "seg_points (grid_seg P s0 (heal_merge AtEnd t cur)) = seg_points (grid_seg P s0 cur) + seg_points (grid_seg P s0 t)"
proof -
  note a = trace_place [OF cur P] and b = trace_place [OF t P]
  let ?m = "heal_merge AtEnd t cur"
  have k: "g_sampletype t = c" "g_sampletype cur = c" "g_dataquality t = 0" "g_dataquality cur = 0" "g_samples t \<noteq> []" "same_ids cur h"
      "g_samprate cur = grid_rate P" "g_samplecnt cur = int (length (g_samples cur))"
    using t cur by (auto simp: trace_ok_def on_grid_def)
  have m: "g_samples ?m = g_samples cur @ g_samples t" "g_starttime ?m = g_starttime cur" "g_endtime ?m = g_endtime t"
      "same_ids ?m h" "g_samprate ?m = grid_rate P" "g_sampletype ?m = c" "g_dataquality ?m = 0"
      "g_samplecnt ?m = int (length (g_samples cur)) + int (length (g_samples t))"
    using k c by (simp_all add: heal_merge_def mst_addspan_def Let_def add_samples_def same_ids_def)
  show from_: "seg_from P s0 ?m = seg_from P s0 cur" by (simp add: seg_from_def grid_seg_def m)
  show "seg_to P s0 ?m = seg_to P s0 t" using fits by (simp add: seg_to_def from_ m)
  have s: "grid_seg P s0 ?m = (seg_from P s0 cur, g_samples cur @ g_samples t)" using from_ by (simp add: grid_seg_def seg_from_def m)
  then show "seg_points (grid_seg P s0 ?m) = seg_points (grid_seg P s0 cur) + seg_points (grid_seg P s0 t)"
    using fits by (simp add: seg_points_append a(3) b(3) seg_to_def)
  have "on_grid P s0 ?m"
    using k(5) P fits unfolding on_grid_def m a(1) b(2) by (simp add: seg_to_def algebra_simps)
  then show "trace_ok P s0 c h ?m" using m by (simp add: trace_ok_def)
qed

lemma heal_tol_grid:
  assumes "tol = -1 \<or> tol = grid_tol P" and "trace_ok P s0 c h cur" and "0 < P"
  shows "heal_tol tol cur = grid_tol P"
  using assms by (auto simp: heal_tol_def heal_delta_grid trace_ok_def grid_tol_def HPTMODULUS_def)

lemma heal_search_before:
  assumes "\<forall>t\<in>set ts. trace_ok P s0 c h t \<and> seg_from P s0 t \<le> seg_from P s0 cur \<and> seg_to P s0 t \<noteq> seg_from P s0 cur"
    and cur: "trace_ok P s0 c h cur" and P: "0 < P" and "tol = -1 \<or> tol = grid_tol P"
  shows "heal_search (-1) ts cur tol = (ts, cur, if ts = [] then tol else grid_tol P)"
  using assms(1,4)
proof (induction ts arbitrary: tol)
  case (Cons t ts)
  then have "heal_fits (grid_tol P) t cur = None"
    using heal_fits_ok [of P s0 c h t cur] trace_place(4) [OF cur P] cur P by auto
  then show ?case
    using Cons heal_tol_grid [OF Cons.prems(2) cur P] heal_candidate_grid [OF _ cur P, of t] by simp
qed simp

lemma heal_search_after:
  assumes "\<forall>t\<in>set ts. trace_ok P s0 c h t \<and> seg_from P s0 cur \<le> seg_from P s0 t" and "sorted (map (seg_from P s0) ts)"
    and "trace_ok P s0 c h cur" and P: "0 < P" and c: "ms_samplesize c \<noteq> 0" and "tol = -1 \<or> tol = grid_tol P"
  shows "\<exists>ts' cur' tol'. heal_search (-1) ts cur tol = (ts', cur', tol') \<and> (tol' = -1 \<or> tol' = grid_tol P) \<and>
    trace_ok P s0 c h cur' \<and> seg_from P s0 cur' = seg_from P s0 cur \<and> set ts' \<subseteq> set ts \<and> sorted (map (seg_from P s0) ts') \<and>
    points (map (grid_seg P s0) (cur' # ts')) = points (map (grid_seg P s0) (cur # ts)) \<and>
    (\<forall>t\<in>set ts'. seg_from P s0 t \<noteq> seg_to P s0 cur') \<and>
    (seg_to P s0 cur' = seg_to P s0 cur \<or> (\<exists>e\<in>set ts. seg_from P s0 e < seg_to P s0 cur'))"
  using assms(1-3,6)
proof (induction ts arbitrary: cur tol)
  case (Cons t ts)
  have t: "trace_ok P s0 c h t" "seg_from P s0 cur \<le> seg_from P s0 t" "\<forall>e\<in>set ts. seg_from P s0 t \<le> seg_from P s0 e"
    using Cons.prems(1,2) by auto
  note simps = heal_candidate_grid [OF t(1) Cons.prems(3) P] heal_tol_grid [OF Cons.prems(4,3) P]
    heal_fits_ok [OF t(1) Cons.prems(3) P]
  show ?case
  proof (cases "seg_from P s0 t = seg_to P s0 cur")
    case True
    let ?m = "heal_merge AtEnd t cur"
    note m = heal_merge_end [OF t(1) Cons.prems(3) P c True]
    from m(2) Cons.prems(1,2) Cons.IH [of ?m "grid_tol P", OF _ _ m(1)] obtain ts' cur' tol' where
      IH: "heal_search (-1) ts ?m (grid_tol P) = (ts', cur', tol')" "tol' = -1 \<or> tol' = grid_tol P" "trace_ok P s0 c h cur'"
        "seg_from P s0 cur' = seg_from P s0 cur" "set ts' \<subseteq> set ts" "sorted (map (seg_from P s0) ts')"
        "points (map (grid_seg P s0) (cur' # ts')) = points (map (grid_seg P s0) (?m # ts))"
        "\<forall>t\<in>set ts'. seg_from P s0 t \<noteq> seg_to P s0 cur'"
        "seg_to P s0 cur' = seg_to P s0 ?m \<or> (\<exists>e\<in>set ts. seg_from P s0 e < seg_to P s0 cur')"
      by auto
    have "points (map (grid_seg P s0) (cur' # ts')) = points (map (grid_seg P s0) (cur # t # ts))"
      using IH(7) m(4) by (simp add: ac_simps)
    moreover have "\<exists>e\<in>set (t # ts). seg_from P s0 e < seg_to P s0 cur'"
      using IH(9) m(3) trace_place(4) [OF t(1) P] by auto
    moreover have "heal_search (-1) (t # ts) cur tol = (ts', cur', tol')" using True IH(1) simps by simp
    moreover have "set ts' \<subseteq> set (t # ts)" using IH(5) by auto
    ultimately show ?thesis using IH(2,3,4,6,8) by blast
  next
    case False
    have "seg_from P s0 cur \<noteq> seg_to P s0 t" using t(2) trace_place(4) [OF t(1) P] by simp
    with False simps have s: "heal_search (-1) (t # ts) cur tol = apfst (Cons t) (heal_search (-1) ts cur (grid_tol P))" by simp
    from Cons.prems(1,2) Cons.IH [of cur "grid_tol P", OF _ _ Cons.prems(3)] obtain ts' cur' tol' where
      IH: "heal_search (-1) ts cur (grid_tol P) = (ts', cur', tol')" "tol' = -1 \<or> tol' = grid_tol P" "trace_ok P s0 c h cur'"
        "seg_from P s0 cur' = seg_from P s0 cur" "set ts' \<subseteq> set ts" "sorted (map (seg_from P s0) ts')"
        "points (map (grid_seg P s0) (cur' # ts')) = points (map (grid_seg P s0) (cur # ts))"
        "\<forall>t\<in>set ts'. seg_from P s0 t \<noteq> seg_to P s0 cur'"
        "seg_to P s0 cur' = seg_to P s0 cur \<or> (\<exists>e\<in>set ts. seg_from P s0 e < seg_to P s0 cur')"
      by auto
    have "seg_from P s0 t \<noteq> seg_to P s0 cur'" using IH(9) False t(3) by fastforce
    moreover have "points (map (grid_seg P s0) (cur' # t # ts')) = points (map (grid_seg P s0) (cur # t # ts))"
      using IH(7) by (simp add: ac_simps add.left_commute)
    moreover have "sorted (map (seg_from P s0) (t # ts'))" using IH(5,6) t(3) by auto
    ultimately have "heal_search (-1) (t # ts) cur tol = (t # ts', cur', tol') \<and> set (t # ts') \<subseteq> set (t # ts) \<and>
        sorted (map (seg_from P s0) (t # ts')) \<and> points (map (grid_seg P s0) (cur' # t # ts')) = points (map (grid_seg P s0) (cur # t # ts)) \<and>
        (\<forall>u\<in>set (t # ts'). seg_from P s0 u \<noteq> seg_to P s0 cur') \<and>
        (seg_to P s0 cur' = seg_to P s0 cur \<or> (\<exists>e\<in>set (t # ts). seg_from P s0 e < seg_to P s0 cur'))"
      using s IH(1,5,8,9) by auto
    then show ?thesis using IH(2,3,4) by blast
  qed
qed auto

text \<open>A chain in order of which the first traces have no successor anywhere in the chain.\<close>

definition healed :: "int \<Rightarrow> int \<Rightarrow> 'd mstrace list \<Rightarrow> 'd mstrace list \<Rightarrow> bool" where
  "healed P s0 ds ts \<longleftrightarrow> (\<forall>x\<in>set ds. \<forall>y\<in>set ts. seg_to P s0 x \<noteq> seg_from P s0 y)"

lemma heal_loop_grid:
  assumes "\<forall>t\<in>set (ds @ ts). trace_ok P s0 c h t" and "sorted (map (seg_from P s0) (ds @ ts))" and "healed P s0 ds (ds @ ts)"
    and P: "0 < P" and c: "ms_samplesize c \<noteq> 0" and "tol = -1 \<or> tol = grid_tol P"
  defines "rs \<equiv> heal_loop (-1) ds ts tol"
  shows "(\<forall>t\<in>set rs. trace_ok P s0 c h t) \<and> sorted (map (seg_from P s0) rs) \<and> healed P s0 rs rs \<and>
    points (map (grid_seg P s0) rs) = points (map (grid_seg P s0) (ds @ ts)) \<and> length rs \<le> length (ds @ ts)"
  using assms(1-3,6) unfolding rs_def
proof (induction "length ts" arbitrary: ds ts tol rule: less_induct)
  case less
  show ?case
  proof (cases ts)
    case Nil
    then show ?thesis using less.prems by simp
  next
    case (Cons cur rest)
    have cur: "trace_ok P s0 c h cur" using less.prems(1) Cons by simp
    have "\<forall>t\<in>set ds. trace_ok P s0 c h t \<and> seg_from P s0 t \<le> seg_from P s0 cur \<and> seg_to P s0 t \<noteq> seg_from P s0 cur"
      using less.prems(1-3) Cons by (auto simp: sorted_append healed_def)
    from heal_search_before [OF this cur P less.prems(4)] obtain tol1 where
      b: "heal_search (-1) ds cur tol = (ds, cur, tol1)" "tol1 = -1 \<or> tol1 = grid_tol P" using less.prems(4) by auto
    have "\<forall>t\<in>set rest. trace_ok P s0 c h t \<and> seg_from P s0 cur \<le> seg_from P s0 t" "sorted (map (seg_from P s0) rest)"
      using less.prems(1,2) Cons by (auto simp: sorted_append)
    from heal_search_after [OF this cur P c b(2)] obtain rest' cur' tol' where
      a: "heal_search (-1) rest cur tol1 = (rest', cur', tol')" "tol' = -1 \<or> tol' = grid_tol P" "trace_ok P s0 c h cur'"
        "seg_from P s0 cur' = seg_from P s0 cur" "set rest' \<subseteq> set rest" "sorted (map (seg_from P s0) rest')"
        "points (map (grid_seg P s0) (cur' # rest')) = points (map (grid_seg P s0) (cur # rest))"
        "\<forall>t\<in>set rest'. seg_from P s0 t \<noteq> seg_to P s0 cur'"
      by blast
    have len: "length rest' \<le> length rest" using heal_search_length [of "-1" rest cur tol1] a(1) by simp
    let ?ds = "ds @ [cur']"
    have ok: "\<forall>t\<in>set (?ds @ rest'). trace_ok P s0 c h t" using less.prems(1) a(3,5) Cons by auto
    have so: "sorted (map (seg_from P s0) (?ds @ rest'))"
      using less.prems(2) a(4-6) Cons by (fastforce simp: sorted_append)
    have "seg_to P s0 cur' \<noteq> seg_from P s0 y" if "y \<in> set (?ds @ rest')" for y
    proof (cases "y \<in> set rest'")
      case False
      then have "seg_from P s0 y \<le> seg_from P s0 cur'" using that so by (auto simp: sorted_append)
      then show ?thesis using trace_place(4) [OF a(3) P] by simp
    qed (use a(8) in auto)
    moreover have "seg_to P s0 x \<noteq> seg_from P s0 y" if "x \<in> set ds" "y \<in> set (?ds @ rest')" for x y
      using that less.prems(3) a(4,5) Cons by (auto simp: healed_def)
    ultimately have he: "healed P s0 ?ds (?ds @ rest')" by (auto simp: healed_def)
    have "heal_loop (-1) ds ts tol = heal_loop (-1) ?ds rest' tol'" using Cons a(1) b(1) by simp
    moreover have "points (map (grid_seg P s0) (?ds @ rest')) = points (map (grid_seg P s0) (ds @ ts))"
      using a(7) Cons by simp
    ultimately show ?thesis
      using less.hyps [OF _ ok so he a(2)] len Cons by auto
  qed
qed

section \<open>The functions that the reader calls\<close>

definition segments_of :: "'d mstg \<Rightarrow> 'd mstrace list option" where
  "segments_of g =
     Option.bind (mst_groupsort False g) (\<lambda>g. map_option (\<lambda>(g, _). traces g) (mst_groupheal g (-1) (-1)))"

definition libmseed :: "int list \<Rightarrow> (cstr \<Rightarrow> 'd msfile) \<Rightarrow> (cstr \<Rightarrow> int \<Rightarrow> 'd msrecord option) \<Rightarrow> ('d, 'd mstg) mslib" where
  "libmseed leaps rd rd_at =
     \<lparr>readmsr = rd,
      readtraces = (\<lambda>fn. let (g, ret) = ms_readtraces leaps rd fn (-1) (-1) False in if ret = MS_NOERROR then Some g else None),
      readmsr_at = rd_at,
      initgroup = mst_initgroup,
      addmsrtogroup = (\<lambda>g msr timetol sampratetol.
         let (g, mst) = mst_addmsrtogroup leaps g msr False timetol sampratetol in if mst = None then None else Some g),
      group_traces = segments_of,
      msr_endtime = ms_endtime leaps\<rparr>"

lemma trace_ok_order:
  assumes "trace_ok P s0 c h a" and "trace_ok P s0 c h b" and "comes_before q a b"
  shows "g_starttime a \<le> g_starttime b"
  using assms by (auto simp: comes_before_def trace_ok_def same_ids_def mst_srcname_def)

lemma groupsort_grid:
  assumes "\<forall>t\<in>set (traces g). trace_ok P s0 c h t" and "length (traces g) \<le> 2 ^ 30"
  shows "\<exists>g'. mst_groupsort q g = Some g' \<and> mset (traces g') = mset (traces g) \<and> sorted (map g_starttime (traces g')) \<and>
    numtraces g' = numtraces g"
proof -
  have "\<forall>t\<in>set (traces g). g_samprate t = grid_rate P" using assms(1) by (auto simp: trace_ok_def)
  from groupsort_order [OF this assms(2), of q] obtain g' where g': "mst_groupsort q g = Some g'"
      "mset (traces g') = mset (traces g)" "sorted_wrt (comes_before q) (traces g')" "numtraces g' = numtraces g"
    by blast
  have "\<forall>t\<in>set (traces g'). trace_ok P s0 c h t" using assms(1) mset_eq_setD [OF g'(2)] by simp
  then have "sorted (map g_starttime (traces g'))"
    unfolding sorted_map using sorted_wrt_mono_rel [OF _ g'(3), of "\<lambda>x y. g_starttime x \<le> g_starttime y"] trace_ok_order by blast
  then show ?thesis using g' by blast
qed

lemma sorted_places:
  assumes "\<forall>t\<in>set ts. trace_ok P s0 c h t" and "0 < P"
  shows "sorted (map g_starttime ts) \<longleftrightarrow> sorted (map (seg_from P s0) ts)"
  using assms(1)
proof (induction ts)
  case (Cons t ts)
  have "g_starttime t \<le> g_starttime u \<longleftrightarrow> seg_from P s0 t \<le> seg_from P s0 u" if "u \<in> set ts" for u
    using Cons.prems that assms(2) trace_place(1) [of P s0 c h t] trace_place(1) [of P s0 c h u] by simp
  then show ?case using Cons by auto
qed simp

lemma segments_grid:
  assumes ts: "\<forall>t\<in>set (traces g). trace_ok P s0 c h t" and len: "length (traces g) \<le> 2 ^ 30"
    and P: "0 < P" and c: "ms_samplesize c \<noteq> 0"
  shows "\<exists>rs. segments_of g = Some rs \<and> (\<forall>t\<in>set rs. trace_ok P s0 c h t) \<and> sorted (map g_starttime rs) \<and> healed P s0 rs rs \<and>
    points (map (grid_seg P s0) rs) = points (map (grid_seg P s0) (traces g))"
proof -
  obtain g1 where g1: "mst_groupsort False g = Some g1" "mset (traces g1) = mset (traces g)"
    using groupsort_grid [OF ts len] by blast
  have "set (traces g1) = set (traces g)" "length (traces g1) = length (traces g)"
    using mset_eq_setD [OF g1(2)] mset_eq_length [OF g1(2)] .
  then obtain g2 where g2: "mst_groupsort True g1 = Some g2" "mset (traces g2) = mset (traces g1)" "sorted (map g_starttime (traces g2))"
    using groupsort_grid [of g1 P s0 c h True] ts len by auto
  have ok: "\<forall>t\<in>set (traces g2). trace_ok P s0 c h t" using ts mset_eq_setD [OF g1(2)] mset_eq_setD [OF g2(2)] by simp
  let ?rs = "heal_loop (-1) [] (traces g2) (-1)"
  have "(\<forall>t\<in>set ?rs. trace_ok P s0 c h t) \<and> sorted (map (seg_from P s0) ?rs) \<and> healed P s0 ?rs ?rs \<and>
      points (map (grid_seg P s0) ?rs) = points (map (grid_seg P s0) (traces g2))"
    using heal_loop_grid [of "[]" "traces g2" P s0 c h "-1"] ok g2(3) sorted_places [OF ok P] P c by (simp add: healed_def)
  moreover have "points (map (grid_seg P s0) (traces g2)) = points (map (grid_seg P s0) (traces g))"
    using g1(2) g2(2) by (intro points_mset) simp
  moreover have "segments_of g = Some ?rs" using g1(1) g2(1) by (simp add: segments_of_def mst_groupheal_def Let_def)
  ultimately show ?thesis using sorted_places [of ?rs P s0 c h] P by auto
qed

section \<open>Segments without overlaps\<close>

definition places :: "'d seg \<Rightarrow> nat list" where
  "places s = [fst s..<fst s + length (snd s)]"

lemma points_places: "mset (concat (map places ss)) = image_mset fst (points ss)"
proof (induction ss)
  case (Cons s ss)
  have "image_mset fst (seg_points s) = mset (places s)" by (simp add: seg_points_def places_def flip: mset_map)
  then show ?case using Cons by simp
qed simp

lemma seg_points_iff: "(k, x) \<in># seg_points (a, xs) \<longleftrightarrow> a \<le> k \<and> k < a + length xs \<and> xs ! (k - a) = x"
  by (force simp: seg_points_def set_zip)

lemma points_iff: "(k, x) \<in># points ss \<longleftrightarrow> (\<exists>s\<in>set ss. (k, x) \<in># seg_points s)"
  by (induction ss) auto

lemma places_iff: "k \<in> set (places s) \<longleftrightarrow> fst s \<le> k \<and> k < fst s + length (snd s)"
  by (auto simp: places_def)

lemma seg_at_place: "seg_at ss k = None \<longleftrightarrow> k \<notin> set (concat (map places ss))"
  by (induction ss k rule: seg_at.induct) (auto simp: places_iff)

lemma seg_at_point: "seg_at ss k = Some x \<Longrightarrow> (k, x) \<in># points ss"
  by (induction ss k rule: seg_at.induct) (auto simp: seg_points_iff split: if_splits)

lemma point_unique:
  assumes "distinct (concat (map places ss))" and "(k, x) \<in># points ss" and "(k, y) \<in># points ss"
  shows "x = y"
proof (rule ccontr)
  assume "x \<noteq> y"
  then have "{#(k, x), (k, y)#} \<subseteq># points ss" using assms(2,3) by (simp add: insert_subset_eq_iff in_diff_count)
  from image_mset_subseteq_mono [OF this, of fst] have "{#k, k#} \<subseteq># mset (concat (map places ss))"
    unfolding points_places by simp
  then have "count {#k, k#} k \<le> count (mset (concat (map places ss))) k" by (rule mset_subset_eq_count)
  moreover have "count (mset (concat (map places ss))) k \<le> 1" using assms(1) by (simp only: distinct_count_atmost_1) simp
  ultimately show False by simp
qed

lemma seg_at_unique:
  assumes "distinct (concat (map places ss))" and "(k, x) \<in># points ss"
  shows "seg_at ss k = Some x"
proof (cases "seg_at ss k")
  case None
  have "k \<in># mset (concat (map places ss))" unfolding points_places using assms(2) by force
  then show ?thesis using None seg_at_place [of ss k] by simp
next
  case (Some y)
  then show ?thesis using point_unique [OF assms seg_at_point [OF Some]] by simp
qed

lemma less_ends: "k < ends n ss \<longleftrightarrow> k < n \<or> (\<exists>s\<in>set ss. k < fst s + length (snd s))"
  by (induction ss arbitrary: n) (auto simp: ends_def split: prod.splits)

lemma less_ends_place:
  assumes "\<forall>s\<in>set ss. snd s \<noteq> []"
  shows "k < ends 0 ss \<longleftrightarrow> (\<exists>p\<in>set (concat (map places ss)). k \<le> p)"
proof
  assume "k < ends 0 ss"
  then obtain s where s: "s \<in> set ss" "k < fst s + length (snd s)" by (auto simp: less_ends)
  then have "fst s + length (snd s) - 1 \<in> set (places s)" using assms by (cases "snd s") (auto simp: places_iff)
  moreover have "k \<le> fst s + length (snd s) - 1" using s by simp
  ultimately show "\<exists>p\<in>set (concat (map places ss)). k \<le> p" using s(1) by auto
qed (force simp: less_ends places_iff)

lemma no_edge_disjoint:
  assumes "distinct (concat (map places ss))" and "sorted (map fst ss)" and "\<forall>s\<in>set ss. snd s \<noteq> []"
    and "\<forall>s\<in>set ss. n \<le> fst s"
  shows "no_edge n ss"
  using assms
proof (induction ss arbitrary: n)
  case (Cons s ss)
  obtain a xs where s: "s = (a, xs)" by (cases s)
  have "a + length xs \<le> fst u" if "u \<in> set ss" for u
  proof -
    have "fst u \<in> set (places u)" using that Cons.prems(3) by (auto simp: places_iff)
    then have "fst u \<notin> set (places s)" using that Cons.prems(1) by auto
    moreover have "a \<le> fst u" using that Cons.prems(2) s by auto
    ultimately show ?thesis by (auto simp: s places_iff)
  qed
  then have "no_edge (max n (a + length xs)) ss" using Cons by (intro Cons.IH) auto
  then show ?case using Cons.prems(4) s by simp
qed simp

section \<open>The samples of a file of records\<close>

lemma readtraces_grid:
  assumes "rd fn = (recs, MS_ENDOFFILE)" and "\<forall>r\<in>set recs. rec_ok P s0 c h r" and "0 < P" and "HPTERROR < s0" and "ms_samplesize c \<noteq> 0"
    and "length recs \<le> 2 ^ 30"
  shows "\<exists>g ts. readtraces (libmseed [] rd rd_at) fn = Some g \<and> group_traces (libmseed [] rd rd_at) g = Some ts \<and>
    (\<forall>t\<in>set ts. trace_ok P s0 c h t) \<and> sorted (map g_starttime ts) \<and> healed P s0 ts ts \<and>
    points (map (grid_seg P s0) ts) = points (map (rec_seg P s0) recs)"
proof -
  let ?g = "fold (\<lambda>msr g. fst (mst_addmsrtogroup [] g msr False (-1) (-1))) recs mst_initgroup"
  have g: "(\<forall>t\<in>set (traces ?g). trace_ok P s0 c h t) \<and> length (traces ?g) \<le> length recs \<and>
      points (map (grid_seg P s0) (traces ?g)) = points (map (rec_seg P s0) recs)"
    using fold_addmsr_grid [of mst_initgroup P s0 c h recs] assms(2-5) by (simp add: mst_initgroup_def)
  then have "length (traces ?g) \<le> 2 ^ 30" using assms(6) by linarith
  then obtain ts where "segments_of ?g = Some ts" "\<forall>t\<in>set ts. trace_ok P s0 c h t" "sorted (map g_starttime ts)" "healed P s0 ts ts"
      "points (map (grid_seg P s0) ts) = points (map (rec_seg P s0) recs)"
    using segments_grid [of ?g P s0 c h] g assms(3,5) by auto
  moreover have "readtraces (libmseed [] rd rd_at) fn = Some ?g" using assms(1) by (simp add: libmseed_def ms_readtraces_def Let_def)
  ultimately show ?thesis by (auto simp: libmseed_def)
qed

text \<open>
  C14: A file of the records of one channel, in any order, that do not overlap: \<^verbatim>\<open>get_mseed_trace\<close> with libmseed's
  trace groups succeeds, every sample of every record stands at the place of its time, and the gaps that are
  noted are exactly the places between without a sample.
\<close>

theorem mseed_records_any_order:
  fixes trace :: "'d::zero traceInfo" and recs :: "'d msrecord list"
  assumes src: "fileType trace = MSEED_DATA" "rd (fileName trace) = (recs, MS_ENDOFFILE)" "length recs \<le> 2 ^ 30"
    and recs: "\<forall>r\<in>set recs. rec_ok P s0 c (head trace) r" "\<exists>r\<in>set recs. m_starttime r = s0"
    and apart: "distinct (concat (map places (map (rec_seg P s0) recs)))"
    and P: "0 < P" "HPTERROR < s0" "ms_samplesize c \<noteq> 0" and trace: "sampInt (head trace) = of_int P" "gaps trace = []"
    and room: "room avail (dataSize (head trace)) (ends 0 (map (rec_seg P s0) recs))"
  shows "\<exists>res xs. get_mseed_trace (libmseed [] rd rd_at) avail trace mem = Some (Inr res) \<and> d_data (dataInfo res) = Some xs \<and>
    length xs = ends 0 (map (rec_seg P s0) recs) \<and>
    (\<forall>r\<in>set recs. \<forall>j<length (m_samples r). xs ! (fst (rec_seg P s0 r) + j) = m_samples r ! j) \<and>
    (\<forall>k<length xs. in_gap (pairs (gaps res)) (int k) \<longleftrightarrow> k \<notin> set (concat (map places (map (rec_seg P s0) recs))))"
proof -
  let ?ss = "map (rec_seg P s0) recs" and ?lib = "libmseed [] rd rd_at"
  obtain g ts where g: "readtraces ?lib (fileName trace) = Some g" "group_traces ?lib g = Some ts" and
      ts: "\<forall>t\<in>set ts. trace_ok P s0 c (head trace) t" "sorted (map g_starttime ts)" and
      pts: "points (map (grid_seg P s0) ts) = points ?ss"
    using readtraces_grid [of rd "fileName trace", OF src(2) recs(1) P src(3)] by blast
  let ?segs = "map (grid_seg P s0) ts"
  have pl: "mset (concat (map places ?segs)) = mset (concat (map places ?ss))" unfolding points_places pts ..
  have dis: "distinct (concat (map places ?segs))" using apart mset_eq_imp_distinct_iff [OF pl] by simp
  have set_pl: "set (concat (map places ?segs)) = set (concat (map places ?ss))" using mset_eq_setD [OF pl] .
  have ne: "\<forall>s\<in>set ?segs. snd s \<noteq> []" "\<forall>s\<in>set ?ss. snd s \<noteq> []"
    using ts(1) recs(1) by (auto simp: trace_ok_def on_grid_def grid_seg_def rec_ok_def rec_seg_def)
  have "ends 0 ?segs = ends 0 ?ss"
    using less_ends_place [OF ne(1)] less_ends_place [OF ne(2)] unfolding set_pl by (metis linorder_neqE_nat less_irrefl_nat)
  moreover have "0 \<in> set (concat (map places ?ss))" using recs by (force simp: rec_ok_def rec_seg_def places_iff)
  then obtain t where t: "t \<in> set ts" "seg_from P s0 t = 0" unfolding set_pl [symmetric] by (auto simp: places_iff seg_from_def)
  moreover have "sorted (map (seg_from P s0) ts)" using sorted_places [OF ts(1) P(1)] ts(2) by simp
  then have "seg_from P s0 (hd ts) = 0" using t by (cases ts) fastforce+
  then have s0: "g_starttime (hd ts) = s0" "ts \<noteq> []" using trace_place(1) [of P s0 c _ "hd ts"] ts(1) t(1) P(1) by (cases ts; auto)+
  moreover have "joinable trace P ts"
    using s0 ts P(1) trace by (auto simp: joinable_def trace_ok_def)
  moreover have "sorted (map fst ?segs)" using grid_seg_sorted [OF P(1) ts(2)] .
  then have "no_edge 0 ?segs" using no_edge_disjoint [OF dis _ ne(1)] by simp
  ultimately obtain res where res: "get_mseed_trace ?lib avail trace mem = Some (Inr res)"
      "d_data (dataInfo res) = Some (timeline ?segs (ends 0 ?ss))"
      "\<forall>k<ends 0 ?ss. in_gap (pairs (gaps res)) (int k) = (seg_at ?segs k = None)"
    using get_trace_joined [of trace ?lib g ts P avail mem] g src(1) room by (auto simp: hd_conv_nth)
  have "timeline ?segs (ends 0 ?ss) ! (fst (rec_seg P s0 r) + j) = m_samples r ! j"
    if "r \<in> set recs" "j < length (m_samples r)" for r j
  proof -
    have "(fst (rec_seg P s0 r) + j, m_samples r ! j) \<in># points ?segs"
      unfolding pts points_iff using that by (force simp: seg_points_iff rec_seg_def)
    moreover have "fst (rec_seg P s0 r) + j < ends 0 ?ss" using that by (force simp: less_ends rec_seg_def)
    ultimately show ?thesis using seg_at_unique [OF dis] by (simp add: timeline_def)
  qed
  then show ?thesis using res unfolding seg_at_place set_pl by (auto simp: timeline_def)
qed

text \<open>Two records of one channel at one sample a second, the later one first and after a gap of two seconds.\<close>

definition sec_record :: "int \<Rightarrow> int list \<Rightarrow> int msrecord" where
  "sec_record k xs = \<lparr>reclen = 512, m_network = [], m_station = [], m_location = [], m_channel = [], m_samprate = 1,
     m_samplecnt = int (length xs), m_encoding = 10, m_starttime = 1000000 * k, m_samples = xs,
     m_sampletype = 105, m_dataquality = 68, m_act_flags = 0\<rparr>"

lemma sec_record_ok: "0 \<le> k \<Longrightarrow> xs \<noteq> [] \<Longrightarrow> rec_ok 1000000 0 105 (head demo_single) (sec_record k xs)"
  by (simp add: rec_ok_def sec_record_def grid_rate_def HPTMODULUS_def demo_defs)

lemma sec_record_seg: "0 \<le> k \<Longrightarrow> rec_seg 1000000 0 (sec_record k xs) = (nat k, xs)"
  by (simp add: rec_seg_def sec_record_def)

theorem mseed_records_any_order_witness:
  "\<exists>res xs. get_mseed_trace (libmseed [] (\<lambda>fn. ([sec_record 5 [6, 7], sec_record 0 [1, 2, 3]], MS_ENDOFFILE)) (\<lambda>fn k. None)) 1000 demo_single 4 =
       Some (Inr res) \<and> d_data (dataInfo res) = Some xs \<and> length xs = 7 \<and> xs ! 0 = 1 \<and> xs ! 2 = 3 \<and> xs ! 6 = 7 \<and>
       in_gap (pairs (gaps res)) 4"
proof -
  let ?recs = "[sec_record 5 [6, 7], sec_record 0 [1, 2, 3]]"
  have segs: "map (rec_seg 1000000 0) ?recs = [(5, [6, 7]), (0, [1, 2, 3])]" by (simp add: sec_record_seg)
  have e: "ends 0 [(5, [6, 7]), (0, [1, 2, 3 :: int])] = 7" by (simp add: ends_def)
  have s: "\<exists>r\<in>set ?recs. m_starttime r = 0" "length ?recs \<le> 2 ^ 30" by (simp_all add: sec_record_def)
  have p: "concat (map places [(5, [6, 7]), (0, [1, 2, 3 :: int])]) = [5, 6, 0, 1, 2]" by (simp add: places_def upt_rec)
  have m: "m_samples (sec_record k xs) = xs" for k xs by (simp add: sec_record_def)
  obtain res xs where r: "get_mseed_trace (libmseed [] (\<lambda>fn. (?recs, MS_ENDOFFILE)) (\<lambda>fn k. None)) 1000 demo_single 4 = Some (Inr res)"
      "d_data (dataInfo res) = Some xs" "length xs = 7"
      "\<forall>r\<in>set ?recs. \<forall>j<length (m_samples r). xs ! (fst (rec_seg 1000000 0 r) + j) = m_samples r ! j"
      "\<forall>k<7. in_gap (pairs (gaps res)) (int k) \<longleftrightarrow> k \<notin> set [5, 6, 0, 1, 2]"
    using mseed_records_any_order [of demo_single "\<lambda>fn. (?recs, MS_ENDOFFILE)" ?recs 1000000 0 105 1000 "\<lambda>fn k. None" 4] s
    unfolding segs e p demo_single_fields
    by (force simp: sec_record_ok room_def HPTERROR_def ms_samplesize_def)
  have "xs ! (0 + 0) = 1" "xs ! (0 + 2) = 3" "xs ! (5 + 1) = 7"
    using r(4) by (simp_all add: sec_record_seg m All_less_Suc numeral_2_eq_2 numeral_3_eq_3)
  moreover have "in_gap (pairs (gaps res)) (int 4)" using r(5) [rule_format, of 4] by simp
  ultimately show ?thesis using r(1-3) by (auto simp: numeral_2_eq_2)
qed

theorem mst_groupsort_ends_witness:
  "\<exists>g'. mst_groupsort True \<lparr>numtraces = 2, traces = [demo_seg 5 [6, 7], demo_seg 0 [1, 2, 3]]\<rparr> = Some g' \<and>
     mset (traces g') = {#demo_seg 0 [1, 2, 3], demo_seg 5 [6, 7]#}"
  using mst_groupsort_ends [of "\<lparr>numtraces = 2, traces = [demo_seg 5 [6, 7], demo_seg 0 [1, 2, 3]]\<rparr>" True]
  by (auto simp: add_mset_commute)


lemma demo_seg_trace_ok: "0 \<le> k \<Longrightarrow> xs \<noteq> [] \<Longrightarrow> trace_ok 1000000 0 105 (head demo_single) (demo_seg k xs)"
  using demo_seg_grid [of k xs] by (simp add: trace_ok_def grid_rate_def HPTMODULUS_def) (simp add: demo_seg_def)


text \<open>
  Healing loses samples: of two traces of one channel that follow each other and hold samples of different
  types, the second is taken out of the chain although nothing of it can be added to the first.
\<close>

theorem heal_type_mismatch:
  assumes "trace_ok P s0 c h cur" and "trace_ok P s0 c' h t" and "c \<noteq> c'" and "0 < P" and "seg_from P s0 t = seg_to P s0 cur"
  shows "heal_loop (-1) [] [cur, t] (-1) = [cur]"
proof -
  have "heal_candidate (-1) t cur"
    using assms(1,2,4) by (auto simp: heal_candidate_def trace_ok_def same_ids_def MS_ISRATETOLERABLE_def grid_rate_def HPTMODULUS_def)
  moreover have "heal_fits (grid_tol P) t cur = Some AtEnd"
    using heal_fits_grid [OF assms(4) _ trace_place(1,2) [OF assms(1,4)] trace_place(1,2) [OF assms(2,4)]] assms(1,5)
    by (simp add: seg_to_def trace_ok_def)
  moreover have "heal_merge AtEnd t cur = cur"
    using assms(1-3) by (auto simp: heal_merge_def mst_addspan_def trace_ok_def on_grid_def)
  ultimately show ?thesis using heal_tol_grid [OF _ assms(1,4), of "-1"] by simp
qed

theorem heal_type_mismatch_witness:
  "heal_loop (-1) [] [demo_seg 0 [1, 2, 3], (demo_seg 3 [6, 7])\<lparr>g_sampletype := 102\<rparr>] (-1) = [demo_seg 0 [1, 2, 3]]"
proof -
  have "trace_ok 1000000 0 102 (head demo_single) ((demo_seg 3 [6, 7])\<lparr>g_sampletype := 102\<rparr>)"
    using demo_seg_trace_ok [of 3 "[6, 7]"] by (simp add: trace_ok_def on_grid_def same_ids_def)
  then show ?thesis
    by (intro heal_type_mismatch [of 1000000 0 105 "head demo_single" _ 102] demo_seg_trace_ok)
      (simp_all add: seg_from_def seg_to_def grid_seg_def, simp_all add: demo_seg_def)
qed

section \<open>The loop over a multiplexed file\<close>

definition chan_rec :: "int list \<Rightarrow> byte \<Rightarrow> 'd mstrace \<Rightarrow> 'd msrecord \<Rightarrow> bool" where
  "chan_rec leaps c t r \<longleftrightarrow>
     m_network r = g_network t \<and> m_station r = g_station t \<and> m_location r = g_location t \<and> m_channel r = g_channel t \<and>
     m_sampletype r = c \<and> ms_samplesize c \<noteq> 0 \<and> 0 < m_samplecnt r \<and> 0 < m_samprate r \<and> ms_endtime leaps r \<noteq> HPTERROR"

lemma addmsr_untested:
  assumes "traces g = [t]" and "chan_rec leaps c t r" and "g_sampletype t = c"
  shows "\<exists>t'. mst_addmsrtogroup leaps g r False (-2) (-2) = (g\<lparr>traces := [t']\<rparr>, Some t') \<and>
    g_samplecnt t' = g_samplecnt t + m_samplecnt r \<and> g_sampletype t' = c \<and> (\<forall>s. chan_rec leaps c t' s = chan_rec leaps c t s)"
proof -
  obtain w where w: "span_fits (m_samprate r) (-2) (m_starttime r) (ms_endtime leaps r) t = Some w" by (simp add: span_fits_def Let_def)
  obtain t' where t': "mst_addmsr leaps t r w = Some t'" using assms(2,3) by (auto simp: mst_addmsr_def chan_rec_def Let_def)
  then have "g_samplecnt t' = g_samplecnt t + m_samplecnt r" "g_sampletype t' = g_sampletype t" "g_network t' = g_network t"
      "g_station t' = g_station t" "g_location t' = g_location t" "g_channel t' = g_channel t"
    by (auto simp: mst_addmsr_def Let_def add_samples_def split: if_splits whence.splits)
  then show ?thesis
    using assms w t' by (auto simp: mst_addmsrtogroup_def Let_def chan_rec_def rate_fits_def names_fit_def)
qed

lemma add_records_untested:
  assumes "traces g = [t]" and "\<forall>r\<in>set rs. chan_rec leaps c t r" and "g_sampletype t = c"
  shows "\<exists>g' t'. add_records (libmseed leaps rd rd_at) (-2) rs g = Some g' \<and> traces g' = [t'] \<and>
    g_samplecnt t' = g_samplecnt t + (\<Sum>r\<leftarrow>rs. m_samplecnt r)"
  using assms
proof (induction rs arbitrary: g t)
  case (Cons r rs)
  obtain t' where t': "mst_addmsrtogroup leaps g r False (-2) (-2) = (g\<lparr>traces := [t']\<rparr>, Some t')"
      "g_samplecnt t' = g_samplecnt t + m_samplecnt r" "g_sampletype t' = c" "\<forall>s. chan_rec leaps c t' s = chan_rec leaps c t s"
    using addmsr_untested [OF Cons.prems(1) _ Cons.prems(3), of leaps r] Cons.prems(2) by auto
  then show ?case using Cons.IH [of "g\<lparr>traces := [t']\<rparr>" t'] Cons.prems(2) by (auto simp: libmseed_def)
qed auto

lemma segments_single:
  assumes "traces g = [t]"
  shows "segments_of g = Some [t]"
proof -
  have "mst_groupsort q g' = Some g'" if "traces g' = [t]" for q g'
  proof -
    obtain ts where "sort_loop (mst_groupsort_cmp q) 1 [t] = Some ts" "mset ts = {#t#}"
      using nb.sorts [of "[t]" q] by auto
    then show ?thesis using that by (simp add: mst_groupsort_def)
  qed
  then show ?thesis using assms by (simp add: segments_of_def mst_groupheal_def Let_def)
qed



section \<open>Well-formed groups\<close>

text \<open>A group counts its traces, and samples have a type with a size.\<close>

definition typed :: "'d mstrace \<Rightarrow> bool" where
  "typed t \<longleftrightarrow> g_samples t = [] \<or> ms_samplesize (g_sampletype t) \<noteq> 0"

definition wf_mstg :: "'d mstg \<Rightarrow> bool" where
  "wf_mstg g \<longleftrightarrow> numtraces g = int (length (traces g)) \<and> (\<forall>t\<in>set (traces g). typed t)"

lemma typed_addmsr: "mst_addmsr leaps t r w = Some t' \<Longrightarrow> typed t \<Longrightarrow> typed t'"
  by (auto simp: mst_addmsr_def typed_def Let_def add_samples_def split: if_splits whence.splits)

lemma typed_heal_merge: "typed cur \<Longrightarrow> typed (heal_merge w t cur)"
  by (auto simp: heal_merge_def mst_addspan_def typed_def Let_def add_samples_def split: whence.split)

lemma typed_heal_search:
  "heal_search srtol ts cur tol = (ts', cur', tol') \<Longrightarrow> \<forall>t\<in>set (cur # ts). typed t \<Longrightarrow> \<forall>t\<in>set (cur' # ts'). typed t"
proof (induction ts arbitrary: cur tol ts')
  case (Cons t ts)
  show ?case
  proof (cases "heal_candidate srtol t cur")
    case True
    show ?thesis
    proof (cases "heal_fits (heal_tol tol cur) t cur")
      case None
      then obtain us where "heal_search srtol ts cur (heal_tol tol cur) = (us, cur', tol')" "ts' = t # us"
        using True Cons.prems(1) by (cases "heal_search srtol ts cur (heal_tol tol cur)") auto
      then show ?thesis using Cons.IH [of cur "heal_tol tol cur" us] Cons.prems(2) by auto
    next
      case (Some w)
      then show ?thesis
        using True Cons.IH [of "heal_merge w t cur" "heal_tol tol cur" ts'] Cons.prems typed_heal_merge [of cur w t] by simp
    qed
  next
    case False
    then obtain us where "heal_search srtol ts cur tol = (us, cur', tol')" "ts' = t # us"
      using Cons.prems(1) by (cases "heal_search srtol ts cur tol") auto
    then show ?thesis using Cons.IH [of cur tol us] Cons.prems(2) by auto
  qed
qed simp

lemma typed_heal_loop: "\<forall>t\<in>set (ds @ ts). typed t \<Longrightarrow> \<forall>t\<in>set (heal_loop srtol ds ts tol). typed t"
proof (induction "length ts" arbitrary: ds ts tol rule: less_induct)
  case less
  show ?case
  proof (cases ts)
    case (Cons cur rest)
    obtain ds' cur1 tol1 where b: "heal_search srtol ds cur tol = (ds', cur1, tol1)" by (cases "heal_search srtol ds cur tol") auto
    obtain rest' cur2 tol2 where a: "heal_search srtol rest cur1 tol1 = (rest', cur2, tol2)"
      by (cases "heal_search srtol rest cur1 tol1") auto
    have d: "\<forall>t\<in>set (cur1 # ds'). typed t" by (rule typed_heal_search [OF b]) (use less.prems Cons in \<open>simp add: ball_Un\<close>)
    moreover have "\<forall>t\<in>set (cur2 # rest'). typed t" by (rule typed_heal_search [OF a]) (use d less.prems Cons in \<open>simp add: ball_Un\<close>)
    moreover have "length rest' < length ts" using heal_search_length [of srtol rest cur1 tol1] a Cons by simp
    ultimately have "\<forall>t\<in>set (heal_loop srtol (ds' @ [cur2]) rest' tol2). typed t" by (intro less.hyps) (simp_all add: ball_Un)
    then show ?thesis using Cons a b by simp
  qed (use less.prems in simp)
qed



end
