(* ===== verification/MsCodec.thy ===== *)
theory MsCodec
  imports Steim
begin

text \<open>
  Steim compression in libmseed: the encoders and decoders of \<^verbatim>\<open>contrib/libmseed/packdata.c\<close> and \<^verbatim>\<open>unpackdata.c\<close>, with
  the swaps of \<^verbatim>\<open>gswap.c\<close>. An array of 32-bit numbers in memory is the list of its words as the host
  reads them; sums of samples wrap around. The two Steim encoders, and the two decoders, have the same loops and
  differ in how a word is packed, which is a parameter of the loops here.

  The locale \<open>steim_code\<close> is the contract between packing and unpacking one word; the round trip of whole
  records follows from it and holds for both encodings, each host and with or without a swap of bytes.
\<close>

section \<open>Bytes and words\<close>

definition ms_gswap2a :: "u16 \<Rightarrow> u16" where
  "ms_gswap2a d = (drop_bit 8 d AND 0xff) OR push_bit 8 (d AND 0xff)"

definition ms_gswap4a :: "i32 \<Rightarrow> i32" where
  "ms_gswap4a d =
     (drop_bit 24 d AND 0xff) OR push_bit 24 (d AND 0xff) OR (drop_bit 8 d AND 0xff00) OR push_bit 8 (d AND 0xff00)"

text \<open>Eight bytes are two words in the order of memory.\<close>

definition ms_gswap8a :: "i32 \<times> i32 \<Rightarrow> i32 \<times> i32" where
  "ms_gswap8a d = (ms_gswap4a (snd d), ms_gswap4a (fst d))"

definition swap_if2 :: "bool \<Rightarrow> u16 \<Rightarrow> u16" where
  "swap_if2 swapflag d = (if swapflag then ms_gswap2a d else d)"

definition swap_if4 :: "bool \<Rightarrow> i32 \<Rightarrow> i32" where
  "swap_if4 swapflag d = (if swapflag then ms_gswap4a d else d)"

fun store32 :: "host \<Rightarrow> i32 \<Rightarrow> byte list" where
  "store32 LittleHost w = [ucast w, ucast (drop_bit 8 w), ucast (drop_bit 16 w), ucast (drop_bit 24 w)]"
| "store32 BigHost w = [ucast (drop_bit 24 w), ucast (drop_bit 16 w), ucast (drop_bit 8 w), ucast w]"

text \<open>The members \<^verbatim>\<open>d8\<close> and \<^verbatim>\<open>d16\<close> of the union over a word.\<close>

definition d8 :: "host \<Rightarrow> i32 \<Rightarrow> nat \<Rightarrow> byte" where
  "d8 h w i = store32 h w ! i"

definition d16 :: "host \<Rightarrow> i32 \<Rightarrow> nat \<Rightarrow> u16" where
  "d16 h w i = load h (take 2 (drop (2 * i) (store32 h w)))"

definition of_d8 :: "host \<Rightarrow> byte list \<Rightarrow> i32" where
  "of_d8 h bs = load h bs"

definition of_d16 :: "host \<Rightarrow> u16 \<Rightarrow> u16 \<Rightarrow> i32" where
  "of_d16 h a b = load h (store16 h a @ store16 h b)"

definition EXTRACTBITRANGE :: "i32 \<Rightarrow> nat \<Rightarrow> nat \<Rightarrow> i32" where
  "EXTRACTBITRANGE v startbit n = drop_bit startbit v AND (push_bit n 1 - 1)"

section \<open>Decoding one word\<close>

definition steim1_diffs :: "host \<Rightarrow> bool \<Rightarrow> i32 \<Rightarrow> i32 \<Rightarrow> i32 list" where
  "steim1_diffs h swapflag nibble w =
     (if nibble = 1 then map (\<lambda>i. scast (d8 h w i)) [0..<4]
      else if nibble = 2 then map (\<lambda>i. scast (swap_if2 swapflag (d16 h w i))) [0..<2]
      else if nibble = 3 then [swap_if4 swapflag w]
      else [])"

definition sign_extend :: "nat \<Rightarrow> i32 \<Rightarrow> i32" where
  "sign_extend n x = (let semask = push_bit (n - 1) 1 in (x XOR semask) - semask)"

definition bit_fields :: "i32 \<Rightarrow> nat \<Rightarrow> nat \<Rightarrow> nat \<Rightarrow> i32 list" where
  "bit_fields w count startbit n = map (\<lambda>i. sign_extend n (EXTRACTBITRANGE w (startbit - i * n) n)) [0..<count]"

text \<open>\<open>None\<close> is the return value -1.\<close>

definition steim2_diffs :: "host \<Rightarrow> bool \<Rightarrow> i32 \<Rightarrow> i32 \<Rightarrow> i32 list option" where
  "steim2_diffs h swapflag nibble w =
     (if nibble = 1 then Some (map (\<lambda>i. scast (d8 h w i)) [0..<4])
      else if nibble = 2 then
        (let w = swap_if4 swapflag w; dnib = EXTRACTBITRANGE w 30 2
         in if dnib = 0 then None
            else if dnib = 1 then Some (bit_fields w 1 0 30)
            else if dnib = 2 then Some (bit_fields w 2 15 15)
            else Some (bit_fields w 3 20 10))
      else if nibble = 3 then
        (let w = swap_if4 swapflag w; dnib = EXTRACTBITRANGE w 30 2
         in if dnib = 0 then Some (bit_fields w 5 24 6)
            else if dnib = 1 then Some (bit_fields w 6 25 5)
            else if dnib = 2 then Some (bit_fields w 7 24 4)
            else None)
      else Some [])"

section \<open>Decoding a record\<close>

text \<open>
  The differences of a word are added until \<^verbatim>\<open>samplecount\<close> is 0; the first one is replaced by \<^verbatim>\<open>X0\<close>. The state is
  \<^verbatim>\<open>samplecount\<close> and the samples stored so far.
\<close>

type_synonym dec_state = "nat \<times> i32 list"

fun out_diffs :: "i32 \<Rightarrow> i32 list \<Rightarrow> dec_state \<Rightarrow> dec_state" where
  "out_diffs X0 [] st = st"
| "out_diffs X0 (d # ds) (n, out) =
     (if n = 0 then (n, out) else out_diffs X0 ds (n - 1, out @ [if out = [] then X0 else last out + d]))"

fun dec_words :: "(i32 \<Rightarrow> i32 \<Rightarrow> i32 list option) \<Rightarrow> i32 \<Rightarrow> i32 \<Rightarrow> i32 list \<Rightarrow> nat list \<Rightarrow> dec_state \<Rightarrow> dec_state option" where
  "dec_words D X0 ctrl frame [] st = Some st"
| "dec_words D X0 ctrl frame (widx # ws) st =
     (if fst st = 0 then Some st
      else (case D (EXTRACTBITRANGE ctrl (30 - 2 * widx) 2) (frame ! widx) of
              None \<Rightarrow> None
            | Some ds \<Rightarrow> dec_words D X0 ctrl frame ws (out_diffs X0 ds st)))"

definition frame_at :: "i32 list \<Rightarrow> nat \<Rightarrow> i32 list" where
  "frame_at input frameidx = take 16 (drop (16 * frameidx) input)"

definition data_words :: "nat \<Rightarrow> nat list" where
  "data_words frameidx = (if frameidx = 0 then [3..<16] else [1..<16])"

fun dec_frames :: "(i32 \<Rightarrow> i32 \<Rightarrow> i32 list option) \<Rightarrow> bool \<Rightarrow> i32 list \<Rightarrow> nat list \<Rightarrow> i32 \<Rightarrow> dec_state \<Rightarrow> dec_state option" where
  "dec_frames D swapflag input [] X0 st = Some st"
| "dec_frames D swapflag input (f # fs) X0 st =
     (if fst st = 0 then Some st
      else (let frame = frame_at input f; X0 = (if f = 0 then swap_if4 swapflag (frame ! 1) else X0)
            in case dec_words D X0 (swap_if4 swapflag (frame ! 0)) frame (data_words f) st of
                 None \<Rightarrow> None
               | Some st \<Rightarrow> dec_frames D swapflag input fs X0 st))"

text \<open>
  The samples, and whether the warning is given that the last one is not \<^verbatim>\<open>Xn\<close>; \<open>None\<close> is the return value -1.
\<close>

definition msr_decode_steim ::
  "(i32 \<Rightarrow> i32 \<Rightarrow> i32 list option) \<Rightarrow> bool \<Rightarrow> i32 list \<Rightarrow> int \<Rightarrow> int \<Rightarrow> int \<Rightarrow> (i32 list \<times> bool) option" where
  "msr_decode_steim D swapflag input inputlength samplecount outputlength =
     (let maxframes = nat (inputlength div 64)
      in if inputlength \<le> 0 then Some ([], False)
         else if outputlength \<le> 0 \<or> maxframes = 0 then None
         else map_option (\<lambda>(n, out). (out, out \<noteq> [] \<and> last out \<noteq> swap_if4 swapflag (frame_at input 0 ! 2)))
           (dec_frames D swapflag input [0..<maxframes] 0 (nat samplecount, [])))"

definition msr_decode_steim1 :: "host \<Rightarrow> bool \<Rightarrow> i32 list \<Rightarrow> int \<Rightarrow> int \<Rightarrow> int \<Rightarrow> (i32 list \<times> bool) option" where
  "msr_decode_steim1 h swapflag = msr_decode_steim (\<lambda>nibble w. Some (steim1_diffs h swapflag nibble w)) swapflag"

definition msr_decode_steim2 :: "host \<Rightarrow> bool \<Rightarrow> i32 list \<Rightarrow> int \<Rightarrow> int \<Rightarrow> int \<Rightarrow> (i32 list \<times> bool) option" where
  "msr_decode_steim2 h swapflag = msr_decode_steim (steim2_diffs h swapflag) swapflag"

section \<open>Encoding one word\<close>

definition BITWIDTH :: "i32 \<Rightarrow> nat" where
  "BITWIDTH d =
     (let v = sint d
      in if - 8 \<le> v \<and> v \<le> 7 then 4
         else if - 16 \<le> v \<and> v \<le> 15 then 5
         else if - 32 \<le> v \<and> v \<le> 31 then 6
         else if - 128 \<le> v \<and> v \<le> 127 then 8
         else if - 512 \<le> v \<and> v \<le> 511 then 10
         else if - 16384 \<le> v \<and> v \<le> 16383 then 15
         else if - 32768 \<le> v \<and> v \<le> 32767 then 16
         else if - 536870912 \<le> v \<and> v \<le> 536870911 then 30
         else 32)"

definition fit :: "nat \<Rightarrow> nat \<Rightarrow> i32 list \<Rightarrow> bool" where
  "fit n bits ds \<longleftrightarrow> n \<le> length ds \<and> (\<forall>d\<in>set (take n ds). BITWIDTH d \<le> bits)"

text \<open>The word, its nibble and \<^verbatim>\<open>packedsamples\<close>; \<open>None\<close> is the return value -1.\<close>

definition steim1_pack :: "host \<Rightarrow> bool \<Rightarrow> i32 list \<Rightarrow> (i32 \<times> i32 \<times> nat) option" where
  "steim1_pack h swapflag ds =
     (if fit 4 8 ds then Some (of_d8 h (map ucast (take 4 ds)), 1, 4)
      else if fit 2 16 ds then
        Some (of_d16 h (swap_if2 swapflag (ucast (ds ! 0))) (swap_if2 swapflag (ucast (ds ! 1))), 2, 2)
      else Some (swap_if4 swapflag (ds ! 0), 3, 1))"

text \<open>Masked values, the last in the lowest bits.\<close>

fun mask_fields :: "nat \<Rightarrow> i32 list \<Rightarrow> i32" where
  "mask_fields bits [] = 0"
| "mask_fields bits (d # ds) = push_bit (bits * length ds) (d AND mask bits) OR mask_fields bits ds"

definition packed :: "bool \<Rightarrow> nat \<Rightarrow> nat \<Rightarrow> i32 \<Rightarrow> i32 list \<Rightarrow> i32" where
  "packed swapflag n bits dnib ds = swap_if4 swapflag (mask_fields bits (take n ds) OR push_bit 30 dnib)"

definition steim2_pack :: "host \<Rightarrow> bool \<Rightarrow> i32 list \<Rightarrow> (i32 \<times> i32 \<times> nat) option" where
  "steim2_pack h swapflag ds =
     (if fit 7 4 ds then Some (packed swapflag 7 4 2 ds, 3, 7)
      else if fit 6 5 ds then Some (packed swapflag 6 5 1 ds, 3, 6)
      else if fit 5 6 ds then Some (packed swapflag 5 6 0 ds, 3, 5)
      else if fit 4 8 ds then Some (of_d8 h (map ucast (take 4 ds)), 1, 4)
      else if fit 3 10 ds then Some (packed swapflag 3 10 3 ds, 2, 3)
      else if fit 2 15 ds then Some (packed swapflag 2 15 2 ds, 2, 2)
      else if fit 1 30 ds then Some (packed swapflag 1 30 1 ds, 2, 1)
      else None)"

section \<open>Encoding a record\<close>

text \<open>The buffer of differences, \<^verbatim>\<open>inputidx\<close> and \<^verbatim>\<open>outputsamples\<close>. The buffer holds up to \<open>maxd\<close> differences.\<close>

record enc =
  e_diffs :: "i32 list"
  e_inputidx :: nat
  e_out :: nat

definition refill :: "nat \<Rightarrow> i32 list \<Rightarrow> enc \<Rightarrow> enc" where
  "refill maxd xs e =
     (if length (e_diffs e) < maxd then
        (let k = min (maxd - length (e_diffs e)) (length xs - 1 - e_inputidx e)
         in e\<lparr>e_diffs := e_diffs e @ map (\<lambda>i. xs ! (i + 1) - xs ! i) [e_inputidx e..<e_inputidx e + k],
              e_inputidx := e_inputidx e + k\<rparr>)
      else e)"

fun enc_words :: "(i32 list \<Rightarrow> (i32 \<times> i32 \<times> nat) option) \<Rightarrow> nat \<Rightarrow> i32 list \<Rightarrow> nat list \<Rightarrow> i32 list \<times> enc \<Rightarrow> (i32 list \<times> enc) option" where
  "enc_words pack maxd xs [] st = Some st"
| "enc_words pack maxd xs (widx # ws) (frame, e) =
     (if length xs \<le> e_out e then Some (frame, e)
      else (let e = refill maxd xs e
            in case pack (e_diffs e) of
                 None \<Rightarrow> None
               | Some (w, nibble, k) \<Rightarrow>
                   enc_words pack maxd xs ws
                     ((frame[widx := w])[0 := frame ! 0 OR push_bit (30 - 2 * widx) nibble],
                      e\<lparr>e_diffs := drop k (e_diffs e), e_out := e_out e + k\<rparr>)))"

fun enc_frames ::
  "(i32 list \<Rightarrow> (i32 \<times> i32 \<times> nat) option) \<Rightarrow> nat \<Rightarrow> bool \<Rightarrow> i32 list \<Rightarrow> nat list \<Rightarrow> enc \<Rightarrow> (i32 list list \<times> enc) option" where
  "enc_frames pack maxd swapflag xs [] e = Some ([], e)"
| "enc_frames pack maxd swapflag xs (f # fs) e =
     (if length xs \<le> e_out e then Some ([], e)
      else (let frame = (if f = 0 then (replicate 16 0)[1 := swap_if4 swapflag (xs ! 0)] else replicate 16 0)
            in case enc_words pack maxd xs (data_words f) (frame, e) of
                 None \<Rightarrow> None
               | Some (frame, e) \<Rightarrow>
                   map_option (apfst (Cons (frame[0 := swap_if4 swapflag (frame ! 0)]))) (enc_frames pack maxd swapflag xs fs e)))"

text \<open>
  The number of samples and the output, \<open>Inl\<close> for the return value -1. Without a frame \<^verbatim>\<open>Xnp\<close> is a null pointer,
  and with the swap it is used, which is \<open>None\<close>. The input is all of \<open>xs\<close>; no input leaves the output as it is.
\<close>

definition msr_encode_steim ::
  "(i32 list \<Rightarrow> (i32 \<times> i32 \<times> nat) option) \<Rightarrow> nat \<Rightarrow> bool \<Rightarrow> i32 list \<Rightarrow> i32 list \<Rightarrow> int \<Rightarrow> i32 \<Rightarrow>
     (unit + nat \<times> i32 list) option" where
  "msr_encode_steim pack maxd swapflag xs output outputlength diff0 =
     (if xs = [] then Some (Inr (0, output))
      else if outputlength \<le> 0 then Some (Inl ())
      else (case enc_frames pack maxd swapflag xs [0..<nat (outputlength div 64)] \<lparr>e_diffs = [diff0], e_inputidx = 0, e_out = 0\<rparr> of
              None \<Rightarrow> Some (Inl ())
            | Some (frames, e) \<Rightarrow>
                if frames = [] then (if swapflag then None else Some (Inr (0, replicate (nat (outputlength div 4)) 0)))
                else (let frames = frames[0 := (hd frames)[2 := swap_if4 swapflag (xs ! (e_out e - 1))]]
                      in Some (Inr (e_out e,
                           concat frames @ replicate (nat (outputlength div 4) - 16 * length frames) 0)))))"

definition msr_encode_steim1 ::
  "host \<Rightarrow> bool \<Rightarrow> i32 list \<Rightarrow> i32 list \<Rightarrow> int \<Rightarrow> i32 \<Rightarrow> (unit + nat \<times> i32 list) option" where
  "msr_encode_steim1 h swapflag = msr_encode_steim (steim1_pack h swapflag) 4 swapflag"

definition msr_encode_steim2 ::
  "host \<Rightarrow> bool \<Rightarrow> i32 list \<Rightarrow> i32 list \<Rightarrow> int \<Rightarrow> i32 \<Rightarrow> (unit + nat \<times> i32 list) option" where
  "msr_encode_steim2 h swapflag = msr_encode_steim (steim2_pack h swapflag) 7 swapflag"

section \<open>Lemmas on bytes\<close>

lemma bit_ms_gswap4a:
  "bit (ms_gswap4a n) k \<longleftrightarrow>
     k < 32 \<and> bit n (if k < 8 then 24 + k else if k < 16 then 8 + k else if k < 24 then k - 8 else k - 24)"
  unfolding ms_gswap4a_def
  by (auto simp: byte_mask_eqs bit_simps)

lemma ms_gswap4a_eq: "ms_gswap4a n = swap_4byte n"
  by (rule bit_word_eqI) (simp add: bit_ms_gswap4a bit_swap_4byte)

lemma swap_if4_swap_if4 [simp]: "swap_if4 s (swap_if4 s w) = w"
  by (simp add: swap_if4_def ms_gswap4a_eq swap_4byte_swap_4byte)

lemma ms_gswap2a_eq: "ms_gswap2a n = swap_2byte n"
proof -
  have m: "(0xff :: u16) = mask 8" by (simp add: mask_eq_exp_minus_1)
  show ?thesis
    unfolding ms_gswap2a_def swap_2byte_def m by (rule bit_word_eqI) (auto simp: bit_simps dest: bit_imp_le_length)
qed

lemma swap_if2_swap_if2 [simp]: "swap_if2 s (swap_if2 s w) = w"
  by (simp add: swap_if2_def ms_gswap2a_eq swap_2byte_swap_2byte)

lemma store32_load:
  assumes "length bs = 4"
  shows "store32 h (load h bs) = bs"
proof -
  obtain a b c d where bs: "bs = [a, b, c, d]" using list4_cases [OF assms] by blast
  have "ucast (be_word [a, b, c, d] :: i32) = d" "ucast (drop_bit 8 (be_word [a, b, c, d] :: i32)) = c"
    "ucast (drop_bit 16 (be_word [a, b, c, d] :: i32)) = b" "ucast (drop_bit 24 (be_word [a, b, c, d] :: i32)) = a" for a b c d :: byte
    by (rule bit_word_eqI; auto simp: be_word4 bit_simps dest: bit_imp_le_length)+
  then show ?thesis by (cases h) (simp_all add: bs)
qed

lemma load_store16: "load h (store16 h w) = (w :: u16)"
proof -
  have "be_word [ucast (drop_bit 8 w), ucast w] = w"
    unfolding be_word2 by (rule bit_word_eqI) (auto simp: bit_simps)
  then show ?thesis by (cases h) simp_all
qed

lemma length_store16 [simp]: "length (store16 h w) = 2"
  by (cases h) simp_all

lemma length_store32 [simp]: "length (store32 h w) = 4"
  by (cases h) simp_all

lemma d16_of_d16: "d16 h (of_d16 h a b) 0 = a" "d16 h (of_d16 h a b) 1 = b"
  by (simp_all add: d16_def of_d16_def store32_load load_store16)

lemma map_d8: "map (d8 h w) [0..<4] = store32 h w"
  using map_nth [of "store32 h w"] by (simp add: d8_def fun_eq_iff [of "d8 h w"] cong: map_cong)

lemma d8_of_d8: "length bs = 4 \<Longrightarrow> map (d8 h (of_d8 h bs)) [0..<4] = bs"
  by (simp add: map_d8 of_d8_def store32_load)

lemma EXTRACT_take_bit: "n < 32 \<Longrightarrow> EXTRACTBITRANGE v k n = take_bit n (drop_bit k v)"
  by (simp add: EXTRACTBITRANGE_def push_bit_of_1 take_bit_eq_mask mask_eq_exp_minus_1)

lemma sign_extend_take_bit:
  assumes "0 < n" and "n < 32"
  shows "sign_extend n (take_bit n x) = signed_take_bit (n - 1) x"
proof -
  define m :: i32 where "m = push_bit (n - 1) 1"
  have m: "bit m k \<longleftrightarrow> k = n - 1" if "k < 32" for k using that assms by (auto simp: m_def bit_simps)
  show ?thesis
  proof (cases "bit x (n - 1)")
    case True
    have "take_bit n x XOR m = take_bit (n - 1) x"
      using True assms m by (intro bit_word_eqI) (auto simp: bit_simps)
    moreover have "signed_take_bit (n - 1) x = take_bit (n - 1) x OR NOT (mask (n - 1))"
      using True assms by (intro bit_word_eqI) (auto simp: bit_simps)
    then have "signed_take_bit (n - 1) x = take_bit (n - 1) x + NOT (mask (n - 1))"
      by (subst disjunctive_add) (auto simp: bit_simps)
    then have "signed_take_bit (n - 1) x = take_bit (n - 1) x - m"
      by (simp add: m_def push_bit_of_1 flip: minus_exp_eq_not_mask)
    ultimately show ?thesis by (simp add: sign_extend_def Let_def m_def)
  next
    case False
    have "take_bit n x XOR m = take_bit n x OR m"
      using False assms m by (intro bit_word_eqI) (auto simp: bit_simps)
    also have "\<dots> = take_bit n x + m"
      using False assms m by (intro disjunctive_add [symmetric]) (auto simp: bit_simps)
    finally have "(take_bit n x XOR m) - m = take_bit n x" by simp
    moreover have "signed_take_bit (n - 1) x = take_bit n x"
    proof (rule bit_word_eqI)
      fix k
      assume k: "k < LENGTH(32)"
      consider "k < n - 1" | "k = n - 1" | "n \<le> k" using assms(1) by linarith
      then show "bit (signed_take_bit (n - 1) x) k = bit (take_bit n x) k"
      proof cases
        case 1
        then have "k < n" by linarith
        then show ?thesis using 1 k by (simp add: bit_signed_take_bit_iff bit_take_bit_iff min_absorb2)
      next
        case 2
        then show ?thesis using False by (simp add: bit_signed_take_bit_iff bit_take_bit_iff)
      next
        case 3
        then show ?thesis using False by (simp add: bit_signed_take_bit_iff bit_take_bit_iff min_absorb1)
      qed
    qed
    ultimately show ?thesis by (simp add: sign_extend_def Let_def m_def)
  qed
qed

lemma mask_fields_snoc: "mask_fields wd (vs @ [v]) = push_bit wd (mask_fields wd vs) OR take_bit wd v"
  by (induction vs) (simp_all add: push_bit_or or.assoc add.commute take_bit_eq_mask)

lemma mask_fields_eq: "mask_fields wd vs = pack_fields wd vs"
  by (induction vs rule: rev_induct) (simp_all add: mask_fields_snoc pack_fields_def)

lemma packed_eq: "packed s n wd dnib ds = swap_if4 s (pack_word dnib wd (take n ds))"
  by (simp add: packed_def pack_word_def mask_fields_eq or.commute)

lemma bit_fields_eq:
  assumes "0 < n" and "n < 32" and "startbit = (count - 1) * n"
  shows "bit_fields w count startbit n = Steim.fields count n w"
  unfolding bit_fields_def Steim.fields_def
proof (rule map_cong)
  fix i assume "i \<in> set [0..<count]"
  then have "startbit - i * n = (count - 1 - i) * n" using assms(3) by (simp add: diff_mult_distrib)
  then show "sign_extend n (EXTRACTBITRANGE w (startbit - i * n) n) = signed_take_bit (n - 1) (drop_bit ((count - 1 - i) * n) w)"
    using assms(1,2) by (simp add: EXTRACT_take_bit sign_extend_take_bit)
qed simp

lemma signed_take_bit_self:
  fixes d :: i32
  assumes "k < 32" and "- (2 ^ k) \<le> sint d" and "sint d < 2 ^ k"
  shows "signed_take_bit k d = d"
proof -
  have b: "bit (sint d) i \<longleftrightarrow> bit d (if i < 32 then i else 31)" for i by (auto simp: bit_sint_iff dest: bit_imp_le_length)
  have "signed_take_bit k (sint d) = sint d" using assms by (intro signed_take_bit_int_eq_self) auto
  then have s: "bit (sint d) (min k i) = bit (sint d) i" for i by (metis bit_signed_take_bit_iff possible_bit_int)
  have "bit d (min k i) = bit d i" if "i < 32" for i
  proof -
    have "bit d (min k i) = bit (sint d) (min k i)" using assms(1) min.cobounded1 [of k i] by (simp only: b) auto
    also have "\<dots> = bit (sint d) i" by (rule s)
    also have "\<dots> = bit d i" using that by (simp only: b) simp
    finally show ?thesis .
  qed
  then show ?thesis by (intro bit_word_eqI) (simp add: bit_signed_take_bit_iff)
qed

lemma BITWIDTH_range:
  assumes "BITWIDTH d \<le> b" and "b \<in> {4, 5, 6, 8, 10, 15, 16, 30}"
  shows "- (2 ^ (b - 1)) \<le> sint d \<and> sint d < 2 ^ (b - 1)"
proof -
  define v where "v = sint d"
  have "- (2 ^ (b - 1)) \<le> v \<and> v < 2 ^ (b - 1)" if "b = 4 \<or> b = 5 \<or> b = 6 \<or> b = 8 \<or> b = 10 \<or> b = 15 \<or> b = 16 \<or> b = 30"
    using assms(1) that unfolding BITWIDTH_def Let_def v_def [symmetric]
    by (elim disjE; simp split: if_split_asm)
  then show ?thesis using assms(2) by (simp add: v_def)
qed

lemma fit_signed:
  assumes "fit n b ds" and "b \<in> {4, 5, 6, 8, 10, 15, 16, 30}"
  shows "\<forall>d\<in>set (take n ds). signed_take_bit (b - 1) d = d" and "length (take n ds) = n"
proof -
  have "b - 1 < 32" using assms(2) by auto
  then have "signed_take_bit (b - 1) d = d" if "BITWIDTH d \<le> b" for d
    using BITWIDTH_range [OF that assms(2)] by (simp add: signed_take_bit_self)
  then show "\<forall>d\<in>set (take n ds). signed_take_bit (b - 1) d = d" using assms(1) by (auto simp: fit_def)
  show "length (take n ds) = n" using assms(1) by (simp add: fit_def)
qed

section \<open>The contract of packing one word\<close>

lemma scast_ucast_byte: "scast (ucast (d :: i32) :: byte) = signed_take_bit 7 d"
  by (rule bit_word_eqI) (auto simp: bit_simps min_def)

lemma scast_ucast_u16: "scast (ucast (d :: i32) :: u16) = signed_take_bit 15 d"
  by (rule bit_word_eqI) (auto simp: bit_simps min_def)

lemma bytes_word:
  assumes "fit 4 8 ds"
  shows "map (\<lambda>i. scast (d8 h (of_d8 h (map ucast (take 4 ds))) i)) [0..<4] = take 4 ds"
proof -
  have f: "\<forall>d\<in>set (take 4 ds). signed_take_bit 7 d = d" "length (take 4 ds) = 4" using fit_signed [OF assms] by simp_all
  have "map (\<lambda>i. scast (d8 h (of_d8 h (map ucast (take 4 ds))) i)) [0..<4] =
      map scast (map (d8 h (of_d8 h (map ucast (take 4 ds)))) [0..<4])" by simp
  also have "\<dots> = map scast (map (ucast :: i32 \<Rightarrow> byte) (take 4 ds))" using f(2) by (simp only: d8_of_d8 length_map)
  also have "\<dots> = map (signed_take_bit 7) (take 4 ds)" by (simp add: scast_ucast_byte comp_def)
  also have "\<dots> = take 4 ds" using f(1) by (simp add: map_idI)
  finally show ?thesis .
qed

lemma fields_word:
  assumes "fit n wd ds" and "wd \<in> {4, 5, 6, 10, 15, 30}" and "wd * n \<le> 30" and "dnib AND 3 = dnib"
  shows "EXTRACTBITRANGE (swap_if4 s (packed s n wd dnib ds)) 30 2 = dnib"
    and "startbit = (n - 1) * wd \<Longrightarrow> bit_fields (swap_if4 s (packed s n wd dnib ds)) n startbit wd = take n ds"
proof -
  have f: "\<forall>d\<in>set (take n ds). signed_take_bit (wd - 1) d = d" "length (take n ds) = n" using fit_signed [OF assms(1)] assms(2) by auto
  have wd: "0 < wd" "wd < 32" using assms(2) by auto
  have p: "swap_if4 s (packed s n wd dnib ds) = pack_word dnib wd (take n ds)" by (simp add: packed_eq)
  show "EXTRACTBITRANGE (swap_if4 s (packed s n wd dnib ds)) 30 2 = dnib"
    using pack_word_dnib [OF _ wd(1) assms(4), of "take n ds"] f(2) assms(3) by (simp add: EXTRACTBITRANGE_def p)
  show "bit_fields (swap_if4 s (packed s n wd dnib ds)) n startbit wd = take n ds" if "startbit = (n - 1) * wd"
    using bit_fields_eq [OF wd that] fields_pack_word [OF wd(1) _ f(1)] f(2) assms(3) by (simp add: p)
qed

locale steim_code =
  fixes pack :: "i32 list \<Rightarrow> (i32 \<times> i32 \<times> nat) option" and D :: "i32 \<Rightarrow> i32 \<Rightarrow> i32 list option"
  assumes unpack: "pack ds = Some (w, nibble, k) \<Longrightarrow> ds \<noteq> [] \<Longrightarrow> D nibble w = Some (take k ds)"
    and count: "pack ds = Some (w, nibble, k) \<Longrightarrow> ds \<noteq> [] \<Longrightarrow> 0 < k \<and> k \<le> length ds"
    and code: "pack ds = Some (w, nibble, k) \<Longrightarrow> nibble AND 3 = nibble"

interpretation s1: steim_code "steim1_pack h s" "\<lambda>nibble w. Some (steim1_diffs h s nibble w)" for h s
proof unfold_locales
  fix ds w nibble k
  assume p: "steim1_pack h s ds = Some (w, nibble, k)"
  consider "fit 4 8 ds" | "\<not> fit 4 8 ds" "fit 2 16 ds" | "\<not> fit 4 8 ds" "\<not> fit 2 16 ds" by blast
  note c = this
  show "nibble AND 3 = nibble" using p by (auto simp: steim1_pack_def split: if_splits)
  assume ne: "ds \<noteq> []"
  show "0 < k \<and> k \<le> length ds" using p ne by (cases ds) (auto simp: steim1_pack_def fit_def split: if_splits)
  show "Some (steim1_diffs h s nibble w) = Some (take k ds)"
    using c
  proof cases
    case 1
    then show ?thesis using p bytes_word [OF 1, of h] by (auto simp: steim1_pack_def steim1_diffs_def)
  next
    case 2
    then obtain a b ds' where ds: "ds = a # b # ds'" by (cases ds; cases "tl ds") (auto simp: fit_def)
    have f: "signed_take_bit 15 a = a" "signed_take_bit 15 b = b" using fit_signed(1) [OF 2(2)] by (simp_all add: ds)
    then show ?thesis
      using p 2 by (auto simp: ds steim1_pack_def steim1_diffs_def upt_rec d16_of_d16 [unfolded One_nat_def] scast_ucast_u16)
  next
    case 3
    then show ?thesis using p ne by (cases ds) (auto simp: steim1_pack_def steim1_diffs_def)
  qed
qed

interpretation s2: steim_code "steim2_pack h s" "steim2_diffs h s" for h s
proof unfold_locales
  fix ds w nibble k
  assume p: "steim2_pack h s ds = Some (w, nibble, k)"
  show "nibble AND 3 = nibble" using p by (auto simp: steim2_pack_def split: if_splits)
  assume ne: "ds \<noteq> []"
  show "0 < k \<and> k \<le> length ds" using p ne by (auto simp: steim2_pack_def fit_def split: if_splits)
  consider "fit 7 4 ds" "k = 7" "nibble = 3" "w = packed s 7 4 2 ds" | "fit 6 5 ds" "k = 6" "nibble = 3" "w = packed s 6 5 1 ds" |
    "fit 5 6 ds" "k = 5" "nibble = 3" "w = packed s 5 6 0 ds" | "fit 4 8 ds" "k = 4" "nibble = 1" "w = of_d8 h (map ucast (take 4 ds))" |
    "fit 3 10 ds" "k = 3" "nibble = 2" "w = packed s 3 10 3 ds" | "fit 2 15 ds" "k = 2" "nibble = 2" "w = packed s 2 15 2 ds" |
    "fit 1 30 ds" "k = 1" "nibble = 2" "w = packed s 1 30 1 ds"
    using p by (auto simp: steim2_pack_def split: if_splits)
  then show "steim2_diffs h s nibble w = Some (take k ds)"
  proof cases
    case 4
    then show ?thesis using bytes_word [OF 4(1), of h] by (simp add: steim2_diffs_def)
  qed (use
      fields_word(1) [of 7 4 ds 2 s] fields_word(2) [of 7 4 ds 2 24 s]
      fields_word(1) [of 6 5 ds 1 s] fields_word(2) [of 6 5 ds 1 25 s]
      fields_word(1) [of 5 6 ds 0 s] fields_word(2) [of 5 6 ds 0 24 s]
      fields_word(1) [of 3 10 ds 3 s] fields_word(2) [of 3 10 ds 3 20 s]
      fields_word(1) [of 2 15 ds 2 s] fields_word(2) [of 2 15 ds 2 15 s]
      fields_word(1) [of 1 30 ds 1 s] fields_word(2) [of 1 30 ds 1 0 s]
      in \<open>simp_all add: steim2_diffs_def Let_def\<close>)
qed

section \<open>The round trip of a record\<close>

lemma nibble_or:
  assumes "w < 16" and "v < 16" and "nibble AND 3 = nibble"
  shows "EXTRACTBITRANGE (c OR push_bit (30 - 2 * w) nibble) (30 - 2 * v) 2 =
    (if v = w then EXTRACTBITRANGE c (30 - 2 * w) 2 OR nibble else EXTRACTBITRANGE c (30 - 2 * v) 2)"
proof -
  have three: "(3 :: i32) = mask 2" by (simp add: mask_eq_exp_minus_1)
  have n: "bit nibble k \<Longrightarrow> k < 2" for k
    using assms(3) unfolding three by (metis bit_and_iff bit_mask_iff)
  have e: "EXTRACTBITRANGE x k 2 = drop_bit k x AND mask 2" for x k by (simp add: EXTRACTBITRANGE_def mask_eq_exp_minus_1)
  show ?thesis
  proof (cases "v = w")
    case True
    then show ?thesis
      unfolding e using assms(1) by (intro bit_word_eqI) (auto simp: bit_simps dest: n)
  next
    case False
    have "\<not> (30 - 2 * w \<le> 30 - 2 * v + k \<and> bit nibble (30 - 2 * v + k - (30 - 2 * w)))" if "k < 2" for k
      using n [of "30 - 2 * v + k - (30 - 2 * w)"] False assms(1,2) that by linarith
    then show ?thesis
      unfolding e using False by (auto intro!: bit_word_eqI simp: bit_simps)
  qed
qed

definition all_diffs :: "i32 list \<Rightarrow> i32 \<Rightarrow> i32 list" where
  "all_diffs xs diff0 = diff0 # map (\<lambda>i. xs ! (i + 1) - xs ! i) [0..<length xs - 1]"

definition enc_ok :: "i32 list \<Rightarrow> i32 \<Rightarrow> enc \<Rightarrow> bool" where
  "enc_ok xs diff0 e \<longleftrightarrow> e_inputidx e < length xs \<and> e_out e \<le> e_inputidx e + 1 \<and>
     e_diffs e = drop (e_out e) (take (e_inputidx e + 1) (all_diffs xs diff0))"

lemma length_all_diffs: "xs \<noteq> [] \<Longrightarrow> length (all_diffs xs d) = length xs"
  by (cases xs) (simp_all add: all_diffs_def)

lemma all_diffs_nth: "0 < i \<Longrightarrow> i < length xs \<Longrightarrow> all_diffs xs d ! i = xs ! i - xs ! (i - 1)"
  by (cases i) (simp_all add: all_diffs_def)

lemma drop_take_more: "a \<le> b \<Longrightarrow> b \<le> length l \<Longrightarrow> drop a (take (b + k) l) = drop a (take b l) @ take k (drop b l)"
  by (simp only: take_add drop_append) simp

lemma refill_ok:
  assumes "enc_ok xs d e" and "0 < maxd"
  shows "enc_ok xs d (refill maxd xs e)" and "e_out (refill maxd xs e) = e_out e"
    and "e_out e < length xs \<Longrightarrow> e_diffs (refill maxd xs e) \<noteq> []"
proof -
  let ?A = "all_diffs xs d" and ?i = "e_inputidx e"
  have ne: "xs \<noteq> []" using assms(1) by (auto simp: enc_ok_def)
  show o: "e_out (refill maxd xs e) = e_out e" by (simp add: refill_def Let_def)
  have "enc_ok xs d (refill maxd xs e) \<and> (e_out e < length xs \<longrightarrow> e_diffs (refill maxd xs e) \<noteq> [])"
  proof (cases "length (e_diffs e) < maxd")
    case True
    define k where "k = min (maxd - length (e_diffs e)) (length xs - 1 - ?i)"
    have k: "?i + k < length xs" using assms(1) by (auto simp: k_def enc_ok_def)
    have "map (\<lambda>i. xs ! (i + 1) - xs ! i) [?i..<?i + k] = take k (drop (?i + 1) ?A)"
      using k by (intro nth_equalityI) (simp_all add: length_all_diffs [OF ne] all_diffs_nth)
    then have "e_diffs (refill maxd xs e) = drop (e_out e) (take (?i + 1) ?A) @ take k (drop (?i + 1) ?A)"
      using True assms(1) by (simp add: refill_def Let_def k_def enc_ok_def)
    also have "\<dots> = drop (e_out e) (take (?i + 1 + k) ?A)"
      using assms(1) by (intro drop_take_more [symmetric]) (auto simp: enc_ok_def length_all_diffs [OF ne])
    finally have ds: "e_diffs (refill maxd xs e) = drop (e_out e) (take (?i + k + 1) ?A)" by (simp add: ac_simps)
    have i: "e_inputidx (refill maxd xs e) = ?i + k" using True by (simp add: refill_def Let_def k_def)
    have "e_out e < ?i + k + 1" if "e_out e < length xs"
    proof (cases "e_out e = ?i + 1")
      case True
      then have "e_diffs e = []" using assms(1) by (simp add: enc_ok_def)
      then have "0 < k" using that True assms(2) by (simp add: k_def)
      then show ?thesis using True by simp
    qed (use assms(1) in \<open>auto simp: enc_ok_def\<close>)
    then show ?thesis using ds i o k assms(1) by (auto simp: enc_ok_def length_all_diffs [OF ne])
  next
    case False
    then have "e_diffs e \<noteq> []" using assms(2) by auto
    then show ?thesis using False assms(1) by (simp add: refill_def)
  qed
  then show "enc_ok xs d (refill maxd xs e)" "e_out e < length xs \<Longrightarrow> e_diffs (refill maxd xs e) \<noteq> []" by simp_all
qed

lemma out_diffs_run:
  assumes "\<forall>i<length ds. ds ! i = all_diffs xs d ! (m + i)" and "m + length ds \<le> N" and "N \<le> length xs"
  shows "out_diffs (xs ! 0) ds (N - m, take m xs) = (N - (m + length ds), take (m + length ds) xs)"
  using assms(1,2)
proof (induction ds arbitrary: m)
  case (Cons x ds)
  have x: "x = all_diffs xs d ! m" using Cons.prems(1) by auto
  have m: "m < N" "m < length xs" using Cons.prems(2) assms(3) by simp_all
  have "(if take m xs = [] then xs ! 0 else last (take m xs) + x) = xs ! m"
    using m by (cases m) (auto simp: x all_diffs_nth take_Suc_conv_app_nth)
  then have "take m xs @ [if take m xs = [] then xs ! 0 else last (take m xs) + x] = take (Suc m) xs"
    using m by (simp add: take_Suc_conv_app_nth)
  moreover have "out_diffs (xs ! 0) ds (N - Suc m, take (Suc m) xs) = (N - (Suc m + length ds), take (Suc m + length ds) xs)"
    using Cons.prems by (intro Cons.IH) auto
  ultimately show ?case using m by simp
qed simp

lemma concat_frame:
  "\<forall>F\<in>set frs. length F = 16 \<Longrightarrow> i < length frs \<Longrightarrow> frame_at (concat frs @ r) i = frs ! i"
proof (induction frs arbitrary: i)
  case (Cons F frs)
  then show ?case by (cases i) (simp_all add: frame_at_def)
qed simp

lemma length_concat_frames: "\<forall>F\<in>set frs. length F = 16 \<Longrightarrow> length (concat frs) = 16 * length frs"
  by (induction frs) simp_all

context steim_code
begin

lemma enc_words_frame:
  assumes "enc_words pack maxd xs ws (frame, e) = Some (F, e')" and "length frame = 16" and "\<forall>w\<in>set ws. 0 < w \<and> w < 16"
  shows "length F = 16 \<and> (\<forall>v<16. v \<notin> set ws \<longrightarrow>
    EXTRACTBITRANGE (F ! 0) (30 - 2 * v) 2 = EXTRACTBITRANGE (frame ! 0) (30 - 2 * v) 2 \<and> (0 < v \<longrightarrow> F ! v = frame ! v))"
  using assms
proof (induction ws arbitrary: frame e)
  case (Cons w ws)
  show ?case
  proof (cases "length xs \<le> e_out e")
    case True
    then show ?thesis using Cons.prems by simp
  next
    case False
    let ?e = "refill maxd xs e"
    obtain x nibble k where p: "pack (e_diffs ?e) = Some (x, nibble, k)"
      using Cons.prems(1) False by (auto simp: Let_def split: option.splits)
    let ?f = "(frame[w := x])[0 := frame ! 0 OR push_bit (30 - 2 * w) nibble]"
    have "enc_words pack maxd xs ws (?f, ?e\<lparr>e_diffs := drop k (e_diffs ?e), e_out := e_out ?e + k\<rparr>) = Some (F, e')"
      using Cons.prems(1) False p by (simp add: Let_def)
    from Cons.IH [OF this] Cons.prems(2,3) have IH: "length F = 16" "\<forall>v<16. v \<notin> set ws \<longrightarrow>
        EXTRACTBITRANGE (F ! 0) (30 - 2 * v) 2 = EXTRACTBITRANGE (?f ! 0) (30 - 2 * v) 2 \<and> (0 < v \<longrightarrow> F ! v = ?f ! v)"
      by auto
    have "EXTRACTBITRANGE (F ! 0) (30 - 2 * v) 2 = EXTRACTBITRANGE (frame ! 0) (30 - 2 * v) 2 \<and> (0 < v \<longrightarrow> F ! v = frame ! v)"
      if "v < 16" "v \<notin> set (w # ws)" for v
      using IH(2) [rule_format, OF that(1)] that(2) Cons.prems(2,3) nibble_or [of w v nibble "frame ! 0"] code [OF p] that(1)
      by simp
    then show ?thesis using IH(1) by blast
  qed
qed simp

lemma enc_dec_words:
  assumes "enc_words pack maxd xs ws (frame, e) = Some (F, e')" and "length frame = 16"
    and "\<forall>w\<in>set ws. 0 < w \<and> w < 16 \<and> EXTRACTBITRANGE (frame ! 0) (30 - 2 * w) 2 = 0" and "distinct ws" and "enc_ok xs d e" and "0 < maxd"
    and "\<forall>w\<in>set ws. F' ! w = F ! w"
  shows "enc_ok xs d e' \<and> e_out e \<le> e_out e' \<and> (length xs \<le> e_out e' \<or> e_out e + length ws \<le> e_out e') \<and> (\<forall>N. e_out e' \<le> N \<longrightarrow> N \<le> length xs \<longrightarrow>
    dec_words D (xs ! 0) (F ! 0) F' ws (N - e_out e, take (e_out e) xs) = Some (N - e_out e', take (e_out e') xs))"
  using assms(1-5,7)
proof (induction ws arbitrary: frame e)
  case (Cons w ws)
  show ?case
  proof (cases "length xs \<le> e_out e")
    case True
    then show ?thesis using Cons.prems by auto
  next
    case False
    let ?e = "refill maxd xs e"
    note r = refill_ok [OF Cons.prems(5) assms(6)]
    have ne: "e_diffs ?e \<noteq> []" using r(3) False by simp
    obtain x nibble k where p: "pack (e_diffs ?e) = Some (x, nibble, k)"
      using Cons.prems(1) False by (auto simp: Let_def split: option.splits)
    let ?f = "(frame[w := x])[0 := frame ! 0 OR push_bit (30 - 2 * w) nibble]"
    let ?e1 = "?e\<lparr>e_diffs := drop k (e_diffs ?e), e_out := e_out ?e + k\<rparr>"
    have rec: "enc_words pack maxd xs ws (?f, ?e1) = Some (F, e')" using Cons.prems(1) False p by (simp add: Let_def)
    have k: "0 < k" "k \<le> length (e_diffs ?e)" using count [OF p ne] by simp_all
    have A: "e_diffs ?e = drop (e_out e) (take (e_inputidx ?e + 1) (all_diffs xs d))" "e_inputidx ?e < length xs" "e_out e \<le> e_inputidx ?e + 1"
      using r(1,2) by (simp_all add: enc_ok_def)
    have xs: "xs \<noteq> []" using A(2) by auto
    have o: "e_out e + k \<le> e_inputidx ?e + 1" using k(2) A by (simp add: length_all_diffs [OF xs])
    have e1: "enc_ok xs d ?e1" using r(1,2) o by (simp add: enc_ok_def add.commute)
    have w: "0 < w" "w < 16" "EXTRACTBITRANGE (frame ! 0) (30 - 2 * w) 2 = 0" "w \<notin> set ws" using Cons.prems(3,4) by auto
    have z: "\<forall>v\<in>set ws. 0 < v \<and> v < 16 \<and> EXTRACTBITRANGE (?f ! 0) (30 - 2 * v) 2 = 0"
      using Cons.prems(2-4) nibble_or [OF w(2) _ code [OF p], of _ "frame ! 0"] by auto
    have F: "EXTRACTBITRANGE (F ! 0) (30 - 2 * w) 2 = nibble" "F ! w = x"
      using enc_words_frame [OF rec] z w Cons.prems(2) nibble_or [OF w(2,2) code [OF p], of "frame ! 0"] by simp_all
    have IH: "enc_ok xs d e' \<and> e_out ?e1 \<le> e_out e' \<and> (length xs \<le> e_out e' \<or> e_out ?e1 + length ws \<le> e_out e') \<and> (\<forall>N. e_out e' \<le> N \<longrightarrow> N \<le> length xs \<longrightarrow>
        dec_words D (xs ! 0) (F ! 0) F' ws (N - e_out ?e1, take (e_out ?e1) xs) = Some (N - e_out e', take (e_out e') xs))"
      using Cons.prems(2,4,6) by (intro Cons.IH [OF rec _ z _ e1]) auto
    have "dec_words D (xs ! 0) (F ! 0) F' (w # ws) (N - e_out e, take (e_out e) xs) = Some (N - e_out e', take (e_out e') xs)"
      if N: "e_out e' \<le> N" "N \<le> length xs" for N
    proof -
      have "out_diffs (xs ! 0) (take k (e_diffs ?e)) (N - e_out e, take (e_out e) xs) = (N - e_out ?e1, take (e_out ?e1) xs)"
        using out_diffs_run [of "take k (e_diffs ?e)" xs d "e_out e" N] k(2) IH N A o r(2)
        by (simp add: length_all_diffs [OF xs] min_absorb2)
      moreover have "e_out e < N" using IH N k(1) r(2) by auto
      ultimately show ?thesis using F unpack [OF p ne] Cons.prems(6) IH N by simp
    qed
    then show ?thesis using IH r(2) k(1) by auto
  qed
qed simp

lemma enc_dec_frames:
  assumes "enc_frames pack maxd s xs [f..<n] e = Some (frs, e')" and "enc_ok xs d e" and "0 < maxd"
    and "\<forall>i<length frs. \<forall>v\<in>set (0 # data_words (f + i)). frame_at M (f + i) ! v = frs ! i ! v"
    and "if f = 0 then frame_at M 0 ! 1 = swap_if4 s (xs ! 0) else X0 = xs ! 0"
  shows "enc_ok xs d e' \<and> e_out e \<le> e_out e' \<and> length frs \<le> n - f \<and> (\<forall>i<length frs. length (frs ! i) = 16) \<and>
    (length xs \<le> e_out e' \<or> e_out e + 13 * (n - f) \<le> e_out e') \<and>
    dec_frames D s M [f..<n] X0 (e_out e' - e_out e, take (e_out e) xs) = Some (0, take (e_out e') xs)"
  using assms(1,2,4,5)
proof (induction "n - f" arbitrary: f e frs X0)
  case 0
  then show ?case by simp
next
  case (Suc m)
  then have fn: "f < n" "[f..<n] = f # [Suc f..<n]" by (simp_all add: upt_conv_Cons)
  show ?case
  proof (cases "length xs \<le> e_out e")
    case True
    then have "frs = []" "e' = e" using Suc.prems(1) fn by auto
    then show ?thesis using True Suc.prems(2) fn by simp
  next
    case False
    let ?frame = "if f = 0 then (replicate 16 0)[1 := swap_if4 s (xs ! 0)] else replicate 16 (0 :: i32)"
    obtain F e1 where w: "enc_words pack maxd xs (data_words f) (?frame, e) = Some (F, e1)"
      using Suc.prems(1) fn False by (auto simp: Let_def split: option.splits)
    let ?F = "F[0 := swap_if4 s (F ! 0)]"
    obtain frs' where frs: "frs = ?F # frs'" "enc_frames pack maxd s xs [Suc f..<n] e1 = Some (frs', e')"
      using Suc.prems(1) fn False w by (auto simp: Let_def)
    have dw: "\<forall>v\<in>set (data_words f). 0 < v \<and> v < 16 \<and> EXTRACTBITRANGE (?frame ! 0) (30 - 2 * v) 2 = 0" "distinct (data_words f)"
      by (auto simp: data_words_def EXTRACTBITRANGE_def)
    have M: "\<forall>v\<in>set (0 # data_words f). frame_at M f ! v = ?F ! v" using Suc.prems(3) frs(1) by force
    have len: "length F = 16" using enc_words_frame [OF w] dw by simp
    have Mw: "\<forall>v\<in>set (data_words f). frame_at M f ! v = F ! v" using M dw(1) by auto
    have wd: "enc_ok xs d e1 \<and> e_out e \<le> e_out e1 \<and> (length xs \<le> e_out e1 \<or> e_out e + length (data_words f) \<le> e_out e1) \<and> (\<forall>N. e_out e1 \<le> N \<longrightarrow> N \<le> length xs \<longrightarrow>
        dec_words D (xs ! 0) (F ! 0) (frame_at M f) (data_words f) (N - e_out e, take (e_out e) xs) = Some (N - e_out e1, take (e_out e1) xs))"
      by (rule enc_dec_words [OF w _ dw Suc.prems(2) assms(3) Mw]) simp
    have IH: "enc_ok xs d e' \<and> e_out e1 \<le> e_out e' \<and> length frs' \<le> n - Suc f \<and> (\<forall>i<length frs'. length (frs' ! i) = 16) \<and>
        (length xs \<le> e_out e' \<or> e_out e1 + 13 * (n - Suc f) \<le> e_out e') \<and>
        dec_frames D s M [Suc f..<n] (xs ! 0) (e_out e' - e_out e1, take (e_out e1) xs) = Some (0, take (e_out e') xs)"
      using Suc.hyps(2) Suc.prems(3) frs wd by (intro Suc.hyps(1)) auto
    have "e_out e' \<le> length xs" using IH by (auto simp: enc_ok_def)
    then have words: "dec_words D (xs ! 0) (F ! 0) (frame_at M f) (data_words f) (e_out e' - e_out e, take (e_out e) xs) =
        Some (e_out e' - e_out e1, take (e_out e1) xs)" using wd IH by blast
    have X0: "(if f = 0 then swap_if4 s (frame_at M f ! 1) else X0) = xs ! 0"
      using Suc.prems(4) by (simp split: if_splits)
    have ctrl: "swap_if4 s (frame_at M f ! 0) = F ! 0" using M len by simp
    have "dec_frames D s M [f..<n] X0 (e_out e' - e_out e, take (e_out e) xs) = Some (0, take (e_out e') xs)"
    proof (cases "e_out e' - e_out e = 0")
      case True
      then have "e_out e' = e_out e" using wd IH by auto
      then show ?thesis using fn by simp
    next
      case False
      then show ?thesis using fn words IH X0 ctrl by (simp add: Let_def)
    qed
    moreover have "length xs \<le> e_out e' \<or> e_out e + 13 * (n - f) \<le> e_out e'"
    proof -
      have "13 \<le> length (data_words f)" by (simp add: data_words_def)
      moreover have "n - f = Suc (n - Suc f)" using fn(1) by simp
      ultimately show ?thesis using IH wd by linarith
    qed
    ultimately show ?thesis using IH wd frs(1) len fn by (auto simp: nth_Cons split: nat.split)
  qed
qed

lemma enc_words_total:
  assumes "\<forall>ds. ds \<noteq> [] \<longrightarrow> set ds \<subseteq> set (all_diffs xs d) \<longrightarrow> pack ds \<noteq> None" and "0 < maxd"
  shows "enc_ok xs d e \<Longrightarrow> \<exists>F e'. enc_words pack maxd xs ws (frame, e) = Some (F, e') \<and> enc_ok xs d e'"
proof (induction ws arbitrary: frame e)
  case (Cons w ws)
  show ?case
  proof (cases "length xs \<le> e_out e")
    case False
    let ?e = "refill maxd xs e"
    note r = refill_ok [OF Cons.prems assms(2)]
    have ne: "e_diffs ?e \<noteq> []" using r(3) False by simp
    have "set (e_diffs ?e) \<subseteq> set (all_diffs xs d)"
      using r(1) unfolding enc_ok_def by (metis set_drop_subset set_take_subset subset_trans)
    then obtain x nibble k where p: "pack (e_diffs ?e) = Some (x, nibble, k)" using assms(1) ne by (metis option.exhaust prod_cases3)
    have xs: "xs \<noteq> []" using Cons.prems by (auto simp: enc_ok_def)
    have "e_out e + k \<le> e_inputidx ?e + 1"
      using count [OF p ne] r(1,2) by (auto simp: enc_ok_def length_all_diffs [OF xs])
    then have "enc_ok xs d (?e\<lparr>e_diffs := drop k (e_diffs ?e), e_out := e_out ?e + k\<rparr>)"
      using r(1,2) by (simp add: enc_ok_def add.commute)
    from Cons.IH [OF this] show ?thesis using False p by (simp add: Let_def)
  qed (use Cons.prems in simp)
qed simp

lemma enc_frames_total:
  assumes "\<forall>ds. ds \<noteq> [] \<longrightarrow> set ds \<subseteq> set (all_diffs xs d) \<longrightarrow> pack ds \<noteq> None" and "0 < maxd"
  shows "enc_ok xs d e \<Longrightarrow> \<exists>frs e'. enc_frames pack maxd s xs fs e = Some (frs, e')"
proof (induction fs arbitrary: e)
  case (Cons f fs)
  let ?frame = "if f = 0 then (replicate 16 0)[1 := swap_if4 s (xs ! 0)] else replicate 16 (0 :: i32)"
  obtain F e1 where w: "enc_words pack maxd xs (data_words f) (?frame, e) = Some (F, e1)" "enc_ok xs d e1"
    using enc_words_total [OF assms Cons.prems, of "data_words f" ?frame] by blast
  then show ?case using Cons.IH [OF w(2)] by (auto simp: Let_def)
qed simp

lemma enc_frames_length:
  assumes "enc_frames pack maxd s xs fs e = Some (frs, e')"
  shows "length frs \<le> length fs \<and> (\<forall>F\<in>set frs. length F = 16)"
  using assms
proof (induction fs arbitrary: e frs)
  case (Cons f fs)
  let ?frame = "if f = 0 then (replicate 16 0)[1 := swap_if4 s (xs ! 0)] else replicate 16 (0 :: i32)"
  show ?case
  proof (cases "length xs \<le> e_out e")
    case False
    obtain F e1 where w: "enc_words pack maxd xs (data_words f) (?frame, e) = Some (F, e1)"
      using Cons.prems False by (auto simp: Let_def split: option.splits)
    obtain frs' where frs: "frs = F[0 := swap_if4 s (F ! 0)] # frs'" "enc_frames pack maxd s xs fs e1 = Some (frs', e')"
      using Cons.prems False w by (auto simp: Let_def)
    have dw: "\<forall>w\<in>set (data_words f). 0 < w \<and> w < 16" by (simp add: data_words_def)
    have "length F = 16" using enc_words_frame [OF w _ dw] by simp
    then show ?thesis using frs Cons.IH [OF frs(2)] by simp
  qed (use Cons.prems in auto)
qed auto

lemma roundtrip:
  assumes "msr_encode_steim pack maxd s xs output outlen d = Some (Inr (n, M))" and "xs \<noteq> []" and "64 \<le> outlen"
    and "0 < maxd" and "0 < buflen"
  shows "n \<le> length xs \<and> min (length xs) (13 * nat (outlen div 64)) \<le> n \<and> length M = nat (outlen div 4) \<and>
    msr_decode_steim D s M outlen (int n) buflen = Some (take n xs, False)"
proof -
  let ?m = "nat (outlen div 64)" and ?e = "\<lparr>e_diffs = [d], e_inputidx = 0, e_out = 0\<rparr>"
  have m: "0 < ?m" "16 * ?m \<le> nat (outlen div 4)" using assms(3) by linarith+
  obtain frs e' where enc: "enc_frames pack maxd s xs [0..<?m] ?e = Some (frs, e')"
    using assms(1-3) by (auto simp: msr_encode_steim_def split: option.splits)
  have ok: "enc_ok xs d ?e" using assms(2) by (simp add: enc_ok_def all_diffs_def)
  have u: "[0..<?m] = 0 # [1..<?m]" using m(1) by (simp add: upt_conv_Cons)
  have "frs \<noteq> []" using enc assms(2) unfolding u by (auto simp: Let_def split: option.splits prod.splits)
  then obtain F frs' where frs: "frs = F # frs'" by (cases frs) auto
  let ?frs = "F[2 := swap_if4 s (xs ! (e_out e' - 1))] # frs'"
  have M: "n = e_out e'" "M = concat ?frs @ replicate (nat (outlen div 4) - 16 * length ?frs) 0"
    using assms(1-3) enc frs by (auto simp: msr_encode_steim_def Let_def)
  have len: "length frs \<le> ?m" "\<forall>F\<in>set frs. length F = 16" using enc_frames_length [OF enc] by simp_all
  have at: "frame_at M i = ?frs ! i" if "i < length frs" for i
    unfolding M(2) using that len(2) frs by (intro concat_frame) auto
  have mem: "\<forall>i<length frs. \<forall>v\<in>set (0 # data_words (0 + i)). frame_at M (0 + i) ! v = frs ! i ! v"
    using at frs by (auto simp: data_words_def nth_Cons split: nat.splits)
  have F1: "F ! 1 = swap_if4 s (xs ! 0)"
  proof -
    let ?f = "(replicate 16 0)[1 := swap_if4 s (xs ! 0)]"
    obtain G e1 where w: "enc_words pack maxd xs (data_words 0) (?f, ?e) = Some (G, e1)" "F = G[0 := swap_if4 s (G ! 0)]"
      using enc assms(2) frs unfolding u by (auto simp: Let_def split: option.splits)
    have dw: "\<forall>w\<in>set (data_words 0). 0 < w \<and> w < 16" "1 \<notin> set (data_words 0)" by (simp_all add: data_words_def)
    have "length G = 16" "G ! 1 = ?f ! 1" using enc_words_frame [OF w(1) _ dw(1)] dw(2) by simp_all
    then show ?thesis using w(2) by simp
  qed
  have X0: "if (0::nat) = 0 then frame_at M 0 ! 1 = swap_if4 s (xs ! 0) else 0 = xs ! 0"
    using at [of 0] frs F1 by simp
  have dec: "enc_ok xs d e' \<and> (length xs \<le> e_out e' \<or> 13 * ?m \<le> e_out e') \<and>
      dec_frames D s M [0..<?m] 0 (e_out e', []) = Some (0, take (e_out e') xs)"
    using enc_dec_frames [OF enc ok assms(4) mem X0] by simp
  have n: "n \<le> length xs" "0 < n" using dec M(1) assms(2) m(1) by (auto simp: enc_ok_def)
  have "length M = nat (outlen div 4)" using M(2) len frs m(2) length_concat_frames [of ?frs] by simp
  moreover have "last (take n xs) = swap_if4 s (frame_at M 0 ! 2)"
    using at [of 0] frs len(2) n M(1) last_conv_nth [of "take n xs"] assms(2) by simp
  ultimately show ?thesis
    using dec n M(1) m(1) assms(3,5) by (auto simp: msr_decode_steim_def Let_def)
qed

lemma encode_total:
  assumes "\<forall>ds. ds \<noteq> [] \<longrightarrow> set ds \<subseteq> set (all_diffs xs d) \<longrightarrow> pack ds \<noteq> None" and "0 < maxd" and "xs \<noteq> []" and "64 \<le> outlen"
  shows "\<exists>n M. msr_encode_steim pack maxd s xs output outlen d = Some (Inr (n, M))"
proof -
  let ?e = "\<lparr>e_diffs = [d], e_inputidx = 0, e_out = 0\<rparr>"
  have ok: "enc_ok xs d ?e" using assms(3) by (simp add: enc_ok_def all_diffs_def)
  obtain frs e' where enc: "enc_frames pack maxd s xs [0..<nat (outlen div 64)] ?e = Some (frs, e')"
    using enc_frames_total [OF assms(1,2) ok] by blast
  have "0 < nat (outlen div 64)" using assms(4) by linarith
  then have "[0..<nat (outlen div 64)] = 0 # [1..<nat (outlen div 64)]" by (simp add: upt_conv_Cons)
  then have "frs \<noteq> []" using enc assms(3) by (auto simp: Let_def split: option.splits prod.splits)
  then show ?thesis using enc assms(3,4) by (simp add: msr_encode_steim_def Let_def)
qed

end

text \<open>
  C8: Steim-1 records: on every host, with or without swapped bytes, \<^verbatim>\<open>msr_encode_steim1\<close> succeeds for every sequence
  of samples, packs at least 13 samples a frame as long as there are any, and \<^verbatim>\<open>msr_decode_steim1\<close> gives exactly
  the samples back that were packed, without a warning.
\<close>

theorem steim1_roundtrip:
  assumes "xs \<noteq> []" and "64 \<le> outlen" and "0 < buflen"
  shows "\<exists>n M. msr_encode_steim1 h s xs output outlen diff0 = Some (Inr (n, M)) \<and> n \<le> length xs \<and>
    min (length xs) (13 * nat (outlen div 64)) \<le> n \<and> length M = nat (outlen div 4) \<and>
    msr_decode_steim1 h s M outlen (int n) buflen = Some (take n xs, False)"
proof -
  have "\<forall>ds. ds \<noteq> [] \<longrightarrow> set ds \<subseteq> set (all_diffs xs diff0) \<longrightarrow> steim1_pack h s ds \<noteq> None" by (simp add: steim1_pack_def)
  then show ?thesis
    using s1.encode_total [of xs diff0 h s 4 outlen s "output"] s1.roundtrip [of h s 4 s xs "output" outlen diff0 _ _ buflen] assms
    unfolding msr_encode_steim1_def msr_decode_steim1_def by fastforce
qed

theorem steim1_roundtrip_witness:
  "\<exists>n M. msr_encode_steim1 LittleHost True [5, 7, 100000, - 3] [] 128 0 = Some (Inr (n, M)) \<and> 4 \<le> n \<and>
     msr_decode_steim1 LittleHost True M 128 (int n) 16 = Some ([5, 7, 100000, - 3], False)"
proof -
  obtain n M where "msr_encode_steim1 LittleHost True [5, 7, 100000, - 3] [] 128 0 = Some (Inr (n, M))" "n \<le> 4" "4 \<le> n"
      "msr_decode_steim1 LittleHost True M 128 (int n) 16 = Some (take n [5, 7, 100000, - 3], False)"
    using steim1_roundtrip [of "[5, 7, 100000, - 3]" 128 16 LittleHost True "[]" 0] by auto
  moreover from this have "n = 4" by simp
  ultimately show ?thesis by auto
qed

lemma fit_one: "ds \<noteq> [] \<Longrightarrow> \<forall>d\<in>set ds. BITWIDTH d \<le> 30 \<Longrightarrow> fit 1 30 ds"
  by (cases ds) (simp_all add: fit_def)

text \<open>
  C9: Steim-2 records: if every difference, that before the first sample included, has at most 30 bits, encoding
  succeeds, and decoding gives back the samples that were packed.
\<close>

theorem steim2_roundtrip:
  assumes "xs \<noteq> []" and "64 \<le> outlen" and "0 < buflen"
    and "BITWIDTH diff0 \<le> 30" and "\<forall>i<length xs - 1. BITWIDTH (xs ! (i + 1) - xs ! i) \<le> 30"
  shows "\<exists>n M. msr_encode_steim2 h s xs output outlen diff0 = Some (Inr (n, M)) \<and> n \<le> length xs \<and>
    min (length xs) (13 * nat (outlen div 64)) \<le> n \<and> length M = nat (outlen div 4) \<and>
    msr_decode_steim2 h s M outlen (int n) buflen = Some (take n xs, False)"
proof -
  have "steim2_pack h s ds \<noteq> None" if "ds \<noteq> []" "set ds \<subseteq> set (all_diffs xs diff0)" for ds
  proof -
    have "\<forall>d\<in>set ds. BITWIDTH d \<le> 30" using that(2) assms(4,5) by (auto simp: all_diffs_def)
    then show ?thesis using fit_one [OF that(1)] by (simp add: steim2_pack_def)
  qed
  then show ?thesis
    using s2.encode_total [of xs diff0 h s 7 outlen s "output"] s2.roundtrip [of h s 7 s xs "output" outlen diff0 _ _ buflen] assms(1-3)
    unfolding msr_encode_steim2_def msr_decode_steim2_def by fastforce
qed

theorem steim2_roundtrip_witness:
  "\<exists>n M. msr_encode_steim2 LittleHost True [5, 7] [] 64 0 = Some (Inr (n, M)) \<and>
     msr_decode_steim2 LittleHost True M 64 (int n) 8 = Some ([5, 7], False)"
proof -
  obtain n M where "msr_encode_steim2 LittleHost True [5, 7] [] 64 0 = Some (Inr (n, M))" "n \<le> 2" "2 \<le> n"
      "msr_decode_steim2 LittleHost True M 64 (int n) 8 = Some (take n [5, 7], False)"
    using steim2_roundtrip [of "[5, 7]" 64 8 0 LittleHost True "[]"] by (auto simp: BITWIDTH_def)
  moreover from this have "n = 2" by simp
  ultimately show ?thesis by auto
qed

end
