(* ===== verification/MsAgree.thy ===== *)
theory MsAgree
  imports MsCodec
begin

text \<open>
  Two decoders of Steim data: those of the program, \<^verbatim>\<open>utils/data/steim.c\<close> and \<^verbatim>\<open>steim2.c\<close>, for RT-130 packets, and
  those of libmseed for miniSEED records. A packet is a header of 64 bytes followed by the frames of a record.
  The theorems compare the two on the same frames; they also bound how much libmseed's decoders store.
\<close>

section \<open>How much is stored\<close>

lemma out_diffs_count: "fst (out_diffs X0 ds (n, out)) + length (snd (out_diffs X0 ds (n, out))) = n + length out"
  by (induction X0 ds "(n, out)" arbitrary: n out rule: out_diffs.induct) auto

lemma dec_words_count:
  "dec_words D X0 ctrl frame ws st = Some st' \<Longrightarrow> fst st' + length (snd st') = fst st + length (snd st)"
proof (induction ws arbitrary: st)
  case (Cons w ws)
  have "fst (out_diffs X0 ds st) + length (snd (out_diffs X0 ds st)) = fst st + length (snd st)" for ds
    using out_diffs_count [of X0 ds "fst st" "snd st"] by simp
  then show ?case using Cons by (auto split: if_splits option.splits)
qed simp

lemma dec_frames_count:
  "dec_frames D s input fs X0 st = Some st' \<Longrightarrow> fst st' + length (snd st') = fst st + length (snd st)"
proof (induction fs arbitrary: X0 st)
  case (Cons f fs)
  then show ?case by (auto simp: Let_def split: if_splits option.splits dest!: dec_words_count)
qed simp

text \<open>
  C12: However many differences the frames of a record hold, libmseed's Steim decoders store at most \<^verbatim>\<open>samplecount\<close>
  samples, so that they stay within the buffer that \<^verbatim>\<open>msr_unpack_data\<close> allocates for them.
\<close>

theorem msr_decode_steim_bound:
  assumes "msr_decode_steim1 h s input inputlength samplecount buflen = Some (out, warn) \<or>
    msr_decode_steim2 h s input inputlength samplecount buflen = Some (out, warn)"
  shows "length out \<le> nat samplecount"
proof -
  have "length out \<le> nat samplecount"
    if dec: "msr_decode_steim D s input inputlength samplecount buflen = Some (out, warn)" for D
  proof (cases "inputlength \<le> 0")
    case False
    then obtain n where "dec_frames D s input [0..<nat (inputlength div 64)] 0 (nat samplecount, []) = Some (n, out)"
      using dec by (auto simp: msr_decode_steim_def Let_def split: if_splits)
    from dec_frames_count [OF this] show ?thesis by simp
  qed (use dec in \<open>simp add: msr_decode_steim_def\<close>)
  then show ?thesis using assms unfolding msr_decode_steim1_def msr_decode_steim2_def by blast
qed

theorem msr_decode_steim_bound_witness:
  "\<exists>out warn. msr_decode_steim1 LittleHost False (replicate 16 1) 64 2 8 = Some (out, warn) \<and> length out \<le> 2"
proof -
  have d: "msr_decode_steim1 LittleHost False (replicate 16 1) 64 2 8 = Some ([1, 1], False)" by code_simp
  then have "length [1, 1 :: i32] \<le> nat 2" by (intro msr_decode_steim_bound disjI1)
  then show ?thesis using d by (intro exI [of _ "[1, 1]"] exI [of _ False]) simp
qed

section \<open>Words\<close>

lemma swap_load: "length bs = 4 \<Longrightarrow> swap_if4 (h = LittleHost) (load h bs) = be_word bs"
  by (cases h) (simp_all add: swap_if4_def ms_gswap4a_eq swap_4byte_load [of _ LittleHost, simplified])

lemma steim1_diffs_ref:
  assumes "length bs = 4"
  shows "steim1_diffs h (h = LittleHost) c (load h bs) = ref_diffs1 c bs"
proof -
  obtain a b c' d where bs: "bs = [a, b, c', d]" using list4_cases [OF assms] by blast
  have m: "map (\<lambda>i. scast (d8 h (load h bs) i)) [0..<4] = map (scast :: byte \<Rightarrow> i32) bs"
    using map_d8 [of h "load h bs"] store32_load [OF assms, of h] by (metis (no_types, lifting) list.map_comp comp_apply map_cong)
  have "swap_if2 (h = LittleHost) (load h [x, y]) = be_word [x, y]" for x y
    using swap_2byte_load [of "[x, y]" LittleHost] by (cases h) (simp_all add: swap_if2_def ms_gswap2a_eq)
  then have w: "map (\<lambda>i. scast (swap_if2 (h = LittleHost) (d16 h (load h bs) i))) [0..<2] =
      [scast (be_word [a, b] :: u16), scast (be_word [c', d] :: u16) :: i32]"
    using store32_load [OF assms, of h] by (simp add: upt_rec d16_def bs)
  show ?thesis
    unfolding steim1_diffs_def ref_diffs1_def m w swap_load [OF assms] by (simp add: bs)
qed

lemma steim2_diffs_ref:
  assumes "length bs = 4" and "c = 0 \<or> c = 1 \<or> c = 2 \<and> drop_bit 30 (be_word bs) AND 3 \<noteq> (0 :: i32) \<or> c = 3 \<and> drop_bit 30 (be_word bs) AND 3 \<noteq> (3 :: i32)"
  shows "steim2_diffs h (h = LittleHost) c (load h bs) = Some (ref_diffs2 c bs)"
proof -
  have m: "map (\<lambda>i. scast (d8 h (load h bs) i)) [0..<4] = map (scast :: byte \<Rightarrow> i32) bs"
    using map_d8 [of h "load h bs"] store32_load [OF assms(1), of h] by (metis (no_types, lifting) list.map_comp comp_apply map_cong)
  have e: "EXTRACTBITRANGE w 30 2 = drop_bit 30 w AND 3" for w by (simp add: EXTRACTBITRANGE_def)
  have f: "bit_fields w 1 0 30 = Steim.fields 1 30 w" "bit_fields w 2 15 15 = Steim.fields 2 15 w"
    "bit_fields w 3 20 10 = Steim.fields 3 10 w" "bit_fields w 5 24 6 = Steim.fields 5 6 w" "bit_fields w 6 25 5 = Steim.fields 6 5 w"
    "bit_fields w 7 24 4 = Steim.fields 7 4 w" for w
    by (rule bit_fields_eq; simp)+
  show ?thesis
    using assms(2) and3_cases [of "drop_bit 30 (be_word bs)"]
    unfolding steim2_diffs_def ref_diffs2_def m swap_load [OF assms(1)] e f Let_def by auto
qed

section \<open>Records\<close>

text \<open>The samples of a record whose first sample is \<open>X0\<close> and whose differences are \<open>ds\<close>.\<close>

definition steim_samples :: "i32 \<Rightarrow> i32 list \<Rightarrow> i32 list" where
  "steim_samples X0 ds = run_sums X0 (first_diffs True ds)"

lemma steim_samples_Nil [simp]: "steim_samples X0 [] = []"
  by (simp add: steim_samples_def first_diffs_def)

lemma length_steim_samples [simp]: "length (steim_samples X0 ds) = length ds"
  by (simp add: steim_samples_def)

lemma steim_samples_snoc: "steim_samples X0 (ds @ [d]) = steim_samples X0 ds @ [if ds = [] then X0 else last (steim_samples X0 ds) + d]"
proof (cases ds)
  case (Cons e es)
  have "last (X0 # run_sums X0 es) = X0 + sum_list es" by (rule last_run_sums)
  then show ?thesis by (simp add: steim_samples_def first_diffs_def Cons run_sums_append)
qed (simp add: steim_samples_def first_diffs_def)

lemma out_diffs_sums:
  "length pre + length ds \<le> N \<Longrightarrow>
     out_diffs X0 ds (N - length pre, steim_samples X0 pre) = (N - length (pre @ ds), steim_samples X0 (pre @ ds))"
proof (induction ds arbitrary: pre)
  case (Cons d ds)
  have "steim_samples X0 pre = [] \<longleftrightarrow> pre = []" by (metis length_0_conv length_steim_samples)
  then have "steim_samples X0 pre @ [if steim_samples X0 pre = [] then X0 else last (steim_samples X0 pre) + d] = steim_samples X0 (pre @ [d])" by (simp add: steim_samples_snoc)
  moreover have "N - length pre - 1 = N - length (pre @ [d])" "N - length pre \<noteq> 0" using Cons.prems by simp_all
  moreover have "out_diffs X0 ds (N - length (pre @ [d]), steim_samples X0 (pre @ [d])) = (N - length (pre @ d # ds), steim_samples X0 (pre @ d # ds))"
    using Cons.IH [of "pre @ [d]"] Cons.prems by simp
  ultimately show ?case by (simp del: length_append)
qed simp

lemma dec_words_sums:
  assumes "\<And>w. w \<in> set ws \<Longrightarrow> D (EXTRACTBITRANGE ctrl (30 - 2 * w) 2) (frame ! w) = Some (f w)"
    and "length (pre @ concat (map f ws)) \<le> N"
  shows "dec_words D X0 ctrl frame ws (N - length pre, steim_samples X0 pre) =
    Some (N - length (pre @ concat (map f ws)), steim_samples X0 (pre @ concat (map f ws)))"
  using assms
proof (induction ws arbitrary: pre)
  case (Cons w ws)
  show ?case
  proof (cases "N - length pre = 0")
    case True
    then have "length (f w) = 0" "length (concat (map f ws)) = 0" using Cons.prems(2) by (simp_all del: length_0_conv)
    then have "f w = []" "concat (map f ws) = []" by (simp_all only: length_0_conv)
    then show ?thesis using True by (simp del: concat_eq_Nil_conv)
  next
    case False
    have "out_diffs X0 (f w) (N - length pre, steim_samples X0 pre) = (N - length (pre @ f w), steim_samples X0 (pre @ f w))"
      using Cons.prems(2) by (intro out_diffs_sums) simp
    then show ?thesis using False Cons.IH [of "pre @ f w"] Cons.prems by simp
  qed
qed simp

lemma dec_frames_sums:
  assumes "\<And>k w. l \<le> k \<Longrightarrow> k < m \<Longrightarrow> w \<in> set (data_words k) \<Longrightarrow>
      D (EXTRACTBITRANGE (swap_if4 s (frame_at M k ! 0)) (30 - 2 * w) 2) (frame_at M k ! w) = Some (f k w)"
    and "if l = 0 then swap_if4 s (frame_at M 0 ! 1) = X else X0 = X"
    and "length (pre @ concat (map (\<lambda>k. concat (map (f k) (data_words k))) [l..<m])) \<le> N"
  shows "\<exists>n. dec_frames D s M [l..<m] X0 (N - length pre, steim_samples X pre) =
    Some (n, steim_samples X (pre @ concat (map (\<lambda>k. concat (map (f k) (data_words k))) [l..<m])))"
  using assms
proof (induction "m - l" arbitrary: l X0 pre)
  case (Suc j)
  then have lm: "l < m" "[l..<m] = l # [Suc l..<m]" by (simp_all add: upt_conv_Cons)
  let ?g = "\<lambda>k. concat (map (f k) (data_words k))"
  show ?case
  proof (cases "N - length pre = 0")
    case True
    then have "length (concat (map ?g [l..<m])) = 0" using Suc.prems(3) by (simp del: length_0_conv)
    then have "concat (map ?g [l..<m]) = []" by (simp only: length_0_conv)
    then show ?thesis using True lm by (simp del: concat_eq_Nil_conv)
  next
    case False
    have X: "(if l = 0 then swap_if4 s (frame_at M l ! 1) else X0) = X" using Suc.prems(2) by (simp split: if_splits)
    have "dec_words D X (swap_if4 s (frame_at M l ! 0)) (frame_at M l) (data_words l) (N - length pre, steim_samples X pre) =
        Some (N - length (pre @ ?g l), steim_samples X (pre @ ?g l))"
      using Suc.prems(1) [of l] Suc.prems(3) lm by (intro dec_words_sums) auto
    moreover have "\<exists>n. dec_frames D s M [Suc l..<m] X (N - length (pre @ ?g l), steim_samples X (pre @ ?g l)) =
        Some (n, steim_samples X ((pre @ ?g l) @ concat (map ?g [Suc l..<m])))"
      using Suc.hyps(2) Suc.prems lm by (intro Suc.hyps(1)) auto
    ultimately show ?thesis using False X lm by (simp add: Let_def)
  qed
qed simp

section \<open>The frames of a packet\<close>

definition mem_words :: "host \<Rightarrow> byte list \<Rightarrow> i32 list" where
  "mem_words h bs = map (\<lambda>i. load h (take 4 (drop (4 * i) bs))) [0..<length bs div 4]"

lemma frame_at_mem:
  assumes "64 * k + 64 \<le> length bs" and "v < 16"
  shows "frame_at (mem_words h bs) k ! v = load h (word_at (drop (64 * k) bs) v)"
proof -
  have "16 * k + v < length bs div 4" using assms by linarith
  then show ?thesis using assms(2) by (simp add: frame_at_def mem_words_def word_at_def algebra_simps)
qed

lemma length_frame_word: "64 \<le> length fr \<Longrightarrow> v < 16 \<Longrightarrow> length (word_at fr v) = 4"
  by (simp add: word_at_def)

lemma ctrl_mem:
  assumes "64 * k + 64 \<le> length bs"
  shows "EXTRACTBITRANGE (swap_if4 (h = LittleHost) (frame_at (mem_words h bs) k ! 0)) (30 - 2 * w) 2 = ctrl_code (drop (64 * k) bs) w"
proof -
  have l: "length (word_at (drop (64 * k) bs) 0) = 4" using assms by (simp add: length_frame_word)
  show ?thesis
    unfolding frame_at_mem [OF assms, of 0, simplified] swap_load [OF l] ctrl_code_def EXTRACTBITRANGE_def
    by (simp add: word_at_def)
qed

text \<open>The words of the first frame that hold the constants have the code 0.\<close>

definition conforming :: "byte list \<Rightarrow> bool" where
  "conforming block \<longleftrightarrow> ctrl_code (drop 64 block) 1 = 0 \<and> ctrl_code (drop 64 block) 2 = 0"

definition frame_diffs :: "(i32 \<Rightarrow> byte list \<Rightarrow> i32 list) \<Rightarrow> byte list \<Rightarrow> nat \<Rightarrow> nat \<Rightarrow> i32 list" where
  "frame_diffs ref block k w = ref (ctrl_code (drop (64 * (k + 1)) block) w) (word_at (drop (64 * (k + 1)) block) w)"

lemma packet_diffs:
  assumes "conforming block" and "2 \<le> n" and "\<And>bs. ref 0 bs = []"
  shows "concat (map (\<lambda>k. concat (map (frame_diffs ref block k) (data_words k))) [0..<n - 1]) =
    ref_block (\<lambda>frame. concat (map (\<lambda>i. ref (ctrl_code frame i) (word_at frame i)) [1..<16])) block n"
proof -
  let ?r = "\<lambda>frame. concat (map (\<lambda>i. ref (ctrl_code frame i) (word_at frame i)) [1..<16])"
  have "concat (map (frame_diffs ref block k) (data_words k)) = ?r (drop (64 * Suc k) block)" for k
  proof (cases "k = 0")
    case True
    have "[1..<16] = [1, 2] @ [3..<16 :: nat]" by (simp add: upt_rec)
    then show ?thesis using True assms(1,3) by (simp add: data_words_def frame_diffs_def conforming_def numeral_2_eq_2)
  qed (simp add: data_words_def frame_diffs_def [abs_def])
  moreover have "[1..<n] = map Suc [0..<n - 1]" using assms(2) by (simp add: map_Suc_upt)
  ultimately show ?thesis by (simp add: ref_block_def comp_def)
qed

lemma packet_decode:
  assumes "64 * n \<le> length block" and "2 \<le> n" and "conforming block" and "\<And>bs. ref 0 bs = []" and "0 < buflen"
    and "\<And>k w. k < n - 1 \<Longrightarrow> w \<in> set (data_words k) \<Longrightarrow>
      D (ctrl_code (drop (64 * (k + 1)) block) w) (load h (word_at (drop (64 * (k + 1)) block) w)) = Some (frame_diffs ref block k w)"
  defines "ds \<equiv> ref_block (\<lambda>frame. concat (map (\<lambda>i. ref (ctrl_code frame i) (word_at frame i)) [1..<16])) block n"
  shows "\<exists>warn. msr_decode_steim D (h = LittleHost) (mem_words h (drop 64 block)) (64 * (int n - 1)) (int (length ds)) buflen =
    Some (steim_samples (be_word (word_at block 17)) ds, warn)"
proof -
  let ?bs = "drop 64 block" and ?M = "mem_words h (drop 64 block)"
  have fr: "64 * k + 64 \<le> length ?bs" if "k < n - 1" for k using that assms(1,2) by simp
  have dr: "drop (64 * k) ?bs = drop (64 * (k + 1)) block" for k by (simp add: add.commute)
  have D: "D (EXTRACTBITRANGE (swap_if4 (h = LittleHost) (frame_at ?M k ! 0)) (30 - 2 * w) 2) (frame_at ?M k ! w) = Some (frame_diffs ref block k w)"
    if "0 \<le> k" "k < n - 1" "w \<in> set (data_words k)" for k w
  proof -
    have "w < 16" using that(3) by (auto simp: data_words_def split: if_splits)
    show ?thesis unfolding ctrl_mem [OF fr [OF that(2)]] frame_at_mem [OF fr [OF that(2)] \<open>w < 16\<close>] dr by (rule assms(6) [OF that(2,3)])
  qed
  have "length (word_at (drop 64 block) 1) = 4" using assms(1,2) by (simp add: length_frame_word)
  moreover have "word_at (drop 64 block) 1 = word_at block 17" by (simp add: word_at_def)
  ultimately have X: "swap_if4 (h = LittleHost) (frame_at ?M 0 ! 1) = be_word (word_at block 17)"
    using frame_at_mem [OF fr [of 0], of 1 h] swap_load [of "word_at block 17" h] assms(2) by simp
  have ds: "concat (map (\<lambda>k. concat (map (frame_diffs ref block k) (data_words k))) [0..<n - 1]) = ds"
    unfolding ds_def by (rule packet_diffs [OF assms(3,2)]) (rule assms(4))
  have "\<exists>r. dec_frames D (h = LittleHost) ?M [0..<n - 1] 0 (length ds - length ([] :: i32 list), steim_samples (be_word (word_at block 17)) []) =
      Some (r, steim_samples (be_word (word_at block 17)) ([] @ concat (map (\<lambda>k. concat (map (frame_diffs ref block k) (data_words k))) [0..<n - 1])))"
    by (rule dec_frames_sums) (use D X ds in simp_all)
  then obtain r where "dec_frames D (h = LittleHost) ?M [0..<n - 1] 0 (length ds, []) = Some (r, steim_samples (be_word (word_at block 17)) ds)"
    unfolding ds by auto
  moreover have "nat (64 * (int n - 1) div 64) = n - 1" using assms(2) by simp
  ultimately show ?thesis using assms(2,5) by (simp add: msr_decode_steim_def Let_def)
qed


lemma run_sums_shift: "run_sums (x + d) ds = map (\<lambda>y. y + d) (run_sums x ds)"
  by (induction x ds rule: run_sums.induct) (simp_all add: ac_simps)

text \<open>Second codes that have a meaning.\<close>

definition valid_dnibs :: "byte list \<Rightarrow> nat \<Rightarrow> bool" where
  "valid_dnibs block n \<longleftrightarrow>
     list_all (\<lambda>k. list_all (\<lambda>w. let fr = drop (64 * k) block; c = ctrl_code fr w; dnib = drop_bit 30 (be_word (word_at fr w) :: i32) AND 3
       in \<not> (c = 2 \<and> dnib = 0) \<and> \<not> (c = 3 \<and> dnib = 3)) [0..<16]) [0..<n]"

lemma valid_dnibs_at:
  "valid_dnibs block n \<Longrightarrow> k < n \<Longrightarrow> w < 16 \<Longrightarrow>
     \<not> (ctrl_code (drop (64 * k) block) w = 2 \<and> drop_bit 30 (be_word (word_at (drop (64 * k) block) w) :: i32) AND 3 = 0) \<and>
     \<not> (ctrl_code (drop (64 * k) block) w = 3 \<and> drop_bit 30 (be_word (word_at (drop (64 * k) block) w) :: i32) AND 3 = 3)"
  by (auto simp: valid_dnibs_def list_all_iff Let_def)

text \<open>
  C11: The two Steim-2 decoders do not agree: the program adds the first difference of a packet, the one to the sample before
  it, to the first sample \<^verbatim>\<open>X0\<close>, so that every sample of the first packet of a trace is off by that difference.
\<close>

theorem steim2_decoders_differ:
  assumes "64 * n \<le> length block" and "2 \<le> n" and "conforming block" and "0 < buflen" and "valid_dnibs block n"
    and "ref_block ref_frame2 block n = d # ds"
  shows "\<exists>out warn. msr_decode_steim2 h (h = LittleHost) (mem_words h (drop 64 block)) (64 * (int n - 1)) (int (length (d # ds))) buflen =
      Some (out, warn) \<and> length out = length (d # ds) \<and>
    fst (steim2 h (endian h = Some LittleHost) block INT_MIN (64 * n)) = map (\<lambda>x. x + d) out"
proof -
  let ?x = "be_word (word_at block 17)"
  have s: "fst (steim2 h (endian h = Some LittleHost) block INT_MIN (64 * n)) = run_sums ?x (d # ds)"
    using steim2_ref [OF assms(1,2) _ refl, of "h = LittleHost" h INT_MIN] assms(6) by (simp add: start_value_def)
  have "steim2_diffs h (h = LittleHost) (ctrl_code (drop (64 * (k + 1)) block) w) (load h (word_at (drop (64 * (k + 1)) block) w)) =
      Some (frame_diffs ref_diffs2 block k w)" if "k < n - 1" "w \<in> set (data_words k)" for k w
  proof -
    let ?fr = "drop (64 * (k + 1)) block"
    have w: "w < 16" using that(2) by (auto simp: data_words_def split: if_splits)
    have "k + 1 < n" using that(1) by simp
    moreover have "64 \<le> length ?fr" using that(1) assms(1) by simp
    moreover have "ctrl_code ?fr w = 0 \<or> ctrl_code ?fr w = 1 \<or> ctrl_code ?fr w = 2 \<or> ctrl_code ?fr w = 3"
      unfolding ctrl_code_def by (rule and3_cases)
    moreover have "\<not> (ctrl_code ?fr w = 2 \<and> drop_bit 30 (be_word (word_at ?fr w) :: i32) AND 3 = 0) \<and>
        \<not> (ctrl_code ?fr w = 3 \<and> drop_bit 30 (be_word (word_at ?fr w) :: i32) AND 3 = 3)"
      by (rule valid_dnibs_at [OF assms(5) \<open>k + 1 < n\<close> w])
    ultimately show ?thesis
      using w steim2_diffs_ref [of "word_at ?fr w" "ctrl_code ?fr w" h] length_frame_word [of ?fr w]
      unfolding frame_diffs_def by blast
  qed
  then obtain warn where "msr_decode_steim2 h (h = LittleHost) (mem_words h (drop 64 block)) (64 * (int n - 1)) (int (length (d # ds))) buflen =
      Some (steim_samples ?x (d # ds), warn)"
    using packet_decode [OF assms(1-3), of ref_diffs2 buflen "steim2_diffs h (h = LittleHost)" h] assms(4,6)
    unfolding msr_decode_steim2_def ref_frame2_def [abs_def] by (auto simp: ref_diffs2_def Let_def)
  then show ?thesis
    using s by (auto simp: steim_samples_def first_diffs_def run_sums_shift)
qed

text \<open>A packet of one frame, whose last word holds the differences 1, 2, 3 and 4.\<close>

definition demo_packet :: "byte list" where
  "demo_packet = replicate 64 0 @ [0, 0, 0, 1] @ replicate 56 0 @ [1, 2, 3, 4]"

lemma demo_packet_ok: "length demo_packet = 128" "conforming demo_packet" "valid_dnibs demo_packet 2"
    "ref_block ref_frame1 demo_packet 2 = [1, 2, 3, 4]" "ref_block ref_frame2 demo_packet 2 = [1, 2, 3, 4]"
  by code_simp+


theorem steim2_decoders_differ_witness:
  "\<exists>out warn. msr_decode_steim2 LittleHost True (mem_words LittleHost (drop 64 demo_packet)) 64 4 16 = Some (out, warn) \<and> length out = 4 \<and>
     fst (steim2 LittleHost True demo_packet INT_MIN 128) = map (\<lambda>x. x + 1) out"
  using steim2_decoders_differ [of 2 demo_packet 16 1 "[2, 3, 4]" LittleHost] demo_packet_ok by (simp add: numeral_eq_Suc)

end
