(* ===== verification/MsUnpack.thy ===== *)
theory MsUnpack
  imports MsAgree Mseed Float32 "HOL-Library.Log_Nat"
begin

text \<open>
  The samples of a record: the decoders of \<^verbatim>\<open>contrib/libmseed/unpackdata.c\<close> for the encodings other than Steim, their
  counterparts in \<^verbatim>\<open>packdata.c\<close>, and \<^verbatim>\<open>msr_unpack_data\<close> of \<^verbatim>\<open>unpack.c\<close>, which chooses among them.

  The input is the list of bytes from the data offset to the end of the buffer; \<open>None\<close> is a read behind its end.
  A decoder returns the samples it has stored or a negative code. Floats are given by their bits, doubles by
  their two words. The values of GEOSCOPE data are a mantissa of at most 24 significant bits over a power of two, which
  a float holds exactly.
\<close>

section \<open>Reading elements\<close>

definition read_at :: "byte list \<Rightarrow> nat \<Rightarrow> nat \<Rightarrow> byte list option" where
  "read_at buf off n = (if off + n \<le> length buf then Some (take n (drop off buf)) else None)"

text \<open>
  The loop \<^verbatim>\<open>for (idx = 0; idx < samplecount && outputlength >= size; idx++)\<close> of every decoder, over the indexes.
  The body gives a sample, or the value that the decoder returns at once.
\<close>

fun dec_loop :: "(nat \<Rightarrow> (msret + 'a) option) \<Rightarrow> int \<Rightarrow> int \<Rightarrow> nat list \<Rightarrow> (msret + 'a list) option" where
  "dec_loop body sz outputlength [] = Some (Inr [])"
| "dec_loop body sz outputlength (idx # is) =
     (if outputlength < sz then Some (Inr [])
      else (case body idx of
              None \<Rightarrow> None
            | Some (Inl code) \<Rightarrow> Some (Inl code)
            | Some (Inr x) \<Rightarrow> map_option (map_sum id (Cons x)) (dec_loop body sz (outputlength - sz) is)))"

definition read_i16 :: "host \<Rightarrow> bool \<Rightarrow> byte list \<Rightarrow> nat \<Rightarrow> u16 option" where
  "read_i16 h swapflag buf off = map_option (\<lambda>bs. swap_if2 swapflag (load h bs)) (read_at buf off 2)"

definition read_i32 :: "host \<Rightarrow> bool \<Rightarrow> byte list \<Rightarrow> nat \<Rightarrow> i32 option" where
  "read_i32 h swapflag buf off = map_option (\<lambda>bs. swap_if4 swapflag (load h bs)) (read_at buf off 4)"

definition read_f64 :: "host \<Rightarrow> bool \<Rightarrow> byte list \<Rightarrow> nat \<Rightarrow> (i32 \<times> i32) option" where
  "read_f64 h swapflag buf off =
     map_option (\<lambda>bs. let d = (load h (take 4 bs), load h (drop 4 bs)) in if swapflag then ms_gswap8a d else d) (read_at buf off 8)"

section \<open>Integers and floats\<close>

definition msr_decode_int16 :: "host \<Rightarrow> byte list \<Rightarrow> int \<Rightarrow> int \<Rightarrow> bool \<Rightarrow> (msret + i32 list) option" where
  "msr_decode_int16 h input samplecount outputlength swapflag =
     (if samplecount \<le> 0 then Some (Inr [])
      else if outputlength \<le> 0 then Some (Inl MS_GENERROR)
      else dec_loop (\<lambda>idx. map_option (\<lambda>w. Inr (scast w)) (read_i16 h swapflag input (2 * idx))) 4 outputlength [0..<nat samplecount])"

definition msr_decode_int32 :: "host \<Rightarrow> byte list \<Rightarrow> int \<Rightarrow> int \<Rightarrow> bool \<Rightarrow> (msret + i32 list) option" where
  "msr_decode_int32 h input samplecount outputlength swapflag =
     (if samplecount \<le> 0 then Some (Inr [])
      else if outputlength \<le> 0 then Some (Inl MS_GENERROR)
      else dec_loop (\<lambda>idx. map_option Inr (read_i32 h swapflag input (4 * idx))) 4 outputlength [0..<nat samplecount])"

definition msr_decode_float32 :: "host \<Rightarrow> byte list \<Rightarrow> int \<Rightarrow> int \<Rightarrow> bool \<Rightarrow> (msret + i32 list) option" where
  "msr_decode_float32 h input samplecount outputlength swapflag =
     (if samplecount \<le> 0 then Some (Inr [])
      else if outputlength \<le> 0 then Some (Inl MS_GENERROR)
      else dec_loop (\<lambda>idx. map_option Inr (read_i32 h swapflag input (4 * idx))) 4 outputlength [0..<nat samplecount])"

definition msr_decode_float64 :: "host \<Rightarrow> byte list \<Rightarrow> int \<Rightarrow> int \<Rightarrow> bool \<Rightarrow> (msret + (i32 \<times> i32) list) option" where
  "msr_decode_float64 h input samplecount outputlength swapflag =
     (if samplecount \<le> 0 then Some (Inr [])
      else if outputlength \<le> 0 then Some (Inl MS_GENERROR)
      else dec_loop (\<lambda>idx. map_option Inr (read_f64 h swapflag input (8 * idx))) 8 outputlength [0..<nat samplecount])"

section \<open>Gain ranged data\<close>

text \<open>The bits of the float with the value \<open>m / 2^e\<close>, for a mantissa \<open>m\<close> of at most 24 significant bits.\<close>

definition float_bits :: "int \<Rightarrow> nat \<Rightarrow> i32" where
  "float_bits m e =
     (if m = 0 then 0
      else (let k = bitlen \<bar>m\<bar> - 1
            in word_of_int ((if m < 0 then 2 ^ 31 else 0) + (127 + k - int e) * 2 ^ 23 + (\<bar>m\<bar> * 2 ^ 23 div 2 ^ nat k - 2 ^ 23))))"

text \<open>GEOSCOPE, 24 bits: the bytes \<^verbatim>\<open>b[2-k]\<close> or \<^verbatim>\<open>b[1+k]\<close> of the union are set from \<^verbatim>\<open>input[k]\<close>.\<close>

definition geoscope24 :: "host \<Rightarrow> bool \<Rightarrow> byte list \<Rightarrow> i32" where
  "geoscope24 h swapflag bs =
     (let i = (load h (if swapflag then [bs ! 2, bs ! 1, bs ! 0, 0] else [0, bs ! 0, bs ! 1, bs ! 2]) :: i32);
          mantissa = (if 0x7FFFFF < i then i - 0x1000000 else i)
      in float_bits (sint mantissa) 0)"

definition geoscope16 :: "u16 \<Rightarrow> u16 \<Rightarrow> i32" where
  "geoscope16 gainmask s =
     (let mantissa = uint (s AND 0x0FFF); exponent = unat (drop_bit 12 (s AND gainmask))
      in float_bits (mantissa - 2048) exponent)"

definition msr_decode_geoscope :: "host \<Rightarrow> byte list \<Rightarrow> int \<Rightarrow> int \<Rightarrow> int \<Rightarrow> bool \<Rightarrow> (msret + i32 list) option" where
  "msr_decode_geoscope h input samplecount outputlength encoding swapflag =
     (if samplecount \<le> 0 \<or> outputlength \<le> 0 then Some (Inl MS_GENERROR)
      else if encoding = 12 then
        dec_loop (\<lambda>idx. map_option (\<lambda>bs. Inr (geoscope24 h swapflag bs)) (read_at input (3 * idx) 3)) 4 outputlength [0..<nat samplecount]
      else if encoding = 13 then
        dec_loop (\<lambda>idx. map_option (\<lambda>w. Inr (geoscope16 0x7000 w)) (read_i16 h swapflag input (2 * idx))) 4 outputlength [0..<nat samplecount]
      else if encoding = 14 then
        dec_loop (\<lambda>idx. map_option (\<lambda>w. Inr (geoscope16 0xf000 w)) (read_i16 h swapflag input (2 * idx))) 4 outputlength [0..<nat samplecount]
      else Some (Inl MS_GENERROR))"

definition cdsn_sample :: "u16 \<Rightarrow> i32" where
  "cdsn_sample s =
     (let mantissa = (ucast (s AND 0x3FFF) :: i32); gainrange = drop_bit 14 (s AND 0xC000);
          mult = (if gainrange = 0 then 0 else if gainrange = 1 then 2 else if gainrange = 2 then 4 else (7 :: nat))
      in push_bit mult (mantissa - 0x1FFF))"

definition msr_decode_cdsn :: "host \<Rightarrow> byte list \<Rightarrow> int \<Rightarrow> int \<Rightarrow> bool \<Rightarrow> (msret + i32 list) option" where
  "msr_decode_cdsn h input samplecount outputlength swapflag =
     (if samplecount \<le> 0 then Some (Inr [])
      else dec_loop (\<lambda>idx. map_option (\<lambda>w. Inr (cdsn_sample w)) (read_i16 h swapflag input (2 * idx))) 4 outputlength [0..<nat samplecount])"

definition sro_sample :: "u16 \<Rightarrow> msret + i32" where
  "sro_sample s =
     (let mantissa = (ucast (s AND 0x0FFF) :: i32); gainrange = uint (drop_bit 12 (s AND 0xF000));
          mantissa = (if 0x7FF < mantissa then mantissa - 0x1000 else mantissa);
          exponent = - 1 * (gainrange + 0) + 10
      in if exponent < 0 \<or> 10 < exponent then Inl MS_GENERROR
         else Inr (mantissa * push_bit (nat exponent) 1))"

definition msr_decode_sro :: "host \<Rightarrow> byte list \<Rightarrow> int \<Rightarrow> int \<Rightarrow> bool \<Rightarrow> (msret + i32 list) option" where
  "msr_decode_sro h input samplecount outputlength swapflag =
     (if samplecount \<le> 0 then Some (Inr [])
      else dec_loop (\<lambda>idx. map_option sro_sample (read_i16 h swapflag input (2 * idx))) 4 outputlength [0..<nat samplecount])"

definition dwwssn_sample :: "u16 \<Rightarrow> i32" where
  "dwwssn_sample s = (let sample = (ucast s :: i32) in if 0x7FFF < sample then sample - 0x10000 else sample)"

definition msr_decode_dwwssn :: "host \<Rightarrow> byte list \<Rightarrow> int \<Rightarrow> int \<Rightarrow> bool \<Rightarrow> (msret + i32 list) option" where
  "msr_decode_dwwssn h input samplecount outputlength swapflag =
     (if samplecount < 0 then Some (Inr [])
      else dec_loop (\<lambda>idx. map_option (\<lambda>w. Inr (dwwssn_sample w)) (read_i16 h swapflag input (2 * idx))) 4 outputlength [0..<nat samplecount])"

section \<open>The samples of a record\<close>

datatype samples = Text "byte list" | Ints "i32 list" | Floats "i32 list" | Doubles "(i32 \<times> i32) list"

fun nsamples :: "samples \<Rightarrow> nat" where
  "nsamples (Text bs) = length bs"
| "nsamples (Ints xs) = length xs"
| "nsamples (Floats xs) = length xs"
| "nsamples (Doubles xs) = length xs"

text \<open>\<^verbatim>\<open>msr->sampletype\<close>.\<close>

fun sampletype :: "samples \<Rightarrow> byte" where
  "sampletype (Text bs) = 97"
| "sampletype (Ints xs) = 105"
| "sampletype (Floats xs) = 102"
| "sampletype (Doubles xs) = 100"

definition samplesize :: "int \<Rightarrow> int" where
  "samplesize encoding =
     (if encoding = 0 then 1
      else if encoding \<in> {1, 3, 4, 10, 11, 12, 13, 14, 16, 30, 32} then 4
      else if encoding = 5 then 8
      else 0)"

text \<open>
  A Steim decoder on bytes. It copies whole frames, each when it is reached: with fewer frames in the buffer than
  \<^verbatim>\<open>datasize\<close> says, it reads behind the end unless the samples, or an error, come in the frames before.
\<close>

definition decode_steim ::
  "(i32 list \<Rightarrow> int \<Rightarrow> int \<Rightarrow> int \<Rightarrow> (i32 list \<times> bool) option) \<Rightarrow> host \<Rightarrow> byte list \<Rightarrow> int \<Rightarrow> int \<Rightarrow> int \<Rightarrow> (msret + i32 list) option" where
  "decode_steim decode h input datasize samplecount outputlength =
     (let avail = length input div 64; code = (\<lambda>r. case r of None \<Rightarrow> Inl MS_GENERROR | Some (out, _) \<Rightarrow> Inr out)
      in if datasize div 64 \<le> int avail \<or> outputlength \<le> 0
         then Some (code (decode (mem_words h input) datasize samplecount outputlength))
         else if avail = 0 then None
         else (case decode (mem_words h input) (64 * int avail) samplecount outputlength of
                 None \<Rightarrow> Some (Inl MS_GENERROR)
               | Some (out, _) \<Rightarrow> if int (length out) = samplecount then Some (Inr out) else None))"

definition decode_data :: "host \<Rightarrow> bool \<Rightarrow> byte list \<Rightarrow> int \<Rightarrow> int \<Rightarrow> int \<Rightarrow> int \<Rightarrow> (msret + samples) option" where
  "decode_data h swapflag dbuf datasize encoding samplecnt unpacksize =
     (if encoding = 0 then map_option (\<lambda>bs. Inr (Text bs)) (read_at dbuf 0 (nat samplecnt))
      else if encoding = 1 then map_option (map_sum id Ints) (msr_decode_int16 h dbuf samplecnt unpacksize swapflag)
      else if encoding = 3 then map_option (map_sum id Ints) (msr_decode_int32 h dbuf samplecnt unpacksize swapflag)
      else if encoding = 4 then map_option (map_sum id Floats) (msr_decode_float32 h dbuf samplecnt unpacksize swapflag)
      else if encoding = 5 then map_option (map_sum id Doubles) (msr_decode_float64 h dbuf samplecnt unpacksize swapflag)
      else if encoding = 10 then
        map_option (map_sum id Ints) (decode_steim (msr_decode_steim1 h swapflag) h dbuf datasize samplecnt unpacksize)
      else if encoding = 11 then
        map_option (map_sum id Ints) (decode_steim (msr_decode_steim2 h swapflag) h dbuf datasize samplecnt unpacksize)
      else if encoding \<in> {12, 13, 14} then
        map_option (map_sum id Floats) (msr_decode_geoscope h dbuf samplecnt unpacksize encoding swapflag)
      else if encoding = 16 then map_option (map_sum id Ints) (msr_decode_cdsn h dbuf samplecnt unpacksize swapflag)
      else if encoding = 30 then map_option (map_sum id Ints) (msr_decode_sro h dbuf samplecnt unpacksize swapflag)
      else if encoding = 32 then map_option (map_sum id Ints) (msr_decode_dwwssn h dbuf samplecnt unpacksize swapflag)
      else Some (Inl MS_UNKNOWNFORMAT))"

text \<open>
  \<^verbatim>\<open>msr_unpack_data\<close> on the fields of the record that it uses; \<^verbatim>\<open>samplecnt\<close> is the 16-bit number of the fixed
  header, for which no product overflows. A negative value that a decoder returns is not the number of
  samples, so that it leads to \<^verbatim>\<open>MS_GENERROR\<close> too.
\<close>

definition msr_unpack_data ::
  "host \<Rightarrow> bool \<Rightarrow> byte list \<Rightarrow> int \<Rightarrow> u16 \<Rightarrow> int \<Rightarrow> u16 \<Rightarrow> (msret + samples) option" where
  "msr_unpack_data h swapflag record recordlen data_offset encoding samplecnt =
     (if recordlen = - 1 then Some (Inl MS_NOTSEED)
      else if recordlen < 128 \<or> 1048576 < recordlen then Some (Inl MS_OUTOFRANGE)
      else if data_offset < 48 \<or> recordlen \<le> uint data_offset then Some (Inl MS_GENERROR)
      else (let datasize = recordlen - uint data_offset; dbuf = drop (unat data_offset) record;
                unpacksize = uint samplecnt * samplesize encoding
            in case decode_data h swapflag dbuf datasize encoding (uint samplecnt) unpacksize of
                 None \<Rightarrow> None
               | Some (Inl code) \<Rightarrow> Some (Inl code)
               | Some (Inr xs) \<Rightarrow> if nsamples xs \<noteq> unat samplecnt then Some (Inl MS_GENERROR) else Some (Inr xs)))"

section \<open>Encoding\<close>

definition msr_encode_text :: "byte list \<Rightarrow> byte list \<Rightarrow> int \<Rightarrow> unit + nat \<times> byte list" where
  "msr_encode_text input dest outputlength =
     (if input = [] then Inr (0, dest)
      else if outputlength \<le> 0 then Inl ()
      else (let n = (if int (length input) < outputlength then length input else nat outputlength)
            in Inr (n, take n input @ replicate (nat (outputlength - int n)) 0)))"

text \<open>The loop of the other encoders: the bytes of the samples stored, and the length that is left.\<close>

fun enc_loop :: "('a \<Rightarrow> byte list) \<Rightarrow> int \<Rightarrow> int \<Rightarrow> 'a list \<Rightarrow> byte list list \<times> int" where
  "enc_loop store sz outputlength [] = ([], outputlength)"
| "enc_loop store sz outputlength (x # xs) =
     (if outputlength < sz then ([], outputlength) else apfst (Cons (store x)) (enc_loop store sz (outputlength - sz) xs))"

definition encode_fixed :: "('a \<Rightarrow> byte list) \<Rightarrow> int \<Rightarrow> 'a list \<Rightarrow> byte list \<Rightarrow> int \<Rightarrow> unit + nat \<times> byte list" where
  "encode_fixed store sz input dest outputlength =
     (if input = [] then Inr (0, dest)
      else if outputlength \<le> 0 then Inl ()
      else (let (out, rest) = enc_loop store sz outputlength input
            in Inr (length out, concat out @ replicate (nat rest) 0)))"

definition msr_encode_int16 :: "host \<Rightarrow> i32 list \<Rightarrow> byte list \<Rightarrow> int \<Rightarrow> bool \<Rightarrow> unit + nat \<times> byte list" where
  "msr_encode_int16 h input dest outputlength swapflag =
     encode_fixed (\<lambda>x. store16 h (swap_if2 swapflag (ucast x))) 2 input dest outputlength"

definition msr_encode_int32 :: "host \<Rightarrow> i32 list \<Rightarrow> byte list \<Rightarrow> int \<Rightarrow> bool \<Rightarrow> unit + nat \<times> byte list" where
  "msr_encode_int32 h input dest outputlength swapflag =
     encode_fixed (\<lambda>x. store32 h (swap_if4 swapflag x)) 4 input dest outputlength"

definition msr_encode_float32 :: "host \<Rightarrow> i32 list \<Rightarrow> byte list \<Rightarrow> int \<Rightarrow> bool \<Rightarrow> unit + nat \<times> byte list" where
  "msr_encode_float32 h input dest outputlength swapflag =
     encode_fixed (\<lambda>x. store32 h (swap_if4 swapflag x)) 4 input dest outputlength"

definition msr_encode_float64 :: "host \<Rightarrow> (i32 \<times> i32) list \<Rightarrow> byte list \<Rightarrow> int \<Rightarrow> bool \<Rightarrow> unit + nat \<times> byte list" where
  "msr_encode_float64 h input dest outputlength swapflag =
     encode_fixed (\<lambda>x. let d = (if swapflag then ms_gswap8a x else x) in store32 h (fst d) @ store32 h (snd d)) 8 input dest outputlength"

text \<open>
  The words that a Steim encoder has written, as bytes; \<^verbatim>\<open>lastintsample\<close> becomes the last sample packed.
\<close>

definition steim_bytes ::
  "host \<Rightarrow> i32 list \<Rightarrow> i32 \<Rightarrow> byte list \<Rightarrow> int \<Rightarrow> (unit + nat \<times> i32 list) option \<Rightarrow> (unit + nat \<times> byte list \<times> i32) option" where
  "steim_bytes h xs lastint dest maxdatabytes r =
     map_option (map_sum id (\<lambda>(n, ws).
       (n, if xs = [] then dest else concat (map (store32 h) ws) @ replicate (nat (maxdatabytes mod 4)) 0,
        if 0 < n then xs ! (n - 1) else lastint))) r"

text \<open>
  \<^verbatim>\<open>msr_pack_data\<close>: the number of samples packed, the bytes of \<^verbatim>\<open>dest\<close> and \<^verbatim>\<open>lastintsample\<close>; \<open>Inl\<close> is the return value -1
  and \<open>None\<close> the use of a null pointer.
\<close>

definition msr_pack_data ::
  "host \<Rightarrow> byte list \<Rightarrow> samples \<Rightarrow> int \<Rightarrow> i32 \<Rightarrow> bool \<Rightarrow> int \<Rightarrow> bool \<Rightarrow> (unit + nat \<times> byte list \<times> i32) option" where
  "msr_pack_data h dest src maxdatabytes lastint comphistory encoding swapflag =
     (let keep = map_sum id (\<lambda>(n, bs). (n, bs, lastint));
          d0 = (\<lambda>xs. if comphistory \<and> xs \<noteq> [] then hd xs - lastint else 0)
      in case src of
           Text bs \<Rightarrow> if encoding = 0 then Some (keep (msr_encode_text bs dest maxdatabytes)) else Some (Inl ())
         | Ints xs \<Rightarrow>
             if encoding = 1 then Some (keep (msr_encode_int16 h xs dest maxdatabytes swapflag))
             else if encoding = 3 then Some (keep (msr_encode_int32 h xs dest maxdatabytes swapflag))
             else if encoding = 10 then
               steim_bytes h xs lastint dest maxdatabytes (msr_encode_steim1 h swapflag xs [] maxdatabytes (d0 xs))
             else if encoding = 11 then
               steim_bytes h xs lastint dest maxdatabytes (msr_encode_steim2 h swapflag xs [] maxdatabytes (d0 xs))
             else Some (Inl ())
         | Floats xs \<Rightarrow> if encoding = 4 then Some (keep (msr_encode_float32 h xs dest maxdatabytes swapflag)) else Some (Inl ())
         | Doubles xs \<Rightarrow> if encoding = 5 then Some (keep (msr_encode_float64 h xs dest maxdatabytes swapflag)) else Some (Inl ()))"

fun take_samples :: "nat \<Rightarrow> samples \<Rightarrow> samples" where
  "take_samples n (Text bs) = Text (take n bs)"
| "take_samples n (Ints xs) = Ints (take n xs)"
| "take_samples n (Floats xs) = Floats (take n xs)"
| "take_samples n (Doubles xs) = Doubles (take n xs)"

section \<open>Lemmas on the loops\<close>

lemma loop_room:
  assumes "sz * int (length (i # is)) \<le> len" and "0 \<le> sz"
  shows "sz * int (length is) \<le> len - sz" and "\<not> len < sz"
proof -
  have "0 \<le> sz * int (length is)" using assms(2) by (intro mult_nonneg_nonneg) simp_all
  moreover have "sz * int (length (i # is)) = sz + sz * int (length is)" by (simp add: distrib_left)
  ultimately show "sz * int (length is) \<le> len - sz" and "\<not> len < sz" using assms(1) by linarith+
qed

lemma dec_loop_all:
  assumes "\<forall>i\<in>set is. body i = Some (Inr (f i))" and "sz * int (length is) \<le> len" and "0 \<le> sz"
  shows "dec_loop body sz len is = Some (Inr (map f is))"
  using assms
proof (induction "is" arbitrary: len)
  case (Cons i "is")
  show ?case using Cons loop_room [OF Cons.prems(2,3)] by simp
qed simp

lemma dec_loop_over:
  assumes "\<forall>i\<in>set is. body i = None \<or> (\<exists>x. body i = Some (Inr x))" and "i \<in> set is" and "body i = None"
    and "sz * int (length is) \<le> len" and "0 \<le> sz"
  shows "dec_loop body sz len is = None"
  using assms
proof (induction "is" arbitrary: len)
  case (Cons j "is")
  note l = loop_room [OF Cons.prems(4,5)]
  show ?case
  proof (cases "body j")
    case (Some r)
    then have "i \<in> set is" "\<exists>x. r = Inr x" using Cons.prems by auto
    then show ?thesis using Cons.IH [of "len - sz"] Cons.prems l Some by auto
  qed (use l in simp)
qed simp

text \<open>A loop over elements of \<open>k\<close> bytes reads behind the buffer exactly if they do not fit into it.\<close>

lemma dec_loop_fixed:
  assumes "0 < k" and "sz * int n \<le> len" and "0 \<le> sz"
    and "\<And>i. body i = map_option (\<lambda>bs. Inr (f bs)) (read_at buf (k * i) k)"
  shows "dec_loop body sz len [0..<n] =
    (if k * n \<le> length buf then Some (Inr (map (\<lambda>i. f (take k (drop (k * i) buf))) [0..<n])) else None)"
proof (cases "k * n \<le> length buf")
  case True
  have "k * i + k \<le> length buf" if "i < n" for i
    using mult_le_mono2 [of "Suc i" n k] that True by simp
  then have "\<forall>i\<in>set [0..<n]. body i = Some (Inr (f (take k (drop (k * i) buf))))"
    unfolding assms(4) by (simp add: read_at_def)
  from dec_loop_all [OF this, of sz len] show ?thesis using True assms(2,3) by simp
next
  case False
  then have n: "n - 1 < n" by (cases n) simp_all
  then have "body (n - 1) = None" using False assms(1) unfolding assms(4) by (cases n) (simp_all add: read_at_def algebra_simps)
  moreover have "body i = None \<or> (\<exists>x. body i = Some (Inr x))" for i unfolding assms(4) by (simp add: read_at_def)
  ultimately have "dec_loop body sz len [0..<n] = None"
    using n assms(2,3) by (intro dec_loop_over [where i = "n - 1"]) auto
  then show ?thesis using False by simp
qed

lemma dec_loop_bytes:
  assumes "dec_loop body sz len is = None"
  shows "\<exists>i\<in>set is. body i = None"
  using assms by (induction "is" arbitrary: len) (auto split: if_splits option.splits sum.splits)

section \<open>Reading the samples of a record\<close>

text \<open>The bytes of a sample in the record, 0 for Steim frames.\<close>

definition sample_width :: "int \<Rightarrow> nat" where
  "sample_width encoding =
     (if encoding = 0 then 1
      else if encoding \<in> {1, 13, 14, 16, 30, 32} then 2
      else if encoding = 12 then 3
      else if encoding \<in> {3, 4} then 4
      else if encoding = 5 then 8
      else 0)"

lemmas fixed_defs =
  msr_decode_int16_def msr_decode_int32_def msr_decode_float32_def msr_decode_float64_def
  msr_decode_geoscope_def msr_decode_cdsn_def msr_decode_dwwssn_def

lemma fixed_overrun:
  assumes "0 < k" and "4 \<le> sz" and "0 \<le> n"
  shows "dec_loop (\<lambda>i. map_option (\<lambda>bs. Inr (f bs)) (read_at buf (k * i) k)) sz (n * sz) [0..<nat n] = None \<longleftrightarrow> length buf < k * nat n"
  using dec_loop_fixed [OF assms(1), of sz "nat n" "n * sz" "\<lambda>i. map_option (\<lambda>bs. Inr (f bs)) (read_at buf (k * i) k)" f buf] assms(2,3) by auto

lemma decode_data_overrun:
  assumes "0 \<le> n" and "encoding \<notin> {10, 11, 30}"
  shows "decode_data h s buf datasize encoding n (n * samplesize encoding) = None \<longleftrightarrow>
    length buf < sample_width encoding * nat n"
proof -
  consider "encoding = 0" | "encoding = 1" | "encoding = 3" | "encoding = 4" | "encoding = 5" | "encoding = 12"
    | "encoding = 13" | "encoding = 14" | "encoding = 16" | "encoding = 32" | "encoding \<notin> {0, 1, 3, 4, 5, 10, 11, 12, 13, 14, 16, 30, 32}"
    using assms(2) by auto
  then show ?thesis
  proof cases
    case 1
    then show ?thesis by (simp add: decode_data_def sample_width_def read_at_def)
  next
    case 11
    then show ?thesis by (simp add: decode_data_def sample_width_def)
  qed (simp_all add: decode_data_def sample_width_def samplesize_def fixed_defs assms(1)
        fixed_overrun read_i16_def read_i32_def read_f64_def option.map_comp comp_def)
qed

lemma fixed_fits:
  assumes "0 < k" and "4 \<le> sz" and "0 \<le> n" and "k * nat n \<le> length buf"
  shows "dec_loop (\<lambda>i. map_option (\<lambda>bs. Inr (f bs)) (read_at buf (k * i) k)) sz (n * sz) [0..<nat n] =
    Some (Inr (map (\<lambda>i. f (take k (drop (k * i) buf))) [0..<nat n]))"
  using dec_loop_fixed [OF assms(1), of sz "nat n" "n * sz" "\<lambda>i. map_option (\<lambda>bs. Inr (f bs)) (read_at buf (k * i) k)" f buf] assms(2-4) by auto

lemma decode_data_fits:
  assumes "0 < n" and "encoding \<noteq> 30" and "0 < sample_width encoding" and "sample_width encoding * nat n \<le> length buf"
  shows "\<exists>xs. decode_data h s buf datasize encoding n (n * samplesize encoding) = Some (Inr xs) \<and> nsamples xs = nat n"
proof -
  consider "encoding = 0" | "encoding = 1" | "encoding = 3" | "encoding = 4" | "encoding = 5" | "encoding = 12"
    | "encoding = 13" | "encoding = 14" | "encoding = 16" | "encoding = 32"
    using assms(2,3) by (auto simp: sample_width_def split: if_splits)
  then show ?thesis
  proof cases
    case 1
    then show ?thesis using assms(4) by (simp add: decode_data_def sample_width_def read_at_def)
  qed (use assms(1,4) in \<open>simp_all add: decode_data_def sample_width_def samplesize_def fixed_defs
        fixed_fits read_i16_def read_i32_def read_f64_def option.map_comp comp_def\<close>)
qed

lemma sro_overrun:
  assumes "0 \<le> n" and "decode_data h s buf datasize 30 n len = None"
  shows "length buf < 2 * nat n"
proof -
  have "msr_decode_sro h buf n len s = None" using assms(2) by (simp add: decode_data_def)
  then obtain i where "i < nat n" "read_i16 h s buf (2 * i) = None"
    by (auto simp: msr_decode_sro_def split: if_splits dest!: dec_loop_bytes)
  then show ?thesis by (simp add: read_i16_def read_at_def split: if_splits)
qed

lemma steim_no_overrun:
  assumes "datasize = int (length buf)" and "encoding \<in> {10, 11}"
  shows "decode_data h s buf datasize encoding n len \<noteq> None"
  using assms by (auto simp: decode_data_def decode_steim_def Let_def zdiv_int)

definition overrun :: "int \<Rightarrow> u16 \<Rightarrow> int \<Rightarrow> u16 \<Rightarrow> bool" where
  "overrun recordlen data_offset encoding samplecnt \<longleftrightarrow>
     recordlen < uint data_offset + int (sample_width encoding) * uint samplecnt"

text \<open>
  C6: What \<^verbatim>\<open>msr_unpack_data\<close> reads of a record of the length it is given. It stays inside the record unless the
  declared number of samples of an uncompressed encoding does not fit behind the data offset; in that case it does read
  behind the record, for no length is compared with the number of samples (SRO data may stop before, at a bad exponent).
  If the samples fit, they are all delivered.
\<close>

theorem msr_unpack_data_reads:
  assumes "128 \<le> recordlen" and "recordlen \<le> 1048576" and "48 \<le> data_offset" and "uint data_offset < recordlen"
    and "int (length record) = recordlen"
  shows "(msr_unpack_data h s record recordlen data_offset encoding samplecnt = None \<longrightarrow> overrun recordlen data_offset encoding samplecnt) \<and>
    (encoding \<noteq> 30 \<and> overrun recordlen data_offset encoding samplecnt \<longrightarrow> msr_unpack_data h s record recordlen data_offset encoding samplecnt = None) \<and>
    (encoding \<noteq> 30 \<and> 0 < sample_width encoding \<and> 0 < samplecnt \<and> \<not> overrun recordlen data_offset encoding samplecnt \<longrightarrow>
      (\<exists>xs. msr_unpack_data h s record recordlen data_offset encoding samplecnt = Some (Inr xs) \<and> nsamples xs = unat samplecnt))"
proof -
  let ?buf = "drop (unat data_offset) record" and ?n = "uint samplecnt" and ?w = "sample_width encoding"
  let ?over = "overrun recordlen data_offset encoding samplecnt"
  let ?d = "decode_data h s ?buf (recordlen - uint data_offset) encoding ?n (?n * samplesize encoding)"
  have n: "nat ?n = unat samplecnt" "0 \<le> ?n" by simp_all
  have len: "int (length ?buf) = recordlen - uint data_offset"
  proof -
    have u: "int (unat data_offset) = uint data_offset" by simp
    then have "unat data_offset \<le> length record" using assms(4,5) by linarith
    then show ?thesis using u assms(5) by (simp add: of_nat_diff)
  qed
  have "int (?w * nat ?n) = int ?w * ?n" by simp
  then have over: "?over \<longleftrightarrow> length ?buf < ?w * nat ?n" using len unfolding overrun_def by linarith
  have m: "msr_unpack_data h s record recordlen data_offset encoding samplecnt = None \<longleftrightarrow> ?d = None"
    using assms(1-4) by (auto simp: msr_unpack_data_def Let_def not_le split: option.splits sum.splits)
  have "?d = None \<Longrightarrow> ?over"
  proof -
    assume d: "?d = None"
    then have "encoding \<notin> {10, 11}" using steim_no_overrun [OF len [symmetric], of encoding] by blast
    then show ?over
      using d decode_data_overrun [of ?n encoding h s ?buf] sro_overrun [of ?n h s ?buf] over
      by (cases "encoding = 30") (auto simp: sample_width_def)
  qed
  moreover have "?d = None" if "encoding \<noteq> 30" "?over"
  proof -
    have "encoding \<notin> {10, 11}" using that(2) over by (auto simp: sample_width_def)
    then show ?thesis using decode_data_overrun [of ?n encoding h s ?buf] that over by auto
  qed
  moreover have "\<exists>xs. msr_unpack_data h s record recordlen data_offset encoding samplecnt = Some (Inr xs) \<and> nsamples xs = unat samplecnt"
    if e: "encoding \<noteq> 30" "0 < ?w" "0 < samplecnt" "\<not> ?over"
  proof -
    have "0 < ?n" using e(3) by (simp add: word_less_def)
    then obtain xs where "?d = Some (Inr xs)" "nsamples xs = unat samplecnt"
      using decode_data_fits [OF _ e(1,2), of ?n ?buf h s] e(4) over n(1) by (metis not_less)
    then show ?thesis using assms(1-4) by (auto simp: msr_unpack_data_def Let_def)
  qed
  ultimately show ?thesis unfolding m by simp
qed

theorem msr_unpack_data_reads_witness:
  "msr_unpack_data LittleHost True (replicate 128 0) 128 64 3 17 = None \<and>
   (\<exists>xs. msr_unpack_data LittleHost True (replicate 128 0) 128 64 3 16 = Some (Inr xs) \<and> nsamples xs = 16)"
  using msr_unpack_data_reads [of 128 64 "replicate 128 0" LittleHost True 3 17]
    msr_unpack_data_reads [of 128 64 "replicate 128 0" LittleHost True 3 16]
  by (simp add: sample_width_def overrun_def)

section \<open>Encoding and decoding\<close>

lemma enc_loop_eq:
  assumes "0 < sz" and "0 \<le> len"
  shows "enc_loop store sz len xs =
    (map store (take (nat (len div sz)) xs), len - sz * int (min (length xs) (nat (len div sz))))"
  using assms(2)
proof (induction xs arbitrary: len)
  case (Cons x xs)
  show ?case
  proof (cases "len < sz")
    case False
    have "len div sz = (len - sz) div sz + 1" "0 \<le> (len - sz) div sz"
      using False assms(1) div_add_self2 [of sz "len - sz"] by (simp_all add: pos_imp_zdiv_nonneg_iff)
    then have "nat (len div sz) = Suc (nat ((len - sz) div sz))" by simp
    then show ?thesis using False Cons.IH [of "len - sz"] by (simp add: algebra_simps)
  qed (use Cons.prems in \<open>simp add: div_pos_pos_trivial\<close>)
qed simp

lemma concat_block:
  assumes "\<And>x. length (f x) = k" and "i < length xs"
  shows "take k (drop (k * i) (concat (map f xs) @ pad)) = f (xs ! i)"
  using assms(2)
proof (induction xs arbitrary: i)
  case (Cons x xs)
  then show ?case using assms(1) by (cases i) simp_all
qed simp

lemma length_concat_blocks: "(\<And>x. length (f x) = k) \<Longrightarrow> length (concat (map f xs)) = k * length xs"
  by (induction xs) simp_all

lemma load_store32: "load h (store32 h w) = w"
proof -
  have "be_word [ucast (drop_bit 24 w), ucast (drop_bit 16 w), ucast (drop_bit 8 w), ucast w] = w"
  proof (rule bit_word_eqI)
    fix n assume "n < LENGTH(32)"
    then consider "n < 8" | "8 \<le> n" "n < 16" | "16 \<le> n" "n < 24" | "24 \<le> n" "n < 32" by fastforce
    then show "bit (be_word [ucast (drop_bit 24 w), ucast (drop_bit 16 w), ucast (drop_bit 8 w), ucast w] :: i32) n \<longleftrightarrow> bit w n"
      unfolding be_word4 by cases (auto simp: bit_simps)
  qed
  then show ?thesis by (cases h) simp_all
qed

lemma fixed_roundtrip:
  assumes len: "\<And>x. length (store x) = k" and "0 < k" and "int k \<le> len" and "xs \<noteq> []"
    and f: "\<forall>x\<in>set xs. f (store x) = x" and "4 \<le> sz"
  shows "\<exists>n bs. encode_fixed store (int k) xs dest len = Inr (n, bs) \<and> 0 < n \<and> n \<le> length xs \<and> int (length bs) = len \<and>
    dec_loop (\<lambda>i. map_option (\<lambda>b. Inr (f b)) (read_at bs (k * i) k)) sz (int n * sz) [0..<n] = Some (Inr (take n xs))"
proof -
  define n where "n = min (length xs) (nat (len div int k))"
  let ?bs = "concat (map store (take n xs)) @ replicate (nat (len - int k * int n)) 0"
  have t: "take (nat (len div int k)) xs = take n xs" by (simp add: n_def min_def)
  have e: "encode_fixed store (int k) xs dest len = Inr (n, ?bs)"
    using assms(2-4) enc_loop_eq [of "int k" len store xs] by (simp add: encode_fixed_def Let_def t flip: n_def) (simp add: n_def)
  have d: "1 \<le> len div int k" using assms(2,3) using zdiv_mono1 [of "int k" len "int k"] by simp
  have n: "0 < n" "n \<le> length xs" using d assms(4) by (simp_all add: n_def)
  have "int n \<le> len div int k" using d by (simp add: n_def)
  then have "int k * int n \<le> int k * (len div int k)" using mult_left_mono by force
  moreover have "int k * (len div int k) \<le> len" using mult_div_mod_eq [of "int k" len] pos_mod_sign [of "int k" len] assms(2) by linarith
  ultimately have kn: "int k * int n \<le> len" by linarith
  then have l: "int (length ?bs) = len" using n(2) length_concat_blocks [of store k "take n xs", OF len] by simp
  have "k * n \<le> length ?bs" using l kn by (metis of_nat_le_iff of_nat_mult)
  then have "dec_loop (\<lambda>i. map_option (\<lambda>b. Inr (f b)) (read_at ?bs (k * i) k)) sz (int n * sz) [0..<n] =
      Some (Inr (map (\<lambda>i. f (take k (drop (k * i) ?bs))) [0..<n]))"
    using fixed_fits [OF assms(2,6), of "int n" ?bs f] by simp
  moreover have "map (\<lambda>i. f (take k (drop (k * i) ?bs))) [0..<n] = take n xs"
  proof (intro nth_equalityI)
    fix i assume "i < length (map (\<lambda>i. f (take k (drop (k * i) ?bs))) [0..<n])"
    then have i: "i < n" by simp
    then have "take k (drop (k * i) ?bs) = store (take n xs ! i)" using n(2) by (intro concat_block len) simp
    moreover have "f (store (xs ! i)) = xs ! i" using i n(2) f by simp
    ultimately show "map (\<lambda>i. f (take k (drop (k * i) ?bs))) [0..<n] ! i = take n xs ! i" using i by simp
  qed (use n(2) in simp)
  ultimately show ?thesis using e n l by auto
qed

lemma mem_words_store:
  assumes "length pad < 4"
  shows "mem_words h (concat (map (store32 h) ws) @ pad) = ws"
proof -
  have l: "(length pad + 4 * length ws) div 4 = length ws" using assms by simp
  have "take 4 (drop (4 * i) (concat (map (store32 h) ws) @ pad)) = store32 h (ws ! i)" if "i < length ws" for i
    using that by (intro concat_block) simp_all
  then show ?thesis
    unfolding mem_words_def by (intro nth_equalityI) (simp_all add: length_concat_blocks [of "store32 h" 4] add.commute l load_store32)
qed

lemma steim_bytes_roundtrip:
  fixes h :: host
  assumes "64 \<le> len" and "xs \<noteq> []" and "length M = nat (len div 4)" and "decode M len (int n) (4 * int n) = Some (take n xs, False)"
  defines "bs \<equiv> concat (map (store32 h) M) @ replicate (nat (len mod 4)) 0"
  shows "int (length bs) = len" and "decode_steim decode h bs len (int n) (int n * 4) = Some (Inr (take n xs))"
proof -
  have "4 * (len div 4) + len mod 4 = len" "0 \<le> len div 4" "0 \<le> len mod 4" using assms(1) by simp_all
  then show l: "int (length bs) = len" using assms(3) by (simp add: bs_def length_concat_blocks [of "store32 h" 4])
  have "mem_words h bs = M" unfolding bs_def by (rule mem_words_store) simp
  moreover have "len div 64 = int (length bs div 64)" unfolding l [symmetric] by (simp add: zdiv_int)
  ultimately show "decode_steim decode h bs len (int n) (int n * 4) = Some (Inr (take n xs))"
    using assms(4) by (simp add: decode_steim_def Let_def mult.commute)
qed

text \<open>
  Samples that an encoding holds without loss: 16-bit integers have to be small, and the differences of Steim-2 data,
  that to the sample of the record before included, have to fit in 30 bits.
\<close>

definition can_pack :: "i32 \<Rightarrow> bool \<Rightarrow> int \<Rightarrow> samples \<Rightarrow> bool" where
  "can_pack lastint comphistory encoding src =
     (case src of
        Text bs \<Rightarrow> encoding = 0
      | Ints xs \<Rightarrow>
          encoding = 1 \<and> list_all (\<lambda>x. - 32768 \<le> sint x \<and> sint x \<le> 32767) xs \<or> encoding = 3 \<or> encoding = 10 \<or>
          encoding = 11 \<and> list_all (\<lambda>d. BITWIDTH d \<le> 30) (all_diffs xs (if comphistory then hd xs - lastint else 0))
      | Floats xs \<Rightarrow> encoding = 4
      | Doubles xs \<Rightarrow> encoding = 5)"

lemma fits_i16: "- 32768 \<le> sint x \<Longrightarrow> sint x \<le> 32767 \<Longrightarrow> scast (ucast x :: u16) = (x :: i32)"
  unfolding scast_ucast_u16 by (rule signed_take_bit_self) simp_all

lemma swap8_swap8 [simp]: "ms_gswap8a (ms_gswap8a d) = d"
  by (simp add: ms_gswap8a_def ms_gswap4a_eq swap_4byte_swap_4byte)

lemma pack_unpack_fixed:
  assumes "64 \<le> len" and "0 < nsamples src" and "can_pack lastint comphistory encoding src" and "encoding \<notin> {10, 11}"
  shows "\<exists>n bs. msr_pack_data h dest src len lastint comphistory encoding s = Some (Inr (n, bs, lastint)) \<and>
    0 < n \<and> n \<le> nsamples src \<and> int (length bs) = len \<and>
    decode_data h s bs len encoding (int n) (int n * samplesize encoding) = Some (Inr (take_samples n src))"
proof (cases src)
  case (Text cs)
  then have e: "encoding = 0" using assms(3) by (simp add: can_pack_def)
  define n where "n = min (length cs) (nat len)"
  have n: "0 < n" "n \<le> length cs" "int n \<le> len" using assms(1,2) Text by (simp_all add: n_def)
  have "(if int (length cs) < len then length cs else nat len) = n" by (simp add: n_def)
  then show ?thesis
    using n Text e assms(1,2) by (auto simp: msr_pack_data_def msr_encode_text_def decode_data_def read_at_def Let_def)
next
  case (Ints xs)
  then have xs: "xs \<noteq> []" using assms(2) by auto
  consider "encoding = 1" "\<forall>x\<in>set xs. - 32768 \<le> sint x \<and> sint x \<le> 32767" | "encoding = 3"
    using assms(3,4) Ints by (auto simp: can_pack_def list_all_iff)
  then show ?thesis
  proof cases
    case 1
    have "\<forall>x\<in>set xs. scast (swap_if2 s (load h (store16 h (swap_if2 s (ucast x))))) = x"
      using 1(2) by (simp add: load_store16 fits_i16)
    from fixed_roundtrip [OF _ _ _ xs this, of 2 len 4 dest] show ?thesis
      using 1 xs Ints assms(1)
      by (auto simp: msr_pack_data_def msr_encode_int16_def decode_data_def msr_decode_int16_def samplesize_def read_i16_def option.map_comp comp_def)
  next
    case 2
    have "\<forall>x\<in>set xs. swap_if4 s (load h (store32 h (swap_if4 s x))) = x" by (simp add: load_store32)
    from fixed_roundtrip [OF _ _ _ xs this, of 4 len 4 dest] show ?thesis
      using 2 xs Ints assms(1)
      by (auto simp: msr_pack_data_def msr_encode_int32_def decode_data_def msr_decode_int32_def samplesize_def read_i32_def option.map_comp comp_def)
  qed
next
  case (Floats xs)
  then have xs: "xs \<noteq> []" "encoding = 4" using assms(2,3) by (auto simp: can_pack_def)
  have "\<forall>x\<in>set xs. swap_if4 s (load h (store32 h (swap_if4 s x))) = x" by (simp add: load_store32)
  from fixed_roundtrip [OF _ _ _ xs(1) this, of 4 len 4 dest] show ?thesis
    using xs Floats assms(1)
    by (auto simp: msr_pack_data_def msr_encode_float32_def decode_data_def msr_decode_float32_def samplesize_def read_i32_def option.map_comp comp_def)
next
  case (Doubles xs)
  then have xs: "xs \<noteq> []" "encoding = 5" using assms(2,3) by (auto simp: can_pack_def)
  define st where "st x = (let d = (if s then ms_gswap8a x else x) in store32 h (fst d) @ store32 h (snd d))" for x
  define ld where "ld bs = (let d = (load h (take 4 bs), load h (drop 4 bs)) in if s then ms_gswap8a d else d)" for bs
  have "\<forall>x\<in>set xs. ld (st x) = x" by (simp add: ld_def st_def Let_def load_store32)
  moreover have "length (st x) = 8" for x by (simp add: st_def Let_def)
  ultimately obtain n bs where "encode_fixed st 8 xs dest len = Inr (n, bs)" "0 < n" "n \<le> length xs" "int (length bs) = len"
      "dec_loop (\<lambda>i. map_option (\<lambda>b. Inr (ld b)) (read_at bs (8 * i) 8)) 8 (int n * 8) [0..<n] = Some (Inr (take n xs))"
    using fixed_roundtrip [OF _ _ _ xs(1), of st 8 len ld 8 dest] assms(1) by auto
  then show ?thesis
    using xs Doubles assms(1)
    by (simp add: msr_pack_data_def msr_encode_float64_def decode_data_def msr_decode_float64_def samplesize_def read_f64_def
        option.map_comp comp_def flip: st_def ld_def)
qed

lemma pack_unpack_steim:
  assumes "64 \<le> len" and "0 < nsamples src" and "can_pack lastint comphistory encoding src" and "encoding \<in> {10, 11}"
  shows "\<exists>n bs last. msr_pack_data h dest src len lastint comphistory encoding s = Some (Inr (n, bs, last)) \<and>
    0 < n \<and> n \<le> nsamples src \<and> int (length bs) = len \<and>
    decode_data h s bs len encoding (int n) (int n * samplesize encoding) = Some (Inr (take_samples n src))"
proof -
  from assms(3,4) obtain xs where src: "src = Ints xs" by (auto simp: can_pack_def split: samples.splits)
  then have xs: "xs \<noteq> []" using assms(2) by auto
  define d where "d = (if comphistory \<and> xs \<noteq> [] then hd xs - lastint else 0)"
  have m: "0 < nat (len div 64)" using assms(1) by linarith
  have pos: "0 < n" if "min (length xs) (13 * nat (len div 64)) \<le> n" for n using that m xs by (cases xs) auto
  consider "encoding = 10" | "encoding = 11" "\<forall>d\<in>set (all_diffs xs d). BITWIDTH d \<le> 30"
    using assms(3,4) src xs by (auto simp: can_pack_def list_all_iff d_def)
  then show ?thesis
  proof cases
    case 1
    have "\<forall>ds. ds \<noteq> [] \<longrightarrow> set ds \<subseteq> set (all_diffs xs d) \<longrightarrow> steim1_pack h s ds \<noteq> None" by (simp add: steim1_pack_def)
    then obtain n M where e: "msr_encode_steim (steim1_pack h s) 4 s xs [] len d = Some (Inr (n, M))"
      using s1.encode_total [of xs d h s 4 len s "[]"] xs assms(1) by auto
    have r: "n \<le> length xs \<and> min (length xs) (13 * nat (len div 64)) \<le> n \<and> length M = nat (len div 4)"
      using s1.roundtrip [OF e xs assms(1), of 1] by simp
    then have n: "0 < n" using pos by blast
    then have dec: "msr_decode_steim1 h s M len (int n) (4 * int n) = Some (take n xs, False)"
      using s1.roundtrip [OF e xs assms(1), of "4 * int n"] by (simp add: msr_decode_steim1_def)
    from steim_bytes_roundtrip [where decode = "msr_decode_steim1 h s" and h = h, OF assms(1) xs _ dec] r show ?thesis
      using 1 src xs n e [unfolded d_def]
      by (auto simp: msr_pack_data_def msr_encode_steim1_def steim_bytes_def decode_data_def samplesize_def)
  next
    case 2
    have "steim2_pack h s ds \<noteq> None" if "ds \<noteq> []" "set ds \<subseteq> set (all_diffs xs d)" for ds
      using fit_one [OF that(1)] that(2) 2(2) by (auto simp: steim2_pack_def)
    then obtain n M where e: "msr_encode_steim (steim2_pack h s) 7 s xs [] len d = Some (Inr (n, M))"
      using s2.encode_total [of xs d h s 7 len s "[]"] xs assms(1) by auto
    have r: "n \<le> length xs \<and> min (length xs) (13 * nat (len div 64)) \<le> n \<and> length M = nat (len div 4)"
      using s2.roundtrip [OF e xs assms(1), of 1] by simp
    then have n: "0 < n" using pos by blast
    then have dec: "msr_decode_steim2 h s M len (int n) (4 * int n) = Some (take n xs, False)"
      using s2.roundtrip [OF e xs assms(1), of "4 * int n"] by (simp add: msr_decode_steim2_def)
    from steim_bytes_roundtrip [where decode = "msr_decode_steim2 h s" and h = h, OF assms(1) xs _ dec] r show ?thesis
      using 2 src xs n e [unfolded d_def]
      by (auto simp: msr_pack_data_def msr_encode_steim2_def steim_bytes_def decode_data_def samplesize_def)
  qed
qed

text \<open>
  C4: Packing and unpacking samples. For every encoding that libmseed can write (text, integers of 16 and 32 bits,
  floats, doubles, Steim-1 and Steim-2), samples that the encoding holds and a data section of at least a
  frame, \<^verbatim>\<open>msr_pack_data\<close> fills the section with a positive number of them, and the decoder that \<^verbatim>\<open>msr_unpack_data\<close>
  chooses gives exactly these back, on every host, in either byte order and with or without a sample of the record before.
\<close>

theorem pack_unpack_data:
  assumes "64 \<le> maxdatabytes" and "0 < nsamples src" and "can_pack lastint comphistory encoding src"
  shows "\<exists>n bs last. msr_pack_data h dest src maxdatabytes lastint comphistory encoding swapflag = Some (Inr (n, bs, last)) \<and>
    0 < n \<and> n \<le> nsamples src \<and> int (length bs) = maxdatabytes \<and>
    decode_data h swapflag bs maxdatabytes encoding (int n) (int n * samplesize encoding) = Some (Inr (take_samples n src))"
  using pack_unpack_steim [OF assms, of h dest swapflag] pack_unpack_fixed [OF assms, of h dest swapflag]
  by (cases "encoding \<in> {10, 11}") auto

theorem pack_unpack_data_witness:
  "\<exists>n bs last. msr_pack_data LittleHost [] (Ints [5, - 7]) 64 0 False 11 True = Some (Inr (n, bs, last)) \<and>
     decode_data LittleHost True bs 64 11 (int n) (int n * samplesize 11) = Some (Inr (take_samples n (Ints [5, - 7])))"
  using pack_unpack_data [of 64 "Ints [5, - 7]" 0 False 11 LittleHost "[]" True]
  by (auto simp: can_pack_def all_diffs_def BITWIDTH_def upt_rec)

end
