(* ===== verification/MsHeader.thy ===== *)
theory MsHeader
  imports MsUnpack
begin

text \<open>
  The header of a miniSEED record: \<^verbatim>\<open>msr_unpack\<close> of \<^verbatim>\<open>contrib/libmseed/unpack.c\<close>, \<^verbatim>\<open>ms_detect\<close> and \<^verbatim>\<open>msr_parse\<close> of
  \<^verbatim>\<open>parseutils.c\<close>, \<^verbatim>\<open>msr_pack_header_raw\<close> of \<^verbatim>\<open>pack.c\<close>, and what they use of \<^verbatim>\<open>msrutils.c\<close>, \<^verbatim>\<open>lookup.c\<close>, \<^verbatim>\<open>genutils.c\<close> and
  \<^verbatim>\<open>gswap.c\<close>.

  A record is the list of bytes in memory from its start; \<open>None\<close> is a read behind the end of that memory, a
  swap behind the end of a copied blockette, or a shift by 32 bits and more. The environment variables
  that libmseed reads once are a record of the four values it keeps. Allocation always succeeds, and what is
  only logged is left out.
\<close>

section \<open>The fixed section of the header\<close>

record fsdh =
  f_sequence_number :: "byte list"
  f_dataquality :: byte
  f_reserved :: byte
  f_station :: "byte list"
  f_location :: "byte list"
  f_channel :: "byte list"
  f_network :: "byte list"
  f_year :: u16
  f_day :: u16
  f_hour :: byte
  f_min :: byte
  f_sec :: byte
  f_unused :: byte
  f_fract :: u16
  f_numsamples :: u16
  f_samprate_fact :: u16
  f_samprate_mult :: u16
  f_act_flags :: byte
  f_io_flags :: byte
  f_dq_flags :: byte
  f_numblockettes :: byte
  f_time_correct :: i32
  f_data_offset :: u16
  f_blockette_offset :: u16

text \<open>The structure in memory, copied to or from the first 48 bytes of a record, with the swap of its numbers.\<close>

definition get_fsdh :: "host \<Rightarrow> bool \<Rightarrow> byte list \<Rightarrow> fsdh" where
  "get_fsdh h swapflag bs =
     (let u = (\<lambda>off. swap_if2 swapflag (load h (take 2 (drop off bs)))); str = (\<lambda>off n. take n (drop off bs))
      in \<lparr>f_sequence_number = str 0 6, f_dataquality = bs ! 6, f_reserved = bs ! 7, f_station = str 8 5,
          f_location = str 13 2, f_channel = str 15 3, f_network = str 18 2,
          f_year = u 20, f_day = u 22, f_hour = bs ! 24, f_min = bs ! 25, f_sec = bs ! 26, f_unused = bs ! 27, f_fract = u 28,
          f_numsamples = u 30, f_samprate_fact = u 32, f_samprate_mult = u 34,
          f_act_flags = bs ! 36, f_io_flags = bs ! 37, f_dq_flags = bs ! 38, f_numblockettes = bs ! 39,
          f_time_correct = swap_if4 swapflag (load h (take 4 (drop 40 bs))),
          f_data_offset = u 44, f_blockette_offset = u 46\<rparr>)"

definition put_fsdh :: "host \<Rightarrow> bool \<Rightarrow> fsdh \<Rightarrow> byte list" where
  "put_fsdh h swapflag f =
     (let u = (\<lambda>w. store16 h (swap_if2 swapflag w))
      in f_sequence_number f @ [f_dataquality f, f_reserved f] @ f_station f @ f_location f @ f_channel f @ f_network f @
         u (f_year f) @ u (f_day f) @ [f_hour f, f_min f, f_sec f, f_unused f] @ u (f_fract f) @
         u (f_numsamples f) @ u (f_samprate_fact f) @ u (f_samprate_mult f) @
         [f_act_flags f, f_io_flags f, f_dq_flags f, f_numblockettes f] @
         store32 h (swap_if4 swapflag (f_time_correct f)) @ u (f_data_offset f) @ u (f_blockette_offset f))"

definition MS_ISVALIDYEARDAY :: "u16 \<Rightarrow> u16 \<Rightarrow> bool" where
  "MS_ISVALIDYEARDAY y d \<longleftrightarrow> 1900 \<le> y \<and> y \<le> 2100 \<and> 1 \<le> d \<and> d \<le> 366"

definition MS_ISDATAINDICATOR :: "byte \<Rightarrow> bool" where
  "MS_ISDATAINDICATOR c \<longleftrightarrow> c = 68 \<or> c = 82 \<or> c = 81 \<or> c = 77"

definition MS_ISVALIDHEADER :: "byte list \<Rightarrow> bool" where
  "MS_ISVALIDHEADER X \<longleftrightarrow>
     list_all (\<lambda>i. isdigit (X ! i) \<or> X ! i = 32 \<or> X ! i = 0) [0..<6] \<and>
     MS_ISDATAINDICATOR (X ! 6) \<and> (X ! 7 = 32 \<or> X ! 7 = 0) \<and>
     0 \<le> sint (X ! 24) \<and> sint (X ! 24) \<le> 23 \<and> 0 \<le> sint (X ! 25) \<and> sint (X ! 25) \<le> 59 \<and> 0 \<le> sint (X ! 26) \<and> sint (X ! 26) \<le> 60"

definition MS_ISVALIDBLANK :: "byte list \<Rightarrow> bool" where
  "MS_ISVALIDBLANK X \<longleftrightarrow> list_all (\<lambda>i. isdigit (X ! i) \<or> X ! i = 0) [0..<6] \<and> list_all (\<lambda>i. X ! i = 32) [6..<48]"

text \<open>\<^verbatim>\<open>ms_strncpcleantail\<close>: the string that the destination then holds.\<close>

definition ms_strncpcleantail :: "byte list \<Rightarrow> cstr" where
  "ms_strncpcleantail src = takeWhile (\<lambda>c. c \<noteq> 0) (rev (dropWhile (\<lambda>c. c = 32) (rev src)))"

section \<open>Blockettes\<close>

record blkt =
  k_offset :: nat
  k_type :: u16
  k_next :: u16
  k_data :: "byte list"

text \<open>\<^verbatim>\<open>ms_blktlen\<close>; the length of blockette 2000 is read behind its header.\<close>

definition ms_blktlen :: "host \<Rightarrow> bool \<Rightarrow> u16 \<Rightarrow> byte list \<Rightarrow> nat \<Rightarrow> u16 option" where
  "ms_blktlen h swapflag t record off =
     (if t = 100 then Some 12
      else if t = 200 then Some 28
      else if t = 201 then Some 36
      else if t = 300 \<or> t = 310 then Some 32
      else if t = 320 \<or> t = 390 then Some 28
      else if t = 395 \<or> t = 400 then Some 16
      else if t = 500 \<or> t = 1000 \<or> t = 1001 then Some 8
      else if t = 2000 then read_i16 h swapflag record (off + 4)
      else Some 0)"

text \<open>The sizes of the structures, and the places and widths of the numbers in them that are swapped.\<close>

definition blkt_size :: "u16 \<Rightarrow> nat option" where
  "blkt_size t =
     (if t = 100 then Some 8
      else if t = 200 then Some 48
      else if t = 201 \<or> t = 300 \<or> t = 310 then Some 56
      else if t = 320 then Some 60
      else if t = 390 then Some 24
      else if t = 395 \<or> t = 400 then Some 12
      else if t = 405 then Some 2
      else if t = 500 then Some 196
      else if t = 1000 \<or> t = 1001 then Some 4
      else None)"

definition btime_swaps :: "nat \<Rightarrow> (nat \<times> nat) list" where
  "btime_swaps off = [(off, 2), (off + 2, 2), (off + 8, 2)]"

definition blkt_swaps :: "u16 \<Rightarrow> (nat \<times> nat) list" where
  "blkt_swaps t =
     (if t = 100 then [(0, 4)]
      else if t = 200 \<or> t = 201 then [(0, 4), (4, 4), (8, 4)] @ btime_swaps 14
      else if t = 300 \<or> t = 310 then btime_swaps 0 @ [(12, 4), (16, 4), (20, 4), (28, 4)]
      else if t = 320 then btime_swaps 0 @ [(12, 4), (16, 4), (24, 4)]
      else if t = 390 then btime_swaps 0 @ [(12, 4), (16, 4)]
      else if t = 395 then btime_swaps 0
      else if t = 400 then [(0, 4), (4, 4), (8, 2)]
      else if t = 405 then [(0, 2)]
      else if t = 500 then [(0, 4)] @ btime_swaps 4 @ [(16, 4)]
      else if t = 2000 then [(0, 2), (2, 2), (4, 4)]
      else [])"

text \<open>\<^verbatim>\<open>ms_gswap2\<close> and \<^verbatim>\<open>ms_gswap4\<close> on the bytes at an offset of a block.\<close>

definition ms_gswap :: "nat \<times> nat \<Rightarrow> byte list \<Rightarrow> byte list option" where
  "ms_gswap p bs =
     (let (off, n) = p in if off + n \<le> length bs then Some (take off bs @ rev (take n (drop off bs)) @ drop (off + n) bs) else None)"

fun gswaps :: "(nat \<times> nat) list \<Rightarrow> byte list \<Rightarrow> byte list option" where
  "gswaps [] bs = Some bs"
| "gswaps (p # ps) bs = Option.bind (ms_gswap p bs) (gswaps ps)"

section \<open>The record\<close>

record msr =
  r_reclen :: int
  r_fsdh :: fsdh
  r_blkts :: "blkt list"
  r_encoding :: int
  r_byteorder :: int

text \<open>The pointers \<^verbatim>\<open>Blkt100\<close>, \<^verbatim>\<open>Blkt1000\<close> and \<^verbatim>\<open>Blkt1001\<close> are set to the last blockette of their type.\<close>

definition last_blkt :: "u16 \<Rightarrow> msr \<Rightarrow> byte list option" where
  "last_blkt t m = map_option k_data (find (\<lambda>b. k_type b = t) (rev (r_blkts m)))"

definition add_blkt :: "msr \<Rightarrow> nat \<Rightarrow> u16 \<Rightarrow> u16 \<Rightarrow> byte list \<Rightarrow> msr option" where
  "add_blkt m off t next data =
     (let m = m\<lparr>r_blkts := r_blkts m @ [\<lparr>k_offset = off, k_type = t, k_next = next, k_data = data\<rparr>]\<rparr>
      in if t = 1000 then
           (if 32 \<le> data ! 2 then None
            else Some (m\<lparr>r_reclen := sint (push_bit (unat (data ! 2)) 1 :: i32), r_encoding := sint (data ! 0), r_byteorder := sint (data ! 1)\<rparr>))
         else Some m)"

text \<open>
  One blockette: the structure, of the size of its type and not of the length by which the loop checks it, is copied
  and swapped. The length of blockette 2000 is less 4 in 16 bits.
\<close>

definition unpack_blkt :: "host \<Rightarrow> bool \<Rightarrow> byte list \<Rightarrow> nat \<Rightarrow> u16 \<Rightarrow> u16 \<Rightarrow> u16 \<Rightarrow> msr \<Rightarrow> msr option" where
  "unpack_blkt h swapflag record off t next len m =
     (let n = (case blkt_size t of Some k \<Rightarrow> Some k
               | None \<Rightarrow> if t = 2000 then Some (unat (len - 4)) else if 4 \<le> len then Some (unat (len - 4)) else None)
      in case n of
           None \<Rightarrow> Some m
         | Some n \<Rightarrow>
             Option.bind (read_at record (off + 4) n) (\<lambda>data.
             Option.bind (if swapflag then gswaps (blkt_swaps t) data else Some data) (\<lambda>data.
             add_blkt m off t next data)))"

text \<open>The loop over the blockettes. A blockette that ends the loop by \<^verbatim>\<open>break\<close> is not added.\<close>

function blkt_walk :: "host \<Rightarrow> bool \<Rightarrow> byte list \<Rightarrow> int \<Rightarrow> nat \<Rightarrow> msr \<Rightarrow> msr option" where
  "blkt_walk h swapflag record rl off m =
     (if off = 0 \<or> rl \<le> int off \<or> 1048576 \<le> off then Some m
      else (case read_i16 h swapflag record off of None \<Rightarrow> None | Some t \<Rightarrow>
           (case read_i16 h swapflag record (off + 2) of None \<Rightarrow> None | Some next \<Rightarrow>
           (case ms_blktlen h swapflag t record off of None \<Rightarrow> None | Some len \<Rightarrow>
              if len = 0 then Some m
              else if rl < int off + uint len then Some m
              else (case unpack_blkt h swapflag record off t next len m of None \<Rightarrow> None | Some m \<Rightarrow>
                if next \<noteq> 0 \<and> unat next < off + unat len then Some m
                else if next \<noteq> 0 \<and> rl < uint next then Some m
                else if next = 0 then Some m
                else blkt_walk h swapflag record rl (unat next) m)))))"
  by pat_completeness auto

termination blkt_walk
proof (relation "measure (\<lambda>(h, s, rc, rl, off, m). Suc (nat rl) - off)", goal_cases)
  case (2 h s rc rl off m t nx len m')
  have "0 < unat len" using 2(5) by (simp add: unat_gt_0)
  moreover have "unat nx \<noteq> 0 \<Longrightarrow> off + unat len \<le> unat nx" using 2 by auto
  moreover have "uint nx \<le> rl" using 2 by auto
  then have "unat nx \<le> nat rl" by (metis nat_mono nat_uint_eq)
  moreover have "unat nx \<noteq> 0" using 2 by (auto simp: unat_eq_0)
  ultimately have "Suc (nat rl) - unat nx < Suc (nat rl) - off" by linarith
  then show ?case by simp
qed simp

section \<open>Times and rates\<close>

definition ms_btime2hptime :: "btime \<Rightarrow> int" where
  "ms_btime2hptime b =
     (let shortyear = b_year b - 1900;
          a4 = shortyear div 4 + 475 - (if shortyear mod 4 = 0 then 1 else 0);
          a100 = a4 sdiv 25 - (if a4 smod 25 < 0 then 1 else 0);
          a400 = a100 div 4;
          intervening_leap_days = (a4 - 492) - (a100 - 19) + (a400 - 4);
          days = 365 * (shortyear - 70) + intervening_leap_days + (b_day b - 1)
      in (60 * (60 * (24 * days + b_hour b) + b_min b) + b_sec b) * HPTMODULUS + b_fract b * (HPTMODULUS sdiv 10000))"

definition fsdh_btime :: "fsdh \<Rightarrow> btime" where
  "fsdh_btime f = \<lparr>b_year = uint (f_year f), b_day = uint (f_day f), b_hour = uint (f_hour f), b_min = uint (f_min f),
     b_sec = uint (f_sec f), b_fract = uint (f_fract f)\<rparr>"

definition msr_starttime :: "msr \<Rightarrow> int" where
  "msr_starttime m =
     (let f = r_fsdh m; t = ms_btime2hptime (fsdh_btime f)
      in if t = HPTERROR then HPTERROR
         else (let t = (if f_time_correct f \<noteq> 0 \<and> f_act_flags f AND 2 = 0 then t + sint (f_time_correct f) * (HPTMODULUS sdiv 10000) else t)
               in case last_blkt 1001 m of None \<Rightarrow> t | Some data \<Rightarrow> t + sint (data ! 1) * (HPTMODULUS sdiv 1000000)))"

definition ms_nomsamprate :: "int \<Rightarrow> int \<Rightarrow> real" where
  "ms_nomsamprate factor multiplier =
     (let samprate = (if 0 < factor then of_int factor else if factor < 0 then - 1 / of_int factor else 0)
      in if 0 < multiplier then samprate * of_int multiplier
         else if multiplier < 0 then - 1 * (samprate / of_int multiplier)
         else samprate)"

text \<open>A rate in blockette 100 that is no finite float has no value.\<close>

definition msr_samprate :: "host \<Rightarrow> msr \<Rightarrow> real option" where
  "msr_samprate h m =
     (case last_blkt 100 m of
        Some data \<Rightarrow> f32_val (load h (take 4 data))
      | None \<Rightarrow> Some (ms_nomsamprate (sint (f_samprate_fact (r_fsdh m))) (sint (f_samprate_mult (r_fsdh m)))))"

section \<open>Unpacking a record\<close>

text \<open>
  The values that environment variables may set: byte orders (-1 not set, 0 little-endian, 1 big-endian) and encodings.
\<close>

record unpackenv =
  headerbyteorder :: int
  databyteorder :: int
  encodingformat :: int
  encodingfallback :: int

definition byteorder_var :: "cstr option \<Rightarrow> int option" where
  "byteorder_var v =
     (case v of
        None \<Rightarrow> Some (- 1)
      | Some s \<Rightarrow> if s \<noteq> [] \<and> hd s = 48 then Some 0 else if s \<noteq> [] \<and> hd s = 49 then Some 1 else None)"

definition format_var :: "int \<Rightarrow> cstr option \<Rightarrow> int option" where
  "format_var dflt v = (case v of None \<Rightarrow> Some dflt | Some s \<Rightarrow> let f = atoi s in if f < 0 \<or> 33 < f then None else Some f)"

definition check_environment :: "(string \<Rightarrow> cstr option) \<Rightarrow> unpackenv option" where
  "check_environment getenv =
     Option.bind (byteorder_var (getenv ''UNPACK_HEADER_BYTEORDER'')) (\<lambda>hb.
     Option.bind (byteorder_var (getenv ''UNPACK_DATA_BYTEORDER'')) (\<lambda>db.
     Option.bind (format_var (- 1) (getenv ''UNPACK_DATA_FORMAT'')) (\<lambda>ef.
     Option.bind (format_var 10 (getenv ''UNPACK_DATA_FORMAT_FALLBACK'')) (\<lambda>fb.
       Some \<lparr>headerbyteorder = hb, databyteorder = db, encodingformat = ef, encodingfallback = fb\<rparr>))))"

definition bigendianhost :: "host \<Rightarrow> int" where
  "bigendianhost h = (if h = BigHost then 1 else 0)"

record unpacked =
  u_msr :: msr
  u_sequence_number :: int
  u_network :: cstr
  u_station :: cstr
  u_location :: cstr
  u_channel :: cstr
  u_starttime :: int
  u_samprate :: "real option"
  u_samples :: "samples option"

definition common_fields :: "host \<Rightarrow> msr \<Rightarrow> samples option \<Rightarrow> unpacked" where
  "common_fields h m xs =
     (let f = r_fsdh m
      in \<lparr>u_msr = m, u_sequence_number = atoi (takeWhile (\<lambda>c. c \<noteq> 0) (f_sequence_number f)),
          u_network = ms_strncpcleantail (f_network f), u_station = ms_strncpcleantail (f_station f),
          u_location = ms_strncpcleantail (f_location f), u_channel = ms_strncpcleantail (f_channel f),
          u_starttime = msr_starttime m, u_samprate = msr_samprate h m, u_samples = xs\<rparr>)"

text \<open>The byte order and the encoding, after the environment.\<close>

definition forced_format :: "unpackenv \<Rightarrow> msr \<Rightarrow> msr" where
  "forced_format env m =
     (let m = (if 0 \<le> databyteorder env then m\<lparr>r_byteorder := databyteorder env\<rparr> else m);
          m = (if 0 \<le> encodingformat env then m\<lparr>r_encoding := encodingformat env\<rparr> else m)
      in if 0 \<le> encodingfallback env \<and> r_encoding m = - 1
         then m\<lparr>r_encoding := encodingfallback env, r_byteorder := (if r_byteorder m = - 1 then 1 else r_byteorder m)\<rparr>
         else m)"

definition data_swapflag :: "host \<Rightarrow> unpackenv \<Rightarrow> bool \<Rightarrow> msr \<Rightarrow> bool" where
  "data_swapflag h env headerswapflag m =
     (if last_blkt 1000 m \<noteq> None \<and> databyteorder env < 0
      then h = BigHost \<and> r_byteorder m = 0 \<or> h = LittleHost \<and> 0 < r_byteorder m
      else if 0 \<le> databyteorder env then bigendianhost h \<noteq> databyteorder env
      else headerswapflag)"

definition msr_unpack :: "host \<Rightarrow> unpackenv \<Rightarrow> byte list \<Rightarrow> int \<Rightarrow> bool \<Rightarrow> (msret + unpacked) option" where
  "msr_unpack h env record rl dataflag =
     (if length record < 48 then None
      else if \<not> MS_ISVALIDHEADER record then Some (Inl MS_NOTSEED)
      else if rl < 128 \<or> 1048576 < rl then Some (Inl MS_OUTOFRANGE)
      else (let raw = get_fsdh h False record;
                headerswapflag = (if 0 \<le> headerbyteorder env then bigendianhost h \<noteq> headerbyteorder env
                                  else \<not> MS_ISVALIDYEARDAY (f_year raw) (f_day raw));
                f = get_fsdh h headerswapflag record;
                m = \<lparr>r_reclen = rl, r_fsdh = f, r_blkts = [], r_encoding = - 1, r_byteorder = - 1\<rparr>
            in case blkt_walk h headerswapflag record rl (unat (f_blockette_offset f)) m of
                 None \<Rightarrow> None
               | Some m \<Rightarrow>
                   (let m = forced_format env m
                    in if dataflag \<and> f_numsamples f \<noteq> 0
                       then map_option (map_sum id (\<lambda>xs. common_fields h m (Some xs)))
                         (msr_unpack_data h (data_swapflag h env headerswapflag m) record (r_reclen m) (f_data_offset f) (r_encoding m) (f_numsamples f))
                       else Some (Inr (common_fields h m None)))))"

section \<open>Detecting a record\<close>

text \<open>
  The walk of \<^verbatim>\<open>ms_detect\<close> to blockette 1000: \<open>Inl ()\<close> is the return value -1, \<open>Inr None\<close> that there is none.
\<close>

function detect_walk :: "host \<Rightarrow> bool \<Rightarrow> byte list \<Rightarrow> nat \<Rightarrow> (unit + int option) option" where
  "detect_walk h swapflag record off =
     (if off = 0 \<or> length record < off then Some (Inr None)
      else (case read_i16 h swapflag record off of None \<Rightarrow> None | Some t \<Rightarrow>
           (case read_i16 h swapflag record (off + 2) of None \<Rightarrow> None | Some next \<Rightarrow>
              if t = 1000 \<and> off + 8 \<le> length record
              then (let k = record ! (off + 6) in if 32 \<le> k then None else Some (Inr (Some (sint (push_bit (unat k) 1 :: i32)))))
              else if next \<noteq> 0 \<and> (next < 4 \<or> unat next - 4 \<le> off) then Some (Inl ())
              else if next = 0 then Some (Inr None)
              else detect_walk h swapflag record (unat next))))"
  by pat_completeness auto

termination detect_walk
proof (relation "measure (\<lambda>(h, s, rc, off). Suc (length rc) - off)", goal_cases)
  case (2 h s rc off t nx)
  then have "\<not> nx < 4" "\<not> unat nx - 4 \<le> off" by auto
  then have "off < unat nx" "off \<le> length rc" using 2 by (auto simp: word_less_nat_alt)
  then show ?case by simp
qed simp

text \<open>The search for the next header at multiples of 128 bytes.\<close>

function detect_next :: "byte list \<Rightarrow> nat \<Rightarrow> nat option" where
  "detect_next record off =
     (if off + 48 < length record
      then (if MS_ISVALIDHEADER (drop off record) \<or> MS_ISVALIDBLANK (drop off record) then Some off else detect_next record (off + 128))
      else None)"
  by pat_completeness auto

termination detect_next
  by (relation "measure (\<lambda>(rc, off). length rc - off)") auto

definition ms_detect :: "host \<Rightarrow> byte list \<Rightarrow> int option" where
  "ms_detect h record =
     (if length record < 48 \<or> \<not> MS_ISVALIDHEADER record then Some (- 1)
      else (let raw = get_fsdh h False record; swapflag = (\<not> MS_ISVALIDYEARDAY (f_year raw) (f_day raw))
            in case detect_walk h swapflag record (unat (swap_if2 swapflag (f_blockette_offset raw))) of
                 None \<Rightarrow> None
               | Some (Inl ()) \<Rightarrow> Some (- 1)
               | Some (Inr (Some n)) \<Rightarrow> Some n
               | Some (Inr None) \<Rightarrow> Some (case detect_next record 128 of None \<Rightarrow> 0 | Some n \<Rightarrow> int n)))"

text \<open>\<^verbatim>\<open>msr_parse\<close>: a record, or the value returned instead, an error code or the number of bytes that are missing.\<close>

fun mscode :: "msret \<Rightarrow> int" where
  "mscode MS_ENDOFFILE = 1"
| "mscode MS_NOERROR = 0"
| "mscode MS_GENERROR = - 1"
| "mscode MS_NOTSEED = - 2"
| "mscode MS_WRONGLENGTH = - 3"
| "mscode MS_OUTOFRANGE = - 4"
| "mscode MS_UNKNOWNFORMAT = - 5"

definition msr_parse :: "host \<Rightarrow> unpackenv \<Rightarrow> byte list \<Rightarrow> int \<Rightarrow> bool \<Rightarrow> (int + unpacked) option" where
  "msr_parse h env record rl dataflag =
     (if 0 < rl \<and> int (length record) < rl then Some (Inl (- 1))
      else (case (if rl \<le> 0 then ms_detect h record else Some rl) of
              None \<Rightarrow> None
            | Some n \<Rightarrow>
                if rl \<le> 0 \<and> n < 0 then Some (Inl (- 2))
                else if rl \<le> 0 \<and> n = 0 then Some (Inl 128)
                else if n < 128 \<or> 1048576 < n then Some (Inl (- 4))
                else if int (length record) < n then Some (Inl (n - int (length record)))
                else map_option (map_sum mscode id) (msr_unpack h env record n dataflag)))"

declare blkt_walk.simps [simp del] detect_walk.simps [simp del] detect_next.simps [simp del]

section \<open>Packing a header\<close>

definition put_bytes :: "nat \<Rightarrow> byte list \<Rightarrow> byte list \<Rightarrow> byte list" where
  "put_bytes off bs mem = take off mem @ bs @ drop (off + length bs) mem"

text \<open>
  The loop over the blockettes in \<^verbatim>\<open>msr_pack_header_raw\<close>, on the record, the offset and the number of blockettes.
  A structure of the size of the type is copied; \<open>None\<close> is a blockette with less data, a write behind
  the record, and an offset that the 16-bit variable does not hold. \<open>byteorder\<close> is \<^verbatim>\<open>packdatabyteorder\<close>.
\<close>

fun pack_blkts :: "host \<Rightarrow> bool \<Rightarrow> int \<Rightarrow> nat \<Rightarrow> blkt list \<Rightarrow> byte list \<times> nat \<times> nat \<Rightarrow> (byte list \<times> nat \<times> nat) option" where
  "pack_blkts h swapflag byteorder maxheaderlen [] st = Some st"
| "pack_blkts h swapflag byteorder maxheaderlen (b # bs) (rawrec, off, cnt) =
     (if maxheaderlen \<le> off \<or> maxheaderlen < off + 4 + length (k_data b) then Some (rawrec, off, cnt)
      else Option.bind (read_at (k_data b) 0 (case blkt_size (k_type b) of Some n \<Rightarrow> n | None \<Rightarrow> length (k_data b))) (\<lambda>data.
           Option.bind (if swapflag then gswaps (blkt_swaps (k_type b)) data else Some data) (\<lambda>data.
             let data = (if k_type b = 1000 \<and> 0 \<le> byteorder then data[1 := of_int byteorder] else data);
                 off' = off + 4 + length data;
                 nextoffset = (if bs \<noteq> [] then store16 h (swap_if2 swapflag (of_nat off')) else [0, 0])
             in if 32767 < off' \<or> length rawrec < off' then None
                else pack_blkts h swapflag byteorder maxheaderlen bs
                  (put_bytes off (store16 h (swap_if2 swapflag (k_type b)) @ nextoffset @ data) rawrec, off', cnt + 1))))"

text \<open>\<^verbatim>\<open>msr_pack_header_raw\<close> without normalising: the record and the length of the header; \<open>Inl\<close> is the return value -1.\<close>

definition msr_pack_header_raw ::
  "host \<Rightarrow> bool \<Rightarrow> int \<Rightarrow> fsdh \<Rightarrow> blkt list \<Rightarrow> byte list \<Rightarrow> nat \<Rightarrow> nat \<Rightarrow> (unit + byte list \<times> nat) option" where
  "msr_pack_header_raw h swapflag byteorder f blkts rawrec maxheaderlen rl =
     (if rl < maxheaderlen \<or> maxheaderlen < 48 then Some (Inl ())
      else map_option (\<lambda>(r, off, cnt). Inr (r[39 := of_nat cnt], off))
        (pack_blkts h swapflag byteorder maxheaderlen blkts (put_bytes 0 (put_fsdh h swapflag f) rawrec, 48, 0)))"

text \<open>Tenths of milliseconds, in microseconds, and the offset in microseconds.\<close>

definition ms_hptime2tomsusecoffset :: "int \<Rightarrow> int \<times> int" where
  "ms_hptime2tomsusecoffset hptime =
     (let toms = hptime sdiv (HPTMODULUS sdiv 10000);
          usecoffset = sint (word_of_int (hptime - toms * (HPTMODULUS sdiv 10000)) :: 8 word);
          (toms, usecoffset) =
            (if 49 < usecoffset \<and> usecoffset < 100 then (toms + 1, usecoffset - 100)
             else if usecoffset < - 50 \<and> - 100 < usecoffset then (toms - 1, usecoffset + 100)
             else (toms, usecoffset))
      in (toms * (HPTMODULUS sdiv 10000), usecoffset))"

section \<open>Times go back and forth\<close>

lemma div_pred: "0 < n \<Longrightarrow> y div n - (y - 1) div n = (if y mod n = 0 then 1 else 0)" for y n :: int
proof -
  assume n: "0 < n"
  have "y = n * (y div n) + y mod n" by simp
  then have "(y - 1) div n = y div n + (y mod n - 1) div n" using n
    by (metis add_diff_eq div_mult_self4 less_irrefl mult.commute add.commute)
  moreover have "(y mod n - 1) div n = (if y mod n = 0 then - 1 else 0)"
  proof (cases "y mod n = 0")
    case False
    then have "0 \<le> y mod n - 1" "y mod n - 1 < n" using n pos_mod_sign [of n y] pos_mod_bound [of n y] by linarith+
    then show ?thesis using False by (simp add: div_pos_pos_trivial)
  qed (use div_eq_minus1 [OF n] in simp)
  ultimately show ?thesis by simp
qed

text \<open>The number of days before a year, as \<^verbatim>\<open>ms_btime2hptime\<close> computes it.\<close>

definition year_days :: "int \<Rightarrow> int" where
  "year_days y = 365 * (y - 1970) + ((y - 1) div 4 - 492) - ((y - 1) div 100 - 19) + ((y - 1) div 400 - 4)"

lemma year_days_step: "year_days (y + 1) = year_days y + diy y"
proof -
  let ?i = "\<lambda>n. if y mod n = 0 then 1 else 0 :: int"
  have "y mod 100 = 0 \<Longrightarrow> y mod 4 = 0" "y mod 400 = 0 \<Longrightarrow> y mod 100 = 0"
    unfolding mod_eq_0_iff_dvd by (rule dvd_trans [of 4 100 y]; simp) (rule dvd_trans [of 100 400 y]; simp)
  then have "diy y = 365 + ?i 4 - ?i 100 + ?i 400" unfolding diy_def passcal_isleap_def
    by (cases "y mod 4 = 0"; cases "y mod 100 = 0"; cases "y mod 400 = 0") simp_all
  moreover have "y div 4 - (y - 1) div 4 = ?i 4" "y div 100 - (y - 1) div 100 = ?i 100" "y div 400 - (y - 1) div 400 = ?i 400"
    by (rule div_pred; simp)+
  moreover have "year_days (y + 1) = 365 * (y - 1970) + 365 + (y div 4 - 492) - (y div 100 - 19) + (y div 400 - 4)"
    by (simp add: year_days_def)
  ultimately show ?thesis unfolding year_days_def [of y] by linarith
qed

lemma year_days_htoe: "year_days y = htoe_days y"
proof (induction y rule: int_induct [of _ 1970])
  case base
  show ?case by (simp add: year_days_def htoe_days_def)
next
  case (step1 i)
  then show ?case using year_days_step [of i] htoe_days_Suc [of i] by simp
next
  case (step2 i)
  then show ?case using year_days_step [of "i - 1"] htoe_days_Suc [of "i - 1"] by simp
qed

lemma floor_sdiv: "0 < b \<Longrightarrow> a sdiv b - (if a smod b < 0 then 1 else 0) = a div b" for a b :: int
proof -
  assume b: "0 < b"
  have "0 \<le> a mod b" "0 \<le> - a mod b" using b by simp_all
  then have "a smod b < 0 \<longleftrightarrow> a < 0 \<and> a smod b \<noteq> 0" using b by (auto simp: smod_int_alt_def sgn_if simp del: pos_mod_sign)
  then show ?thesis using sdiv_floor [OF b, of a] by (simp add: minus_sdiv_mult_eq_smod)
qed

lemma btime2hptime_eq:
  "ms_btime2hptime b =
     (((htoe_days (b_year b) + (b_day b - 1)) * 86400 + (b_hour b * 3600 + b_min b * 60 + b_sec b)) * 1000000 + b_fract b * 100)"
proof -
  let ?y = "b_year b"
  have "(?y - 1900) mod 4 = ?y mod 4" by presburger
  then have a4: "(?y - 1900) div 4 + 475 - (if (?y - 1900) mod 4 = 0 then 1 else 0) = (?y - 1) div 4"
    using div_pred [of 4 ?y] by simp
  have a100: "((?y - 1) div 4) div 25 = (?y - 1) div 100" "((?y - 1) div 100) div 4 = (?y - 1) div 400"
    by (simp_all flip: zdiv_zmult2_eq)
  have h: "HPTMODULUS = 1000000" "HPTMODULUS sdiv 10000 = 100" by (simp_all add: HPTMODULUS_def signed_divide_int_def)
  have "ms_btime2hptime b =
      (60 * (60 * (24 * (year_days ?y + (b_day b - 1)) + b_hour b) + b_min b) + b_sec b) * 1000000 + b_fract b * 100"
    unfolding ms_btime2hptime_def h Let_def a4 floor_sdiv [of 25, simplified] a100 by (simp add: year_days_def)
  then show ?thesis by (simp add: year_days_htoe algebra_simps)
qed

lemma btime_roundtrip: "ms_btime2hptime (ms_hptime2btime hp) = hp div 100 * 100"
proof -
  let ?r = "ms_gmtime_r (hp div 1000000)"
  have "hp div 1000000 = (htoe_days (tm_year ?r + 1900) + tm_yday ?r) * 86400 + (tm_hour ?r * 3600 + tm_min ?r * 60 + tm_sec ?r)"
    using gm_fields [of "hp div 1000000"] by simp
  then have "ms_btime2hptime (ms_hptime2btime hp) = hp div 1000000 * 1000000 + hp mod 1000000 div 100 * 100"
    by (simp add: btime2hptime_eq hptime_floor Let_def)
  also have "\<dots> = hp div 100 * 100"
  proof -
    have "hp = hp mod 1000000 + (hp div 1000000 * 10000) * 100" using mod_mult_div_eq [of hp 1000000] by linarith
    then have "hp div 100 = (hp mod 1000000 + (hp div 1000000 * 10000) * 100) div 100" by (rule arg_cong)
    then have "hp div 100 = hp div 1000000 * 10000 + hp mod 1000000 div 100" by (simp only: div_mult_self1)
    then show ?thesis by simp
  qed
  finally show ?thesis .
qed

lemma sint8_self: "- 128 \<le> r \<Longrightarrow> r < 128 \<Longrightarrow> sint (word_of_int r :: 8 word) = r"
  by (simp add: sint_sbintrunc' signed_take_bit_int_eq_self)

lemma hptime_split:
  assumes "ms_hptime2tomsusecoffset t = (toms, usec)"
  shows "- 50 \<le> usec" "usec \<le> 49" "toms + usec = t" "toms = toms div 100 * 100"
proof -
  define r where "r = t - t sdiv 100 * 100"
  have h: "HPTMODULUS sdiv 10000 = 100" by (simp add: HPTMODULUS_def signed_divide_int_def)
  have "- 100 < r" "r < 100" using smod_range [of 100 t] by (simp_all add: r_def minus_sdiv_mult_eq_smod)
  moreover have "t = t sdiv 100 * 100 + r" by (simp add: r_def)
  ultimately have r: "- 100 < r" "r < 100" "t = t sdiv 100 * 100 + r" .
  have u: "sint (word_of_int r :: 8 word) = r" using r(1,2) by (intro sint8_self) simp_all
  have "(toms, usec) = (if 49 < r \<and> r < 100 then ((t sdiv 100 + 1) * 100, r - 100)
      else if r < - 50 \<and> - 100 < r then ((t sdiv 100 - 1) * 100, r + 100) else (t sdiv 100 * 100, r))"
    using assms unfolding ms_hptime2tomsusecoffset_def h Let_def r_def [symmetric] u by (auto split: if_splits)
  then show "- 50 \<le> usec" "usec \<le> 49" "toms + usec = t" "toms = toms div 100 * 100"
    using r by (auto split: if_splits)
qed

text \<open>
  The start time of a record is written and read to the microsecond. For every time, before and after 1970,
  \<^verbatim>\<open>ms_hptime2tomsusecoffset\<close> splits it into tenths of milliseconds and an offset from -50 to 49, and \<^verbatim>\<open>ms_btime2hptime\<close> of
  the calendar fields that \<^verbatim>\<open>ms_hptime2btime\<close> makes of the former, with the offset, is the time again.
\<close>

theorem hptime_header_roundtrip:
  assumes "ms_hptime2tomsusecoffset t = (toms, usec)"
  shows "- 50 \<le> usec \<and> usec \<le> 49 \<and> ms_btime2hptime (ms_hptime2btime toms) + usec = t"
  using hptime_split [OF assms] by (simp add: btime_roundtrip)

theorem hptime_header_roundtrip_witness:
  "- 50 \<le> (- 1 :: int) \<and> (- 1 :: int) \<le> 49 \<and> ms_btime2hptime (ms_hptime2btime 0) + - 1 = - 1"
proof -
  have "(- 1 :: int) sdiv 100 = 0" "(1000000 :: int) sdiv 10000 = 100" by (simp_all add: signed_divide_int_def)
  moreover have "sint (word_of_int (- 1) :: 8 word) = - 1" by (rule sint8_self) simp_all
  ultimately have "ms_hptime2tomsusecoffset (- 1) = (0, - 1)"
    unfolding ms_hptime2tomsusecoffset_def HPTMODULUS_def Let_def by simp
  from hptime_header_roundtrip [OF this] show ?thesis .
qed

section \<open>Swapping is its own inverse\<close>

text \<open>The place that the byte at \<open>i\<close> comes from.\<close>

fun mirror :: "nat \<times> nat \<Rightarrow> nat \<Rightarrow> nat" where
  "mirror (off, n) i = (if off \<le> i \<and> i < off + n then 2 * off + n - 1 - i else i)"

definition apart :: "nat \<times> nat \<Rightarrow> nat \<times> nat \<Rightarrow> bool" where
  "apart p q \<longleftrightarrow> fst p + snd p \<le> fst q \<or> fst q + snd q \<le> fst p"

lemma mirror_mirror: "mirror p (mirror p i) = i"
  by (cases p) auto

lemma mirror_less: "fst p + snd p \<le> n \<Longrightarrow> i < n \<Longrightarrow> mirror p i < n"
  by (cases p) auto

lemma mirror_commute: "apart p q \<Longrightarrow> mirror p (mirror q i) = mirror q (mirror p i)"
  by (cases p; cases q) (auto simp: apart_def)

lemma ms_gswap_map:
  "ms_gswap p bs = (if fst p + snd p \<le> length bs then Some (map (\<lambda>i. bs ! mirror p i) [0..<length bs]) else None)"
proof -
  obtain off n where p: "p = (off, n)" by (cases p)
  have "take off bs @ rev (take n (drop off bs)) @ drop (off + n) bs = map (\<lambda>i. bs ! mirror p i) [0..<length bs]"
    if l: "off + n \<le> length bs"
  proof (intro nth_equalityI)
    fix i assume "i < length (take off bs @ rev (take n (drop off bs)) @ drop (off + n) bs)"
    then have i: "i < length bs" using l by simp
    consider "i < off" | "off \<le> i" "i < off + n" | "off + n \<le> i" by linarith
    then show "(take off bs @ rev (take n (drop off bs)) @ drop (off + n) bs) ! i = map (\<lambda>i. bs ! mirror p i) [0..<length bs] ! i"
    proof cases
      case 2
      then have "i - off < n" "off + (n - Suc (i - off)) = 2 * off + n - 1 - i" by auto
      then show ?thesis using 2 l i by (simp add: p nth_append rev_nth)
    next
      case 3
      then have "\<not> i < off" "\<not> i - off < n" by auto
      then show ?thesis using 3 l i by (simp add: p nth_append)
    qed (use l i in \<open>simp add: p nth_append\<close>)
  qed (use l in simp)
  then show ?thesis by (simp add: ms_gswap_def p)
qed

lemma gswaps_map:
  "gswaps ps bs = (if list_all (\<lambda>p. fst p + snd p \<le> length bs) ps
     then Some (map (\<lambda>i. bs ! foldr mirror ps i) [0..<length bs]) else None)"
proof (induction ps arbitrary: bs)
  case (Cons p ps)
  have "foldr mirror ps i < length bs" if "list_all (\<lambda>p. fst p + snd p \<le> length bs) ps" "i < length bs" for i
    using that by (induction ps) (simp_all add: mirror_less)
  then show ?case by (auto simp: ms_gswap_map Cons.IH)
qed (simp add: map_nth)

lemma foldr_mirror_commute: "\<forall>q\<in>set ps. apart p q \<Longrightarrow> mirror p (foldr mirror ps i) = foldr mirror ps (mirror p i)"
  by (induction ps) (simp_all add: mirror_commute)

lemma foldr_mirror_twice:
  "sorted_wrt apart ps \<Longrightarrow> foldr mirror ps (foldr mirror ps i) = i"
  by (induction ps arbitrary: i) (simp_all add: foldr_mirror_commute [symmetric] mirror_mirror)

lemma gswaps_twice:
  assumes "sorted_wrt apart ps" and "gswaps ps bs = Some cs"
  shows "gswaps ps cs = Some bs" and "length cs = length bs"
proof -
  have l: "list_all (\<lambda>p. fst p + snd p \<le> length bs) ps" and cs: "cs = map (\<lambda>i. bs ! foldr mirror ps i) [0..<length bs]"
    using assms(2) by (auto simp: gswaps_map split: if_splits)
  have "foldr mirror ps i < length bs" if "i < length bs" for i
    using l that by (induction ps) (simp_all add: mirror_less)
  then have "map (\<lambda>i. cs ! foldr mirror ps i) [0..<length bs] = bs"
    using foldr_mirror_twice [OF assms(1)] by (intro nth_equalityI) (simp_all add: cs)
  then show "gswaps ps cs = Some bs" "length cs = length bs" using l by (simp_all add: gswaps_map cs)
qed

lemma blkt_swaps_apart: "sorted_wrt apart (blkt_swaps t)"
  by (simp add: blkt_swaps_def btime_swaps_def apart_def)

lemma blkt_swaps_fit:
  "blkt_size t = Some n \<Longrightarrow> list_all (\<lambda>p. fst p + snd p \<le> n) (blkt_swaps t)"
  by (auto simp: blkt_size_def blkt_swaps_def btime_swaps_def split: if_splits)

end
