(* ===== verification/MsRecord.thy ===== *)
theory MsRecord
  imports MsHeader
begin

text \<open>
  Records as a whole: a header and its blockettes that \<^verbatim>\<open>msr_pack_header_raw\<close> has written are read back by
  \<^verbatim>\<open>msr_unpack\<close>, with the samples that \<^verbatim>\<open>msr_pack_data\<close> has put behind them; and what \<^verbatim>\<open>msr_unpack\<close> reads of a
  record that was not written that way.
\<close>

section \<open>The fixed section\<close>

definition fsdh_ok :: "fsdh \<Rightarrow> bool" where
  "fsdh_ok f \<longleftrightarrow> length (f_sequence_number f) = 6 \<and> length (f_station f) = 5 \<and> length (f_location f) = 2 \<and>
     length (f_channel f) = 3 \<and> length (f_network f) = 2"

lemma length_put_fsdh: "fsdh_ok f \<Longrightarrow> length (put_fsdh h s f) = 48"
  by (simp add: put_fsdh_def fsdh_ok_def Let_def)

lemma get_put_fsdh:
  assumes "fsdh_ok f"
  shows "get_fsdh h s (put_fsdh h s f @ rest) = f"
proof -
  have l: "length (f_sequence_number f) = 6" "length (f_station f) = 5" "length (f_location f) = 2"
      "length (f_channel f) = 3" "length (f_network f) = 2" using assms by (simp_all add: fsdh_ok_def)
  show ?thesis
    unfolding get_fsdh_def put_fsdh_def Let_def
    by (simp add: l nth_append load_store16 load_store32)
qed

section \<open>The chain of blockettes\<close>

text \<open>
  A blockette that \<^verbatim>\<open>msr_unpack\<close> reads in full: its data have the size of its type, which is one of those with a
  length, or it is an opaque blockette 2000 whose first field is its length. The exponent of the record length in
  blockette 1000 is below 32.
\<close>

definition wf_blkt :: "host \<Rightarrow> blkt \<Rightarrow> bool" where
  "wf_blkt h b \<longleftrightarrow>
     blkt_size (k_type b) = Some (length (k_data b)) \<and> k_type b \<noteq> 405 \<and> (k_type b = 1000 \<longrightarrow> k_data b ! 2 < 32) \<or>
     k_type b = 2000 \<and> 8 \<le> length (k_data b) \<and> length (k_data b) + 4 < 65536 \<and>
       load h (take 2 (k_data b)) = (of_nat (length (k_data b) + 4) :: u16)"

definition file_data :: "bool \<Rightarrow> blkt \<Rightarrow> byte list" where
  "file_data s b = (if s then the (gswaps (blkt_swaps (k_type b)) (k_data b)) else k_data b)"

fun chain_bytes :: "host \<Rightarrow> bool \<Rightarrow> nat \<Rightarrow> blkt list \<Rightarrow> byte list" where
  "chain_bytes h s off [] = []"
| "chain_bytes h s off (b # bs) =
     store16 h (swap_if2 s (k_type b)) @
     (if bs \<noteq> [] then store16 h (swap_if2 s (of_nat (off + 4 + length (k_data b)))) else [0, 0]) @
     file_data s b @ chain_bytes h s (off + 4 + length (k_data b)) bs"

definition chain_length :: "blkt list \<Rightarrow> nat" where
  "chain_length bs = sum_list (map (\<lambda>b. 4 + length (k_data b)) bs)"

lemma file_data:
  assumes "wf_blkt h b"
  shows "(if s then gswaps (blkt_swaps (k_type b)) (k_data b) else Some (k_data b)) = Some (file_data s b)"
    and "length (file_data s b) = length (k_data b)"
    and "(if s then gswaps (blkt_swaps (k_type b)) (file_data s b) else Some (file_data s b)) = Some (k_data b)"
proof -
  have "list_all (\<lambda>p. fst p + snd p \<le> length (k_data b)) (blkt_swaps (k_type b))"
    using assms blkt_swaps_fit [of "k_type b" "length (k_data b)"] by (auto simp: wf_blkt_def blkt_swaps_def)
  then obtain cs where cs: "gswaps (blkt_swaps (k_type b)) (k_data b) = Some cs" by (simp add: gswaps_map)
  note tw = gswaps_twice [OF blkt_swaps_apart cs]
  show "(if s then gswaps (blkt_swaps (k_type b)) (k_data b) else Some (k_data b)) = Some (file_data s b)"
    "length (file_data s b) = length (k_data b)"
    "(if s then gswaps (blkt_swaps (k_type b)) (file_data s b) else Some (file_data s b)) = Some (k_data b)"
    using cs tw by (simp_all add: file_data_def)
qed

lemma length_chain_bytes: "list_all (wf_blkt h) bs \<Longrightarrow> length (chain_bytes h s off bs) = chain_length bs"
  by (induction bs arbitrary: off) (auto simp: chain_length_def file_data(2))

lemma chain_length_Cons [simp]: "chain_length (b # bs) = 4 + length (k_data b) + chain_length bs"
  by (simp add: chain_length_def)

lemma blkt_size_2000 [simp]: "blkt_size 2000 = None"
  by (simp add: blkt_size_def)

lemma wf_read: "wf_blkt h b \<Longrightarrow>
    read_at (k_data b) 0 (case blkt_size (k_type b) of Some n \<Rightarrow> n | None \<Rightarrow> length (k_data b)) = Some (k_data b)"
  by (auto simp: wf_blkt_def read_at_def split: option.splits)

lemma put_bytes_end: "length pre = off \<Longrightarrow> put_bytes off xs (pre @ rest) = (pre @ xs) @ drop (length xs) rest"
  by (simp add: put_bytes_def)

lemma pack_blkts_chain:
  assumes "list_all (wf_blkt h) bs" and "length pre = off" and "off + chain_length bs \<le> maxlen"
    and "off + chain_length bs \<le> 32767" and "off + chain_length bs \<le> length (pre @ rest)" and "byteorder < 0"
  shows "pack_blkts h s byteorder maxlen bs (pre @ rest, off, cnt) =
    Some (pre @ chain_bytes h s off bs @ drop (chain_length bs) rest, off + chain_length bs, cnt + length bs)"
  using assms
proof (induction bs arbitrary: pre rest off cnt)
  case Nil
  then show ?case by (simp add: chain_length_def)
next
  case (Cons b bs)
  have wf: "wf_blkt h b" "list_all (wf_blkt h) bs" using Cons.prems(1) by simp_all
  let ?off = "off + 4 + length (k_data b)"
  let ?X = "store16 h (swap_if2 s (k_type b)) @ (if bs \<noteq> [] then store16 h (swap_if2 s (of_nat ?off)) else [0, 0]) @ file_data s b"
  have X: "length ?X = 4 + length (k_data b)" using file_data(2) [OF wf(1), of s] by simp
  have "pack_blkts h s byteorder maxlen bs ((pre @ ?X) @ drop (length ?X) rest, ?off, cnt + 1) =
      Some ((pre @ ?X) @ chain_bytes h s ?off bs @ drop (chain_length bs) (drop (length ?X) rest), ?off + chain_length bs, cnt + 1 + length bs)"
    using Cons.prems X by (intro Cons.IH wf(2)) auto
  moreover have "pack_blkts h s byteorder maxlen (b # bs) (pre @ rest, off, cnt) =
      pack_blkts h s byteorder maxlen bs (put_bytes off ?X (pre @ rest), ?off, cnt + 1)"
    using Cons.prems file_data(1,2) [OF wf(1), of s] wf_read [OF wf(1)] by (simp add: Let_def)
  ultimately show ?case unfolding put_bytes_end [OF Cons.prems(2)] X by (simp add: add.commute add.left_commute)
qed

section \<open>Walking along the chain\<close>

fun placed :: "nat \<Rightarrow> blkt list \<Rightarrow> blkt list" where
  "placed off [] = []"
| "placed off (b # bs) =
     b\<lparr>k_offset := off, k_next := (if bs \<noteq> [] then of_nat (off + 4 + length (k_data b)) else 0)\<rparr> #
     placed (off + 4 + length (k_data b)) bs"

fun add_all :: "msr \<Rightarrow> blkt list \<Rightarrow> msr option" where
  "add_all m [] = Some m"
| "add_all m (b # bs) = Option.bind (add_blkt m (k_offset b) (k_type b) (k_next b) (k_data b)) (\<lambda>m. add_all m bs)"

lemma store16_0: "store16 h (swap_if2 s 0) = [0, 0]"
  by (cases h) (simp_all add: swap_if2_def ms_gswap2a_def)

lemma u16_of_nat: "n < 65536 \<Longrightarrow> unat (of_nat n :: u16) = n"
  by (simp add: unat_of_nat)

lemma read_i16_store: "length pre = off \<Longrightarrow> read_i16 h s (pre @ store16 h (swap_if2 s w) @ rest) off = Some w"
  by (simp add: read_i16_def read_at_def load_store16)

lemma read_at_append: "length pre = off \<Longrightarrow> length xs = n \<Longrightarrow> read_at (pre @ xs @ rest) off n = Some xs"
  by (simp add: read_at_def)

lemma blktlen_fixed:
  assumes "blkt_size t = Some n" and "t \<noteq> 405"
  shows "\<exists>len. ms_blktlen h s t mem off = Some len \<and> len \<noteq> 0 \<and> unat len \<le> 4 + n"
  using assms by (auto simp: blkt_size_def ms_blktlen_def split: if_splits)

lemma file_length_field:
  assumes "8 \<le> length (k_data b)" and "k_type b = 2000"
  shows "swap_if2 s (load h (take 2 (file_data s b))) = load h (take 2 (k_data b))"
proof (cases s)
  case True
  have "list_all (\<lambda>p. fst p + snd p \<le> length (k_data b)) (blkt_swaps 2000)" using assms(1) by (simp add: blkt_swaps_def)
  then have f: "file_data s b = map (\<lambda>i. k_data b ! foldr mirror (blkt_swaps 2000) i) [0..<length (k_data b)]"
    using True assms(2) by (simp add: file_data_def gswaps_map)
  have "foldr mirror (blkt_swaps 2000) 0 = 1" "foldr mirror (blkt_swaps 2000) 1 = 0" by (simp_all add: blkt_swaps_def)
  then have "take 2 (file_data s b) = [k_data b ! 1, k_data b ! 0]"
    unfolding f using assms(1) by (cases "k_data b"; cases "tl (k_data b)") (simp_all add: take_map upt_rec numeral_2_eq_2)
  moreover have "take 2 (k_data b) = [k_data b ! 0, k_data b ! 1]"
    using assms(1) by (cases "k_data b"; cases "tl (k_data b)") auto
  ultimately show ?thesis
    using True swap_2byte_load [of "[k_data b ! 1, k_data b ! 0]" h] by (simp add: swap_if2_def ms_gswap2a_eq)
qed (simp add: file_data_def swap_if2_def)

lemma blktlen_wf:
  assumes "wf_blkt h b" and "length pre = off" and "length hd4 = 4" and mem_def: "mem = pre @ hd4 @ file_data s b @ rest"
  shows "\<exists>len. ms_blktlen h s (k_type b) mem off = Some len \<and> len \<noteq> 0 \<and> unat len \<le> 4 + length (k_data b) \<and>
    unpack_blkt h s mem off (k_type b) nx len m = add_blkt m off (k_type b) nx (k_data b)"
proof -
  have rd: "read_at mem (off + 4) (length (k_data b)) = Some (file_data s b)"
    using read_at_append [of "pre @ hd4" "off + 4" "file_data s b" "length (k_data b)" rest] assms file_data(2) [OF assms(1), of s]
    by (simp add: mem_def)
  consider "blkt_size (k_type b) = Some (length (k_data b))" "k_type b \<noteq> 405"
    | "k_type b = 2000" "8 \<le> length (k_data b)" "length (k_data b) + 4 < 65536" "load h (take 2 (k_data b)) = (of_nat (length (k_data b) + 4) :: u16)"
    using assms(1) by (auto simp: wf_blkt_def)
  then show ?thesis
  proof cases
    case 1
    then obtain len where "ms_blktlen h s (k_type b) mem off = Some len \<and> len \<noteq> 0 \<and> unat len \<le> 4 + length (k_data b)"
      using blktlen_fixed [OF 1, of h s mem off] by blast
    moreover have "unpack_blkt h s mem off (k_type b) nx len m = add_blkt m off (k_type b) nx (k_data b)"
      using 1 rd file_data(3) [OF assms(1), of s] by (simp add: unpack_blkt_def Let_def)
    ultimately show ?thesis by blast
  next
    case 2
    let ?len = "of_nat (length (k_data b) + 4) :: u16"
    have u: "unat ?len = length (k_data b) + 4" using u16_of_nat [of "length (k_data b) + 4"] 2(3) by simp
    have l: "off + 4 + length (k_data b) \<le> length mem" "file_data s b = take (length (k_data b)) (drop (off + 4) mem)"
      using rd by (simp_all add: read_at_def split: if_splits)
    have "read_at mem (off + 4) 2 = Some (take 2 (file_data s b))"
      unfolding l(2) using l(1) 2(2) by (simp add: read_at_def min_def)
    then have "ms_blktlen h s (k_type b) mem off = Some ?len"
      using 2(1,4) file_length_field [OF 2(2,1), of s h] by (simp add: ms_blktlen_def read_i16_def)
    moreover have "unat (?len - 4) = length (k_data b)" using u16_of_nat [of "length (k_data b)"] 2(3) by simp
    then have "unpack_blkt h s mem off (k_type b) nx ?len m = add_blkt m off (k_type b) nx (k_data b)"
      using 2(1) rd file_data(3) [OF assms(1), of s] by (cases s) (simp_all add: unpack_blkt_def Let_def)
    moreover have "?len \<noteq> 0" using u by (metis add_is_0 unat_0 zero_neq_numeral)
    ultimately show ?thesis using u by auto
  qed
qed

lemma blkt_walk_step:
  assumes "off \<noteq> 0" and "\<not> rl \<le> int off" and "\<not> 1048576 \<le> off"
    and "read_i16 h s mem off = Some t" and "read_i16 h s mem (off + 2) = Some nx"
    and "ms_blktlen h s t mem off = Some len" and "len \<noteq> 0" and "int off + uint len \<le> rl"
    and "nx \<noteq> 0 \<longrightarrow> off + unat len \<le> unat nx \<and> uint nx \<le> rl"
  shows "blkt_walk h s mem rl off m =
    Option.bind (unpack_blkt h s mem off t nx len m) (\<lambda>m. if nx = 0 then Some m else blkt_walk h s mem rl (unat nx) m)"
proof -
  have n: "\<not> (nx \<noteq> 0 \<and> unat nx < off + unat len)" "\<not> (nx \<noteq> 0 \<and> rl < uint nx)" "\<not> rl < int off + uint len" using assms(8,9) by linarith+
  have o: "\<not> (off = 0 \<or> rl \<le> int off \<or> 1048576 \<le> off)" using assms(1-3) by simp
  show ?thesis
    unfolding blkt_walk.simps [of h s mem rl off m] if_not_P [OF o] assms(4-6) option.case if_not_P [OF assms(7)] if_not_P [OF n(3)]
      if_not_P [OF n(1)] if_not_P [OF n(2)]
    by (cases "unpack_blkt h s mem off t nx len m") simp_all
qed

lemma blkt_walk_chain:
  assumes "list_all (wf_blkt h) bs" and "length pre = off" and "off \<noteq> 0" and "int (off + chain_length bs) \<le> rl"
    and "off + chain_length bs < 65536" and "bs \<noteq> []"
  shows "blkt_walk h s (pre @ chain_bytes h s off bs @ rest) rl off m = add_all m (placed off bs)"
  using assms
proof (induction bs arbitrary: pre off m)
  case (Cons b bs)
  define off1 where "off1 = off + 4 + length (k_data b)"
  define nx :: u16 where "nx = (if bs \<noteq> [] then of_nat off1 else 0)"
  define hd4 where "hd4 = store16 h (swap_if2 s (k_type b)) @ store16 h (swap_if2 s nx)"
  define mem where "mem = pre @ hd4 @ file_data s b @ chain_bytes h s off1 bs @ rest"
  have wf: "wf_blkt h b" "list_all (wf_blkt h) bs" using Cons.prems(1) by simp_all
  have mem: "pre @ chain_bytes h s off (b # bs) @ rest = mem"
    by (simp add: mem_def hd4_def nx_def off1_def store16_0)
  have hl: "length hd4 = 4" by (simp add: hd4_def)
  have r1: "read_i16 h s mem off = Some (k_type b)"
    using read_i16_store [OF Cons.prems(2)] by (simp add: mem_def hd4_def)
  have r2: "read_i16 h s mem (off + 2) = Some nx"
    using read_i16_store [of "pre @ store16 h (swap_if2 s (k_type b))" "off + 2" h s nx] Cons.prems(2) by (simp add: mem_def hd4_def)
  obtain len where len: "ms_blktlen h s (k_type b) mem off = Some len" "len \<noteq> 0" "unat len \<le> 4 + length (k_data b)"
      "unpack_blkt h s mem off (k_type b) nx len m = add_blkt m off (k_type b) nx (k_data b)"
    using blktlen_wf [OF wf(1) Cons.prems(2) hl mem_def] by blast
  have off: "\<not> rl \<le> int off" "\<not> 1048576 \<le> off" "off1 < 65536" "int off1 \<le> rl"
    using Cons.prems(4,5) by (simp_all add: off1_def)
  have "int (unat len) = uint len" by simp
  then have fit: "int off + uint len \<le> rl" using len(3) off(4) off1_def by linarith
  have nx: "unat nx = off1" "nx \<noteq> 0" if "bs \<noteq> []" using that off(3) u16_of_nat [of off1] by (auto simp: nx_def off1_def)
  have "nx \<noteq> 0 \<longrightarrow> off + unat len \<le> unat nx \<and> uint nx \<le> rl"
  proof
    assume "nx \<noteq> 0"
    then have b: "bs \<noteq> []" by (auto simp: nx_def)
    have "uint nx = int (unat nx)" by simp
    then show "off + unat len \<le> unat nx \<and> uint nx \<le> rl" using nx [OF b] off(4) len(3) off1_def by linarith
  qed
  from blkt_walk_step [OF Cons.prems(3) off(1,2) r1 r2 len(1,2) fit this, of m]
  have w: "blkt_walk h s mem rl off m =
      Option.bind (add_blkt m off (k_type b) nx (k_data b)) (\<lambda>m. if nx = 0 then Some m else blkt_walk h s mem rl (unat nx) m)"
    unfolding len(4) .
  show ?case
  proof (cases "bs = []")
    case True
    then show ?thesis unfolding mem w by (simp add: nx_def)
  next
    case False
    have "blkt_walk h s ((pre @ hd4 @ file_data s b) @ chain_bytes h s off1 bs @ rest) rl off1 m = add_all m (placed off1 bs)" for m
      using Cons.prems False file_data(2) [OF wf(1), of s] hl by (intro Cons.IH wf(2)) (simp_all add: off1_def)
    then show ?thesis unfolding mem w using False nx [OF False] by (simp add: mem_def nx_def off1_def)
  qed
qed simp

section \<open>Unpacking a packed record\<close>

definition same_format :: "blkt list \<Rightarrow> byte \<Rightarrow> byte \<Rightarrow> byte \<Rightarrow> bool" where
  "same_format bs e b k \<longleftrightarrow> list_all (\<lambda>x. k_type x = 1000 \<longrightarrow> k_data x ! 0 = e \<and> k_data x ! 1 = b \<and> k_data x ! 2 = k) bs"

lemma add_all_some:
  assumes "list_all (\<lambda>b. k_type b = 1000 \<longrightarrow> k_data b ! 2 < 32) bs"
  shows "\<exists>m'. add_all m bs = Some m' \<and> r_blkts m' = r_blkts m @ bs \<and> r_fsdh m' = r_fsdh m"
  using assms
proof (induction bs arbitrary: m)
  case (Cons b bs)
  have "\<exists>m1. add_blkt m (k_offset b) (k_type b) (k_next b) (k_data b) = Some m1 \<and> r_blkts m1 = r_blkts m @ [b] \<and> r_fsdh m1 = r_fsdh m"
    using Cons.prems by (auto simp: add_blkt_def Let_def)
  then show ?case using Cons by fastforce
qed simp

lemma add_all_format:
  assumes "same_format bs e b k" and "add_all m bs = Some m'"
  shows "if list_ex (\<lambda>x. k_type x = 1000) bs
    then r_reclen m' = sint (push_bit (unat k) 1 :: i32) \<and> r_encoding m' = sint e \<and> r_byteorder m' = sint b
    else r_reclen m' = r_reclen m \<and> r_encoding m' = r_encoding m \<and> r_byteorder m' = r_byteorder m"
  using assms
proof (induction bs arbitrary: m)
  case (Cons x bs)
  obtain m1 where m1: "add_blkt m (k_offset x) (k_type x) (k_next x) (k_data x) = Some m1" "add_all m1 bs = Some m'"
    using Cons.prems(2) by (cases "add_blkt m (k_offset x) (k_type x) (k_next x) (k_data x)") auto
  have s: "same_format bs e b k" using Cons.prems(1) by (simp add: same_format_def)
  show ?case
  proof (cases "k_type x = 1000")
    case True
    then have "r_reclen m1 = sint (push_bit (unat k) 1 :: i32) \<and> r_encoding m1 = sint e \<and> r_byteorder m1 = sint b"
      using m1(1) Cons.prems(1) by (auto simp: add_blkt_def same_format_def Let_def split: if_splits)
    then show ?thesis using Cons.IH [OF s m1(2)] True by (auto split: if_splits)
  next
    case False
    then have "r_reclen m1 = r_reclen m \<and> r_encoding m1 = r_encoding m \<and> r_byteorder m1 = r_byteorder m"
      using m1(1) by (auto simp: add_blkt_def Let_def)
    then show ?thesis using Cons.IH [OF s m1(2)] False by (auto split: if_splits)
  qed
qed simp

lemma placed_props:
  "list_all (wf_blkt h) bs \<Longrightarrow> list_all (\<lambda>b. k_type b = 1000 \<longrightarrow> k_data b ! 2 < 32) (placed off bs)"
  "same_format (placed off bs) e b k = same_format bs e b k"
  "list_ex (\<lambda>x. k_type x = 1000) (placed off bs) = list_ex (\<lambda>x. k_type x = 1000) bs"
  "map (\<lambda>b. (k_type b, k_data b)) (placed off bs) = map (\<lambda>b. (k_type b, k_data b)) bs"
  by (induction bs arbitrary: off) (auto simp: wf_blkt_def same_format_def)

text \<open>No environment variable is set.\<close>

definition no_env :: unpackenv where
  "no_env = \<lparr>headerbyteorder = - 1, databyteorder = - 1, encodingformat = - 1, encodingfallback = 10\<rparr>"

lemma check_environment_none: "check_environment (\<lambda>v. None) = Some no_env"
  by (simp add: check_environment_def byteorder_var_def format_var_def no_env_def)

text \<open>
  A record in the byte order \<open>b\<close> (0 little-endian, 1 big-endian) whose year and day tell the order, with a header that
  the signature test accepts and blockettes, one of type 1000 among them, that say how the data are stored.
\<close>

definition header_ok :: "host \<Rightarrow> bool \<Rightarrow> fsdh \<Rightarrow> blkt list \<Rightarrow> byte \<Rightarrow> byte \<Rightarrow> byte \<Rightarrow> bool" where
  "header_ok h s f bs e b k \<longleftrightarrow>
     fsdh_ok f \<and> MS_ISVALIDHEADER (put_fsdh h s f) \<and> MS_ISVALIDYEARDAY (f_year f) (f_day f) \<and>
     (s \<longrightarrow> \<not> MS_ISVALIDYEARDAY (ms_gswap2a (f_year f)) (ms_gswap2a (f_day f))) \<and>
     f_blockette_offset f = 48 \<and> list_all (wf_blkt h) bs \<and> list_ex (\<lambda>x. k_type x = 1000) bs \<and> same_format bs e b k \<and>
     b < 2 \<and> s = (bigendianhost h \<noteq> uint b) \<and> 7 \<le> k \<and> k \<le> 20"

lemma header_swap:
  assumes "header_ok h s f bs e b k"
  shows "MS_ISVALIDYEARDAY (f_year (get_fsdh h False (put_fsdh h s f @ rest))) (f_day (get_fsdh h False (put_fsdh h s f @ rest))) = (\<not> s)"
proof -
  have l: "length (f_sequence_number f) = 6" "length (f_station f) = 5" "length (f_location f) = 2"
      "length (f_channel f) = 3" "length (f_network f) = 2" using assms by (simp_all add: header_ok_def fsdh_ok_def)
  have "f_year (get_fsdh h False (put_fsdh h s f @ rest)) = swap_if2 s (f_year f)"
    "f_day (get_fsdh h False (put_fsdh h s f @ rest)) = swap_if2 s (f_day f)"
    unfolding get_fsdh_def put_fsdh_def Let_def by (simp_all add: l load_store16 swap_if2_def)
  then show ?thesis using assms by (simp add: header_ok_def swap_if2_def)
qed

lemma valid_header_append:
  assumes "length xs = 48"
  shows "MS_ISVALIDHEADER (xs @ ys) = MS_ISVALIDHEADER xs"
  using assms by (simp add: MS_ISVALIDHEADER_def list_all_iff nth_append)

lemma byte_cases2: "b < 2 \<Longrightarrow> b = 0 \<or> b = (1 :: byte)"
proof -
  assume "b < 2"
  then have "unat b = 0 \<or> unat b = 1" by (auto simp: word_less_nat_alt)
  then show ?thesis by (metis unat_0 unat_1 word_unat_eq_iff)
qed

lemma reclen_word: "k \<le> 20 \<Longrightarrow> sint (push_bit (unat k) 1 :: i32) = 2 ^ unat k" for k :: byte
proof -
  assume "k \<le> 20"
  then have "unat k \<le> 20" by (simp add: word_le_nat_alt)
  then have "(2 :: int) ^ unat k < 2 ^ 31" by (intro power_strict_increasing) simp_all
  moreover have "- (2 ^ 31) \<le> (2 :: int) ^ unat k" by (rule order_trans [of _ 0]) simp_all
  ultimately have "sint (word_of_int (2 ^ unat k) :: i32) = 2 ^ unat k"
    unfolding sint_sbintrunc' by (intro signed_take_bit_int_eq_self) simp_all
  then show ?thesis by (simp add: push_bit_eq_mult)
qed

lemma header_walk:
  assumes "header_ok h s f bs e b k" and "int (48 + chain_length bs) \<le> 2 ^ unat k" and "48 + chain_length bs < 65536" and "sint e \<noteq> - 1"
  defines "m0 \<equiv> \<lparr>r_reclen = 2 ^ unat k, r_fsdh = f, r_blkts = [], r_encoding = - 1, r_byteorder = - 1\<rparr>"
  shows "\<exists>m. blkt_walk h s (put_fsdh h s f @ chain_bytes h s 48 bs @ rest) (2 ^ unat k) 48 m0 = Some m \<and>
    r_blkts m = placed 48 bs \<and> r_fsdh m = f \<and> forced_format no_env m = m \<and> r_encoding m = sint e \<and> r_reclen m = 2 ^ unat k \<and>
    data_swapflag h no_env s m = s"
proof -
  have hk: "fsdh_ok f" "list_all (wf_blkt h) bs" "list_ex (\<lambda>x. k_type x = 1000) bs" "same_format bs e b k" "b < 2"
      "s = (bigendianhost h \<noteq> uint b)" "k \<le> 20" using assms(1) unfolding header_ok_def by blast+
  have "bs \<noteq> []" using hk(3) by auto
  then have w: "blkt_walk h s (put_fsdh h s f @ chain_bytes h s 48 bs @ rest) (2 ^ unat k) 48 m0 = add_all m0 (placed 48 bs)"
    using blkt_walk_chain [OF hk(2) length_put_fsdh [OF hk(1)], of "2 ^ unat k"] assms(2,3) by simp
  obtain m where m: "add_all m0 (placed 48 bs) = Some m" "r_blkts m = placed 48 bs" "r_fsdh m = f"
    using add_all_some [OF placed_props(1) [OF hk(2)], of m0] by (auto simp: m0_def)
  have fmt: "r_reclen m = 2 ^ unat k" "r_encoding m = sint e" "r_byteorder m = sint b"
    using add_all_format [of "placed 48 bs" e b k, OF _ m(1)] hk(3,4) reclen_word [OF hk(7)] by (simp_all add: placed_props)
  have "find (\<lambda>x. k_type x = 1000) (rev (placed 48 bs)) \<noteq> None"
    using hk(3) placed_props(3) [of 48 bs] by (auto simp: find_None_iff list_ex_iff)
  then have "last_blkt 1000 m \<noteq> None" using m(2) by (auto simp: last_blkt_def)
  then have "data_swapflag h no_env s m = s"
    using fmt(3) hk(5,6) byte_cases2 [OF hk(5)] by (cases h) (auto simp: data_swapflag_def no_env_def bigendianhost_def)
  then show ?thesis using w m fmt assms(4) by (auto simp: forced_format_def no_env_def)
qed

lemma unpack_record:
  assumes "header_ok h s f bs e b k" and "int (48 + chain_length bs) \<le> 2 ^ unat k" and "48 + chain_length bs < 65536" and "sint e \<noteq> - 1"
    and rc: "rc = put_fsdh h s f @ chain_bytes h s 48 bs @ rest" and "48 \<le> f_data_offset f" and "uint (f_data_offset f) < 2 ^ unat k"
    and "decode_data h s (drop (unat (f_data_offset f)) rc) (2 ^ unat k - uint (f_data_offset f)) (sint e)
      (uint (f_numsamples f)) (uint (f_numsamples f) * samplesize (sint e)) = Some (Inr xs)"
    and "nsamples xs = unat (f_numsamples f)" and "0 < f_numsamples f"
  shows "\<exists>u. msr_unpack h no_env rc (2 ^ unat k) True = Some (Inr u) \<and> u_samples u = Some xs \<and>
    r_fsdh (u_msr u) = f \<and> r_blkts (u_msr u) = placed 48 bs \<and> u_starttime u = msr_starttime (u_msr u) \<and> r_reclen (u_msr u) = 2 ^ unat k"
proof -
  have ok: "fsdh_ok f" "f_blockette_offset f = 48" "7 \<le> k" "k \<le> 20" "MS_ISVALIDHEADER (put_fsdh h s f)"
    using assms(1) unfolding header_ok_def by blast+
  have "(7 :: nat) \<le> unat k" "unat k \<le> 20" using ok(3,4) by (simp_all add: word_le_nat_alt)
  then have p: "(128 :: int) \<le> 2 ^ unat k" "(2 :: int) ^ unat k \<le> 1048576"
    using power_increasing [of 7 "unat k" "2 :: int"] power_increasing [of "unat k" 20 "2 :: int"] by simp_all
  have l: "length (put_fsdh h s f) = 48" by (rule length_put_fsdh [OF ok(1)])
  have v: "MS_ISVALIDHEADER rc" "\<not> length rc < 48" using ok(5) valid_header_append [OF l] l by (simp_all add: rc)
  have hs: "(\<not> MS_ISVALIDYEARDAY (f_year (get_fsdh h False rc)) (f_day (get_fsdh h False rc))) = s"
    using header_swap [OF assms(1)] by (simp add: rc)
  have g: "get_fsdh h s rc = f" by (simp add: rc get_put_fsdh [OF ok(1)])
  obtain m where m: "blkt_walk h s rc (2 ^ unat k) 48 \<lparr>r_reclen = 2 ^ unat k, r_fsdh = f, r_blkts = [], r_encoding = - 1, r_byteorder = - 1\<rparr> = Some m"
      "r_blkts m = placed 48 bs" "r_fsdh m = f" "forced_format no_env m = m" "r_encoding m = sint e" "r_reclen m = 2 ^ unat k"
      "data_swapflag h no_env s m = s"
    using header_walk [OF assms(1-4), of rest] by (auto simp: rc)
  have d: "msr_unpack_data h s rc (2 ^ unat k) (f_data_offset f) (sint e) (f_numsamples f) = Some (Inr xs)"
    using assms(6-9) p by (simp add: msr_unpack_data_def Let_def not_le not_less)
  have "headerbyteorder no_env = - 1" by (simp add: no_env_def)
  then have "msr_unpack h no_env rc (2 ^ unat k) True = Some (Inr (common_fields h m (Some xs)))"
    using v p hs g m d assms(10) ok(2) by (simp add: msr_unpack_def Let_def)
  then show ?thesis using m by (auto simp: common_fields_def Let_def)
qed


section \<open>The sizes of blockettes\<close>

lemma unpack_blkt_outcome:
  assumes "blkt_size t = Some n" and "t \<noteq> 1000"
  shows "unpack_blkt h s mem off t nx len m = None \<longleftrightarrow> length mem < off + 4 + n"
proof (cases "length mem < off + 4 + n")
  case False
  then have l: "length (take n (drop (off + 4) mem)) = n" by simp
  have "list_all (\<lambda>p. fst p + snd p \<le> n) (blkt_swaps t)" by (rule blkt_swaps_fit [OF assms(1)])
  then have "gswaps (blkt_swaps t) (take n (drop (off + 4) mem)) \<noteq> None" unfolding gswaps_map l by simp
  then obtain d where "(if s then gswaps (blkt_swaps t) (take n (drop (off + 4) mem)) else Some (take n (drop (off + 4) mem))) = Some d"
    by (cases s) auto
  then show ?thesis using False assms by (simp add: unpack_blkt_def Let_def read_at_def add_blkt_def)
qed (use assms in \<open>simp add: unpack_blkt_def Let_def read_at_def\<close>)

text \<open>
  C7: A blockette is measured by one size and copied by another. At the last blockette of a chain, which by the length
  that \<^verbatim>\<open>ms_blktlen\<close> gives lies within the record, \<^verbatim>\<open>msr_unpack\<close> reads behind the end of the record exactly if the structure of
  its type does not fit. For the types 100, 390, 395, 400 and 1001 both sizes are the same; for 200, 201, 300, 310, 320 and 500 the
  structure is longer than the length, and a record can be made that is read beyond its end.
\<close>

theorem blockette_overread:
  assumes "blkt_size t = Some n" and "t \<noteq> 405" and "t \<noteq> 1000" and "0 < off" and "off < 1048576"
    and "read_i16 h s mem off = Some t" and "read_i16 h s mem (off + 2) = Some 0"
    and "ms_blktlen h s t mem off = Some len" and "off + unat len \<le> length mem"
  shows "(blkt_walk h s mem (int (length mem)) off m = None \<longleftrightarrow> length mem < off + 4 + n) \<and>
    (unat len \<noteq> 4 + n \<longleftrightarrow> t \<in> {200, 201, 300, 310, 320, 500})"
proof -
  have z: "len \<noteq> 0" using assms(1,2,8) by (auto simp: blkt_size_def ms_blktlen_def split: if_splits)
  then have "0 < unat len" by (simp add: unat_gt_0)
  then have i: "\<not> int (length mem) \<le> int off" using assms(9) by simp
  have "int (off + unat len) \<le> int (length mem)" using assms(9) by (simp only: of_nat_le_iff)
  then have f: "int off + uint len \<le> int (length mem)" by simp
  have "off \<noteq> 0" "\<not> 1048576 \<le> off" using assms(4,5) by simp_all
  from blkt_walk_step [OF this(1) i this(2) assms(6-8) z f, of m]
  have "blkt_walk h s mem (int (length mem)) off m = unpack_blkt h s mem off t 0 len m" by (simp add: bind_eq_None_conv split: option.split)
  then have "blkt_walk h s mem (int (length mem)) off m = None \<longleftrightarrow> length mem < off + 4 + n"
    using unpack_blkt_outcome [OF assms(1,3)] by simp
  moreover have "unat len \<noteq> 4 + n \<longleftrightarrow> t \<in> {200, 201, 300, 310, 320, 500}"
    using assms(1,2,3,8) by (auto simp: blkt_size_def ms_blktlen_def split: if_splits)
  ultimately show ?thesis by blast
qed

theorem blockette_overread_witness:
  "\<forall>m. blkt_walk BigHost False (replicate 100 0 @ [0, 200, 0, 0] @ replicate 24 0) 128 100 m = None"
proof -
  let ?mem = "replicate 100 0 @ [0, 200, 0, 0] @ replicate 24 0 :: byte list"
  have "read_i16 BigHost False ?mem 100 = Some 200" "read_i16 BigHost False ?mem (100 + 2) = Some 0"
    by (simp_all add: read_i16_def read_at_def swap_if2_def be_word_def)
  from blockette_overread [OF _ _ _ _ _ this, of 48 28] show ?thesis by (simp add: blkt_size_def ms_blktlen_def)
qed

end
