(* ===== verification/MsRate.thy ===== *)
theory MsRate
  imports MsHeader
begin

text \<open>
  The sampling rate in a header: \<^verbatim>\<open>ms_genfactmult\<close>, \<^verbatim>\<open>ms_reduce_rate\<close>, \<^verbatim>\<open>ms_ratapprox\<close> and \<^verbatim>\<open>ms_rsqrt64\<close> of
  \<^verbatim>\<open>contrib/libmseed/genutils.c\<close>, the inverse of \<^verbatim>\<open>ms_nomsamprate\<close>.

  Doubles are real numbers; the bits of one are taken where \<^verbatim>\<open>ms_rsqrt64\<close> takes them. \<open>None\<close> is a division of integers by
  zero, a quotient of doubles by zero that is used, a result that an \<^verbatim>\<open>int\<close> does not hold, and a loop that does not end.
\<close>

section \<open>The reciprocal square root\<close>

text \<open>
  The bits of a positive number in the range of the normal doubles; the fuel covers the exponents of that range.
\<close>

fun f64_norm :: "nat \<Rightarrow> real \<Rightarrow> int \<Rightarrow> real \<times> int" where
  "f64_norm 0 x e = (x, e)"
| "f64_norm (Suc n) x e =
     (if 2 ^ 53 \<le> x then f64_norm n (x / 2) (e + 1) else if x < 2 ^ 52 then f64_norm n (2 * x) (e - 1) else (x, e))"

definition f64_bits :: "real \<Rightarrow> 64 word" where
  "f64_bits x = (let (m, e) = f64_norm 1100 x 0 in word_of_int ((e + 1075) * 2 ^ 52 + (round_even m - 2 ^ 52)))"

definition f64_val :: "64 word \<Rightarrow> real" where
  "f64_val w = of_int (2 ^ 52 + uint (take_bit 52 w)) * 2 powi (uint (drop_bit 52 w AND 0x7FF) - 1075) * (if bit w 63 then - 1 else 1)"

definition ms_rsqrt64 :: "real \<Rightarrow> real" where
  "ms_rsqrt64 val =
     (let x2 = val * (1 / 2);
          y = f64_val (0x5fe6eb50c7b537a9 - drop_bit 1 (f64_bits val));
          y = y * (3 / 2 - x2 * y * y);
          y = y * (3 / 2 - x2 * y * y)
      in y * (3 / 2 - x2 * y * y))"

section \<open>Factors and fractions\<close>

definition int_ok :: "int \<Rightarrow> bool" where
  "int_ok k \<longleftrightarrow> - (2 ^ 31) \<le> k \<and> k < 2 ^ 31"

text \<open>The search of the closest factors of an integer rate: the value of \<^verbatim>\<open>searchfactor1\<close> behind the loop.\<close>

partial_function (option) search_factor :: "int \<Rightarrow> int \<Rightarrow> int \<Rightarrow> int \<Rightarrow> int option" where
  "search_factor n sf closestdiff closestfactor =
     (if sf = 0 then None
      else if n smod sf = 0 then Some sf
      else if sf - 1 = 0 \<or> sf - 2 = 0 then None
      else (let diff = n - (sf - 1) * (n sdiv (sf - 1));
                cd = (if diff < closestdiff then diff else closestdiff);
                cf = (if diff < closestdiff then sf - 1 else closestfactor)
            in if 32767 < n sdiv (sf - 2) then Some cf else search_factor n (sf - 1) cd cf))"

text \<open>
  The loop of \<^verbatim>\<open>ms_ratapprox\<close>: \<^verbatim>\<open>pnum\<close> and \<^verbatim>\<open>pden\<close> are \<open>A\<close> and \<open>B\<close> all the time; \<open>realj\<close> is \<open>None\<close> when it is infinite.
\<close>

definition recip :: "real \<Rightarrow> real option" where
  "recip x = (if x = 0 then None else Some (1 / x))"

definition c_linear :: "int \<Rightarrow> int \<Rightarrow> int \<Rightarrow> int option" where
  "c_linear b x y = (if int_ok (b * x) \<and> int_ok (b * x + y) then Some (b * x + y) else None)"

partial_function (option) ratapprox_loop ::
  "real \<Rightarrow> int \<Rightarrow> real \<Rightarrow> real option \<Rightarrow> int \<Rightarrow> int \<Rightarrow> int \<Rightarrow> int \<Rightarrow> int \<Rightarrow> int \<Rightarrow> (int \<times> int) option" where
  "ratapprox_loop preal maxval precision realj A A1 B B1 num den =
     (if B = 0 then None
      else if precision < \<bar>preal - of_int A / of_int B\<bar> \<and> A < maxval \<and> B < maxval then
        Option.bind realj (\<lambda>r.
        Option.bind (to_int (r + precision)) (\<lambda>bj.
        Option.bind (c_linear bj A A1) (\<lambda>A'.
        Option.bind (c_linear bj B B1) (\<lambda>B'.
          ratapprox_loop preal maxval precision (recip (r - of_int bj)) A' A B' B A B))))
      else Some (if A < maxval \<and> B < maxval then (A, B) else (num, den)))"

definition ms_ratapprox :: "real \<Rightarrow> int \<Rightarrow> real \<Rightarrow> (int \<times> int) option" where
  "ms_ratapprox x maxval precision =
     (let preal = \<bar>x\<bar>
      in Option.bind (to_int (preal + precision)) (\<lambda>bj.
         map_option (apfst (\<lambda>num. if 0 \<le> x then num else - num))
           (ratapprox_loop preal maxval precision (recip (preal - of_int bj)) bj 1 1 0 bj 1)))"

section \<open>The factor and the multiplier\<close>

text \<open>\<open>Inl\<close> is the return value -1.\<close>

definition ms_reduce_rate :: "real \<Rightarrow> (unit + u16 \<times> u16) option" where
  "ms_reduce_rate samprate =
     Option.bind (to_int (samprate + 1 / 2)) (\<lambda>n.
       if \<bar>samprate - of_int n\<bar> < 1 / 10000000 then
         (if n \<le> 32767 then Some (Inr (of_int n, 1))
          else if n \<le> 32767 * 32767 then
            Option.bind (to_int (1 / ms_rsqrt64 samprate)) (\<lambda>sf.
            Option.bind (search_factor n sf sf sf) (\<lambda>f1.
              let f2 = n sdiv f1 in Some (if f1 \<le> 32767 \<and> f2 \<le> 32767 then Inr (of_int f1, of_int f2) else Inl ())))
          else Some (Inl ()))
       else if samprate \<le> 32767 then
         map_option (\<lambda>(num, den). Inr (of_int num, of_int (- den))) (ms_ratapprox samprate 32767 (1 / 100000000))
       else Some (Inl ()))"

definition ms_genfactmult :: "real \<Rightarrow> (unit + u16 \<times> u16) option" where
  "ms_genfactmult samprate =
     (let samprate = (if samprate < 0 then - 1 / samprate else samprate)
      in if samprate = 0 then Some (Inr (0, 0))
         else if 1 \<le> samprate then ms_reduce_rate samprate
         else map_option (map_sum id (\<lambda>(f1, f2). (- f1, - f2))) (ms_reduce_rate (1 / samprate)))"

section \<open>Rates go back and forth\<close>

lemma to_int_half: "int_ok n \<Longrightarrow> 0 \<le> n \<Longrightarrow> to_int (of_int n + 1 / 2) = Some n"
proof -
  assume n: "int_ok n" "0 \<le> n"
  have "\<lfloor>of_int n + 1 / 2 :: real\<rfloor> = n" by linarith
  then have "c_trunc (of_int n + 1 / 2) = n" using n(2) by (simp add: c_trunc_def)
  then show ?thesis using n(1) by (simp add: to_int_def int_ok_def Let_def)
qed

lemma reduce_small: "0 \<le> n \<Longrightarrow> n \<le> 32767 \<Longrightarrow> ms_reduce_rate (of_int n) = Some (Inr (of_int n, 1))"
  by (simp add: ms_reduce_rate_def to_int_half int_ok_def)

lemma sint_u16: "- 32768 \<le> n \<Longrightarrow> n \<le> 32767 \<Longrightarrow> sint (word_of_int n :: u16) = n"
  by (simp add: sint_sbintrunc' signed_take_bit_int_eq_self)

text \<open>
  Whole rates survive the header. For every rate of 1 to 32767 samples per second, and for every period of as many
  seconds, given as a rate below 1 or as a negative number, \<^verbatim>\<open>ms_genfactmult\<close> returns a factor and a multiplier
  of 16 bits from which \<^verbatim>\<open>ms_nomsamprate\<close> computes exactly the rate in samples per second.
\<close>

theorem genfactmult_nominal:
  assumes "1 \<le> n" and "n \<le> 32767" and "x = of_int n \<or> x = 1 / of_int n \<or> x = - of_int n"
  shows "\<exists>f m. ms_genfactmult x = Some (Inr (f, m)) \<and> ms_nomsamprate (sint f) (sint m) = (if 0 < x then x else - 1 / x)"
proof -
  have n: "(0 :: real) < of_int n" "sint (word_of_int n :: u16) = n" "sint (- word_of_int n :: u16) = - n"
    using assms(1,2) sint_u16 [of n] sint_u16 [of "- n"] by simp_all
  have r: "ms_reduce_rate (of_int n) = Some (Inr (of_int n, 1))" using reduce_small assms(1,2) by simp
  have g: "\<exists>f m. ms_genfactmult y = Some (Inr (f, m)) \<and> ms_nomsamprate (sint f) (sint m) = 1 / of_int n"
    if y: "y = 1 / of_int n \<or> y = - of_int n" for y
  proof -
    have s: "(if y < 0 then - 1 / y else y) = 1 / of_int n" using y n(1) by auto
    show ?thesis
    proof (cases "n = 1")
      case True
      then show ?thesis using s r by (auto simp: ms_genfactmult_def Let_def ms_nomsamprate_def)
    next
      case False
      then have "\<not> (1 :: real) \<le> 1 / of_int n" using assms(1) by simp
      then have "ms_genfactmult y = Some (Inr (- of_int n, - 1))"
        using s r n(1) by (simp add: ms_genfactmult_def Let_def)
      moreover have "ms_nomsamprate (- n) (- 1) = 1 / of_int n" using assms(1) by (simp add: ms_nomsamprate_def)
      ultimately show ?thesis using n(3) by simp
    qed
  qed
  have "ms_genfactmult (of_int n) = Some (Inr (of_int n, 1))" "ms_nomsamprate n 1 = of_int n"
    using r assms(1) by (simp_all add: ms_genfactmult_def ms_nomsamprate_def)
  then have i: "\<exists>f m. ms_genfactmult (of_int n) = Some (Inr (f, m)) \<and> ms_nomsamprate (sint f) (sint m) = of_int n"
    using n(2) by simp
  show ?thesis using assms(3) i g [of x] n(1) by (elim disjE) simp_all
qed

theorem genfactmult_nominal_witness:
  "\<exists>f m. ms_genfactmult (1 / 60) = Some (Inr (f, m)) \<and> ms_nomsamprate (sint f) (sint m) = 1 / 60"
  using genfactmult_nominal [of 60 "1 / 60"] by simp

end
