(* ===== verification/MsPack.thy ===== *)
theory MsPack
  imports MsRecord MsRate
begin

text \<open>
  Packing samples into records: \<^verbatim>\<open>msr_pack\<close> and \<^verbatim>\<open>msr_update_header\<close> of \<^verbatim>\<open>contrib/libmseed/pack.c\<close> with
  \<^verbatim>\<open>msr_normalize_header\<close> of \<^verbatim>\<open>msrutils.c\<close>. The records that are sent to the handler are a list. The theory
  \<open>MsStream\<close> shows that the loop over the records ends, that \<^verbatim>\<open>msr_unpack\<close> reads every record back, and when the loop does not end.

  Allocation succeeds and what is only logged is left out. The shortcuts \<^verbatim>\<open>Blkt100\<close>, \<^verbatim>\<open>Blkt1000\<close> and
  \<^verbatim>\<open>Blkt1001\<close> point at the last blockette of their type, as \<^verbatim>\<open>msr_addblockette\<close> leaves them. There are fewer than
  \<open>2 ^ 31\<close> samples.
\<close>

section \<open>The record to be packed\<close>

text \<open>The fields of \<^verbatim>\<open>MSRecord\<close> and of its \<^verbatim>\<open>StreamState\<close>.\<close>

record pmsr =
  m_sequence_number :: int
  m_dataquality :: byte
  m_network :: cstr
  m_station :: cstr
  m_location :: cstr
  m_channel :: cstr
  m_fsdh :: "fsdh option"
  m_blkts :: "blkt list"
  m_starttime :: int
  m_samprate :: real
  m_reclen :: int
  m_byteorder :: int
  m_encoding :: int
  m_samples :: samples
  m_lastintsample :: i32
  m_comphistory :: bool
  m_packedsamples :: int
  m_packedrecords :: int

fun drop_samples :: "nat \<Rightarrow> samples \<Rightarrow> samples" where
  "drop_samples n (Text bs) = Text (drop n bs)"
| "drop_samples n (Ints xs) = Ints (drop n xs)"
| "drop_samples n (Floats xs) = Floats (drop n xs)"
| "drop_samples n (Doubles xs) = Doubles (drop n xs)"

text \<open>\<^verbatim>\<open>ms_samplesize\<close> of the type of the samples.\<close>

fun sample_bytes :: "samples \<Rightarrow> int" where
  "sample_bytes (Text bs) = 1"
| "sample_bytes (Ints xs) = 4"
| "sample_bytes (Floats xs) = 4"
| "sample_bytes (Doubles xs) = 8"

section \<open>Normalising the header\<close>

text \<open>\<^verbatim>\<open>snprintf (seqnum, 7, "%06d", n)\<close>.\<close>

definition seqnum :: "int \<Rightarrow> byte list" where
  "seqnum n = take 6 (if n < 0 then 45 # show_pad 5 (- n) else show_pad 6 n)"

definition ms_strncpopen :: "cstr \<Rightarrow> nat \<Rightarrow> byte list" where
  "ms_strncpopen src n = take n (takeWhile (\<lambda>c. c \<noteq> 0) src @ replicate n 32)"

definition set_btime :: "btime \<Rightarrow> fsdh \<Rightarrow> fsdh" where
  "set_btime b f =
     f\<lparr>f_year := of_int (b_year b), f_day := of_int (b_day b), f_hour := of_int (b_hour b), f_min := of_int (b_min b),
       f_sec := of_int (b_sec b), f_unused := 0, f_fract := of_int (b_fract b)\<rparr>"

text \<open>
  The bits of a double converted to a float, to the nearest and to even; the fuel covers the exponents of a float.
\<close>

fun f32_norm :: "nat \<Rightarrow> real \<Rightarrow> int \<Rightarrow> real \<times> int" where
  "f32_norm 0 x e = (x, e)"
| "f32_norm (Suc n) x e =
     (if 2 ^ 24 \<le> x then f32_norm n (x / 2) (e + 1)
      else if x < 2 ^ 23 \<and> - 149 < e then f32_norm n (2 * x) (e - 1)
      else (x, e))"

definition f32_bits :: "real \<Rightarrow> i32" where
  "f32_bits x =
     (let (m, e) = f32_norm 300 \<bar>x\<bar> 0; k = round_even m;
          b = (if k < 2 ^ 23 then k else (e + 150) * 2 ^ 23 + (k - 2 ^ 23))
      in word_of_int (min b (255 * 2 ^ 23) + (if x < 0 then 2 ^ 31 else 0)))"

text \<open>A change of the data of the last blockette of a type.\<close>

fun update_last :: "u16 \<Rightarrow> (byte list \<Rightarrow> byte list) \<Rightarrow> blkt list \<Rightarrow> blkt list" where
  "update_last t g [] = []"
| "update_last t g (b # bs) =
     (if k_type b = t \<and> \<not> list_ex (\<lambda>x. k_type x = t) bs then b\<lparr>k_data := g (k_data b)\<rparr> # bs else b # update_last t g bs)"

definition set_usec :: "int \<Rightarrow> blkt list \<Rightarrow> blkt list" where
  "set_usec usecoffset = update_last 1001 (\<lambda>d. d[1 := of_int usecoffset])"

text \<open>The exponent of the record length, from 1 to 21.\<close>

definition reclen_exp :: "int \<Rightarrow> nat option" where
  "reclen_exp rl = find (\<lambda>k. 2 ^ k = rl) [1..<22]"

text \<open>The loop over the blockettes; \<open>Inl\<close> is the return value -1.\<close>

definition normalize_blkts :: "host \<Rightarrow> pmsr \<Rightarrow> int \<Rightarrow> unit + blkt list" where
  "normalize_blkts h m usecoffset =
     (let bs = set_usec usecoffset (update_last 100 (put_bytes 0 (store32 h (f32_bits (m_samprate m)))) (m_blkts m))
      in if list_ex (\<lambda>b. k_type b = 1000) bs
         then (case reclen_exp (m_reclen m) of
                 None \<Rightarrow> Inl ()
               | Some k \<Rightarrow> Inr (update_last 1000 (\<lambda>d. d[0 := of_int (m_encoding m), 1 := of_int (m_byteorder m), 2 := of_nat k]) bs))
         else Inr bs)"

definition normalize_fsdh :: "pmsr \<Rightarrow> int \<Rightarrow> u16 \<times> u16 \<Rightarrow> fsdh \<Rightarrow> fsdh" where
  "normalize_fsdh m hptimems rate f =
     (set_btime (ms_hptime2btime hptimems) f)
       \<lparr>f_sequence_number := seqnum (m_sequence_number m), f_dataquality := m_dataquality m, f_reserved := 32,
        f_network := ms_strncpopen (m_network m) 2, f_station := ms_strncpopen (m_station m) 5,
        f_location := ms_strncpopen (m_location m) 2, f_channel := ms_strncpopen (m_channel m) 3,
        f_samprate_fact := fst rate, f_samprate_mult := snd rate,
        f_blockette_offset := (if m_blkts m \<noteq> [] then 48 else 0), f_numblockettes := of_nat (length (m_blkts m))\<rparr>"

definition msr_normalize_header :: "host \<Rightarrow> pmsr \<Rightarrow> (unit + pmsr) option" where
  "msr_normalize_header h m =
     (let (hptimems, usecoffset) = ms_hptime2tomsusecoffset (m_starttime m);
          m = (if m_fsdh m \<noteq> None \<and> 999999 < m_sequence_number m then m\<lparr>m_sequence_number := 1\<rparr> else m)
      in Option.bind (case m_fsdh m of
             None \<Rightarrow> Some None
           | Some f \<Rightarrow>
               map_option (\<lambda>r. Some (normalize_fsdh m hptimems (case r of Inl () \<Rightarrow> (0, 0) | Inr fm \<Rightarrow> fm) f))
                 (ms_genfactmult (m_samprate m))) (\<lambda>f.
           Some (map_sum id (\<lambda>bs. m\<lparr>m_fsdh := f, m_blkts := bs\<rparr>) (normalize_blkts h m usecoffset))))"

text \<open>\<^verbatim>\<open>msr_pack_header_raw\<close> with its calls: the record, the header in memory and its length.\<close>

definition zero_fsdh :: fsdh where
  "zero_fsdh = \<lparr>f_sequence_number = replicate 6 0, f_dataquality = 0, f_reserved = 0, f_station = replicate 5 0,
     f_location = replicate 2 0, f_channel = replicate 3 0, f_network = replicate 2 0,
     f_year = 0, f_day = 0, f_hour = 0, f_min = 0, f_sec = 0, f_unused = 0, f_fract = 0,
     f_numsamples = 0, f_samprate_fact = 0, f_samprate_mult = 0, f_act_flags = 0, f_io_flags = 0, f_dq_flags = 0,
     f_numblockettes = 0, f_time_correct = 0, f_data_offset = 0, f_blockette_offset = 0\<rparr>"

definition pack_header :: "host \<Rightarrow> bool \<Rightarrow> int \<Rightarrow> pmsr \<Rightarrow> byte list \<Rightarrow> (unit + pmsr \<times> byte list \<times> nat) option" where
  "pack_header h swapflag byteorder m rawrec =
     (let m = (if m_fsdh m = None then m\<lparr>m_fsdh := Some zero_fsdh\<rparr> else m)
      in Option.bind (msr_normalize_header h m) (\<lambda>r. case r of
             Inl () \<Rightarrow> Some (Inl ())
           | Inr m \<Rightarrow>
               map_option (map_sum id (\<lambda>(rawrec, headerlen). (m, rawrec, headerlen)))
                 (msr_pack_header_raw h swapflag byteorder (the (m_fsdh m)) (m_blkts m) rawrec (nat (m_reclen m)) (nat (m_reclen m)))))"

text \<open>The place of the data of the last blockette 1001 that was packed.\<close>

fun blkt1001_at :: "nat \<Rightarrow> nat \<Rightarrow> blkt list \<Rightarrow> nat option" where
  "blkt1001_at maxheaderlen off [] = None"
| "blkt1001_at maxheaderlen off (b # bs) =
     (if maxheaderlen \<le> off \<or> maxheaderlen < off + 4 + length (k_data b) then None
      else (case blkt1001_at maxheaderlen (off + 4 + (case blkt_size (k_type b) of Some n \<Rightarrow> n | None \<Rightarrow> length (k_data b))) bs of
              Some p \<Rightarrow> Some p
            | None \<Rightarrow> if k_type b = 1001 then Some (off + 4) else None))"

section \<open>The loop over the records\<close>

definition btime_bytes :: "host \<Rightarrow> bool \<Rightarrow> btime \<Rightarrow> byte list" where
  "btime_bytes h swapflag b =
     (let u = (\<lambda>k. store16 h (swap_if2 swapflag (of_int k)))
      in u (b_year b) @ u (b_day b) @ [of_int (b_hour b), of_int (b_min b), of_int (b_sec b), 0] @ u (b_fract b))"

definition msr_update_header :: "host \<Rightarrow> bool \<Rightarrow> nat option \<Rightarrow> pmsr \<Rightarrow> byte list \<Rightarrow> pmsr \<times> byte list" where
  "msr_update_header h swapflag blkt1001 m rawrec =
     (let rawrec = put_bytes 0 (seqnum (m_sequence_number m)) rawrec;
          (hptimems, usecoffset) = ms_hptime2tomsusecoffset (m_starttime m);
          rawrec = put_bytes 20 (btime_bytes h swapflag (ms_hptime2btime hptimems)) rawrec
      in case blkt1001 of
           None \<Rightarrow> (m, rawrec)
         | Some p \<Rightarrow> (m\<lparr>m_blkts := set_usec usecoffset (m_blkts m)\<rparr>, rawrec[p + 1 := of_int usecoffset]))"

text \<open>The time of the record that starts with the sample \<open>totalpackedsamples\<close>.\<close>

definition record_time :: "real \<Rightarrow> int \<Rightarrow> int \<Rightarrow> nat \<Rightarrow> int" where
  "record_time samprate segstarttime starttime totalpackedsamples =
     (if 0 < samprate then segstarttime + c_trunc (of_nat totalpackedsamples / samprate * of_int HPTMODULUS + 1 / 2) else starttime)"

text \<open>
  One round: the number of samples packed, the record as it is sent, and the state and the record after the update.
  \<open>Inl\<close> is an error of \<^verbatim>\<open>msr_pack_data\<close>.
\<close>

definition pack_record ::
  "host \<Rightarrow> bool \<Rightarrow> bool \<Rightarrow> nat \<Rightarrow> int \<Rightarrow> nat option \<Rightarrow> int \<Rightarrow> pmsr \<Rightarrow> nat \<Rightarrow> byte list \<Rightarrow>
     (unit + nat \<times> byte list \<times> pmsr \<times> byte list) option" where
  "pack_record h hswap dswap dataoffset maxdatabytes blkt1001 segstarttime m totalpackedsamples rawrec =
     map_option (map_sum id (\<lambda>(n, bs, last).
       let rawrec = put_bytes 30 (store16 h (swap_if2 hswap (of_nat n))) (put_bytes dataoffset bs rawrec);
           m = m\<lparr>m_lastintsample := last, m_comphistory := True,
               m_packedsamples := m_packedsamples m + int n, m_packedrecords := m_packedrecords m + 1,
               m_sequence_number := (if 999999 \<le> m_sequence_number m then 1 else m_sequence_number m + 1),
               m_starttime := record_time (m_samprate m) segstarttime (m_starttime m) (totalpackedsamples + n)\<rparr>
       in (n, rawrec, msr_update_header h hswap blkt1001 m rawrec)))
     (msr_pack_data h (drop dataoffset rawrec) (drop_samples totalpackedsamples (m_samples m)) maxdatabytes (m_lastintsample m) (m_comphistory m)
        (m_encoding m) dswap)"

text \<open>\<open>Inl\<close> is the return value -1, with the records sent before.\<close>

partial_function (option) pack_loop ::
  "host \<Rightarrow> bool \<Rightarrow> bool \<Rightarrow> nat \<Rightarrow> int \<Rightarrow> int \<Rightarrow> nat option \<Rightarrow> bool \<Rightarrow> int \<Rightarrow> pmsr \<Rightarrow> nat \<Rightarrow> byte list \<Rightarrow> byte list list \<Rightarrow>
     (byte list list + pmsr \<times> byte list list) option" where
  "pack_loop h hswap dswap dataoffset maxdatabytes maxsamples blkt1001 flush segstarttime m totalpackedsamples rawrec sent =
     (if maxsamples < int (nsamples (m_samples m)) - int totalpackedsamples \<or> flush then
        Option.bind (pack_record h hswap dswap dataoffset maxdatabytes blkt1001 segstarttime m totalpackedsamples rawrec) (\<lambda>r. case r of
            Inl _ \<Rightarrow> Some (Inl sent)
          | Inr (n, out, m', rawrec') \<Rightarrow>
              if nsamples (m_samples m) \<le> totalpackedsamples + n then Some (Inr (m', sent @ [out]))
              else pack_loop h hswap dswap dataoffset maxdatabytes maxsamples blkt1001 flush segstarttime m' (totalpackedsamples + n) rawrec' (sent @ [out]))
      else Some (Inr (m, sent)))"

section \<open>Packing\<close>

text \<open>The byte orders that environment variables force, -1 if they are not set; \<open>None\<close> is the return value -1.\<close>

definition pack_environment :: "(string \<Rightarrow> cstr option) \<Rightarrow> (int \<times> int) option" where
  "pack_environment getenv =
     Option.bind (byteorder_var (getenv ''PACK_HEADER_BYTEORDER'')) (\<lambda>hb.
     Option.bind (byteorder_var (getenv ''PACK_DATA_BYTEORDER'')) (\<lambda>db. Some (hb, db)))"

definition pack_swapflag :: "host \<Rightarrow> int \<Rightarrow> int \<Rightarrow> bool" where
  "pack_swapflag h forced byteorder = (if 0 \<le> forced then byteorder \<noteq> forced else byteorder \<noteq> bigendianhost h)"

definition pack_defaults :: "pmsr \<Rightarrow> pmsr" where
  "pack_defaults m =
     m\<lparr>m_dataquality := (if m_dataquality m = 0 then 68 else m_dataquality m),
       m_reclen := (if m_reclen m = - 1 then 4096 else m_reclen m),
       m_byteorder := (if m_byteorder m = - 1 then 1 else m_byteorder m),
       m_encoding := (if m_encoding m = - 1 then 11 else m_encoding m),
       m_sequence_number := (if m_sequence_number m \<le> 0 \<or> 999999 < m_sequence_number m then 1 else m_sequence_number m)\<rparr>"

definition blank_1000 :: blkt where
  "blank_1000 = \<lparr>k_offset = 0, k_type = 1000, k_next = 0, k_data = replicate 4 0\<rparr>"

definition add_1000 :: "blkt list \<Rightarrow> blkt list" where
  "add_1000 bs = (if list_ex (\<lambda>b. k_type b = 1000) bs then bs else bs @ [blank_1000])"

function steim_offset :: "nat \<Rightarrow> nat \<Rightarrow> nat" where
  "steim_offset dataoffset headerlen = (if dataoffset < headerlen then steim_offset (dataoffset + 64) headerlen else dataoffset)"
  by pat_completeness auto

termination steim_offset
  by (relation "measure (\<lambda>(off, hl). hl - off)") auto

definition max_samples :: "pmsr \<Rightarrow> int \<Rightarrow> int" where
  "max_samples m maxdatabytes =
     (if m_encoding m = 10 then maxdatabytes sdiv 64 * 60
      else if m_encoding m = 11 then maxdatabytes sdiv 64 * 105
      else maxdatabytes sdiv sample_bytes (m_samples m))"

text \<open>
  \<open>mem\<close> is what the allocated memory for the record holds at first, and \<open>env\<close> the byte orders that the environment
  forces. \<open>Inl\<close> is the return value -1, with the records sent before.
\<close>

definition msr_pack :: "host \<Rightarrow> int \<times> int \<Rightarrow> byte list \<Rightarrow> bool \<Rightarrow> pmsr \<Rightarrow> (byte list list + pmsr \<times> byte list list) option" where
  "msr_pack h env mem flush m =
     (let segstarttime = m_starttime m; m = pack_defaults m
      in if m_reclen m < 128 \<or> 1048576 < m_reclen m \<or> nsamples (m_samples m) = 0 \<or> \<not> MS_ISDATAINDICATOR (m_dataquality m)
         then Some (Inl [])
         else (let hswap = pack_swapflag h (fst env) (m_byteorder m); dswap = pack_swapflag h (snd env) (m_byteorder m);
                   m = m\<lparr>m_blkts := add_1000 (m_blkts m)\<rparr>
               in Option.bind (pack_header h hswap (snd env) m mem) (\<lambda>r. case r of
                      Inl () \<Rightarrow> Some (Inl [])
                    | Inr (m, rawrec, headerlen) \<Rightarrow>
                        (let dataoffset = (if m_encoding m = 10 \<or> m_encoding m = 11 then steim_offset 64 headerlen else headerlen);
                             rawrec = put_bytes headerlen (replicate (dataoffset - headerlen) 0) rawrec;
                             rawrec = put_bytes 44 (store16 h (swap_if2 hswap (of_nat dataoffset))) rawrec;
                             maxdatabytes = m_reclen m - int dataoffset;
                             rawrec = put_bytes 30 [0, 0] rawrec
                         in pack_loop h hswap dswap dataoffset maxdatabytes (max_samples m maxdatabytes)
                              (blkt1001_at (nat (m_reclen m)) 48 (m_blkts m)) flush segstarttime m 0 rawrec []))))"

declare steim_offset.simps [simp del]

end
