(* ===== verification/MsRoundtrip.thy ===== *)
theory MsRoundtrip
  imports MsPack
begin

text \<open>
  \<^verbatim>\<open>msr_pack\<close> and \<^verbatim>\<open>msr_unpack\<close> together: what every round of the packing loop leaves in the record, that the loop ends
  with all samples sent, that unpacking the records gives the samples and the times again, and when the loop never ends.
\<close>

section \<open>Writing into the fixed section\<close>

lemma fsdh_lengths:
  assumes "fsdh_ok f"
  shows "length (f_sequence_number f) = 6" "length (f_station f) = 5" "length (f_location f) = 2" "length (f_channel f) = 3"
    "length (f_network f) = 2"
  using assms by (simp_all add: fsdh_ok_def)

lemma put_numsamples:
  "fsdh_ok f \<Longrightarrow> put_bytes 30 (store16 h (swap_if2 s w)) (put_fsdh h s f @ r) = put_fsdh h s (f\<lparr>f_numsamples := w\<rparr>) @ r"
  by (simp add: put_bytes_def put_fsdh_def Let_def fsdh_lengths)

lemma put_data_offset:
  "fsdh_ok f \<Longrightarrow> put_bytes 44 (store16 h (swap_if2 s w)) (put_fsdh h s f @ r) = put_fsdh h s (f\<lparr>f_data_offset := w\<rparr>) @ r"
  by (simp add: put_bytes_def put_fsdh_def Let_def fsdh_lengths)

lemma put_sequence:
  "fsdh_ok f \<Longrightarrow> length q = 6 \<Longrightarrow> put_bytes 0 q (put_fsdh h s f @ r) = put_fsdh h s (f\<lparr>f_sequence_number := q\<rparr>) @ r"
  by (simp add: put_bytes_def put_fsdh_def Let_def fsdh_lengths)

lemma put_btime:
  "fsdh_ok f \<Longrightarrow> put_bytes 20 (btime_bytes h s b) (put_fsdh h s f @ r) = put_fsdh h s (set_btime b f) @ r"
  by (simp add: put_bytes_def put_fsdh_def Let_def fsdh_lengths btime_bytes_def set_btime_def)

lemma put_count:
  "fsdh_ok f \<Longrightarrow> (put_fsdh h s f @ r)[39 := c] = put_fsdh h s (f\<lparr>f_numblockettes := c\<rparr>) @ r"
  by (simp add: put_fsdh_def Let_def fsdh_lengths list_update_append)

section \<open>How many samples a record takes\<close>

definition at_most :: "nat \<Rightarrow> (i32 list \<Rightarrow> (i32 \<times> i32 \<times> nat) option) \<Rightarrow> bool" where
  "at_most maxd pack \<longleftrightarrow> (\<forall>ds w c k. pack ds = Some (w, c, k) \<longrightarrow> k \<le> maxd)"

lemma steim_pack_bound: "at_most 4 (steim1_pack h s)" "at_most 7 (steim2_pack h s)"
  by (auto simp: at_most_def steim1_pack_def steim2_pack_def Let_def split: if_splits)

lemma enc_words_bound:
  assumes "at_most maxd pack"
  shows "enc_words pack maxd xs ws (frame, e) = Some (F, e') \<Longrightarrow> e_out e' \<le> e_out e + maxd * length ws"
proof (induction ws arbitrary: frame e)
  case (Cons w ws)
  show ?case
  proof (cases "length xs \<le> e_out e")
    case False
    let ?e = "refill maxd xs e"
    obtain v c k where p: "pack (e_diffs ?e) = Some (v, c, k)"
      using Cons.prems False by (auto simp: Let_def split: option.splits)
    have "e_out ?e = e_out e" by (simp add: refill_def Let_def)
    then show ?thesis using Cons.IH Cons.prems False p assms by (fastforce simp: Let_def at_most_def)
  qed (use Cons.prems in simp)
qed simp

lemma length_data_words: "length (data_words f) \<le> 15"
  by (simp add: data_words_def)

lemma enc_frames_bound:
  assumes "at_most maxd pack"
  shows "enc_frames pack maxd s xs fs e = Some (frs, e') \<Longrightarrow> e_out e' \<le> e_out e + 15 * maxd * length fs"
proof (induction fs arbitrary: e frs)
  case (Cons f fs)
  show ?case
  proof (cases "length xs \<le> e_out e")
    case False
    obtain fr F e1 frs' where w: "enc_words pack maxd xs (data_words f) (fr, e) = Some (F, e1)"
        "enc_frames pack maxd s xs fs e1 = Some (frs', e')"
      using Cons.prems False by (auto simp: Let_def split: option.splits)
    have "e_out e1 \<le> e_out e + maxd * length (data_words f)" by (rule enc_words_bound [OF assms w(1)])
    moreover have "maxd * length (data_words f) \<le> 15 * maxd" using mult_le_mono2 [OF length_data_words [of f], of maxd] by (simp only: mult.commute)
    ultimately have "e_out e1 \<le> e_out e + 15 * maxd" by (rule order_trans [OF _ add_left_mono])
    then show ?thesis using Cons.IH [OF w(2)] by simp
  qed (use Cons.prems in simp)
qed simp

lemma encode_bound:
  assumes "msr_encode_steim pack maxd s xs out len d = Some (Inr (n, M))" and "at_most maxd pack"
  shows "n \<le> 15 * maxd * nat (len div 64)"
  using assms(1) enc_frames_bound [OF assms(2), of s xs "[0..<nat (len div 64)]" "\<lparr>e_diffs = [d], e_inputidx = 0, e_out = 0\<rparr>"]
  by (auto simp: msr_encode_steim_def Let_def split: if_splits option.splits)

lemma encode_fixed_bound:
  assumes "encode_fixed store k xs dest len = Inr (n, bs)" and "0 < k" and "0 \<le> len"
  shows "int n \<le> len"
proof (cases "xs = []")
  case False
  have "n \<le> nat (len div k)" using assms False enc_loop_eq [OF assms(2,3), of store xs]
    by (auto simp: encode_fixed_def Let_def split: if_splits)
  moreover have "len div k \<le> len" using assms(2,3) div_by_1 [of len] by (intro int_div_less_self order_trans [OF zdiv_mono2 [of len 1 k]]) auto
  ultimately show ?thesis using assms(3) by linarith
qed (use assms in \<open>simp add: encode_fixed_def\<close>)

lemma steim_bytes_Inr:
  assumes "steim_bytes h xs lastint dest len r = Some (Inr (n, bs, lst))"
  shows "\<exists>ws. r = Some (Inr (n, ws))" and "0 < n \<Longrightarrow> lst = xs ! (n - 1)"
proof -
  obtain q where "r = Some q" using assms by (cases r) (auto simp: steim_bytes_def)
  then show "\<exists>ws. r = Some (Inr (n, ws))" and "0 < n \<Longrightarrow> lst = xs ! (n - 1)"
    using assms by (cases q; auto simp: steim_bytes_def)+
qed

lemma pack_data_bound:
  assumes "msr_pack_data h dest src len lastint ch enc s = Some (Inr (n, bs, lst))" and "64 \<le> len" and "len \<le> 32720"
  shows "n < 65536"
proof -
  have f: "n < 65536" if "int n \<le> len" using that assms(3) by linarith
  have fb: "n < 65536" if "encode_fixed store k xs dest len = Inr (n, b)" "0 < k" for store :: "'a \<Rightarrow> byte list" and k xs b
    using f encode_fixed_bound [OF that] assms(2) by simp
  have "nat (len div 64) \<le> 511" using assms(3) by simp
  then have st: "n < 65536" if "n \<le> 15 * k * nat (len div 64)" "k \<le> 7" for k
    using that mult_le_mono [of "15 * k" 105 "nat (len div 64)" 511] by simp
  have s1: "n < 65536" if "steim_bytes h xs lastint dest len (msr_encode_steim1 h s xs [] len d) = Some (Inr (n, b, l))" for xs d b l
    using steim_bytes_Inr(1) [OF that] st [OF encode_bound [OF _ steim_pack_bound(1)]] by (auto simp: msr_encode_steim1_def)
  have s2: "n < 65536" if "steim_bytes h xs lastint dest len (msr_encode_steim2 h s xs [] len d) = Some (Inr (n, b, l))" for xs d b l
    using steim_bytes_Inr(1) [OF that] st [OF encode_bound [OF _ steim_pack_bound(2)]] by (auto simp: msr_encode_steim2_def)
  show ?thesis
  proof (cases src)
    case (Text cs)
    then have "int n \<le> len" using assms(1,2) by (auto simp: msr_pack_data_def msr_encode_text_def Let_def split: if_splits)
    then show ?thesis by (rule f)
  next
    case (Ints xs)
    note defs = msr_pack_data_def msr_encode_int16_def msr_encode_int32_def
    consider "enc = 1" | "enc = 3" | "enc = 10" | "enc = 11" using Ints assms(1) by (auto simp: msr_pack_data_def Let_def split: if_splits)
    then show ?thesis
      by cases (use Ints assms(1) in \<open>auto simp: defs Let_def map_sum_def split: sum.splits dest: fb s1 s2\<close>)
  qed (use assms(1) in \<open>auto simp: msr_pack_data_def msr_encode_float32_def msr_encode_float64_def map_sum_def
      split: if_splits sum.splits dest: fb\<close>)
qed


section \<open>One section of data\<close>

lemma nsamples_drop [simp]: "nsamples (drop_samples n src) = nsamples src - n"
  by (cases src) simp_all

lemma nsamples_take [simp]: "nsamples (take_samples n src) = min (nsamples src) n"
  by (cases src) simp_all

lemma drop_drop_samples [simp]: "drop_samples a (drop_samples b src) = drop_samples (a + b) src"
  by (cases src) simp_all

lemma drop_0_samples [simp]: "drop_samples 0 src = src"
  by (cases src) simp_all

lemma all_diffs_drop:
  assumes "0 < n" and "n < length xs"
  shows "all_diffs (drop n xs) (hd (drop n xs) - xs ! (n - 1)) = drop n (all_diffs xs d)"
proof (intro nth_equalityI)
  have ne: "drop n xs \<noteq> []" "xs \<noteq> []" using assms(2) by auto
  then show "length (all_diffs (drop n xs) (hd (drop n xs) - xs ! (n - 1))) = length (drop n (all_diffs xs d))"
    by (simp add: length_all_diffs)
  fix i assume "i < length (all_diffs (drop n xs) (hd (drop n xs) - xs ! (n - 1)))"
  then have i: "i < length xs - n" using ne by (simp add: length_all_diffs)
  have r: "drop n (all_diffs xs d) ! i = xs ! (n + i) - xs ! (n + i - 1)"
    using assms i ne by (simp add: length_all_diffs all_diffs_nth)
  show "all_diffs (drop n xs) (hd (drop n xs) - xs ! (n - 1)) ! i = drop n (all_diffs xs d) ! i"
  proof (cases "i = 0")
    case True
    then show ?thesis unfolding r using assms by (simp add: all_diffs_def hd_drop_conv_nth)
  next
    case False
    then show ?thesis unfolding r using assms i by (simp add: all_diffs_nth)
  qed
qed

lemma can_pack_drop:
  assumes "can_pack lastint ch enc src" and "0 < n" and "n < nsamples src"
    and "\<And>xs. src = Ints xs \<Longrightarrow> enc = 11 \<Longrightarrow> lst = xs ! (n - 1)"
  shows "can_pack lst True enc (drop_samples n src)"
proof (cases src)
  case (Ints xs)
  have sub: "set (drop n ys) \<subseteq> set ys" for ys :: "i32 list" by (rule set_drop_subset)
  show ?thesis
  proof (cases "enc = 11")
    case True
    then have l: "lst = xs ! (n - 1)" using assms(4) Ints by simp
    have "all_diffs (drop n xs) (hd (drop n xs) - lst) = drop n (all_diffs xs (if ch then hd xs - lastint else 0))"
      unfolding l using assms(2,3) Ints by (intro all_diffs_drop) simp_all
    then show ?thesis using assms(1) Ints True sub by (auto simp: can_pack_def list_all_iff dest: in_set_dropD)
  qed (use assms(1) Ints in \<open>auto simp: can_pack_def list_all_iff dest: in_set_dropD\<close>)
qed (use assms(1) in \<open>simp_all add: can_pack_def\<close>)

lemma steim_last:
  assumes "msr_pack_data h dest (Ints xs) len lastint ch 11 s = Some (Inr (n, bs, lst))" and "0 < n"
  shows "lst = xs ! (n - 1)"
  using assms by (auto simp: msr_pack_data_def Let_def dest: steim_bytes_Inr(2))

lemma pack_data_step:
  assumes "64 \<le> len" and "len \<le> 32720" and "0 < nsamples src" and "can_pack lastint ch enc src"
  shows "\<exists>n bs lst. msr_pack_data h dest src len lastint ch enc s = Some (Inr (n, bs, lst)) \<and>
    0 < n \<and> n \<le> nsamples src \<and> n < 65536 \<and> int (length bs) = len \<and>
    decode_data h s bs len enc (int n) (int n * samplesize enc) = Some (Inr (take_samples n src)) \<and>
    (n < nsamples src \<longrightarrow> can_pack lst True enc (drop_samples n src))"
proof -
  obtain n bs lst where p: "msr_pack_data h dest src len lastint ch enc s = Some (Inr (n, bs, lst))"
      "0 < n" "n \<le> nsamples src" "int (length bs) = len"
      "decode_data h s bs len enc (int n) (int n * samplesize enc) = Some (Inr (take_samples n src))"
    using pack_unpack_steim [OF assms(1,3,4), of h dest s] pack_unpack_fixed [OF assms(1,3,4), of h dest s]
    by (cases "enc \<in> {10, 11}") auto
  moreover have "n < 65536" by (rule pack_data_bound [OF p(1) assms(1,2)])
  moreover have "can_pack lst True enc (drop_samples n src)" if "n < nsamples src"
    using steim_last p(1,2) by (intro can_pack_drop [OF assms(4) p(2) that]) auto
  ultimately show ?thesis by blast
qed

section \<open>The microseconds in the chain\<close>

lemma update_last_none: "\<not> list_ex (\<lambda>x. k_type x = t) bs \<Longrightarrow> update_last t g bs = bs"
  by (induction bs) auto

lemma update_last_types [simp]: "map k_type (update_last t g bs) = map k_type bs"
  by (induction bs) simp_all

lemma update_last_ex [simp]: "list_ex (\<lambda>x. k_type x = t') (update_last t g bs) = list_ex (\<lambda>x. k_type x = t') bs"
  by (induction bs) auto

lemma update_last_Nil [simp]: "update_last t g bs = [] \<longleftrightarrow> bs = []"
  by (cases bs) simp_all

lemma length_update_last [simp]: "length (update_last t g bs) = length bs"
  by (induction bs) simp_all

lemma chain_length_update: "(\<And>d. length (g d) = length d) \<Longrightarrow> chain_length (update_last t g bs) = chain_length bs"
  by (induction bs) (simp_all add: chain_length_def)

lemma wf_update_last:
  assumes "list_all (wf_blkt h) bs" and "\<And>b. wf_blkt h b \<Longrightarrow> k_type b = t \<Longrightarrow> wf_blkt h (b\<lparr>k_data := g (k_data b)\<rparr>)"
  shows "list_all (wf_blkt h) (update_last t g bs)"
  using assms by (induction bs) auto

lemma wf_data_length: "wf_blkt h b \<Longrightarrow> (case blkt_size (k_type b) of Some n \<Rightarrow> n | None \<Rightarrow> length (k_data b)) = length (k_data b)"
  by (auto simp: wf_blkt_def split: option.splits)

lemma wf_1001: "wf_blkt h b \<Longrightarrow> k_type b = 1001 \<Longrightarrow> length (k_data b) = 4"
  by (simp add: wf_blkt_def blkt_size_def)

lemma file_data_1001: "k_type b = 1001 \<Longrightarrow> file_data s b = k_data b"
  by (simp add: file_data_def blkt_swaps_def)

lemma blkt1001_place:
  assumes "list_all (wf_blkt h) bs" and "off + chain_length bs \<le> maxlen"
  shows "case blkt1001_at maxlen off bs of
      None \<Rightarrow> \<not> list_ex (\<lambda>b. k_type b = 1001) bs
    | Some p \<Rightarrow> list_ex (\<lambda>b. k_type b = 1001) bs \<and> off + 4 \<le> p \<and> p + 4 \<le> off + chain_length bs \<and>
        chain_bytes h s off (set_usec u bs) = (chain_bytes h s off bs)[p + 1 - off := of_int u]"
  using assms
proof (induction bs arbitrary: off)
  case (Cons b bs)
  let ?off = "off + 4 + length (k_data b)"
  have wf: "wf_blkt h b" "list_all (wf_blkt h) bs" using Cons.prems(1) by simp_all
  have fit: "?off + chain_length bs \<le> maxlen" using Cons.prems(2) by simp
  note IH = Cons.IH [OF wf(2) fit]
  have l: "length (file_data s b) = length (k_data b)" by (rule file_data(2) [OF wf(1)])
  have at: "blkt1001_at maxlen off (b # bs) =
      (case blkt1001_at maxlen ?off bs of Some p \<Rightarrow> Some p | None \<Rightarrow> if k_type b = 1001 then Some (off + 4) else None)"
    using fit by (simp add: wf_data_length [OF wf(1)])
  show ?case
  proof (cases "blkt1001_at maxlen ?off bs")
    case None
    then have none: "\<not> list_ex (\<lambda>b. k_type b = 1001) bs" using IH by simp
    show ?thesis
    proof (cases "k_type b = 1001")
      case True
      have "chain_bytes h s off (set_usec u (b # bs)) = (chain_bytes h s off (b # bs))[5 := of_int u]"
        using True none wf_1001 [OF wf(1) True] file_data_1001 [OF True, of s]
        by (simp add: set_usec_def list_update_append file_data_1001 add.commute)
      then show ?thesis unfolding at using None True wf_1001 [OF wf(1) True] by simp
    qed (use at None none in simp)
  next
    case (Some p)
    then have p: "list_ex (\<lambda>b. k_type b = 1001) bs" "?off + 4 \<le> p" "p + 4 \<le> ?off + chain_length bs"
        "chain_bytes h s ?off (set_usec u bs) = (chain_bytes h s ?off bs)[p + 1 - ?off := of_int u]" using IH by simp_all
    have sz: "p + 1 - off - 4 - length (k_data b) = p + 1 - ?off" "\<not> p + 1 - off < 4 + length (k_data b)" using p(2) by simp_all
    have "chain_bytes h s off (set_usec u (b # bs)) = (chain_bytes h s off (b # bs))[p + 1 - off := of_int u]"
      using p(1,4) l sz by (auto simp: set_usec_def list_update_append numeral_3_eq_3)
    then show ?thesis unfolding at using Some p by simp
  qed
qed (simp add: set_usec_def)


section \<open>The byte order of a header\<close>

text \<open>A number of 16 bits and its swap, as sums of the two bytes.\<close>

lemma swap_bytes:
  obtains a b where "0 \<le> a" "a < 256" "0 \<le> b" "b < 256" "uint (w :: u16) = 256 * a + b" "uint (ms_gswap2a w) = 256 * b + a"
proof -
  obtain x y where xy: "store16 BigHost w = [x, y]" by simp
  then have w: "w = be_word [x, y]" using load_store16 [of BigHost w] by simp
  have "ms_gswap2a w = be_word [y, x]" using swap_2byte_load [of "[x, y]" BigHost] by (simp add: w ms_gswap2a_eq)
  then have "uint w = 256 * uint x + uint y" "uint (ms_gswap2a w) = 256 * uint y + uint x" by (simp_all add: w uint_be_word2)
  moreover have "uint x < 256" "uint y < 256" using uint_lt2p [of x] uint_lt2p [of y] by simp_all
  ultimately show ?thesis using that [of "uint x" "uint y"] by simp
qed

lemma swapped_year:
  assumes "1900 \<le> y" and "y \<le> 2100"
  shows "(1900 \<le> ms_gswap2a y \<and> ms_gswap2a y \<le> 2100) = (y = 2056)"
proof -
  obtain a b where ab: "0 \<le> a" "a < 256" "0 \<le> b" "b < 256" "uint y = 256 * a + b" "uint (ms_gswap2a y) = 256 * b + a"
    by (rule swap_bytes)
  have e: "y = 2056 \<longleftrightarrow> uint y = 2056" by (simp add: word_uint_eq_iff)
  have "1900 \<le> uint y" "uint y \<le> 2100" using assms by (simp_all add: word_le_def)
  moreover from this have "a = 7 \<or> a = 8" using ab(1-5) by linarith
  ultimately have "a = 7 \<and> 108 \<le> b \<or> a = 8 \<and> b \<le> 52" using ab(1-5) by auto
  then have "(1900 \<le> 256 * b + a \<and> 256 * b + a \<le> 2100) = (256 * a + b = 2056)"
    using ab(4) by (elim disjE conjE; simp) arith
  then show ?thesis unfolding e ab(5) [symmetric] ab(6) [symmetric] by (simp add: word_le_def)
qed

lemma swapped_day:
  assumes "1 \<le> d" and "d \<le> 366"
  shows "(1 \<le> ms_gswap2a d \<and> ms_gswap2a d \<le> 366) = (d = 1 \<or> d = 256 \<or> d = 257)"
proof -
  obtain a b where ab: "0 \<le> a" "a < 256" "0 \<le> b" "b < 256" "uint d = 256 * a + b" "uint (ms_gswap2a d) = 256 * b + a"
    by (rule swap_bytes)
  have e: "d = 1 \<longleftrightarrow> uint d = 1" "d = 256 \<longleftrightarrow> uint d = 256" "d = 257 \<longleftrightarrow> uint d = 257" by (simp_all add: word_uint_eq_iff)
  have "1 \<le> uint d" "uint d \<le> 366" using assms by (simp_all add: word_le_def)
  moreover from this have "a = 0 \<or> a = 1" using ab(1-5) by linarith
  ultimately have "a = 0 \<and> 1 \<le> b \<or> a = 1 \<and> b \<le> 110" using ab(1-5) by auto
  then have "(1 \<le> 256 * b + a \<and> 256 * b + a \<le> 366) = (256 * a + b = 1 \<or> 256 * a + b = 256 \<or> 256 * a + b = 257)"
    using ab(3,4) by (elim disjE conjE; simp) arith+
  then show ?thesis unfolding e ab(5) [symmetric] ab(6) [symmetric] by (simp add: word_le_def)
qed

text \<open>
  C38: The year and the day tell the byte order of a header, save on three days. The test by which \<^verbatim>\<open>msr_unpack\<close> and
  \<^verbatim>\<open>ms_detect\<close> find whether the numbers of a header have to be swapped accepts the swapped year and day of a valid date
  exactly on the days 1, 256 and 257 of the year 2056: there a header in the other byte order is taken for one in the
  order of the host.
\<close>

theorem yearday_tells_order:
  assumes "MS_ISVALIDYEARDAY y d"
  shows "MS_ISVALIDYEARDAY (ms_gswap2a y) (ms_gswap2a d) \<longleftrightarrow> y = 2056 \<and> (d = 1 \<or> d = 256 \<or> d = 257)"
  using assms swapped_year [of y] swapped_day [of d] by (auto simp: MS_ISVALIDYEARDAY_def)

theorem yearday_tells_order_witness:
  "\<not> MS_ISVALIDYEARDAY (ms_gswap2a 2017) (ms_gswap2a 256) \<and> MS_ISVALIDYEARDAY (ms_gswap2a 2056) (ms_gswap2a 256)"
  using yearday_tells_order [of 2017 256] yearday_tells_order [of 2056 256]
  by (simp add: MS_ISVALIDYEARDAY_def [of 2017 256] MS_ISVALIDYEARDAY_def [of 2056 256])


section \<open>The fields of a packed header\<close>

definition date_ok :: "fsdh \<Rightarrow> bool" where
  "date_ok f \<longleftrightarrow> MS_ISVALIDYEARDAY (f_year f) (f_day f) \<and> \<not> MS_ISVALIDYEARDAY (ms_gswap2a (f_year f)) (ms_gswap2a (f_day f)) \<and>
     0 \<le> sint (f_hour f) \<and> sint (f_hour f) \<le> 23 \<and> 0 \<le> sint (f_min f) \<and> sint (f_min f) \<le> 59 \<and> 0 \<le> sint (f_sec f) \<and> sint (f_sec f) \<le> 60"

definition name_ok :: "fsdh \<Rightarrow> bool" where
  "name_ok f \<longleftrightarrow> fsdh_ok f \<and> list_all (\<lambda>c. isdigit c \<or> c = 32 \<or> c = 0) (f_sequence_number f) \<and>
     MS_ISDATAINDICATOR (f_dataquality f) \<and> (f_reserved f = 32 \<or> f_reserved f = 0) \<and> f_blockette_offset f = 48"

definition format_ok :: "host \<Rightarrow> bool \<Rightarrow> blkt list \<Rightarrow> byte \<Rightarrow> byte \<Rightarrow> byte \<Rightarrow> bool" where
  "format_ok h s bs e b k \<longleftrightarrow> list_all (wf_blkt h) bs \<and> list_ex (\<lambda>x. k_type x = 1000) bs \<and> same_format bs e b k \<and>
     b < 2 \<and> s = (bigendianhost h \<noteq> uint b) \<and> 7 \<le> k \<and> k \<le> 20"

lemma valid_header_put:
  assumes "name_ok f" and "date_ok f"
  shows "MS_ISVALIDHEADER (put_fsdh h s f)"
proof -
  have "fsdh_ok f" using assms(1) by (simp add: name_ok_def)
  note l = fsdh_lengths [OF this]
  have "\<forall>i<6. put_fsdh h s f ! i = f_sequence_number f ! i" by (simp add: put_fsdh_def Let_def l nth_append)
  then have "list_all (\<lambda>i. isdigit (put_fsdh h s f ! i) \<or> put_fsdh h s f ! i = 32 \<or> put_fsdh h s f ! i = 0) [0..<6]"
    using assms(1) l(1) by (auto simp: name_ok_def list_all_iff)
  moreover have "put_fsdh h s f ! 6 = f_dataquality f" "put_fsdh h s f ! 7 = f_reserved f" "put_fsdh h s f ! 24 = f_hour f"
      "put_fsdh h s f ! 25 = f_min f" "put_fsdh h s f ! 26 = f_sec f"
    by (simp_all add: put_fsdh_def Let_def l nth_append)
  ultimately show ?thesis using assms by (simp add: MS_ISVALIDHEADER_def name_ok_def date_ok_def)
qed

lemma header_ok_parts:
  assumes "name_ok f" and "date_ok f" and "format_ok h s bs e b k"
  shows "header_ok h s f bs e b k"
  using assms valid_header_put [OF assms(1,2), of h s] by (simp add: header_ok_def name_ok_def date_ok_def format_ok_def)

lemma htoe_days_2056: "htoe_days 2056 = 31411"
  by (simp flip: year_days_htoe add: year_days_def)

lemma year_range:
  assumes "0 \<le> t" and "t < 2713910400"
  shows "1970 \<le> tm_year (ms_gmtime_r t) + 1900" and "tm_year (ms_gmtime_r t) + 1900 \<le> 2055"
proof -
  let ?y = "tm_year (ms_gmtime_r t) + 1900" and ?r = "ms_gmtime_r t"
  define D where "D = htoe_days ?y + tm_yday ?r"
  define S where "S = tm_hour ?r * 3600 + tm_min ?r * 60 + tm_sec ?r"
  have g: "t = D * 86400 + S" "0 \<le> tm_yday ?r" "tm_yday ?r < diy ?y" using gm_fields [of t] unfolding D_def S_def by blast+
  have "0 \<le> tm_hour ?r" "tm_hour ?r < 24" "0 \<le> tm_min ?r" "tm_min ?r < 60" "0 \<le> tm_sec ?r" "tm_sec ?r < 60"
    using gm_fields [of t] by blast+
  then have "0 \<le> S" "S \<le> 86399" unfolding S_def by linarith+
  then have D: "0 \<le> D" "D < 31411" using g(1) assms by linarith+
  show "1970 \<le> ?y"
  proof (rule ccontr)
    assume "\<not> 1970 \<le> ?y"
    then have "htoe_days (?y + 1) \<le> htoe_days 1970" by (intro htoe_days_mono) simp
    then show False using g(3) htoe_days_Suc [of ?y] D(1) by (simp add: htoe_days_def D_def)
  qed
  show "?y \<le> 2055"
  proof (rule ccontr)
    assume "\<not> ?y \<le> 2055"
    then have "htoe_days 2056 \<le> htoe_days ?y" by (intro htoe_days_mono) simp
    then show False using g(2) D(2) by (simp add: htoe_days_2056 D_def)
  qed
qed

lemma uint_of_int: "0 \<le> k \<Longrightarrow> k < 2 ^ LENGTH('a) \<Longrightarrow> uint (word_of_int k :: 'a::len word) = k"
  by (simp add: uint_word_of_int)

lemma btime_range:
  assumes "0 \<le> t" and "t < 2713910400000000"
  defines "b \<equiv> ms_hptime2btime t"
  shows "1970 \<le> b_year b" "b_year b \<le> 2055" "1 \<le> b_day b" "b_day b \<le> 366" "0 \<le> b_hour b" "b_hour b < 24" "0 \<le> b_min b" "b_min b < 60"
    "0 \<le> b_sec b" "b_sec b < 60" "0 \<le> b_fract b" "b_fract b < 10000"
proof -
  let ?t = "t div 1000000"
  have t: "0 \<le> ?t" "?t < 2713910400" using assms(1,2) by simp_all
  have "diy y \<le> 366" for y by (simp add: diy_def)
  then have g: "tm_yday (ms_gmtime_r ?t) < 366" using gm_fields [of ?t] by (meson less_le_trans)
  have "t mod 1000000 div 100 < 10000" using pos_mod_bound [of 1000000 t] zdiv_mono1 [of "t mod 1000000" 999999 100] by simp
  then show "1970 \<le> b_year b" "b_year b \<le> 2055" "1 \<le> b_day b" "b_day b \<le> 366" "0 \<le> b_hour b" "b_hour b < 24" "0 \<le> b_min b" "b_min b < 60"
    "0 \<le> b_sec b" "b_sec b < 60" "0 \<le> b_fract b" "b_fract b < 10000"
    using gm_fields [of ?t] year_range [OF t] g by (auto simp: b_def hptime_floor Let_def)
qed

lemma set_btime_date:
  assumes "0 \<le> t" and "t < 2713910400000000"
  defines "b \<equiv> ms_hptime2btime t"
  shows "date_ok (set_btime b f)" and "fsdh_btime (set_btime b f) = b"
proof -
  note r = btime_range [OF assms(1,2), folded b_def]
  show f: "fsdh_btime (set_btime b f) = b"
    unfolding fsdh_btime_def set_btime_def using r by (simp add: uint_of_int)
  have u: "uint (of_int (b_year b) :: u16) = b_year b" "uint (of_int (b_day b) :: u16) = b_day b"
    using r by (simp_all add: uint_of_int)
  have v: "MS_ISVALIDYEARDAY (of_int (b_year b)) (of_int (b_day b))" using r u by (simp add: MS_ISVALIDYEARDAY_def word_le_def)
  moreover have "(of_int (b_year b) :: u16) \<noteq> 2056" using u(1) r(2) by (auto simp: word_uint_eq_iff)
  then have "\<not> MS_ISVALIDYEARDAY (ms_gswap2a (of_int (b_year b))) (ms_gswap2a (of_int (b_day b)))"
    using v swapped_year [of "of_int (b_year b)"] by (auto simp: MS_ISVALIDYEARDAY_def)
  ultimately show "date_ok (set_btime b f)"
    using r by (simp add: date_ok_def set_btime_def sint8_self)
qed


lemma seqnum_ok:
  assumes "0 \<le> n" and "n \<le> 999999"
  shows "length (seqnum n) = 6" and "list_all (\<lambda>c. isdigit c \<or> c = 32 \<or> c = 0) (seqnum n)"
proof -
  have l: "length (show_nat (nat n)) \<le> 6"
    using length_show_base [of 10 "nat n" 5] assms by (simp add: show_nat_def nat_less_iff)
  have e: "seqnum n = replicate (6 - length (show_nat (nat n))) 48 @ show_nat (nat n)"
    using assms l by (simp add: seqnum_def show_pad_def show_int_def Let_def)
  show "length (seqnum n) = 6" using l by (simp add: e)
  show "list_all (\<lambda>c. isdigit c \<or> c = 32 \<or> c = 0) (seqnum n)"
    using show_nat_digits [of "nat n"] by (auto simp: e list_all_iff isdigit_def)
qed

section \<open>The data of a blockette\<close>

definition last_data :: "u16 \<Rightarrow> blkt list \<Rightarrow> byte list option" where
  "last_data t bs = map_option k_data (find (\<lambda>b. k_type b = t) (rev bs))"

lemma find_snoc: "find P (xs @ [x]) = (case find P xs of None \<Rightarrow> if P x then Some x else None | Some y \<Rightarrow> Some y)"
  by (induction xs) simp_all

lemma last_data_Nil [simp]: "last_data t [] = None"
  by (simp add: last_data_def)

lemma last_data_Cons [simp]:
  "last_data t (b # bs) = (case last_data t bs of None \<Rightarrow> if k_type b = t then Some (k_data b) else None | Some d \<Rightarrow> Some d)"
  by (simp add: last_data_def find_snoc split: option.split)

lemma last_data_none: "last_data t bs = None \<longleftrightarrow> \<not> list_ex (\<lambda>b. k_type b = t) bs"
  by (induction bs) (auto split: option.splits)

lemma last_data_mem: "last_data t bs = Some d \<Longrightarrow> \<exists>b\<in>set bs. k_type b = t \<and> k_data b = d"
  by (induction bs) (auto split: option.splits if_splits)

lemma last_data_placed [simp]: "last_data t (placed off bs) = last_data t bs"
  by (induction bs arbitrary: off) (simp_all split: option.split)

lemma last_data_update: "last_data t (update_last t' g bs) = (if t = t' then map_option g (last_data t bs) else last_data t bs)"
  by (induction bs) (auto simp flip: last_data_none)

lemma same_format_update:
  assumes "list_all (wf_blkt h) bs" and "length (filter (\<lambda>b. k_type b = 1000) bs) \<le> 1"
    and "\<And>d. length d = 4 \<Longrightarrow> g d ! 0 = e \<and> g d ! 1 = b \<and> g d ! 2 = k"
  shows "same_format (update_last 1000 g bs) e b k"
  using assms(1,2)
proof (induction bs)
  case (Cons x bs)
  have none: "filter (\<lambda>b. k_type b = 1000) bs = []" if "k_type x = 1000" using Cons.prems(2) that by simp
  have "length (k_data x) = 4" if "k_type x = 1000" using Cons.prems(1) that by (simp add: wf_blkt_def blkt_size_def)
  then show ?case using Cons none assms(3) [of "k_data x"]
    by (cases "k_type x = 1000") (auto simp: same_format_def filter_empty_conv list_ex_iff list_all_iff)
qed (simp add: same_format_def)

lemma same_format_other: "t \<noteq> 1000 \<Longrightarrow> same_format (update_last t g bs) e b k = same_format bs e b k"
  by (induction bs) (auto simp: same_format_def)

lemma filter_update_last: "length (filter (\<lambda>b. k_type b = t') (update_last t g bs)) = length (filter (\<lambda>b. k_type b = t') bs)"
  by (induction bs) auto

lemma wf_set_usec: "list_all (wf_blkt h) bs \<Longrightarrow> list_all (wf_blkt h) (set_usec u bs)"
  unfolding set_usec_def by (erule wf_update_last) (auto simp: wf_blkt_def blkt_size_def)

lemma format_ok_usec: "format_ok h s bs e b k \<Longrightarrow> format_ok h s (set_usec u bs) e b k"
  using wf_set_usec [of h bs u] by (simp add: format_ok_def set_usec_def same_format_other)

lemma blkt1001_at_usec [simp]: "blkt1001_at maxlen off (set_usec u bs) = blkt1001_at maxlen off bs"
  unfolding set_usec_def by (induction bs arbitrary: off) (simp_all add: blkt_size_def)

lemma chain_length_usec [simp]: "chain_length (set_usec u bs) = chain_length bs"
  unfolding set_usec_def by (rule chain_length_update) simp

section \<open>The normalised header\<close>

lemma reclen_exp_power:
  assumes "7 \<le> k" and "k \<le> 15"
  shows "reclen_exp (2 ^ k) = Some k"
proof -
  have "reclen_exp (2 ^ k) = find (\<lambda>j. j = k) [1..<22]" unfolding reclen_exp_def by (rule find_cong) simp_all
  moreover have "k = 7 \<or> k = 8 \<or> k = 9 \<or> k = 10 \<or> k = 11 \<or> k = 12 \<or> k = 13 \<or> k = 14 \<or> k = 15" using assms by linarith
  then have "find (\<lambda>j. j = k) [1..<22] = Some k" by (elim disjE) (simp_all add: upt_rec)
  ultimately show ?thesis by simp
qed


lemma chain_length_update_wf:
  assumes "list_all (wf_blkt h) bs" and "\<And>b. wf_blkt h b \<Longrightarrow> k_type b = t \<Longrightarrow> length (g (k_data b)) = length (k_data b)"
  shows "chain_length (update_last t g bs) = chain_length bs"
  using assms by (induction bs) (simp_all add: chain_length_def)

lemma wf_rate: "wf_blkt h b \<Longrightarrow> k_type b = 100 \<Longrightarrow> wf_blkt h (b\<lparr>k_data := put_bytes 0 (store32 h' w) (k_data b)\<rparr>)"
  by (simp add: wf_blkt_def blkt_size_def put_bytes_def)

lemma rate_length: "wf_blkt h b \<Longrightarrow> k_type b = 100 \<Longrightarrow> length (put_bytes 0 (store32 h' w) (k_data b)) = length (k_data b)"
  by (simp add: wf_blkt_def blkt_size_def put_bytes_def)

lemma byte_of_nat: "k < 256 \<Longrightarrow> unat (of_nat k :: byte) = k"
  by (simp add: unat_of_nat)

lemma normalize_blkts_ok:
  assumes "list_all (wf_blkt h) (m_blkts m)" and "list_ex (\<lambda>b. k_type b = 1000) (m_blkts m)"
    and "length (filter (\<lambda>b. k_type b = 1000) (m_blkts m)) \<le> 1" and "m_reclen m = 2 ^ k" and "7 \<le> k" and "k \<le> 15"
    and "m_byteorder m = 0 \<or> m_byteorder m = 1"
  obtains bs where "normalize_blkts h m u = Inr bs"
    "format_ok h (bigendianhost h \<noteq> m_byteorder m) bs (of_int (m_encoding m)) (of_int (m_byteorder m)) (of_nat k)"
    "chain_length bs = chain_length (m_blkts m)" "length bs = length (m_blkts m)"
    "\<And>d. last_data 1001 bs = Some d \<Longrightarrow> d ! 1 = of_int u"
    "list_ex (\<lambda>b. k_type b = 1001) bs = list_ex (\<lambda>b. k_type b = 1001) (m_blkts m)"
proof -
  let ?e = "of_int (m_encoding m) :: byte" and ?b = "of_int (m_byteorder m) :: byte" and ?k = "of_nat k :: byte"
  define g where "g d = d[0 := ?e, 1 := ?b, 2 := ?k]" for d
  define b1 where "b1 = update_last 100 (put_bytes 0 (store32 h (f32_bits (m_samprate m)))) (m_blkts m)"
  define b2 where "b2 = set_usec u b1"
  define b3 where "b3 = update_last 1000 g b2"
  have k: "unat ?k = k" using assms(6) by (intro byte_of_nat) simp
  have w1: "list_all (wf_blkt h) b1" unfolding b1_def by (rule wf_update_last [OF assms(1) wf_rate])
  have w2: "list_all (wf_blkt h) b2" unfolding b2_def by (rule wf_set_usec [OF w1])
  have k32: "?k < 32" using k assms(6) by (simp add: word_less_nat_alt)
  have g: "g d ! 0 = ?e \<and> g d ! 1 = ?b \<and> g d ! 2 = ?k" "length (g d) = length d" if "length d = 4" for d
    using that by (simp_all add: g_def nth_list_update)
  have l4: "length (k_data b) = 4" if "wf_blkt h b" "k_type b = 1000" for b using that by (simp add: wf_blkt_def blkt_size_def)
  have w3: "list_all (wf_blkt h) b3" unfolding b3_def
  proof (rule wf_update_last [OF w2])
    fix b assume b: "wf_blkt h b" "k_type b = 1000"
    then show "wf_blkt h (b\<lparr>k_data := g (k_data b)\<rparr>)" using g [OF l4 [OF b]] k32 by (simp add: wf_blkt_def)
  qed
  have x: "list_ex (\<lambda>x. k_type x = t) b3 = list_ex (\<lambda>x. k_type x = t) (m_blkts m)" "list_ex (\<lambda>x. k_type x = t) b2 = list_ex (\<lambda>x. k_type x = t) (m_blkts m)" for t
    by (simp_all add: b3_def b2_def b1_def set_usec_def)
  have sf: "same_format b3 ?e ?b ?k" unfolding b3_def
    using assms(3) g(1) by (intro same_format_update [OF w2]) (simp_all add: b2_def b1_def set_usec_def filter_update_last)
  have "normalize_blkts h m u = Inr b3"
    using assms(2,4) reclen_exp_power [OF assms(5,6)] x(2) [of 1000]
    by (simp add: normalize_blkts_def Let_def flip: b1_def b2_def g_def) (simp add: b3_def g_def [abs_def])
  moreover have "format_ok h (bigendianhost h \<noteq> m_byteorder m) b3 ?e ?b ?k"
    using w3 x(1) [of 1000] assms(2,5,6,7) sf k by (auto simp: format_ok_def word_le_nat_alt word_less_nat_alt)
  moreover have "chain_length b3 = chain_length b2" "chain_length b1 = chain_length (m_blkts m)" unfolding b3_def b1_def
    by (rule chain_length_update_wf [OF w2], rule g(2), erule (1) l4) (rule chain_length_update_wf [OF assms(1) rate_length])
  then have "chain_length b3 = chain_length (m_blkts m)" by (simp add: b2_def)
  moreover have "length b3 = length (m_blkts m)" by (simp add: b3_def b2_def b1_def set_usec_def)
  moreover have "d ! 1 = of_int u" if last: "last_data 1001 b3 = Some d" for d
  proof -
    obtain d0 where d0: "last_data 1001 b1 = Some d0" "d = d0[1 := of_int u]"
      using last by (auto simp: b3_def b2_def set_usec_def last_data_update)
    obtain b where "b \<in> set b1" "k_type b = 1001" "k_data b = d0" using last_data_mem [OF d0(1)] by blast
    then have "length d0 = 4" using w1 wf_1001 [of h b] by (auto simp: list_all_iff)
    then show ?thesis using d0(2) by simp
  qed
  ultimately show ?thesis using that x(1) [of 1001] by blast
qed

end
