(* ===== verification/MsStream.thy ===== *)
theory MsStream
  imports MsRoundtrip
begin

text \<open>
  The stream of records that \<^verbatim>\<open>msr_pack\<close> sends: the invariant of the packing loop, that with \<^verbatim>\<open>flush\<close> the loop ends with
  every sample sent, that \<^verbatim>\<open>msr_unpack\<close> gives samples and start times back, and the record that is too small for a sample, for
  which the loop goes on for ever.
\<close>

section \<open>The invariant\<close>

text \<open>
  A record in memory that has everything but its samples: its fixed section and its blockettes are those of the state, its
  header is one that \<^verbatim>\<open>msr_unpack\<close> accepts, and its start time is that of the state.
\<close>

definition header_at :: "host \<Rightarrow> bool \<Rightarrow> nat \<Rightarrow> nat \<Rightarrow> pmsr \<Rightarrow> fsdh \<Rightarrow> bool" where
  "header_at h s k off m f \<longleftrightarrow>
     name_ok f \<and> date_ok f \<and> format_ok h s (m_blkts m) (of_int (m_encoding m)) (of_int (m_byteorder m)) (of_nat k) \<and>
     unat (f_data_offset f) = off \<and> f_time_correct f = 0 \<and> 0 \<le> m_starttime m \<and>
     (let (toms, usec) = ms_hptime2tomsusecoffset (m_starttime m)
      in fsdh_btime f = ms_hptime2btime toms \<and> (\<forall>d. last_data 1001 (m_blkts m) = Some d \<longrightarrow> d ! 1 = of_int usec))"

definition ready :: "host \<Rightarrow> bool \<Rightarrow> nat \<Rightarrow> nat \<Rightarrow> pmsr \<Rightarrow> byte list \<Rightarrow> bool" where
  "ready h s k off m rc \<longleftrightarrow>
     length rc = 2 ^ k \<and> 7 \<le> k \<and> k \<le> 15 \<and> 48 + chain_length (m_blkts m) \<le> off \<and> off + 64 \<le> 2 ^ k \<and>
     (\<exists>f rest. rc = put_fsdh h s f @ chain_bytes h s 48 (m_blkts m) @ rest \<and> header_at h s k off m f)"

lemma start_time_read:
  assumes "header_at h s k off m f" and "r_fsdh m' = f" and "r_blkts m' = placed 48 (m_blkts m)" and "list_all (wf_blkt h) (m_blkts m)"
  shows "\<bar>msr_starttime m' - m_starttime m\<bar> \<le> 50 \<and> (list_ex (\<lambda>b. k_type b = 1001) (m_blkts m) \<longrightarrow> msr_starttime m' = m_starttime m)"
proof -
  obtain toms usec where t: "ms_hptime2tomsusecoffset (m_starttime m) = (toms, usec)" by fastforce
  note sp = hptime_split [OF t]
  have f: "f_time_correct f = 0" "0 \<le> m_starttime m" "fsdh_btime f = ms_hptime2btime toms"
      "\<forall>d. last_data 1001 (m_blkts m) = Some d \<longrightarrow> d ! 1 = of_int usec"
    using assms(1) t by (simp_all add: header_at_def)
  have b: "ms_btime2hptime (fsdh_btime f) = toms" using sp(4) by (simp add: f(3) btime_roundtrip)
  have l: "last_blkt 1001 m' = last_data 1001 (m_blkts m)"
    using last_data_placed [of 1001 48 "m_blkts m"] by (simp add: last_blkt_def assms(3) last_data_def)
  have "toms \<noteq> HPTERROR" using sp(2,3) f(2) by (simp add: HPTERROR_def)
  moreover have "HPTMODULUS sdiv 1000000 = 1" by (simp add: HPTMODULUS_def)
  ultimately have m: "msr_starttime m' = (case last_data 1001 (m_blkts m) of None \<Rightarrow> toms | Some d \<Rightarrow> toms + sint (d ! 1))"
    using f(1) by (simp add: msr_starttime_def Let_def assms(2) b l split: option.split)
  have "sint (of_int usec :: byte) = usec" using sp(1,2) sint8_self [of usec] by simp
  then show ?thesis using m f(4) sp last_data_none [of 1001 "m_blkts m"] by (cases "last_data 1001 (m_blkts m)") auto
qed

section \<open>One record\<close>

lemma put_end: "length xs = off \<Longrightarrow> length bs = length ys \<Longrightarrow> put_bytes off bs (xs @ ys) = xs @ bs"
  by (simp add: put_bytes_def)

text \<open>The record with its samples, as it is sent, is read back.\<close>

text \<open>
  A record as it is sent: \<^verbatim>\<open>msr_unpack\<close> reads it, its length is the one given, and it begins with a fixed section and
  blockettes of \<open>c\<close> bytes.
\<close>

definition sent_ok :: "host \<Rightarrow> nat \<Rightarrow> nat \<Rightarrow> byte list \<Rightarrow> unpacked \<Rightarrow> bool" where
  "sent_ok h k c out u \<longleftrightarrow>
     msr_unpack h no_env out (2 ^ k) True = Some (Inr u) \<and> length out = 2 ^ k \<and> r_reclen (u_msr u) = 2 ^ k \<and>
     (\<exists>s f bs e b rest. out = put_fsdh h s f @ chain_bytes h s 48 bs @ rest \<and> header_ok h s f bs e b (of_nat k) \<and> chain_length bs = c)"

lemma filled_record_unpacks:
  assumes "ready h s k off m rc" and "int (length bs) = 2 ^ k - int off" and "0 < n" and "n < 65536" and "0 \<le> m_encoding m" and "m_encoding m \<le> 11"
    and "decode_data h s bs (2 ^ k - int off) (m_encoding m) (int n) (int n * samplesize (m_encoding m)) = Some (Inr xs)"
    and "nsamples xs = n" and out: "out = put_bytes 30 (store16 h (swap_if2 s (of_nat n))) (put_bytes off bs rc)"
  shows "\<exists>u. sent_ok h k (chain_length (m_blkts m)) out u \<and> u_samples u = Some xs \<and> \<bar>u_starttime u - m_starttime m\<bar> \<le> 50 \<and>
    (list_ex (\<lambda>b. k_type b = 1001) (m_blkts m) \<longrightarrow> u_starttime u = m_starttime m)"
    and "\<exists>f rest. out = put_fsdh h s f @ chain_bytes h s 48 (m_blkts m) @ rest \<and> header_at h s k off m f" and "length out = 2 ^ k"
proof -
  have rd: "length rc = 2 ^ k" "7 \<le> k" "k \<le> 15" "48 + chain_length (m_blkts m) \<le> off" "off + 64 \<le> 2 ^ k"
    using assms(1) unfolding ready_def by blast+
  obtain f rest where f: "rc = put_fsdh h s f @ chain_bytes h s 48 (m_blkts m) @ rest" "header_at h s k off m f"
    using assms(1) unfolding ready_def by blast
  have ok: "name_ok f" "fsdh_ok f" "date_ok f" "format_ok h s (m_blkts m) (of_int (m_encoding m)) (of_int (m_byteorder m)) (of_nat k)"
      "unat (f_data_offset f) = off" using f(2) by (simp_all add: header_at_def name_ok_def)
  have wf: "list_all (wf_blkt h) (m_blkts m)" using ok(4) by (simp add: format_ok_def)
  define f1 where "f1 = f\<lparr>f_numsamples := of_nat n\<rparr>"
  have f1: "header_at h s k off m f1"
    using f(2) by (simp add: f1_def header_at_def name_ok_def date_ok_def fsdh_ok_def fsdh_btime_def)
  define pre where "pre = take (off - 48 - chain_length (m_blkts m)) rest"
  have len: "length (put_fsdh h s f) = 48" "length (chain_bytes h s 48 (m_blkts m)) = chain_length (m_blkts m)"
    by (rule length_put_fsdh [OF ok(2)]) (rule length_chain_bytes [OF wf])
  have lr: "length rest = 2 ^ k - 48 - chain_length (m_blkts m)" using rd(1) len unfolding f(1) by simp
  have lb: "length bs = 2 ^ k - off" using assms(2) rd(5) by (simp add: of_nat_diff flip: of_nat_eq_iff [where 'a = int])
  have lp: "length pre = off - 48 - chain_length (m_blkts m)" using lr rd(4,5) by (simp add: pre_def)
  have "put_bytes off bs rc = put_fsdh h s f @ chain_bytes h s 48 (m_blkts m) @ pre @ bs"
    using len lr lb rd(4,5) by (simp add: put_bytes_def f(1) pre_def)
  then have o: "out = put_fsdh h s f1 @ chain_bytes h s 48 (m_blkts m) @ pre @ bs"
    unfolding out f1_def by (simp add: put_numsamples [OF ok(2)])
  then show "\<exists>f rest. out = put_fsdh h s f @ chain_bytes h s 48 (m_blkts m) @ rest \<and> header_at h s k off m f" using f1 by blast
  have ok1: "fsdh_ok f1" using f1 by (simp add: header_at_def name_ok_def)
  have dr: "drop off out = bs" unfolding o using len(2) length_put_fsdh [OF ok1] lp rd(4) by simp
  show lo: "length out = 2 ^ k" unfolding o using len(2) length_put_fsdh [OF ok1] lp lb rd(4,5) by simp
  have hk: "header_ok h s f1 (m_blkts m) (of_int (m_encoding m)) (of_int (m_byteorder m)) (of_nat k)"
    using f1 by (intro header_ok_parts) (simp_all add: header_at_def)
  have k: "unat (of_nat k :: byte) = k" using rd(3) by (intro byte_of_nat) simp
  have e: "sint (of_int (m_encoding m) :: byte) = m_encoding m" using assms(5,6) sint8_self [of "m_encoding m"] by simp
  have p: "(2 :: nat) ^ k \<le> 32768" using power_increasing [OF rd(3), of "2 :: nat"] by simp
  have fo: "unat (f_data_offset f1) = off" "uint (f_data_offset f1) = int off" using ok(5) by (auto simp: f1_def)
  have fn: "unat (f_numsamples f1) = n" "uint (f_numsamples f1) = int n"
    using assms(4) u16_of_nat [of n] by (simp_all add: f1_def uint_nat)
  have "int (off + 64) \<le> int (2 ^ k)" using rd(5) by (simp only: of_nat_le_iff)
  then have i: "int off < 2 ^ k" "int (48 + chain_length (m_blkts m)) \<le> 2 ^ k" using rd(4,5) by simp_all
  have "\<exists>u. msr_unpack h no_env out (2 ^ unat (of_nat k :: byte)) True = Some (Inr u) \<and> u_samples u = Some xs \<and>
      r_fsdh (u_msr u) = f1 \<and> r_blkts (u_msr u) = placed 48 (m_blkts m) \<and> u_starttime u = msr_starttime (u_msr u) \<and>
      r_reclen (u_msr u) = 2 ^ unat (of_nat k :: byte)"
  proof (rule unpack_record [OF hk _ _ _ o])
    show "48 \<le> f_data_offset f1" using fo rd(4) by (simp add: word_le_nat_alt)
    show "0 < f_numsamples f1" using fn(1) assms(3) by (simp add: word_less_nat_alt)
  qed (use k e i p fo fn dr assms(5-8) rd(4,5) in simp_all)
  then obtain u where u: "msr_unpack h no_env out (2 ^ k) True = Some (Inr u)" "u_samples u = Some xs"
      "r_fsdh (u_msr u) = f1" "r_blkts (u_msr u) = placed 48 (m_blkts m)" "u_starttime u = msr_starttime (u_msr u)" "r_reclen (u_msr u) = 2 ^ k"
    using k by auto
  then have "sent_ok h k (chain_length (m_blkts m)) out u" unfolding sent_ok_def using lo o hk by blast
  with u show "\<exists>u. sent_ok h k (chain_length (m_blkts m)) out u \<and> u_samples u = Some xs \<and> \<bar>u_starttime u - m_starttime m\<bar> \<le> 50 \<and>
      (list_ex (\<lambda>b. k_type b = 1001) (m_blkts m) \<longrightarrow> u_starttime u = m_starttime m)"
    using start_time_read [OF f1 _ _ wf, of "u_msr u"] by auto
qed


section \<open>The update of the header\<close>

text \<open>The times of records whose year tells the byte order: from 1970 to 2055.\<close>

definition time_ok :: "int \<Rightarrow> bool" where
  "time_ok t \<longleftrightarrow> 0 \<le> t \<and> t + 50 < 2713910400000000"

lemma rounded_time:
  assumes "time_ok t" and "ms_hptime2tomsusecoffset t = (toms, usec)"
  shows "0 \<le> toms" and "toms < 2713910400000000"
proof -
  note sp = hptime_split [OF assms(2)]
  show "toms < 2713910400000000" using sp(1,3) assms(1) by (simp add: time_ok_def)
  have "- 49 \<le> toms" using sp(2,3) assms(1) by (simp add: time_ok_def)
  then have "0 \<le> toms div 100" using zdiv_mono1 [of "- 49" toms 100] sp(4) by linarith
  then show "0 \<le> toms" using sp(4) by linarith
qed

definition seq_ok :: "pmsr \<Rightarrow> bool" where
  "seq_ok m \<longleftrightarrow> 0 \<le> m_sequence_number m \<and> m_sequence_number m \<le> 999999"

lemma update_header_at:
  assumes "header_at h s k off m f" and "time_ok (m_starttime m1)" and "ms_hptime2tomsusecoffset (m_starttime m1) = (toms, usec)" and "seq_ok m1"
    and "m_encoding m1 = m_encoding m" and "m_byteorder m1 = m_byteorder m" and "m_blkts m1 = set_usec usec (m_blkts m)"
  shows "header_at h s k off m1 (set_btime (ms_hptime2btime toms) (f\<lparr>f_sequence_number := seqnum (m_sequence_number m1)\<rparr>))"
proof -
  let ?q = "f\<lparr>f_sequence_number := seqnum (m_sequence_number m1)\<rparr>"
  note d = set_btime_date [OF rounded_time [OF assms(2,3)]]
  note q = seqnum_ok [of "m_sequence_number m1"]
  have b: "format_ok h s (m_blkts m1) (of_int (m_encoding m1)) (of_int (m_byteorder m1)) (of_nat k)"
    using assms(1) by (simp add: header_at_def assms(5-7) format_ok_usec)
  have "name_ok (set_btime (ms_hptime2btime toms) ?q)"
    using assms(1,4) q by (simp add: header_at_def name_ok_def set_btime_def fsdh_ok_def seq_ok_def)
  moreover have "dd ! 1 = of_int usec" if "last_data 1001 (m_blkts m1) = Some dd" for dd
  proof -
    have wf: "list_all (wf_blkt h) (m_blkts m)" using assms(1) by (simp add: header_at_def format_ok_def)
    from that obtain d0 where d0: "last_data 1001 (m_blkts m) = Some d0" "dd = d0[1 := of_int usec]"
      by (auto simp: assms(7) set_usec_def last_data_update)
    have "length d0 = 4" using last_data_mem [OF d0(1)] wf wf_1001 [of h] by (auto simp: list_all_iff)
    then show ?thesis using d0(2) by simp
  qed
  moreover have "unat (f_data_offset (set_btime (ms_hptime2btime toms) ?q)) = off" "f_time_correct (set_btime (ms_hptime2btime toms) ?q) = 0"
    using assms(1) by (simp_all add: header_at_def set_btime_def)
  ultimately show ?thesis using b d assms(2) by (simp add: header_at_def assms(3) time_ok_def)
qed

lemma set_usec_none: "\<not> list_ex (\<lambda>b. k_type b = 1001) bs \<Longrightarrow> set_usec u bs = bs"
  by (simp add: set_usec_def update_last_none)

lemma update_ready:
  assumes out: "out = put_fsdh h s f @ chain_bytes h s 48 (m_blkts m) @ rest" and "header_at h s k off m f" and "length out = 2 ^ k"
    and "time_ok (m_starttime m)" and "time_ok (m_starttime m1)" and "seq_ok m1"
    and "m_encoding m1 = m_encoding m" and "m_byteorder m1 = m_byteorder m" and "m_blkts m1 = m_blkts m"
    and "7 \<le> k" and "k \<le> 15" and "48 + chain_length (m_blkts m) \<le> off" and "off + 64 \<le> 2 ^ k"
    and p: "p = blkt1001_at (2 ^ k) 48 (m_blkts m)" and up: "msr_update_header h s p m1 out = (m2, rc)"
  shows "ready h s k off m2 rc" and "\<exists>u. m2 = m1\<lparr>m_blkts := set_usec u (m_blkts m)\<rparr>"
proof -
  obtain toms usec where t: "ms_hptime2tomsusecoffset (m_starttime m1) = (toms, usec)" by fastforce
  let ?bs = "m_blkts m"
  define f1 where "f1 = set_btime (ms_hptime2btime toms) (f\<lparr>f_sequence_number := seqnum (m_sequence_number m1)\<rparr>)"
  have ok: "fsdh_ok f" "fsdh_ok (f\<lparr>f_sequence_number := seqnum (m_sequence_number m1)\<rparr>)" "list_all (wf_blkt h) ?bs"
    using assms(2,6) seqnum_ok [of "m_sequence_number m1"] by (simp_all add: header_at_def name_ok_def fsdh_ok_def format_ok_def seq_ok_def)
  have ok1: "fsdh_ok f1" using ok(2) by (simp add: f1_def fsdh_ok_def set_btime_def)
  have l: "length (put_fsdh h s f1) = 48" "length (put_fsdh h s f) = 48" "length (chain_bytes h s 48 ?bs) = chain_length ?bs"
    using length_put_fsdh [OF ok1] length_put_fsdh [OF ok(1)] length_chain_bytes [OF ok(3)] by simp_all
  define r1 where "r1 = put_fsdh h s f1 @ chain_bytes h s 48 ?bs @ rest"
  have r1: "put_bytes 20 (btime_bytes h s (ms_hptime2btime toms)) (put_bytes 0 (seqnum (m_sequence_number m1)) out) = r1"
    using assms(6) seqnum_ok(1) [of "m_sequence_number m1"]
    by (simp add: out put_sequence [OF ok(1)] put_btime [OF ok(2)] r1_def f1_def seq_ok_def)
  have u: "msr_update_header h s p m1 out = (case p of None \<Rightarrow> (m1, r1)
      | Some p \<Rightarrow> (m1\<lparr>m_blkts := set_usec usec ?bs\<rparr>, r1[p + 1 := of_int usec]))"
    by (simp add: msr_update_header_def t r1 Let_def assms(9) split: option.split)
  have at: "case p of None \<Rightarrow> \<not> list_ex (\<lambda>b. k_type b = 1001) ?bs
    | Some p \<Rightarrow> list_ex (\<lambda>b. k_type b = 1001) ?bs \<and> 48 + 4 \<le> p \<and> p + 4 \<le> 48 + chain_length ?bs \<and>
        chain_bytes h s 48 (set_usec usec ?bs) = (chain_bytes h s 48 ?bs)[p + 1 - 48 := of_int usec]"
    unfolding p using assms(12,13) by (intro blkt1001_place [OF ok(3)]) simp
  have m2: "m2 = m1\<lparr>m_blkts := set_usec usec ?bs\<rparr> \<and> rc = put_fsdh h s f1 @ chain_bytes h s 48 (set_usec usec ?bs) @ rest"
  proof (cases p)
    case None
    then have "set_usec usec ?bs = ?bs" using at by (simp add: set_usec_none)
    then show ?thesis using None u up assms(9) by (simp add: r1_def)
  next
    case (Some q)
    then have q: "48 + 4 \<le> q" "q + 4 \<le> 48 + chain_length ?bs"
        "chain_bytes h s 48 (set_usec usec ?bs) = (chain_bytes h s 48 ?bs)[q + 1 - 48 := of_int usec]" using at by simp_all
    then have qi: "q - 47 < chain_length ?bs" by linarith
    have "r1[q + 1 := of_int usec] = put_fsdh h s f1 @ chain_bytes h s 48 (set_usec usec ?bs) @ rest"
      unfolding q(3) r1_def using q(1) qi l by (simp add: list_update_append)
    then show ?thesis using Some u up by simp
  qed
  have "length rc = 2 ^ k"
    using m2 length_chain_bytes [OF wf_set_usec [OF ok(3), of usec], of s 48] l assms(3) by (simp add: out)
  moreover have "header_at h s k off m2 f1"
    using update_header_at [OF assms(2), of m2 toms usec] m2 assms(5-8) t by (simp add: seq_ok_def f1_def)
  ultimately show "ready h s k off m2 rc" unfolding ready_def using m2 assms(10-13) by auto
  show "\<exists>u. m2 = m1\<lparr>m_blkts := set_usec u ?bs\<rparr>" using m2 by auto
qed


section \<open>The loop\<close>

text \<open>
  The state of the packing loop with samples left to pack: the record is ready, the samples left can be packed
  after the last one, and the start time is that of the next sample.
\<close>

definition packing :: "host \<Rightarrow> bool \<Rightarrow> nat \<Rightarrow> nat \<Rightarrow> int \<Rightarrow> pmsr \<Rightarrow> nat \<Rightarrow> byte list \<Rightarrow> bool" where
  "packing h s k off seg m got rc \<longleftrightarrow>
     ready h s k off m rc \<and> seq_ok m \<and> got < nsamples (m_samples m) \<and>
     can_pack (m_lastintsample m) (m_comphistory m) (m_encoding m) (drop_samples got (m_samples m)) \<and>
     m_starttime m = record_time (m_samprate m) seg seg got"

lemma can_pack_encoding: "can_pack lastint ch enc src \<Longrightarrow> 0 \<le> enc \<and> enc \<le> 11"
  by (auto simp: can_pack_def split: samples.splits)

lemma record_time_again:
  "record_time rate seg (record_time rate seg seg a) b = record_time rate seg seg b"
  by (simp add: record_time_def)

text \<open>What a round gives: the record as sent is read back, and the state is again one of the loop.\<close>

definition round_ok :: "host \<Rightarrow> bool \<Rightarrow> nat \<Rightarrow> nat \<Rightarrow> int \<Rightarrow> pmsr \<Rightarrow> nat \<Rightarrow> nat \<Rightarrow> byte list \<Rightarrow> pmsr \<Rightarrow> byte list \<Rightarrow> bool" where
  "round_ok h s k off seg m got n out m' rc' \<longleftrightarrow>
     0 < n \<and> got + n \<le> nsamples (m_samples m) \<and>
     (\<exists>u. sent_ok h k (chain_length (m_blkts m)) out u \<and> u_samples u = Some (take_samples n (drop_samples got (m_samples m))) \<and>
        \<bar>u_starttime u - m_starttime m\<bar> \<le> 50 \<and> (list_ex (\<lambda>b. k_type b = 1001) (m_blkts m) \<longrightarrow> u_starttime u = m_starttime m)) \<and>
     (got + n < nsamples (m_samples m) \<longrightarrow> packing h s k off seg m' (got + n) rc') \<and>
     (\<exists>u. m_blkts m' = set_usec u (m_blkts m)) \<and> m_samples m' = m_samples m \<and> m_samprate m' = m_samprate m \<and>
     m_packedsamples m' = m_packedsamples m + int n \<and> m_packedrecords m' = m_packedrecords m + 1"

lemma pack_record_round:
  assumes inv: "packing h s k off seg m got rc" and "p = blkt1001_at (2 ^ k) 48 (m_blkts m)"
    and time: "\<And>j. j \<le> nsamples (m_samples m) \<Longrightarrow> time_ok (record_time (m_samprate m) seg seg j)"
  shows "\<exists>n out m' rc'. pack_record h s s off (2 ^ k - int off) p seg m got rc = Some (Inr (n, out, m', rc')) \<and>
    round_ok h s k off seg m got n out m' rc'"
proof -
  let ?src = "drop_samples got (m_samples m)" and ?len = "2 ^ k - int off"
  have rd: "ready h s k off m rc" "length rc = 2 ^ k" "7 \<le> k" "k \<le> 15" "48 + chain_length (m_blkts m) \<le> off" "off + 64 \<le> 2 ^ k"
    using inv unfolding packing_def ready_def by blast+
  have st: "seq_ok m" "got < nsamples (m_samples m)" "can_pack (m_lastintsample m) (m_comphistory m) (m_encoding m) ?src"
      "m_starttime m = record_time (m_samprate m) seg seg got" using inv unfolding packing_def by blast+
  have "int (off + 64) \<le> int (2 ^ k)" using rd(6) by (simp only: of_nat_le_iff)
  moreover have "(2 :: int) ^ k \<le> 32768" using power_increasing [OF rd(4), of "2 :: int"] by simp
  ultimately have len: "64 \<le> ?len" "?len \<le> 32720" using rd(5) by simp_all
  have ns: "0 < nsamples ?src" using st(2) by simp
  obtain n bs lst where d: "msr_pack_data h (drop off rc) ?src ?len (m_lastintsample m) (m_comphistory m) (m_encoding m) s = Some (Inr (n, bs, lst))"
      "0 < n" "n \<le> nsamples ?src" "n < 65536" "int (length bs) = ?len"
      "decode_data h s bs ?len (m_encoding m) (int n) (int n * samplesize (m_encoding m)) = Some (Inr (take_samples n ?src))"
      "n < nsamples ?src \<longrightarrow> can_pack lst True (m_encoding m) (drop_samples n ?src)"
    using pack_data_step [OF len ns st(3), of h "drop off rc" s] by blast
  define out where "out = put_bytes 30 (store16 h (swap_if2 s (of_nat n))) (put_bytes off bs rc)"
  define m1 where "m1 = m\<lparr>m_lastintsample := lst, m_comphistory := True, m_packedsamples := m_packedsamples m + int n,
      m_packedrecords := m_packedrecords m + 1, m_sequence_number := (if 999999 \<le> m_sequence_number m then 1 else m_sequence_number m + 1),
      m_starttime := record_time (m_samprate m) seg (m_starttime m) (got + n)\<rparr>"
  obtain m2 rc2 where up: "msr_update_header h s p m1 out = (m2, rc2)" by fastforce
  have pr: "pack_record h s s off ?len p seg m got rc = Some (Inr (n, out, m2, rc2))"
    using d(1) up by (simp add: pack_record_def Let_def out_def m1_def)
  have enc: "0 \<le> m_encoding m" "m_encoding m \<le> 11" using can_pack_encoding [OF st(3)] by simp_all
  have nt: "nsamples (take_samples n ?src) = n" using d(3) by simp
  note f = filled_record_unpacks [OF rd(1) d(5,2,4) enc d(6) nt out_def]
  obtain f1 rest where o: "out = put_fsdh h s f1 @ chain_bytes h s 48 (m_blkts m) @ rest" "header_at h s k off m f1" using f(2) by blast
  have t1: "m_starttime m1 = record_time (m_samprate m) seg seg (got + n)" by (simp add: m1_def st(4) record_time_again)
  have t: "time_ok (m_starttime m)" "time_ok (m_starttime m1)" using time [of got] time [of "got + n"] st(2,4) d(3) t1 by simp_all
  have m1: "seq_ok m1" "m_encoding m1 = m_encoding m" "m_byteorder m1 = m_byteorder m" "m_blkts m1 = m_blkts m"
    using st(1) by (auto simp: m1_def seq_ok_def)
  note r = update_ready [OF o f(3) t m1 rd(3-6) assms(2) up]
  obtain v where m2: "m2 = m1\<lparr>m_blkts := set_usec v (m_blkts m)\<rparr>" using r(2) by blast
  have "packing h s k off seg m2 (got + n) rc2" if more: "got + n < nsamples (m_samples m)"
    using r(1) more d(7) t1 m1(1) by (simp add: packing_def add.commute less_diff_conv m2 m1_def seq_ok_def)
  moreover have "m_samples m2 = m_samples m" "m_samprate m2 = m_samprate m" "m_packedsamples m2 = m_packedsamples m + int n"
      "m_packedrecords m2 = m_packedrecords m + 1" "m_blkts m2 = set_usec v (m_blkts m)"
    by (simp_all add: m2 m1_def)
  ultimately show ?thesis using pr f(1) d(2,3) st(2) unfolding round_ok_def by auto
qed


text \<open>The samples in portions, and the times of the portions.\<close>

fun split_samples :: "nat list \<Rightarrow> samples \<Rightarrow> samples list" where
  "split_samples [] src = []"
| "split_samples (n # ns) src = take_samples n src # split_samples ns (drop_samples n src)"

fun record_times :: "real \<Rightarrow> int \<Rightarrow> nat \<Rightarrow> nat list \<Rightarrow> int list" where
  "record_times rate seg i [] = []"
| "record_times rate seg i (n # ns) = record_time rate seg seg i # record_times rate seg (i + n) ns"

definition near :: "bool \<Rightarrow> int \<Rightarrow> int \<Rightarrow> bool" where
  "near exact t t' \<longleftrightarrow> \<bar>t - t'\<bar> \<le> 50 \<and> (exact \<longrightarrow> t = t')"

lemma pack_loop_all:
  assumes "packing h s k off seg m got rc" and "p = blkt1001_at (2 ^ k) 48 (m_blkts m)"
    and "\<And>j. j \<le> nsamples (m_samples m) \<Longrightarrow> time_ok (record_time (m_samprate m) seg seg j)"
  shows "\<exists>m' recs us ns. pack_loop h s s off (2 ^ k - int off) maxs p True seg m got rc sent = Some (Inr (m', sent @ recs)) \<and>
    list_all2 (sent_ok h k (chain_length (m_blkts m))) recs us \<and>
    map u_samples us = map Some (split_samples ns (drop_samples got (m_samples m))) \<and> got + sum_list ns = nsamples (m_samples m) \<and> list_all ((<) 0) ns \<and>
    list_all2 (near (list_ex (\<lambda>b. k_type b = 1001) (m_blkts m))) (map u_starttime us) (record_times (m_samprate m) seg got ns) \<and>
    m_packedsamples m' = m_packedsamples m + int (sum_list ns) \<and> m_packedrecords m' = m_packedrecords m + int (length recs)"
  using assms
proof (induction "nsamples (m_samples m) - got" arbitrary: m got rc sent rule: less_induct)
  case less
  obtain n out m1 rc1 where r: "pack_record h s s off (2 ^ k - int off) p seg m got rc = Some (Inr (n, out, m1, rc1))"
      "round_ok h s k off seg m got n out m1 rc1"
    using pack_record_round [OF less.prems] by blast
  obtain u where u: "sent_ok h k (chain_length (m_blkts m)) out u" "u_samples u = Some (take_samples n (drop_samples got (m_samples m)))"
      "near (list_ex (\<lambda>b. k_type b = 1001) (m_blkts m)) (u_starttime u) (m_starttime m)"
    using r(2) unfolding round_ok_def near_def by blast
  have m1: "0 < n" "got + n \<le> nsamples (m_samples m)" "m_samples m1 = m_samples m" "m_samprate m1 = m_samprate m"
      "m_packedsamples m1 = m_packedsamples m + int n" "m_packedrecords m1 = m_packedrecords m + 1"
    using r(2) unfolding round_ok_def by blast+
  obtain v where v: "m_blkts m1 = set_usec v (m_blkts m)" using r(2) unfolding round_ok_def by blast
  have t: "m_starttime m = record_time (m_samprate m) seg seg got" using less.prems(1) by (simp add: packing_def)
  have cl: "chain_length (m_blkts m1) = chain_length (m_blkts m)" by (simp add: v)
  have ex: "list_ex (\<lambda>b. k_type b = 1001) (m_blkts m1) = list_ex (\<lambda>b. k_type b = 1001) (m_blkts m)" by (simp add: v set_usec_def)
  show ?case
  proof (cases "nsamples (m_samples m) \<le> got + n")
    case True
    then have "pack_loop h s s off (2 ^ k - int off) maxs p True seg m got rc sent = Some (Inr (m1, sent @ [out]))"
      by (subst pack_loop.simps) (simp add: r(1))
    then show ?thesis using True u t m1
      by (intro exI [of _ m1] exI [of _ "[out]"] exI [of _ "[u]"] exI [of _ "[n]"]) simp
  next
    case False
    then have lp: "pack_loop h s s off (2 ^ k - int off) maxs p True seg m got rc sent =
        pack_loop h s s off (2 ^ k - int off) maxs p True seg m1 (got + n) rc1 (sent @ [out])"
      by (subst pack_loop.simps) (simp add: r(1))
    have pk: "packing h s k off seg m1 (got + n) rc1" using r(2) False by (simp add: round_ok_def)
    have less1: "nsamples (m_samples m1) - (got + n) < nsamples (m_samples m) - got" using False m1(1,3) by simp
    have p1: "p = blkt1001_at (2 ^ k) 48 (m_blkts m1)" using less.prems(2) by (simp add: v)
    have t1: "time_ok (record_time (m_samprate m1) seg seg j)" if "j \<le> nsamples (m_samples m1)" for j
      using less.prems(3) that m1(3,4) by simp
    from less.hyps [OF less1 pk p1 t1, of "sent @ [out]", unfolded m1(3,4) ex cl] obtain m' recs us ns where
      ih: "pack_loop h s s off (2 ^ k - int off) maxs p True seg m1 (got + n) rc1 (sent @ [out]) = Some (Inr (m', (sent @ [out]) @ recs))"
        "list_all2 (sent_ok h k (chain_length (m_blkts m))) recs us"
        "map u_samples us = map Some (split_samples ns (drop_samples (got + n) (m_samples m)))" "got + n + sum_list ns = nsamples (m_samples m)" "list_all ((<) 0) ns"
        "list_all2 (near (list_ex (\<lambda>b. k_type b = 1001) (m_blkts m))) (map u_starttime us) (record_times (m_samprate m) seg (got + n) ns)"
        "m_packedsamples m' = m_packedsamples m1 + int (sum_list ns)" "m_packedrecords m' = m_packedrecords m1 + int (length recs)"
      by blast
    then show ?thesis using lp u t m1
      by (intro exI [of _ m'] exI [of _ "out # recs"] exI [of _ "u # us"] exI [of _ "n # ns"]) (simp add: add.commute)
  qed
qed


section \<open>The first record\<close>

lemma steim_offset_fits:
  assumes "off mod 64 = 0" and "off + 64 \<le> n" and "hl + 64 \<le> n" and "n mod 64 = 0"
  shows "hl \<le> steim_offset off hl \<and> steim_offset off hl + 64 \<le> n"
  using assms
proof (induction off hl rule: steim_offset.induct)
  case (1 off hl)
  show ?case
  proof (cases "off < hl")
    case True
    then have "off + 64 < n" "(off + 64) mod 64 = 0" using "1.prems" by simp_all
    then have "off + 64 + 64 \<le> n" using "1.prems"(4) by presburger
    then show ?thesis using "1.IH" [OF True] "1.prems" True by (subst (1 2) steim_offset.simps) simp
  next
    case False
    then show ?thesis using "1.prems" by (subst (1 2) steim_offset.simps) simp
  qed
qed

lemma record_time_mono:
  assumes "i \<le> j"
  shows "record_time rate seg seg i \<le> record_time rate seg seg j" and "seg \<le> record_time rate seg seg i"
proof -
  have "real i / rate * of_int HPTMODULUS + 1 / 2 \<le> real j / rate * of_int HPTMODULUS + 1 / 2" if "0 < rate"
    using assms that by (simp add: HPTMODULUS_def divide_right_mono)
  moreover have "0 \<le> real n / rate * of_int HPTMODULUS + 1 / 2" if "0 < rate" for n
    using that by (simp add: HPTMODULUS_def add_nonneg_nonneg)
  ultimately show "record_time rate seg seg i \<le> record_time rate seg seg j" "seg \<le> record_time rate seg seg i"
    by (simp_all add: record_time_def c_trunc_def floor_mono)
qed

text \<open>
  What \<^verbatim>\<open>msr_pack\<close> can pack into records of \<open>2 ^ k\<close> bytes. The header and a frame fit into a record; the
  blockettes are well-formed and at most one is of type 1000; the rate can be given by a factor and a multiplier or is found to
  be out of their range; there is no time correction, and the records start in the years from 1970 to 2055.
\<close>

definition packable :: "host \<Rightarrow> nat \<Rightarrow> pmsr \<Rightarrow> bool" where
  "packable h k m \<longleftrightarrow>
     7 \<le> k \<and> k \<le> 15 \<and> m_reclen m = 2 ^ k \<and> (m_byteorder m = 0 \<or> m_byteorder m = 1) \<and> MS_ISDATAINDICATOR (m_dataquality m) \<and>
     0 < nsamples (m_samples m) \<and> can_pack (m_lastintsample m) (m_comphistory m) (m_encoding m) (m_samples m) \<and>
     list_all (wf_blkt h) (m_blkts m) \<and> length (filter (\<lambda>b. k_type b = 1000) (m_blkts m)) \<le> 1 \<and>
     112 + chain_length (add_1000 (m_blkts m)) \<le> 2 ^ k \<and>
     (case m_fsdh m of None \<Rightarrow> True | Some f \<Rightarrow> fsdh_ok f \<and> f_time_correct f = 0) \<and> ms_genfactmult (m_samprate m) \<noteq> None \<and>
     time_ok (m_starttime m) \<and> time_ok (record_time (m_samprate m) (m_starttime m) (m_starttime m) (nsamples (m_samples m)))"

lemma packable_times:
  assumes "packable h k m" and "j \<le> nsamples (m_samples m)"
  shows "time_ok (record_time (m_samprate m) (m_starttime m) (m_starttime m) j)"
  using assms record_time_mono [OF assms(2), where rate = "m_samprate m" and seg = "m_starttime m"] by (auto simp: packable_def time_ok_def)

lemma add_1000_ok:
  assumes "list_all (wf_blkt h) bs" and "length (filter (\<lambda>b. k_type b = 1000) bs) \<le> 1"
  shows "list_all (wf_blkt h) (add_1000 bs)" "list_ex (\<lambda>b. k_type b = 1000) (add_1000 bs)"
    "length (filter (\<lambda>b. k_type b = 1000) (add_1000 bs)) \<le> 1"
    "list_ex (\<lambda>b. k_type b = 1001) (add_1000 bs) = list_ex (\<lambda>b. k_type b = 1001) bs" "add_1000 bs \<noteq> []"
proof -
  have "wf_blkt h blank_1000" "k_type blank_1000 = 1000" by (simp_all add: wf_blkt_def blank_1000_def blkt_size_def nth_Cons')
  moreover have "filter (\<lambda>b. k_type b = 1000) bs = []" if "\<not> list_ex (\<lambda>b. k_type b = 1000) bs"
    using that by (simp add: filter_empty_conv list_ex_iff)
  ultimately show "list_all (wf_blkt h) (add_1000 bs)" "list_ex (\<lambda>b. k_type b = 1000) (add_1000 bs)"
    "length (filter (\<lambda>b. k_type b = 1000) (add_1000 bs)) \<le> 1"
    "list_ex (\<lambda>b. k_type b = 1001) (add_1000 bs) = list_ex (\<lambda>b. k_type b = 1001) bs" "add_1000 bs \<noteq> []"
    using assms by (auto simp: add_1000_def)
qed

text \<open>The fixed section that \<^verbatim>\<open>msr_normalize_header\<close> fills in.\<close>

lemma length_strncpopen [simp]: "length (ms_strncpopen src n) = n"
  by (simp add: ms_strncpopen_def)

lemma normalize_fsdh_ok:
  assumes "fsdh_ok f0" and "seq_ok m" and "MS_ISDATAINDICATOR (m_dataquality m)" and "m_blkts m \<noteq> []" and "time_ok (m_starttime m)"
    and "ms_hptime2tomsusecoffset (m_starttime m) = (toms, usec)" and f: "f = normalize_fsdh m toms rate f0"
  shows "name_ok f" "date_ok f" "fsdh_btime f = ms_hptime2btime toms" "f_time_correct f = f_time_correct f0"
proof -
  note d = set_btime_date [OF rounded_time [OF assms(5,6)], of f0]
  show "name_ok f" using assms(2-4) seqnum_ok [of "m_sequence_number m"]
    by (simp add: f normalize_fsdh_def set_btime_def name_ok_def fsdh_ok_def seq_ok_def)
  show "date_ok f" "fsdh_btime f = ms_hptime2btime toms" "f_time_correct f = f_time_correct f0"
    using d by (simp_all add: f normalize_fsdh_def set_btime_def date_ok_def fsdh_btime_def)
qed


lemma pack_header_ok:
  assumes "packable h k m" and "seq_ok m" and "length mem = 2 ^ k" and s: "s = (bigendianhost h \<noteq> m_byteorder m)"
  obtains bs f1 f rest where
    "pack_header h s (- 1) (m\<lparr>m_blkts := add_1000 (m_blkts m)\<rparr>) mem =
       Some (Inr (m\<lparr>m_blkts := bs, m_fsdh := Some f1\<rparr>, put_fsdh h s f @ chain_bytes h s 48 bs @ rest, 48 + chain_length bs))"
    "header_at h s k (unat (f_data_offset f)) (m\<lparr>m_blkts := bs, m_fsdh := Some f1\<rparr>) f"
    "112 + chain_length bs \<le> 2 ^ k" "48 + chain_length bs + length rest = 2 ^ k"
    "list_ex (\<lambda>b. k_type b = 1001) bs = list_ex (\<lambda>b. k_type b = 1001) (m_blkts m)" "chain_length bs = chain_length (add_1000 (m_blkts m))"
proof -
  have pk: "7 \<le> k" "k \<le> 15" "m_reclen m = 2 ^ k" "m_byteorder m = 0 \<or> m_byteorder m = 1" "MS_ISDATAINDICATOR (m_dataquality m)"
      "list_all (wf_blkt h) (m_blkts m)" "length (filter (\<lambda>b. k_type b = 1000) (m_blkts m)) \<le> 1"
      "112 + chain_length (add_1000 (m_blkts m)) \<le> 2 ^ k" "ms_genfactmult (m_samprate m) \<noteq> None" "time_ok (m_starttime m)"
    using assms(1) unfolding packable_def by blast+
  define f0 where "f0 = (case m_fsdh m of None \<Rightarrow> zero_fsdh | Some f \<Rightarrow> f)"
  have f0: "fsdh_ok f0" "f_time_correct f0 = 0"
    using assms(1) by (auto simp: f0_def packable_def zero_fsdh_def fsdh_ok_def split: option.splits)
  note ad = add_1000_ok [OF pk(6,7)]
  define m2 where "m2 = m\<lparr>m_blkts := add_1000 (m_blkts m), m_fsdh := Some f0\<rparr>"
  obtain r where r: "ms_genfactmult (m_samprate m) = Some r" using pk(9) by blast
  obtain toms usec where t: "ms_hptime2tomsusecoffset (m_starttime m) = (toms, usec)" by fastforce
  define f1 where "f1 = normalize_fsdh m2 toms (case r of Inl () \<Rightarrow> (0, 0) | Inr fm \<Rightarrow> fm) f0"
  have "list_all (wf_blkt h) (m_blkts m2)" "list_ex (\<lambda>b. k_type b = 1000) (m_blkts m2)" "length (filter (\<lambda>b. k_type b = 1000) (m_blkts m2)) \<le> 1"
      "m_reclen m2 = 2 ^ k" "m_byteorder m2 = 0 \<or> m_byteorder m2 = 1"
    using ad pk(3,4) by (simp_all add: m2_def)
  from normalize_blkts_ok [OF this(1-4) pk(1,2) this(5), of usec]
  obtain bs where bs: "normalize_blkts h m2 usec = Inr bs" "format_ok h s bs (of_int (m_encoding m)) (of_int (m_byteorder m)) (of_nat k)"
      "chain_length bs = chain_length (add_1000 (m_blkts m))" "length bs = length (add_1000 (m_blkts m))"
      "\<And>d. last_data 1001 bs = Some d \<Longrightarrow> d ! 1 = of_int usec"
      "list_ex (\<lambda>b. k_type b = 1001) bs = list_ex (\<lambda>b. k_type b = 1001) (m_blkts m)"
    using ad(4) by (auto simp: m2_def s)
  have mb: "(if m_fsdh (m\<lparr>m_blkts := add_1000 (m_blkts m)\<rparr>) = None then (m\<lparr>m_blkts := add_1000 (m_blkts m)\<rparr>)\<lparr>m_fsdh := Some zero_fsdh\<rparr>
      else m\<lparr>m_blkts := add_1000 (m_blkts m)\<rparr>) = m2"
    by (auto simp: m2_def f0_def)
  have nm: "msr_normalize_header h m2 = Some (Inr (m\<lparr>m_blkts := bs, m_fsdh := Some f1\<rparr>))"
    using assms(2) bs(1) by (simp add: msr_normalize_header_def Let_def t r m2_def seq_ok_def) (simp add: f1_def m2_def)
  have nf: "name_ok f1" "date_ok f1" "fsdh_btime f1 = ms_hptime2btime toms" "f_time_correct f1 = 0"
    using normalize_fsdh_ok [OF f0(1), of m2 toms usec f1] assms(2) pk(5,10) t ad(5) f0(2) by (simp_all add: m2_def seq_ok_def f1_def)
  have ok1: "fsdh_ok f1" using nf(1) by (simp add: name_ok_def)
  have wf: "list_all (wf_blkt h) bs" using bs(2) by (simp add: format_ok_def)
  have p: "(2 :: nat) ^ k \<le> 32768" using power_increasing [OF pk(2), of "2 :: nat"] by simp
  have l48: "length (put_fsdh h s f1) = 48" by (rule length_put_fsdh [OF ok1])
  define rest where "rest = drop (chain_length bs) (drop 48 mem)"
  have lr: "48 + chain_length bs + length rest = 2 ^ k" using assms(3) pk(8) bs(3) by (simp add: rest_def)
  have ch: "pack_blkts h s (- 1) (2 ^ k) bs (put_fsdh h s f1 @ drop 48 mem, 48, 0) =
      Some (put_fsdh h s f1 @ chain_bytes h s 48 bs @ rest, 48 + chain_length bs, 0 + length bs)" unfolding rest_def
    using pk(8) bs(3) p assms(3) l48 by (intro pack_blkts_chain [OF wf]) simp_all
  define f where "f = f1\<lparr>f_numblockettes := of_nat (length bs)\<rparr>"
  have "put_bytes 0 (put_fsdh h s f1) mem = put_fsdh h s f1 @ drop 48 mem" by (simp add: put_bytes_def l48)
  moreover have "48 \<le> (2 :: nat) ^ k" using pk(8) by linarith
  ultimately have "msr_pack_header_raw h s (- 1) f1 bs mem (2 ^ k) (2 ^ k) =
      Some (Inr (put_fsdh h s f @ chain_bytes h s 48 bs @ rest, 48 + chain_length bs))"
    using ch put_count [OF ok1, of h s _ "of_nat (length bs)"] by (simp add: msr_pack_header_raw_def f_def)
  then have "pack_header h s (- 1) (m\<lparr>m_blkts := add_1000 (m_blkts m)\<rparr>) mem =
      Some (Inr (m\<lparr>m_blkts := bs, m_fsdh := Some f1\<rparr>, put_fsdh h s f @ chain_bytes h s 48 bs @ rest, 48 + chain_length bs))"
    unfolding pack_header_def mb Let_def nm using pk(3) by (simp add: nat_power_eq)
  moreover have "header_at h s k (unat (f_data_offset f)) (m\<lparr>m_blkts := bs, m_fsdh := Some f1\<rparr>) f"
    using nf bs(2,5) t pk(10) by (simp add: header_at_def f_def name_ok_def date_ok_def fsdh_ok_def fsdh_btime_def time_ok_def)
  moreover have "112 + chain_length bs \<le> 2 ^ k" using pk(8) bs(3) by simp
  ultimately show ?thesis using that lr bs(3,6) by blast
qed


lemma defaults_seq: "seq_ok (pack_defaults m)"
  by (simp add: pack_defaults_def seq_ok_def)

lemma msr_pack_starts:
  assumes pk: "packable h k (pack_defaults m)" and "length mem = 2 ^ k"
    and s_def: "s = (bigendianhost h \<noteq> m_byteorder (pack_defaults m))"
  obtains off maxs m1 rc where
    "msr_pack h (- 1, - 1) mem flush m =
       pack_loop h s s off (2 ^ k - int off) maxs (blkt1001_at (2 ^ k) 48 (m_blkts m1)) flush (m_starttime m) m1 0 rc []"
    "packing h s k off (m_starttime m) m1 0 rc" "m_samples m1 = m_samples m" "m_samprate m1 = m_samprate m"
    "m_packedsamples m1 = m_packedsamples m" "m_packedrecords m1 = m_packedrecords m"
    "list_ex (\<lambda>b. k_type b = 1001) (m_blkts m1) = list_ex (\<lambda>b. k_type b = 1001) (m_blkts m)"
    "chain_length (m_blkts m1) = chain_length (add_1000 (m_blkts m))"
proof -
  let ?M = "pack_defaults m"
  have sw: "pack_swapflag h (- 1) (m_byteorder ?M) = s" by (auto simp: pack_swapflag_def s_def)
  obtain bs f1 f rest where hd: "pack_header h s (- 1) (?M\<lparr>m_blkts := add_1000 (m_blkts ?M)\<rparr>) mem =
       Some (Inr (?M\<lparr>m_blkts := bs, m_fsdh := Some f1\<rparr>, put_fsdh h s f @ chain_bytes h s 48 bs @ rest, 48 + chain_length bs))"
    "header_at h s k (unat (f_data_offset f)) (?M\<lparr>m_blkts := bs, m_fsdh := Some f1\<rparr>) f"
    "112 + chain_length bs \<le> 2 ^ k" "48 + chain_length bs + length rest = 2 ^ k"
    "list_ex (\<lambda>b. k_type b = 1001) bs = list_ex (\<lambda>b. k_type b = 1001) (m_blkts ?M)" "chain_length bs = chain_length (add_1000 (m_blkts ?M))"
    by (rule pack_header_ok [OF pk defaults_seq assms(2) s_def])
  have ks: "7 \<le> k" "k \<le> 15" "m_reclen ?M = 2 ^ k" "0 < nsamples (m_samples ?M)" "MS_ISDATAINDICATOR (m_dataquality ?M)"
      "can_pack (m_lastintsample ?M) (m_comphistory ?M) (m_encoding ?M) (m_samples ?M)"
    using pk unfolding packable_def by blast+
  have p: "(128 :: int) \<le> 2 ^ k" "(2 :: int) ^ k \<le> 1048576" "(2 :: nat) ^ k \<le> 32768"
    using power_increasing [OF ks(1), of "2 :: int"] power_increasing [of k 20 "2 :: int"] power_increasing [OF ks(2), of "2 :: nat"] ks(2) by simp_all
  define m1 where "m1 = ?M\<lparr>m_blkts := bs, m_fsdh := Some f1\<rparr>"
  define hl where "hl = 48 + chain_length bs"
  define off where "off = (if m_encoding m1 = 10 \<or> m_encoding m1 = 11 then steim_offset 64 hl else hl)"
  have "2 ^ k = (64 :: nat) * 2 ^ (k - 6)" using power_add [of "2 :: nat" 6 "k - 6"] ks(1) by simp
  then have "(2 ^ k :: nat) mod 64 = 0" by simp
  then have off: "hl \<le> off" "off + 64 \<le> 2 ^ k"
    using steim_offset_fits [of 64 "2 ^ k" hl] hd(3) p(1) by (auto simp: off_def hl_def nat_le_iff simp flip: of_nat_le_iff [where 'a = int])
  define f2 where "f2 = f\<lparr>f_data_offset := of_nat off, f_numsamples := 0\<rparr>"
  define rest2 where "rest2 = replicate (off - hl) 0 @ drop (off - hl) rest"
  define rc where "rc = put_fsdh h s f2 @ chain_bytes h s 48 bs @ rest2"
  have ok: "fsdh_ok f" "list_all (wf_blkt h) bs" using hd(2) by (simp_all add: header_at_def name_ok_def format_ok_def)
  have l: "length (put_fsdh h s f) = 48" "length (chain_bytes h s 48 bs) = chain_length bs"
    by (rule length_put_fsdh [OF ok(1)]) (rule length_chain_bytes [OF ok(2)])
  have z: "put_bytes hl (replicate (off - hl) 0) (put_fsdh h s f @ chain_bytes h s 48 bs @ rest) = put_fsdh h s f @ chain_bytes h s 48 bs @ rest2"
    using put_bytes_end [of "put_fsdh h s f @ chain_bytes h s 48 bs" hl "replicate (off - hl) 0" rest] l by (simp add: hl_def rest2_def)
  have ok': "fsdh_ok (f\<lparr>f_data_offset := of_nat off\<rparr>)" using ok(1) by (simp add: fsdh_ok_def)
  have rc: "put_bytes 30 [0, 0] (put_bytes 44 (store16 h (swap_if2 s (of_nat off)))
      (put_bytes hl (replicate (off - hl) 0) (put_fsdh h s f @ chain_bytes h s 48 bs @ rest))) = rc"
    unfolding z put_data_offset [OF ok(1)] rc_def f2_def using put_numsamples [OF ok', of h s 0] by (simp add: store16_0)
  have mp: "msr_pack h (- 1, - 1) mem flush m = pack_loop h s s off (2 ^ k - int off) (max_samples m1 (2 ^ k - int off))
      (blkt1001_at (2 ^ k) 48 (m_blkts m1)) flush (m_starttime m) m1 0 rc []"
    using ks(3-5) p(1,2) hd(1) sw
    by (simp add: msr_pack_def Let_def nat_power_eq rc flip: m1_def off_def hl_def) (simp add: m1_def ks(3) nat_power_eq)
  have "header_at h s k off m1 f2"
    using hd(2) off(2) p(3) u16_of_nat [of off]
    by (simp add: header_at_def m1_def f2_def name_ok_def date_ok_def fsdh_ok_def fsdh_btime_def)
  moreover have "length rc = 2 ^ k" unfolding rc_def
    using length_put_fsdh [of f2 h s] ok(1) l(2) hd(4) off by (simp add: f2_def fsdh_ok_def rest2_def hl_def)
  ultimately have "ready h s k off m1 rc" unfolding ready_def using ks(1,2) off rc_def by (auto simp: hl_def m1_def)
  then have "packing h s k off (m_starttime m) m1 0 rc"
    using ks(4,6) defaults_seq [of m] by (simp add: packing_def m1_def seq_ok_def record_time_def HPTMODULUS_def c_trunc_def) (simp add: pack_defaults_def)
  from that [OF mp this] show ?thesis using hd(5,6) by (simp add: m1_def pack_defaults_def)
qed


section \<open>Packing and unpacking a stream\<close>

text \<open>All that holds of the records sent, for the two properties below.\<close>

lemma msr_pack_all:
  assumes "packable h k (pack_defaults m)" and "length mem = 2 ^ k"
  obtains m' recs us ns where "msr_pack h (- 1, - 1) mem True m = Some (Inr (m', recs))"
    "list_all2 (sent_ok h k (chain_length (add_1000 (m_blkts m)))) recs us"
    "map u_samples us = map Some (split_samples ns (m_samples m))" "sum_list ns = nsamples (m_samples m)" "list_all ((<) 0) ns"
    "list_all2 (near (list_ex (\<lambda>b. k_type b = 1001) (m_blkts m))) (map u_starttime us) (record_times (m_samprate m) (m_starttime m) 0 ns)"
    "m_packedsamples m' = m_packedsamples m + int (sum_list ns)" "m_packedrecords m' = m_packedrecords m + int (length recs)"
proof -
  let ?s = "bigendianhost h \<noteq> m_byteorder (pack_defaults m)"
  obtain off maxs m1 rc where p: "msr_pack h (- 1, - 1) mem True m =
       pack_loop h ?s ?s off (2 ^ k - int off) maxs (blkt1001_at (2 ^ k) 48 (m_blkts m1)) True (m_starttime m) m1 0 rc []"
    "packing h ?s k off (m_starttime m) m1 0 rc" "m_samples m1 = m_samples m" "m_samprate m1 = m_samprate m"
    "m_packedsamples m1 = m_packedsamples m" "m_packedrecords m1 = m_packedrecords m"
    "list_ex (\<lambda>b. k_type b = 1001) (m_blkts m1) = list_ex (\<lambda>b. k_type b = 1001) (m_blkts m)"
    "chain_length (m_blkts m1) = chain_length (add_1000 (m_blkts m))"
    by (rule msr_pack_starts [OF assms refl]) blast
  have "time_ok (record_time (m_samprate m1) (m_starttime m) (m_starttime m) j)" if "j \<le> nsamples (m_samples m1)" for j
    using packable_times [OF assms(1), of j] that p(3,4) by (simp add: pack_defaults_def)
  from pack_loop_all [OF p(2) refl this, of maxs "[]", unfolded p(3-8) drop_0_samples add_0 append_Nil] show ?thesis
    using that p(1) by fastforce
qed

lemma split_samples_length [simp]: "length (split_samples ns src) = length ns"
  by (induction ns arbitrary: src) simp_all

lemma length_le_sum: "list_all ((<) 0) ns \<Longrightarrow> length ns \<le> sum_list ns"
  by (induction ns) auto

text \<open>
  C3: What \<^verbatim>\<open>msr_pack\<close> packs, \<^verbatim>\<open>msr_unpack\<close> gives back. For a record that can be packed into records of \<open>2 ^ k\<close> bytes, on
  every host, in either byte order, with every encoding, with or without a last sample of an earlier call and whatever
  the allocated memory holds, \<^verbatim>\<open>msr_pack\<close> with \<^verbatim>\<open>flush\<close> ends and sends records all of which \<^verbatim>\<open>msr_unpack\<close> reads; the samples of
  these records, one after the other, are the samples packed, none lost and none twice; and the start time of each record is that
  of its first sample, rounded to 100 microseconds, or exactly that time when there is a blockette 1001.
\<close>

theorem msr_pack_unpack:
  assumes "packable h k (pack_defaults m)" and "length mem = 2 ^ k"
  shows "\<exists>m' recs us ns. msr_pack h (- 1, - 1) mem True m = Some (Inr (m', recs)) \<and>
    list_all2 (\<lambda>rc u. msr_unpack h no_env rc (2 ^ k) True = Some (Inr u)) recs us \<and>
    map u_samples us = map Some (split_samples ns (m_samples m)) \<and> sum_list ns = nsamples (m_samples m) \<and>
    list_all2 (near (list_ex (\<lambda>b. k_type b = 1001) (m_blkts m))) (map u_starttime us) (record_times (m_samprate m) (m_starttime m) 0 ns)"
proof (rule msr_pack_all [OF assms], goal_cases)
  case (1 m' recs us ns)
  have "list_all2 (\<lambda>rc u. msr_unpack h no_env rc (2 ^ k) True = Some (Inr u)) recs us"
    using 1(2) by (rule list_all2_mono) (simp add: sent_ok_def)
  with 1 show ?case by blast
qed

text \<open>
  C5: Packing makes progress. With \<^verbatim>\<open>flush\<close>, the loop of \<^verbatim>\<open>msr_pack\<close> ends for everything that can be packed: all samples are
  counted as packed, and there are as many records as are counted, at least one and at most one for each sample.
\<close>

theorem msr_pack_ends:
  assumes "packable h k (pack_defaults m)" and "length mem = 2 ^ k"
  shows "\<exists>m' recs. msr_pack h (- 1, - 1) mem True m = Some (Inr (m', recs)) \<and>
    m_packedsamples m' = m_packedsamples m + int (nsamples (m_samples m)) \<and>
    m_packedrecords m' = m_packedrecords m + int (length recs) \<and> recs \<noteq> [] \<and> length recs \<le> nsamples (m_samples m)"
proof -
  obtain m' recs us ns where r: "msr_pack h (- 1, - 1) mem True m = Some (Inr (m', recs))"
      "list_all2 (sent_ok h k (chain_length (add_1000 (m_blkts m)))) recs us"
      "map u_samples us = map Some (split_samples ns (m_samples m))" "sum_list ns = nsamples (m_samples m)" "list_all ((<) 0) ns"
      "m_packedsamples m' = m_packedsamples m + int (sum_list ns)" "m_packedrecords m' = m_packedrecords m + int (length recs)"
    by (rule msr_pack_all [OF assms]) blast
  have "length recs = length ns" using list_all2_lengthD [OF r(2)] arg_cong [OF r(3), of length] by simp
  moreover have "0 < nsamples (m_samples m)" using assms(1) by (simp add: packable_def pack_defaults_def)
  ultimately show ?thesis using r length_le_sum [OF r(5)] by (intro exI [of _ m'] exI [of _ recs]) auto
qed


text \<open>Three samples at 100 per second, as integers in a big-endian record of 128 bytes.\<close>

definition three_samples :: pmsr where
  "three_samples = \<lparr>m_sequence_number = 1, m_dataquality = 68, m_network = [88, 88], m_station = [65], m_location = [], m_channel = [66, 72, 90],
     m_fsdh = None, m_blkts = [], m_starttime = 0, m_samprate = 100, m_reclen = 128, m_byteorder = 1, m_encoding = 3,
     m_samples = Ints [1, 2, 3], m_lastintsample = 0, m_comphistory = False, m_packedsamples = 0, m_packedrecords = 0\<rparr>"

lemma three_samples_packable: "packable LittleHost 7 (pack_defaults three_samples)"
proof -
  have d: "pack_defaults three_samples = three_samples" by (simp add: pack_defaults_def three_samples_def)
  have "ms_reduce_rate 100 = Some (Inr (100, 1))" using reduce_small [of 100] by simp
  then have "ms_genfactmult 100 \<noteq> None" by (simp add: ms_genfactmult_def)
  moreover have "c_trunc (60001 / 2) = 30000" by (simp add: c_trunc_def)
  then have "record_time 100 0 0 3 = 30000" by (simp add: record_time_def HPTMODULUS_def)
  moreover have "chain_length (add_1000 []) = 8" by (simp add: add_1000_def blank_1000_def chain_length_def)
  ultimately show ?thesis unfolding d
    by (simp add: packable_def three_samples_def MS_ISDATAINDICATOR_def can_pack_def time_ok_def numeral_3_eq_3)
qed

theorem msr_pack_unpack_witness:
  "\<exists>m' recs us ns. msr_pack LittleHost (- 1, - 1) (replicate 128 0) True three_samples = Some (Inr (m', recs)) \<and>
    list_all2 (\<lambda>rc u. msr_unpack LittleHost no_env rc 128 True = Some (Inr u)) recs us \<and>
    map u_samples us = map Some (split_samples ns (Ints [1, 2, 3])) \<and> sum_list ns = 3"
proof -
  have "length (replicate 128 (0 :: byte)) = 2 ^ 7" by simp
  from msr_pack_unpack [OF three_samples_packable this] show ?thesis by (fastforce simp: three_samples_def numeral_3_eq_3)
qed

theorem msr_pack_ends_witness:
  "\<exists>m' recs. msr_pack LittleHost (- 1, - 1) (replicate 128 0) True three_samples = Some (Inr (m', recs)) \<and>
    m_packedsamples m' = 3 \<and> recs \<noteq> [] \<and> length recs \<le> 3"
proof -
  have "length (replicate 128 (0 :: byte)) = 2 ^ 7" by simp
  from msr_pack_ends [OF three_samples_packable this] show ?thesis by (auto simp: three_samples_def)
qed

section \<open>A record too small for a sample\<close>

text \<open>Samples of a fixed size, of which not one fits into the data section.\<close>

definition no_room :: "pmsr \<Rightarrow> int \<Rightarrow> bool" where
  "no_room m maxdatabytes \<longleftrightarrow>
     (case m_samples m of
        Text bs \<Rightarrow> False
      | Ints xs \<Rightarrow> xs \<noteq> [] \<and> (m_encoding m = 1 \<and> maxdatabytes < 2 \<or> m_encoding m = 3 \<and> maxdatabytes < 4)
      | Floats xs \<Rightarrow> xs \<noteq> [] \<and> m_encoding m = 4 \<and> maxdatabytes < 4
      | Doubles xs \<Rightarrow> xs \<noteq> [] \<and> m_encoding m = 5 \<and> maxdatabytes < 8) \<and> 0 < maxdatabytes"

lemma encode_fixed_none:
  "xs \<noteq> [] \<Longrightarrow> 0 < len \<Longrightarrow> len < k \<Longrightarrow> encode_fixed store k xs dest len = Inr (0, replicate (nat len) 0)"
  by (cases xs) (simp_all add: encode_fixed_def)

lemma no_room_packs_none:
  assumes "no_room m len"
  shows "\<exists>bs. msr_pack_data h dest (m_samples m) len lastint ch (m_encoding m) s = Some (Inr (0, bs, lastint))"
  using assms
  by (cases "m_samples m")
    (auto simp: no_room_def msr_pack_data_def msr_encode_int16_def msr_encode_int32_def msr_encode_float32_def msr_encode_float64_def
      encode_fixed_none)

lemma update_header_keeps:
  "m_samples (fst (msr_update_header h s p m rc)) = m_samples m" "m_encoding (fst (msr_update_header h s p m rc)) = m_encoding m"
  by (auto simp: msr_update_header_def Let_def split: prod.splits option.splits)

lemma no_room_round:
  assumes "no_room m len"
  obtains out m' rc' where "pack_record h hs ds off len p seg m 0 rc = Some (Inr (0, out, m', rc'))" "no_room m' len" "0 < nsamples (m_samples m)"
proof -
  obtain bs where d: "msr_pack_data h (drop off rc) (m_samples m) len (m_lastintsample m) (m_comphistory m) (m_encoding m) ds =
      Some (Inr (0, bs, m_lastintsample m))"
    using no_room_packs_none [OF assms] by blast
  define m1 where "m1 = m\<lparr>m_comphistory := True, m_packedrecords := m_packedrecords m + 1,
      m_sequence_number := (if 999999 \<le> m_sequence_number m then 1 else m_sequence_number m + 1),
      m_starttime := record_time (m_samprate m) seg (m_starttime m) 0\<rparr>"
  define out where "out = put_bytes 30 (store16 h (swap_if2 hs 0)) (put_bytes off bs rc)"
  obtain m' rc' where up: "msr_update_header h hs p m1 out = (m', rc')" by fastforce
  have "m_samples m' = m_samples m" "m_encoding m' = m_encoding m"
    using update_header_keeps [of h hs p m1 out] by (simp_all add: up) (simp_all add: m1_def)
  then have "no_room m' len" using assms by (auto simp: no_room_def split: samples.splits)
  moreover have "pack_record h hs ds off len p seg m 0 rc = Some (Inr (0, out, m', rc'))"
    using d up by (simp add: pack_record_def Let_def out_def m1_def)
  moreover have "0 < nsamples (m_samples m)" using assms by (auto simp: no_room_def split: samples.splits)
  ultimately show ?thesis using that by blast
qed

lemma no_room_stuck:
  assumes "pack_loop h hs ds off len maxs p flush seg m got rc sent = Some y"
  shows "\<not> (no_room m len \<and> got = 0 \<and> flush)"
proof (rule pack_loop.raw_induct [where P = "\<lambda>h hs ds off len maxs p flush seg m got rc sent y. \<not> (no_room m len \<and> got = 0 \<and> flush)",
      OF _ assms], intro notI, elim conjE, goal_cases)
  case (1 loop h hs ds off len maxs p flush seg m got rc sent y)
  obtain out m' rc' where r: "pack_record h hs ds off len p seg m 0 rc = Some (Inr (0, out, m', rc'))" "no_room m' len"
      "0 < nsamples (m_samples m)"
    using no_room_round [OF 1(3), of h hs ds off p seg rc] by blast
  then have "loop h hs ds off len maxs p flush seg m' 0 rc' (sent @ [out]) = Some y" using 1(2,4,5) by simp
  then show False using 1(1) r(2) 1(5) by blast
qed

text \<open>
  C39: A record too small for a sample is packed for ever. When samples of a fixed size are packed with \<^verbatim>\<open>flush\<close> and what the
  header leaves of the record is smaller than one sample, the loop of \<^verbatim>\<open>msr_pack\<close> does not end: every round
  sends a record without samples to the handler and none of the samples is ever packed.
\<close>

theorem msr_pack_forever:
  assumes "no_room m maxdatabytes"
  shows "pack_loop h hswap dswap dataoffset maxdatabytes maxsamples blkt1001 True segstarttime m 0 rawrec sent = None"
proof (cases "pack_loop h hswap dswap dataoffset maxdatabytes maxsamples blkt1001 True segstarttime m 0 rawrec sent")
  case (Some y)
  from no_room_stuck [OF this] assms show ?thesis by simp
qed simp

theorem msr_pack_forever_witness:
  "pack_loop LittleHost True True 125 3 0 None True 0 three_samples 0 (replicate 128 0) [] = None"
  using msr_pack_forever [of three_samples 3 LittleHost True True 125 0 None 0 "replicate 128 0" "[]"]
  by (simp add: no_room_def three_samples_def)

end
