(* ===== verification/MsFile.thy ===== *)
theory MsFile
  imports MsStream
begin

text \<open>
  Reading a file of records: \<^verbatim>\<open>ms_readmsr_main\<close> of \<^verbatim>\<open>contrib/libmseed/fileutils.c\<close> with its buffer of 1 MiB. A call returns the
  next record, and moves and refills the buffer as needed; what is not a record is skipped, and the sections of packed files are
  found by their headers. The properties are that the records of a file are returned one after the other, wherever they lie in the
  buffer, and that what \<^verbatim>\<open>msr_pack\<close> has written to a file is read back from it.

  The argument \<^verbatim>\<open>selections\<close> is null, as all callers have it. The file is not the standard input, there are no input errors and
  memory is sufficient. \<^verbatim>\<open>None\<close> is undefined behaviour, or a call that does not return.
\<close>

section \<open>The state of reading\<close>

text \<open>
  \<^verbatim>\<open>MSFileParam\<close>. An open file is the position in it with the end-of-file indicator. The list \<open>rawrec\<close> holds the bytes of the buffer that
  were read, so that its length is \<^verbatim>\<open>readlen\<close>.
\<close>

record msfp =
  fp :: "(nat \<times> bool) option"
  fp_name :: cstr
  rawrec :: "byte list"
  readoffset :: int
  packtype :: int
  packhdroffset :: int
  filepos :: int
  filesize :: int
  recordcount :: int

definition init_msfp :: msfp where
  "init_msfp = \<lparr>fp = None, fp_name = [], rawrec = [], readoffset = 0, packtype = 0, packhdroffset = 0, filepos = 0, filesize = 0,
     recordcount = 0\<rparr>"

definition readlen :: "msfp \<Rightarrow> int" where
  "readlen m = int (length (rawrec m))"

definition MSFPBUFLEN :: "msfp \<Rightarrow> int" where
  "MSFPBUFLEN m = readlen m - readoffset m"

text \<open>The bytes from \<^verbatim>\<open>MSFPREADPTR\<close> on.\<close>

definition MSFPREADPTR :: "msfp \<Rightarrow> byte list option" where
  "MSFPREADPTR m = (if readoffset m < 0 then None else Some (drop (nat (readoffset m)) (rawrec m)))"

definition feof :: "msfp \<Rightarrow> bool" where
  "feof m = (case fp m of None \<Rightarrow> False | Some (pos, e) \<Rightarrow> e)"

definition ms_shift_msfp :: "int \<Rightarrow> msfp \<Rightarrow> msfp" where
  "ms_shift_msfp shift m =
     (if shift \<le> 0 \<and> readlen m < shift then m
      else (let m1 = m\<lparr>rawrec := drop (nat shift) (rawrec m)\<rparr>
            in if shift < readoffset m then m1\<lparr>readoffset := readoffset m - shift\<rparr>
               else m1\<lparr>filepos := filepos m + (shift - readoffset m), readoffset := 0\<rparr>))"

definition ms_fread :: "byte list \<Rightarrow> nat \<Rightarrow> msfp \<Rightarrow> msfp" where
  "ms_fread contents n m =
     (case fp m of
        None \<Rightarrow> m
      | Some (pos, e) \<Rightarrow>
          (let bs = take n (drop pos contents)
           in m\<lparr>fp := Some (pos + length bs, e \<or> length bs < n), rawrec := rawrec m @ bs\<rparr>))"

section \<open>A round of the loop\<close>

text \<open>More data are read into the buffer.\<close>

definition refill_buffer :: "byte list \<Rightarrow> int \<Rightarrow> msfp \<Rightarrow> msfp" where
  "refill_buffer contents parseval m =
     (if \<not> feof m \<and> (MSFPBUFLEN m < 128 \<or> 0 < parseval)
      then (let m = (if MSFPBUFLEN m \<le> 0 then m\<lparr>rawrec := [], readoffset := 0\<rparr>
                     else if 0 < readoffset m then ms_shift_msfp (readoffset m) m else m);
                m = ms_fread contents (nat (1048576 - readlen m)) m
            in m\<lparr>filepos := (case fp m of None \<Rightarrow> filepos m | Some (pos, e) \<Rightarrow> int pos - readlen m)\<rparr>)
      else m)"

text \<open>The signature of a packed file, and the headers of its sections.\<close>

definition packtypes :: "(int \<times> int \<times> int) list" where
  "packtypes = [(0, 0, 0), (8, 8, 8), (11, 8, 8), (11, 8, 8), (11, 8, 8), (11, 8, 8), (13, 8, 8), (15, 8, 8), (22, 15, 10)]"

definition pack_signature :: "byte list \<Rightarrow> int" where
  "pack_signature bs =
     (let s = take 3 bs
      in if s = lit ''PED'' then - 1 else if s = lit ''PSD'' then - 2 else if s = lit ''PLC'' then - 6
         else if s = lit ''PQI'' then - 7 else if s = lit ''PLS'' then - 8 else 0)"

definition test_signature :: "msfp \<Rightarrow> msfp option" where
  "test_signature m =
     (if filepos m = 0 \<and> 48 \<le> MSFPBUFLEN m
      then map_option (\<lambda>bs. if hd bs = 80 then m\<lparr>packtype := pack_signature bs\<rparr> else m) (MSFPREADPTR m)
      else Some m)"

text \<open>\<^verbatim>\<open>sscanf(hdrstr, " %lld", &datasize)\<close>; without a number the variable is not set.\<close>

definition scan_size :: "cstr \<Rightarrow> int option" where
  "scan_size s =
     (let (sg, r) = c_sign (dropWhile isspace s); ds = takeWhile isdigit r
      in if ds = [] then None else Some (max (- LONG_MAX - 1) (min LONG_MAX (sg * dec_value ds))))"

definition read_pack_header :: "msfp \<Rightarrow> msfp option" where
  "read_pack_header m =
     (if packtype m \<noteq> 0 \<and> (packtype m < 0 \<or> filepos m = packhdroffset m) \<and> 48 \<le> MSFPBUFLEN m
      then (let t = \<bar>packtype m\<bar>; (hdrlen, sizelen, chksumlen) = packtypes ! nat t;
                packskipsize = (if packtype m < 0 then 10 else chksumlen)
            in Option.bind (MSFPREADPTR m) (\<lambda>bs.
               Option.bind (scan_size (take (nat sizelen) (drop (nat (hdrlen + packskipsize - sizelen)) bs))) (\<lambda>datasize.
                 Some (ms_shift_msfp (readoffset m + (packskipsize + hdrlen))
                   (m\<lparr>packtype := t, packhdroffset := filepos m + packskipsize + hdrlen + datasize\<rparr>)))))
      else Some m)"

text \<open>
  What a round ends with: the record with its position and whether it is the last, a code that is returned, or another round with
  \<^verbatim>\<open>reclen\<close> and \<^verbatim>\<open>parseval\<close> as they are then.
\<close>

datatype round = Got unpacked int bool msfp | Stop int msfp | Again int int msfp

definition skip_128 :: "msfp \<Rightarrow> msfp" where
  "skip_128 m = m\<lparr>readoffset := readoffset m + 128, filepos := filepos m + 128\<rparr>"

definition valid_length :: "int \<Rightarrow> bool" where
  "valid_length n \<longleftrightarrow> 128 \<le> n \<and> n \<le> 1048576 \<and> n AND (n - 1) = 0"

text \<open>The end of a round: within 128 bytes of the end of the file, with less than that in the buffer.\<close>

definition round_end :: "int \<Rightarrow> int \<Rightarrow> msfp \<Rightarrow> round" where
  "round_end rl parseval m =
     (if filesize m - filepos m < 128 \<and> MSFPBUFLEN m < 128
      then Stop (if recordcount m = 0 \<and> packtype m = 0 then mscode MS_NOTSEED else mscode MS_ENDOFFILE) m
      else Again rl parseval m)"

definition got_record :: "unpacked \<Rightarrow> msfp \<Rightarrow> round" where
  "got_record u m =
     (let n = r_reclen (u_msr u)
      in Got u (filepos m) (filesize m \<noteq> 0 \<and> filesize m - (filepos m + n) < 128)
           (m\<lparr>readoffset := readoffset m + n, filepos := filepos m + n, recordcount := recordcount m + 1\<rparr>))"

text \<open>A record was found, but \<open>parseval\<close> bytes of it are missing.\<close>

definition more_needed :: "bool \<Rightarrow> int \<Rightarrow> int \<Rightarrow> msfp \<Rightarrow> round" where
  "more_needed skipnotdata rl parseval m =
     (let in_pack = (packhdroffset m \<noteq> 0 \<and> packhdroffset m < filepos m + MSFPBUFLEN m)
      in if 1048576 < MSFPBUFLEN m + parseval
         then (if skipnotdata then round_end rl parseval (skip_128 m) else Stop (mscode MS_OUTOFRANGE) m)
         else if rl \<le> 0 \<and> in_pack
         then (let n = to_int32 (packhdroffset m - filepos m)
               in if valid_length n then round_end n parseval m else Stop (mscode MS_NOTSEED) m)
         else if rl \<le> 0 \<and> feof m
         then (let n = to_int32 (filesize m - filepos m)
               in if valid_length n then round_end n parseval m else Stop (mscode MS_ENDOFFILE) m)
         else round_end rl parseval m)"

definition parse_record :: "host \<Rightarrow> unpackenv \<Rightarrow> bool \<Rightarrow> bool \<Rightarrow> int \<Rightarrow> msfp \<Rightarrow> round option" where
  "parse_record h env skipnotdata dataflag rl m =
     (let parselen = (if packhdroffset m \<noteq> 0 \<and> packhdroffset m < filepos m + MSFPBUFLEN m
                      then to_int32 (packhdroffset m - filepos m) else MSFPBUFLEN m)
      in Option.bind (MSFPREADPTR m) (\<lambda>bs. Option.bind (msr_parse h env (take (nat parselen) bs) rl dataflag) (\<lambda>p.
           Some (case p of
                   Inr u \<Rightarrow> got_record u m
                 | Inl parseval \<Rightarrow>
                     if parseval < 0
                     then (if skipnotdata then round_end rl parseval (skip_128 m) else Stop parseval m)
                     else more_needed skipnotdata rl parseval m))))"

definition read_round :: "host \<Rightarrow> unpackenv \<Rightarrow> bool \<Rightarrow> bool \<Rightarrow> byte list \<Rightarrow> int \<Rightarrow> int \<Rightarrow> msfp \<Rightarrow> round option" where
  "read_round h env skipnotdata dataflag contents rl parseval m =
     Option.bind (test_signature (refill_buffer contents parseval m)) (\<lambda>m.
     Option.bind (read_pack_header m) (\<lambda>m.
       if 128 \<le> MSFPBUFLEN m then parse_record h env skipnotdata dataflag rl m else Some (round_end rl parseval m)))"

partial_function (option) read_loop ::
  "host \<Rightarrow> unpackenv \<Rightarrow> bool \<Rightarrow> bool \<Rightarrow> byte list \<Rightarrow> int \<Rightarrow> int \<Rightarrow> msfp \<Rightarrow> ((int + unpacked \<times> int \<times> bool) \<times> msfp) option" where
  "read_loop h env skipnotdata dataflag contents rl parseval m =
     (case read_round h env skipnotdata dataflag contents rl parseval m of
        None \<Rightarrow> None
      | Some (Got u pos lst m) \<Rightarrow> Some (Inr (u, pos, lst), m)
      | Some (Stop code m) \<Rightarrow> Some (Inl code, m)
      | Some (Again rl parseval m) \<Rightarrow> read_loop h env skipnotdata dataflag contents rl parseval m)"

section \<open>A call\<close>

text \<open>The file is opened at the first call, and again when the name is not the one stored, of which 511 bytes are kept.\<close>

definition open_file :: "(cstr \<Rightarrow> byte list option) \<Rightarrow> cstr \<Rightarrow> msfp \<Rightarrow> msfp" where
  "open_file fs fn m =
     (let m = (if fp m \<noteq> None \<and> take 512 fn \<noteq> fp_name m then init_msfp\<lparr>fp_name := fp_name m\<rparr> else m)
      in if fp m \<noteq> None then m
         else (case fs fn of
                 None \<Rightarrow> m\<lparr>fp_name := take 511 fn\<rparr>
               | Some contents \<Rightarrow> m\<lparr>fp_name := take 511 fn, fp := Some (0, False), filesize := int (length contents)\<rparr>))"

definition seek_file :: "int \<Rightarrow> msfp \<Rightarrow> msfp" where
  "seek_file fpos m =
     (if fpos < 0 then m\<lparr>fp := Some (nat (- fpos), False), filepos := - fpos, rawrec := [], readoffset := 0\<rparr> else m)"

text \<open>Without a file name the state is reset; \<open>Inl 0\<close> is the code returned.\<close>

definition ms_readmsr_main ::
  "host \<Rightarrow> unpackenv \<Rightarrow> (cstr \<Rightarrow> byte list option) \<Rightarrow> msfp \<Rightarrow> cstr option \<Rightarrow> int \<Rightarrow> int \<Rightarrow> bool \<Rightarrow> bool \<Rightarrow>
   ((int + unpacked \<times> int \<times> bool) \<times> msfp) option" where
  "ms_readmsr_main h env fs m msfile rl fpos skipnotdata dataflag =
     (case msfile of
        None \<Rightarrow> Some (Inl (mscode MS_NOERROR), init_msfp)
      | Some fn \<Rightarrow>
          (let m = open_file fs fn m
           in case fs fn of
                None \<Rightarrow> Some (Inl (mscode MS_GENERROR), m)
              | Some contents \<Rightarrow> read_loop h env skipnotdata dataflag contents rl 0 (seek_file fpos m)))"

text \<open>The loop of the callers, which read records until a call returns another code than \<^verbatim>\<open>MS_NOERROR\<close>.\<close>

partial_function (option) read_records ::
  "host \<Rightarrow> unpackenv \<Rightarrow> (cstr \<Rightarrow> byte list option) \<Rightarrow> cstr \<Rightarrow> bool \<Rightarrow> msfp \<Rightarrow> (unpacked list \<times> int) option" where
  "read_records h env fs fn dataflag m =
     (case ms_readmsr_main h env fs m (Some fn) 0 0 True dataflag of
        None \<Rightarrow> None
      | Some (Inl code, m) \<Rightarrow> Some ([], code)
      | Some (Inr (u, pos, lst), m) \<Rightarrow>
          Option.bind (read_records h env fs fn dataflag m) (\<lambda>(us, code). Some (u # us, code)))"


section \<open>Writing a file\<close>

text \<open>
  \<^verbatim>\<open>msr_writemseed\<close>: the number of records or -1, and the files afterwards; the handler appends every record to the file, which can be opened.
\<close>

definition msr_writemseed ::
  "host \<Rightarrow> int \<times> int \<Rightarrow> byte list \<Rightarrow> (cstr \<Rightarrow> byte list option) \<Rightarrow> pmsr \<Rightarrow> cstr \<Rightarrow> bool \<Rightarrow> int \<Rightarrow> int \<Rightarrow> int \<Rightarrow>
   (int \<times> (cstr \<Rightarrow> byte list option)) option" where
  "msr_writemseed h env mem fs m fn overwrite rl encoding byteorder =
     (let old = (if overwrite then [] else case fs fn of None \<Rightarrow> [] | Some bs \<Rightarrow> bs)
      in if nsamples (m_samples m) = 0 then Some (0, fs(fn \<mapsto> old))
         else map_option (\<lambda>r. case r of
                  Inl recs \<Rightarrow> (- 1, fs(fn \<mapsto> old @ concat recs))
                | Inr (m, recs) \<Rightarrow> (int (length recs), fs(fn \<mapsto> old @ concat recs)))
                (msr_pack h env mem True (m\<lparr>m_encoding := encoding, m_reclen := rl, m_byteorder := byteorder\<rparr>)))"

section \<open>The buffer is a window of the file\<close>

definition window :: "msfp \<Rightarrow> byte list" where
  "window m = drop (nat (readoffset m)) (rawrec m)"

text \<open>The state between two records of a file that is not packed: the buffer holds what follows the position \<open>p\<close>.\<close>

definition at_pos :: "byte list \<Rightarrow> nat \<Rightarrow> msfp \<Rightarrow> bool" where
  "at_pos contents p m \<longleftrightarrow>
     packtype m = 0 \<and> packhdroffset m = 0 \<and> filesize m = int (length contents) \<and> filepos m = int p \<and>
     0 \<le> readoffset m \<and> readoffset m \<le> readlen m \<and> readlen m \<le> 1048576 \<and>
     take (length (window m)) (drop p contents) = window m \<and> p + length (window m) \<le> length contents \<and>
     (\<exists>e. fp m = Some (p + length (window m), e) \<and> (e \<longrightarrow> p + length (window m) = length contents))"

lemma at_posD:
  assumes "at_pos contents p m"
  shows "packtype m = 0" "packhdroffset m = 0" "filesize m = int (length contents)" "filepos m = int p" "0 \<le> readoffset m"
    "take (length (window m)) (drop p contents) = window m" "p + length (window m) \<le> length contents" "fp m \<noteq> None"
  using assms unfolding at_pos_def by blast+

lemma at_pos_buflen: "at_pos contents p m \<Longrightarrow> MSFPBUFLEN m = int (length (window m))"
  unfolding at_pos_def MSFPBUFLEN_def window_def readlen_def length_drop by linarith

lemma at_pos_ptr: "at_pos contents p m \<Longrightarrow> MSFPREADPTR m = Some (window m)"
  by (simp add: at_pos_def MSFPREADPTR_def window_def)

lemma at_pos_feof: "at_pos contents p m \<Longrightarrow> feof m \<Longrightarrow> window m = drop p contents"
  by (auto simp: at_pos_def feof_def)

text \<open>Before more is read, what is left in the buffer is moved to its beginning.\<close>

lemma shifted:
  assumes "at_pos contents p m"
  defines "m1 \<equiv> (if MSFPBUFLEN m \<le> 0 then m\<lparr>rawrec := [], readoffset := 0\<rparr>
      else if 0 < readoffset m then ms_shift_msfp (readoffset m) m else m)"
  shows "m1 = m\<lparr>rawrec := window m, readoffset := 0\<rparr>"
  using assms(1) at_pos_buflen [OF assms(1)]
  by (auto simp: m1_def ms_shift_msfp_def at_pos_def window_def readlen_def)

lemma refill_window:
  assumes "at_pos contents p m" and "\<not> feof m" and "MSFPBUFLEN m < 128 \<or> 0 < parseval"
  defines "m' \<equiv> refill_buffer contents parseval m"
  shows "at_pos contents p m'" and "window m' = take 1048576 (drop p contents)" and "recordcount m' = recordcount m" and "fp_name m' = fp_name m"
proof -
  note b = at_pos_buflen [OF assms(1)]
  have l: "length (window m) \<le> 1048576" using assms(1) b by (simp add: at_pos_def MSFPBUFLEN_def)
  have w: "take (length (window m)) (drop p contents) = window m" "p + length (window m) \<le> length contents" "p \<le> length contents"
    using assms(1) by (simp_all add: at_pos_def)
  obtain e where e: "fp m = Some (p + length (window m), e)" using assms(1) by (auto simp: at_pos_def)
  then have e': "\<not> e" using assms(2) by (simp add: feof_def)
  define bs where "bs = take (1048576 - length (window m)) (drop (p + length (window m)) contents)"
  have wb: "window m @ bs = take 1048576 (drop p contents)"
    using take_add [of "length (window m)" "1048576 - length (window m)" "drop p contents"] w(1) l by (simp add: bs_def add.commute)
  have n: "nat (1048576 - int (length (window m))) = 1048576 - length (window m)" by simp
  have fr: "ms_fread contents (1048576 - length (window m)) (m\<lparr>rawrec := window m, readoffset := 0\<rparr>) =
      m\<lparr>rawrec := window m @ bs, readoffset := 0, fp := Some (p + length (window m @ bs), length bs < 1048576 - length (window m))\<rparr>"
    using e e' by (simp add: ms_fread_def Let_def bs_def add.assoc)
  have m': "m' = m\<lparr>rawrec := window m @ bs, readoffset := 0, filepos := int p,
      fp := Some (p + length (window m @ bs), length bs < 1048576 - length (window m))\<rparr>"
    unfolding m'_def refill_buffer_def Let_def shifted [OF assms(1)] using assms(2,3)
    by (simp add: readlen_def n fr)
  have lb: "p + length (window m @ bs) \<le> length contents" unfolding wb using w(3) by simp
  have eof: "length contents = p + length (window m @ bs)" if "length bs < 1048576 - length (window m)"
    using that w(2) by (simp add: bs_def)
  have wm: "window m' = window m @ bs" by (simp add: m' window_def)
  then show "window m' = take 1048576 (drop p contents)" by (simp only: wb)
  define W where "W = window m @ bs"
  have W: "length W \<le> 1048576" "take (length W) (drop p contents) = W"
    unfolding W_def wb by (simp_all add: min_def)
  have W': "p + length W \<le> length contents" "length bs < 1048576 - length (window m) \<Longrightarrow> p + length W = length contents"
    unfolding W_def using lb eof by simp_all
  have "packtype m' = packtype m" "packhdroffset m' = packhdroffset m" "filesize m' = filesize m" "filepos m' = int p" "readoffset m' = 0"
      "window m' = W" "rawrec m' = W" "fp m' = Some (p + length W, length bs < 1048576 - length (window m))"
    using wm by (simp_all add: m' W_def)
  then show "at_pos contents p m'" using assms(1) W W' unfolding at_pos_def readlen_def by simp
  show "recordcount m' = recordcount m" "fp_name m' = fp_name m" by (simp_all add: m')
qed

lemma refill_at:
  assumes "at_pos contents p m" and m': "m' = refill_buffer contents parseval m"
  shows "at_pos contents p m'" and "recordcount m' = recordcount m" and "fp_name m' = fp_name m"
    and "window m' = drop p contents \<or> 128 \<le> length (window m')"
    and "0 < parseval \<Longrightarrow> window m' = drop p contents \<or> length (window m') = 1048576"
proof -
  have "at_pos contents p m' \<and> recordcount m' = recordcount m \<and> fp_name m' = fp_name m \<and>
    (window m' = drop p contents \<or> 128 \<le> length (window m')) \<and>
    (0 < parseval \<longrightarrow> window m' = drop p contents \<or> length (window m') = 1048576)"
  proof (cases "\<not> feof m \<and> (MSFPBUFLEN m < 128 \<or> 0 < parseval)")
    case True
    then show ?thesis using refill_window [OF assms(1), of parseval] unfolding m' by auto
  next
    case False
    then have "m' = m" unfolding m' refill_buffer_def by (rule if_not_P)
    then show ?thesis using False assms(1) at_pos_buflen [OF assms(1)] at_pos_feof [OF assms(1)] by auto
  qed
  then show "at_pos contents p m'" "recordcount m' = recordcount m" "fp_name m' = fp_name m"
    "window m' = drop p contents \<or> 128 \<le> length (window m')"
    "0 < parseval \<Longrightarrow> window m' = drop p contents \<or> length (window m') = 1048576" by blast+
qed

section \<open>One record after the other\<close>

text \<open>
  A record that is found by its own bytes: it is read the same whatever follows, and a part of it that has 128 bytes tells how many are
  missing.
\<close>

definition record_ok :: "host \<Rightarrow> unpackenv \<Rightarrow> bool \<Rightarrow> byte list \<Rightarrow> unpacked \<Rightarrow> bool" where
  "record_ok h env dataflag r u \<longleftrightarrow>
     128 \<le> length r \<and> length r \<le> 1048576 \<and> hd r \<noteq> 80 \<and> r_reclen (u_msr u) = int (length r) \<and>
     (\<forall>rest. msr_parse h env (r @ rest) 0 dataflag = Some (Inr u)) \<and>
     (\<forall>n. 128 \<le> n \<and> n < length r \<longrightarrow> msr_parse h env (take n r) 0 dataflag = Some (Inl (int (length r - n))))"

lemma round_start:
  assumes "at_pos contents p m" and "p = 0 \<longrightarrow> length (window m) < 48 \<or> hd (window m) \<noteq> 80"
  shows "test_signature m = Some m" and "read_pack_header m = Some m"
  using assms(2) at_posD(1,4) [OF assms(1)] at_pos_ptr [OF assms(1)] at_pos_buflen [OF assms(1)]
  by (auto simp: test_signature_def read_pack_header_def)

lemma got_next:
  assumes "at_pos contents p m" and "n \<le> length (window m)" and "r_reclen (u_msr u) = int n"
  obtains lst m' where "got_record u m = Got u (int p) lst m'" "at_pos contents (p + n) m'" "recordcount m' = recordcount m + 1"
    "fp_name m' = fp_name m"
proof -
  define m' where "m' = m\<lparr>readoffset := readoffset m + int n, filepos := filepos m + int n, recordcount := recordcount m + 1\<rparr>"
  have "nat (readoffset m + int n) = nat (readoffset m) + n" using assms(1) by (simp add: at_pos_def nat_add_distrib)
  then have w: "window m' = drop n (window m)" by (simp add: window_def m'_def add.commute)
  then have t: "take (length (window m')) (drop (p + n) contents) = window m'"
    using at_posD(6) [OF assms(1)] drop_take [of n "length (window m)" "drop p contents"] by (simp add: add.commute min_def)
  have l: "p + n + length (window m') = p + length (window m)" using w assms(2) by simp
  have "readoffset m + int n \<le> readlen m" using at_pos_buflen [OF assms(1)] assms(2) by (simp add: MSFPBUFLEN_def)
  moreover have "packtype m' = packtype m" "packhdroffset m' = packhdroffset m" "filesize m' = filesize m" "filepos m' = filepos m + int n"
      "readoffset m' = readoffset m + int n" "readlen m' = readlen m" "fp m' = fp m"
    by (simp_all add: m'_def readlen_def)
  ultimately have "at_pos contents (p + n) m'" using assms(1) t unfolding at_pos_def l by simp
  moreover have "\<exists>lst. got_record u m = Got u (int p) lst m'" using at_posD(4) [OF assms(1)] assms(3) by (simp add: got_record_def m'_def Let_def)
  ultimately show ?thesis using that by (auto simp: m'_def)
qed

lemma parse_at:
  assumes "at_pos contents p m" and "length (window m) = n"
  shows "parse_record h env sk df rl m = Option.bind (msr_parse h env (window m) rl df) (\<lambda>q. Some (case q of
      Inr u \<Rightarrow> got_record u m
    | Inl v \<Rightarrow> if v < 0 then (if sk then round_end rl v (skip_128 m) else Stop v m) else more_needed sk rl v m))"
  using assms(2) at_posD(2) [OF assms(1)] at_pos_ptr [OF assms(1)] at_pos_buflen [OF assms(1)] by (simp add: parse_record_def)


text \<open>A record that lies in the buffer as a whole is returned by the next round; otherwise more is read.\<close>

lemma round_record:
  assumes "at_pos contents p m" and "drop p contents = r @ rest" and "record_ok h env df r u"
  shows "(\<exists>lst m'. read_round h env sk df contents 0 v m = Some (Got u (int p) lst m') \<and> at_pos contents (p + length r) m' \<and>
      recordcount m' = recordcount m + 1 \<and> fp_name m' = fp_name m) \<or>
    (\<exists>w m'. read_round h env sk df contents 0 v m = Some (Again 0 w m') \<and> 0 < w \<and> v \<le> 0 \<and> at_pos contents p m' \<and>
      recordcount m' = recordcount m \<and> fp_name m' = fp_name m)"
proof -
  define m1 where "m1 = refill_buffer contents v m"
  note m1 = refill_at [OF assms(1) m1_def]
  let ?n = "length (window m1)"
  have r: "128 \<le> length r" "length r \<le> 1048576" "hd r \<noteq> 80" "r_reclen (u_msr u) = int (length r)"
    using assms(3) by (simp_all add: record_ok_def)
  have w: "take ?n (r @ rest) = window m1" using at_posD(6) [OF m1(1)] assms(2) by simp
  have n: "128 \<le> ?n" using m1(4) assms(2) r(1) by auto
  moreover have "hd (window m1) = hd r" using w n r(1) by (metis hd_append2 hd_take list.size(3) not_numeral_le_zero gr0I)
  ultimately have "read_round h env sk df contents 0 v m = parse_record h env sk df 0 m1"
    using round_start [OF m1(1)] r(3) at_pos_buflen [OF m1(1)] by (simp add: read_round_def flip: m1_def)
  note rd = this parse_at [OF m1(1) refl]
  show ?thesis
  proof (cases "length r \<le> ?n")
    case True
    then have "r @ take (?n - length r) rest = window m1" using w by simp
    then have "msr_parse h env (window m1) 0 df = Some (Inr u)" using assms(3) unfolding record_ok_def by metis
    then have "read_round h env sk df contents 0 v m = Some (got_record u m1)" using rd by simp
    then show ?thesis using got_next [OF m1(1) True r(4)] m1(2,3) by metis
  next
    case False
    then have "take ?n r = window m1" using w by simp
    then have "msr_parse h env (window m1) 0 df = Some (Inl (int (length r - ?n)))"
      using False n assms(3) by (metis record_ok_def not_le)
    moreover have "\<not> feof m1" using at_pos_feof [OF m1(1)] assms(2) False by auto
    moreover have "packhdroffset m1 = 0" using m1(1) by (rule at_posD)
    ultimately have "read_round h env sk df contents 0 v m = Some (Again 0 (int (length r - ?n)) m1)"
      using rd False n r(2) at_pos_buflen [OF m1(1)] by (simp add: more_needed_def round_end_def Let_def of_nat_diff)
    moreover have "v \<le> 0" using m1(5) assms(2) False r(2) by (cases "0 < v") auto
    ultimately show ?thesis using False m1(1-3) by auto
  qed
qed

lemma read_loop_record:
  assumes "at_pos contents p m" and "drop p contents = r @ rest" and "record_ok h env df r u"
  obtains lst m' where "read_loop h env sk df contents 0 0 m = Some (Inr (u, int p, lst), m')" "at_pos contents (p + length r) m'"
    "recordcount m' = recordcount m + 1" "fp_name m' = fp_name m"
proof -
  consider (got) lst m' where "read_round h env sk df contents 0 0 m = Some (Got u (int p) lst m')" "at_pos contents (p + length r) m'"
      "recordcount m' = recordcount m + 1" "fp_name m' = fp_name m"
    | (again) w m1 where "read_round h env sk df contents 0 0 m = Some (Again 0 w m1)" "0 < w" "at_pos contents p m1"
      "recordcount m1 = recordcount m" "fp_name m1 = fp_name m"
    using round_record [OF assms, of sk 0] by blast
  then show ?thesis
  proof cases
    case got
    then have "read_loop h env sk df contents 0 0 m = Some (Inr (u, int p, lst), m')" by (subst read_loop.simps) simp
    then show ?thesis using that got(2-4) by blast
  next
    case again
    from round_record [OF again(3) assms(2,3), of sk w] again(2)
    obtain lst m' where "read_round h env sk df contents 0 w m1 = Some (Got u (int p) lst m')" and m': "at_pos contents (p + length r) m'"
        "recordcount m' = recordcount m1 + 1" "fp_name m' = fp_name m1" by auto
    then have "read_loop h env sk df contents 0 w m1 = Some (Inr (u, int p, lst), m')" by (subst read_loop.simps) simp
    then have "read_loop h env sk df contents 0 0 m = Some (Inr (u, int p, lst), m')"
      using again(1) by (subst read_loop.simps) simp
    then show ?thesis using that m' again(4,5) by metis
  qed
qed

lemma read_loop_end:
  assumes "at_pos contents p m" and "length contents - p < 128" and "0 < p" and "0 < recordcount m"
  shows "\<exists>m'. read_loop h env sk df contents 0 0 m = Some (Inl 1, m')"
proof -
  define m1 where "m1 = refill_buffer contents 0 m"
  note m1 = refill_at [OF assms(1) m1_def]
  have w: "length (window m1) < 128" using m1(4) assms(2) at_posD(7) [OF m1(1)] by linarith
  have "read_round h env sk df contents 0 0 m = Some (Stop 1 m1)"
    using round_start [OF m1(1)] assms(2-4) at_pos_buflen [OF m1(1)] w m1(2) at_posD(1,3,4) [OF m1(1)]
    by (simp add: read_round_def round_end_def flip: m1_def)
  then show ?thesis by (subst read_loop.simps) simp
qed

section \<open>A whole file\<close>

lemma opened_file: "fp m = Some q \<Longrightarrow> take 512 fn = fp_name m \<Longrightarrow> open_file fs fn m = m"
  by (simp add: open_file_def)

lemma read_records_from:
  assumes "fs fn = Some contents" and "length fn \<le> 511" and "at_pos contents p m" and "fp_name m = fn"
    and "drop p contents = concat rs @ tail" and "length tail < 128" and "list_all2 (record_ok h env df) rs us"
    and "rs = [] \<longrightarrow> 0 < p \<and> 0 < recordcount m" and "0 \<le> recordcount m"
  shows "read_records h env fs fn df m = Some (us, 1)"
  using assms(3-9)
proof (induction rs arbitrary: us p m)
  case Nil
  then have "length contents - p < 128" using length_drop [of p contents] by simp
  then obtain m' where "read_loop h env True df contents 0 0 m = Some (Inl 1, m')" using read_loop_end Nil.prems(1,6) by blast
  moreover have "open_file fs fn m = m" using at_posD(8) [OF Nil.prems(1)] Nil.prems(2) assms(2) by (auto intro: opened_file)
  ultimately have "ms_readmsr_main h env fs m (Some fn) 0 0 True df = Some (Inl 1, m')"
    using assms(1) by (simp add: ms_readmsr_main_def seek_file_def)
  then show ?case using Nil.prems(5) by (subst read_records.simps) simp
next
  case (Cons r rs)
  obtain u us' where us: "us = u # us'" "record_ok h env df r u" "list_all2 (record_ok h env df) rs us'"
    using Cons.prems(5) by (auto simp: list_all2_Cons1)
  have d: "drop p contents = r @ (concat rs @ tail)" using Cons.prems(3) by simp
  obtain lst m' where rl: "read_loop h env True df contents 0 0 m = Some (Inr (u, int p, lst), m')"
    and m': "at_pos contents (p + length r) m'" "recordcount m' = recordcount m + 1" "fp_name m' = fp_name m"
    by (rule read_loop_record [OF Cons.prems(1) d us(2)])
  have "open_file fs fn m = m" using at_posD(8) [OF Cons.prems(1)] Cons.prems(2) assms(2) by (auto intro: opened_file)
  then have "ms_readmsr_main h env fs m (Some fn) 0 0 True df = Some (Inr (u, int p, lst), m')"
    using assms(1) rl by (simp add: ms_readmsr_main_def seek_file_def)
  moreover have "drop (p + length r) contents = concat rs @ tail" using d by (metis add.commute append_eq_conv_conj drop_drop)
  moreover have "0 < length r" using us(2) by (auto simp: record_ok_def)
  ultimately show ?case
    using Cons.IH [OF m'(1), of us'] m'(2,3) Cons.prems(2,4,7) us by (subst read_records.simps) simp
qed

lemma first_open:
  assumes "fs fn = Some contents"
  shows "at_pos contents 0 (open_file fs fn init_msfp)" and "fp_name (open_file fs fn init_msfp) = take 511 fn"
    and "recordcount (open_file fs fn init_msfp) = 0"
  using assms by (auto simp: open_file_def init_msfp_def at_pos_def window_def readlen_def)

lemma read_records_open:
  assumes "fs fn = Some contents" and "length fn \<le> 511"
  shows "read_records h env fs fn df init_msfp = read_records h env fs fn df (open_file fs fn init_msfp)"
proof -
  have "open_file fs fn (open_file fs fn init_msfp) = open_file fs fn init_msfp"
    using first_open(2) [of fs fn, OF assms(1)] at_posD(8) [OF first_open(1), of fs fn, OF assms(1)] assms(2) by (auto intro: opened_file)
  then show ?thesis by (subst (1 2) read_records.simps) (simp add: ms_readmsr_main_def)
qed


section \<open>What follows a record\<close>

text \<open>A record is read the same if more follows it in the buffer: the functions that read a buffer do so at places within it.\<close>

lemma read_at_more: "read_at buf off n = Some bs \<Longrightarrow> read_at (buf @ rest) off n = Some bs"
  by (auto simp: read_at_def split: if_splits)

lemma read_more:
  "read_i16 h s buf off = Some a \<Longrightarrow> read_i16 h s (buf @ rest) off = Some a"
  "read_i32 h s buf off = Some b \<Longrightarrow> read_i32 h s (buf @ rest) off = Some b"
  "read_f64 h s buf off = Some c \<Longrightarrow> read_f64 h s (buf @ rest) off = Some c"
  using read_at_more [of buf off] by (auto simp: read_i16_def read_i32_def read_f64_def)

lemma dec_loop_more:
  assumes "\<And>i x. body i = Some x \<Longrightarrow> body' i = Some x" and "dec_loop body sz n is = Some xs"
  shows "dec_loop body' sz n is = Some xs"
  using assms(2)
proof (induction "is" arbitrary: n xs)
  case (Cons i "is")
  show ?case
  proof (cases "n < sz")
    case False
    then obtain y where y: "body i = Some y" using Cons.prems by (cases "body i") simp_all
    then show ?thesis using False Cons assms(1) [OF y] by (cases y) auto
  qed (use Cons.prems in simp)
qed simp

lemma mem_words_more: "64 * k + 64 \<le> length bs \<Longrightarrow> frame_at (mem_words h (bs @ rest)) k = frame_at (mem_words h bs) k"
proof -
  assume k: "64 * k + 64 \<le> length bs"
  have "mem_words h (bs @ rest) ! i = mem_words h bs ! i" if "i < 16 * k + 16" for i
  proof -
    have "i < length bs div 4" "i < (length bs + length rest) div 4" "4 * i + 4 \<le> length bs" using that k by linarith+
    then show ?thesis by (simp add: mem_words_def)
  qed
  then show ?thesis using k unfolding frame_at_def by (intro nth_equalityI) (simp_all add: mem_words_def)
qed

lemma dec_frames_more:
  assumes "\<forall>f\<in>set fs. frame_at a f = frame_at b f"
  shows "dec_frames D s a fs X0 st = dec_frames D s b fs X0 st"
  using assms by (induction fs arbitrary: X0 st) (auto simp: Let_def split: option.split)

lemma decode_steim_more:
  assumes "int (length bs) = n"
  shows "decode_steim (msr_decode_steim D s) h (bs @ rest) n cnt ol = decode_steim (msr_decode_steim D s) h bs n cnt ol"
proof -
  have a: "n div 64 \<le> int (length bs div 64)" "n div 64 \<le> int (length (bs @ rest) div 64)"
    using assms by (simp_all add: zdiv_int zdiv_mono1 del: of_nat_add)
  have "frame_at (mem_words h (bs @ rest)) f = frame_at (mem_words h bs) f" if "f < nat (n div 64)" for f
    using that assms by (intro mem_words_more) (auto simp: zdiv_int nat_less_iff)
  note fr = this
  have "dec_frames D s (mem_words h (bs @ rest)) [0..<nat (n div 64)] X0 st = dec_frames D s (mem_words h bs) [0..<nat (n div 64)] X0 st" for X0 st
    using fr by (intro dec_frames_more) simp
  then have "msr_decode_steim D s (mem_words h (bs @ rest)) n cnt ol = msr_decode_steim D s (mem_words h bs) n cnt ol"
    using fr [of 0] by (simp add: msr_decode_steim_def Let_def)
  then show ?thesis using a by (simp add: decode_steim_def Let_def)
qed

lemma map_more: "map_option f g = Some y \<Longrightarrow> (\<And>x. g = Some x \<Longrightarrow> g' = Some x) \<Longrightarrow> map_option f g' = Some y"
  by auto

lemma if_more:
  "(if c then a else g) = Some x \<Longrightarrow> (a = Some x \<Longrightarrow> a' = Some x) \<Longrightarrow> (g = Some x \<Longrightarrow> g' = Some x) \<Longrightarrow>
   (if c then a' else g') = Some x"
  by (simp split: if_splits)

lemma decoders_more:
  "msr_decode_int16 h bs cnt sz s = Some a \<Longrightarrow> msr_decode_int16 h (bs @ rest) cnt sz s = Some a"
  "msr_decode_int32 h bs cnt sz s = Some b \<Longrightarrow> msr_decode_int32 h (bs @ rest) cnt sz s = Some b"
  "msr_decode_float32 h bs cnt sz s = Some c \<Longrightarrow> msr_decode_float32 h (bs @ rest) cnt sz s = Some c"
  "msr_decode_float64 h bs cnt sz s = Some d \<Longrightarrow> msr_decode_float64 h (bs @ rest) cnt sz s = Some d"
  "msr_decode_geoscope h bs cnt sz e s = Some f \<Longrightarrow> msr_decode_geoscope h (bs @ rest) cnt sz e s = Some f"
  "msr_decode_cdsn h bs cnt sz s = Some g \<Longrightarrow> msr_decode_cdsn h (bs @ rest) cnt sz s = Some g"
  "msr_decode_sro h bs cnt sz s = Some i \<Longrightarrow> msr_decode_sro h (bs @ rest) cnt sz s = Some i"
  "msr_decode_dwwssn h bs cnt sz s = Some j \<Longrightarrow> msr_decode_dwwssn h (bs @ rest) cnt sz s = Some j"
  unfolding msr_decode_int16_def msr_decode_int32_def msr_decode_float32_def msr_decode_float64_def msr_decode_geoscope_def
    msr_decode_cdsn_def msr_decode_sro_def msr_decode_dwwssn_def
  by (assumption | erule if_more | erule dec_loop_more [rotated] | erule map_more | erule read_more | erule read_at_more)+

lemma decode_data_more:
  assumes "decode_data h s bs n e cnt sz = Some r" and "int (length bs) = n"
  shows "decode_data h s (bs @ rest) n e cnt sz = Some r"
proof -
  show ?thesis using assms(1) unfolding decode_data_def msr_decode_steim1_def msr_decode_steim2_def decode_steim_more [OF assms(2)]
    by (elim if_more) (assumption | erule map_more | erule decoders_more | erule read_at_more)+
qed

lemma get_fsdh_more: "48 \<le> length r \<Longrightarrow> get_fsdh h s (r @ rest) = get_fsdh h s r"
  by (simp add: get_fsdh_def Let_def nth_append)

lemma valid_header_more: "48 \<le> length r \<Longrightarrow> MS_ISVALIDHEADER (r @ rest) = MS_ISVALIDHEADER r"
  by (simp add: MS_ISVALIDHEADER_def nth_append list_all_iff)

lemma blktlen_more: "ms_blktlen h s t r off = Some len \<Longrightarrow> ms_blktlen h s t (r @ rest) off = Some len"
  using read_more(1) by (auto simp: ms_blktlen_def split: if_splits)

lemma unpack_blkt_more: "unpack_blkt h s r off t nx len m = Some m' \<Longrightarrow> unpack_blkt h s (r @ rest) off t nx len m = Some m'"
  using read_at_more by (fastforce simp: unpack_blkt_def Let_def bind_eq_Some_conv split: option.splits)

lemma blkt_walk_more: "blkt_walk h s r rl off m = Some m' \<Longrightarrow> blkt_walk h s (r @ rest) rl off m = Some m'"
proof (induction h s r rl off m rule: blkt_walk.induct)
  case (1 h s r rl off m)
  show ?case
  proof (cases "off = 0 \<or> rl \<le> int off \<or> 1048576 \<le> off")
    case True
    then show ?thesis using "1.prems" by (simp add: blkt_walk.simps [of h s _ rl off])
  next
    case False
    then obtain t nx len where r: "read_i16 h s r off = Some t" "read_i16 h s r (off + 2) = Some nx" "ms_blktlen h s t r off = Some len"
      using "1.prems" by (simp add: blkt_walk.simps [of h s r rl off]) (auto split: option.splits)
    note w = read_more(1) [OF r(1), of rest] read_more(1) [OF r(2), of rest] blktlen_more [OF r(3), of rest]
    let ?next = "\<lambda>r m. if nx \<noteq> 0 \<and> unat nx < off + unat len then Some m else if nx \<noteq> 0 \<and> rl < uint nx then Some m
        else if nx = 0 then Some m else blkt_walk h s r rl (unat nx) m"
    have p: "(if len = 0 then Some m else if rl < int off + uint len then Some m
        else (case unpack_blkt h s r off t nx len m of None \<Rightarrow> None | Some m \<Rightarrow> ?next r m)) = Some m'"
      using "1.prems" unfolding blkt_walk.simps [of h s r rl off m] if_not_P [OF False] r option.case .
    have "(if len = 0 then Some m else if rl < int off + uint len then Some m
        else (case unpack_blkt h s (r @ rest) off t nx len m of None \<Rightarrow> None | Some m \<Rightarrow> ?next (r @ rest) m)) = Some m'"
    proof (cases "len = 0 \<or> rl < int off + uint len")
      case fit: False
      then obtain m1 where m1: "unpack_blkt h s r off t nx len m = Some m1" "?next r m1 = Some m'"
        using p by (cases "unpack_blkt h s r off t nx len m") simp_all
      have "?next (r @ rest) m1 = Some m'"
        using m1(2) "1.IH" [OF False r _ _ m1(1)] fit by (auto split: if_splits)
      then show ?thesis using fit unpack_blkt_more [OF m1(1), of rest] by simp
    qed (use p in \<open>auto split: if_splits\<close>)
    then show ?thesis unfolding blkt_walk.simps [of h s "r @ rest" rl off m] if_not_P [OF False] w option.case .
  qed
qed

lemma map_sum_Inr: "map_sum f g z = Inr y \<longleftrightarrow> (\<exists>x. z = Inr x \<and> y = g x)"
  by (cases z) auto

lemma msr_unpack_data_more:
  assumes "msr_unpack_data h s r n off e cnt = Some (Inr xs)" and "n = int (length r)"
  shows "msr_unpack_data h s (r @ rest) n off e cnt = Some (Inr xs)"
proof -
  have c: "n \<noteq> - 1" "\<not> (n < 128 \<or> 1048576 < n)" "\<not> (off < 48 \<or> n \<le> uint off)"
    using assms(1) by (auto simp: msr_unpack_data_def split: if_splits)
  let ?dec = "\<lambda>r. decode_data h s (drop (unat off) r) (n - uint off) e (uint cnt) (uint cnt * samplesize e)"
  have d: "?dec r = Some (Inr xs)" "nsamples xs = unat cnt"
    using assms(1) c by (auto simp: msr_unpack_data_def Let_def split: if_splits option.splits sum.splits)
  have "uint off = int (unat off)" by simp
  then have o: "unat off \<le> length r" "int (length (drop (unat off) r)) = n - uint off"
    using c(3) assms(2) unfolding length_drop by linarith+
  have "?dec (r @ rest) = Some (Inr xs)" using decode_data_more [OF d(1) o(2), of rest] o(1) by simp
  then show ?thesis using c d(2) by (simp add: msr_unpack_data_def)
qed

lemma msr_unpack_more:
  assumes "msr_unpack h env r n df = Some (Inr u)" and "r_reclen (u_msr u) = int (length r)"
  shows "msr_unpack h env (r @ rest) n df = Some (Inr u)"
proof -
  have l: "48 \<le> length r" using assms(1) by (simp add: msr_unpack_def split: if_splits)
  have v: "MS_ISVALIDHEADER r" "\<not> (n < 128 \<or> 1048576 < n)" using assms(1) l by (auto simp: msr_unpack_def split: if_splits)
  define s where "s = (if 0 \<le> headerbyteorder env then bigendianhost h \<noteq> headerbyteorder env
      else \<not> MS_ISVALIDYEARDAY (f_year (get_fsdh h False r)) (f_day (get_fsdh h False r)))"
  define f where "f = get_fsdh h s r"
  define m0 where "m0 = \<lparr>r_reclen = n, r_fsdh = f, r_blkts = [], r_encoding = - 1, r_byteorder = - 1\<rparr>"
  let ?data = "\<lambda>r m. if df \<and> f_numsamples f \<noteq> 0
      then map_option (map_sum id (\<lambda>xs. common_fields h m (Some xs)))
        (msr_unpack_data h (data_swapflag h env s m) r (r_reclen m) (f_data_offset f) (r_encoding m) (f_numsamples f))
      else Some (Inr (common_fields h m None))"
  have u: "msr_unpack h env R n df = (case blkt_walk h s R n (unat (f_blockette_offset f)) m0 of
      None \<Rightarrow> None | Some m \<Rightarrow> ?data R (forced_format env m))" if "R = r \<or> R = r @ rest" for R
  proof -
    have R: "\<not> length R < 48" "\<not> \<not> MS_ISVALIDHEADER R" "get_fsdh h x R = get_fsdh h x r" for x
      using that l v by (auto simp: get_fsdh_more valid_header_more)
    show ?thesis
      unfolding msr_unpack_def Let_def R(3) s_def [symmetric] if_not_P [OF R(1)] if_not_P [OF R(2)] if_not_P [OF v(2)]
        f_def [symmetric] m0_def [symmetric] ..
  qed
  obtain m where m: "blkt_walk h s r n (unat (f_blockette_offset f)) m0 = Some m" "?data r (forced_format env m) = Some (Inr u)"
    using assms(1) u [of r] by (cases "blkt_walk h s r n (unat (f_blockette_offset f)) m0") simp_all
  define M where "M = forced_format env m"
  have "?data (r @ rest) M = Some (Inr u)"
  proof (cases "df \<and> f_numsamples f \<noteq> 0")
    case True
    then obtain xs where xs: "msr_unpack_data h (data_swapflag h env s M) r (r_reclen M) (f_data_offset f) (r_encoding M) (f_numsamples f) = Some (Inr xs)"
        "u = common_fields h M (Some xs)"
      using m(2) unfolding M_def by (auto simp: map_sum_Inr)
    have n: "r_reclen M = int (length r)" using assms(2) xs(2) by (simp add: common_fields_def Let_def)
    have "msr_unpack_data h (data_swapflag h env s M) (r @ rest) (r_reclen M) (f_data_offset f) (r_encoding M) (f_numsamples f) = Some (Inr xs)"
      using xs(1) by (rule msr_unpack_data_more [OF _ n])
    then show ?thesis using True xs(2) by simp
  next
    case False
    show ?thesis using m(2) unfolding M_def [symmetric] if_not_P [OF False] .
  qed
  then show ?thesis unfolding M_def using u [of "r @ rest"] blkt_walk_more [OF m(1), of rest] by simp
qed


section \<open>Finding a packed record\<close>

text \<open>The record length is found in blockette 1000, whatever blockettes come before it.\<close>

lemma detect_walk_chain:
  assumes "list_all (wf_blkt h) bs" and "length pre = off" and "off \<noteq> 0" and "off + chain_length bs < 65536"
    and "list_ex (\<lambda>x. k_type x = 1000) bs" and "same_format bs e b k"
  shows "detect_walk h s (pre @ chain_bytes h s off bs @ rest) off = Some (Inr (Some (sint (push_bit (unat k) 1 :: i32))))"
  using assms
proof (induction bs arbitrary: pre off)
  case (Cons x bs)
  define off1 where "off1 = off + 4 + length (k_data x)"
  define nx :: u16 where "nx = (if bs \<noteq> [] then of_nat off1 else 0)"
  define hd4 where "hd4 = store16 h (swap_if2 s (k_type x)) @ store16 h (swap_if2 s nx)"
  define mem where "mem = pre @ hd4 @ file_data s x @ chain_bytes h s off1 bs @ rest"
  have wf: "wf_blkt h x" "list_all (wf_blkt h) bs" using Cons.prems(1) by simp_all
  have mem: "pre @ chain_bytes h s off (x # bs) @ rest = mem"
    by (simp add: mem_def hd4_def nx_def off1_def store16_0)
  have hl: "length hd4 = 4" by (simp add: hd4_def)
  have r1: "read_i16 h s mem off = Some (k_type x)"
    using read_i16_store [OF Cons.prems(2)] by (simp add: mem_def hd4_def)
  have r2: "read_i16 h s mem (off + 2) = Some nx"
    using read_i16_store [of "pre @ store16 h (swap_if2 s (k_type x))" "off + 2" h s nx] Cons.prems(2) by (simp add: mem_def hd4_def)
  have o: "\<not> (off = 0 \<or> length mem < off)" using Cons.prems(2,3) by (simp add: mem_def)
  note step = detect_walk.simps [of h s mem off, unfolded if_not_P [OF o] r1 r2 option.case]
  have fd: "length (file_data s x) = length (k_data x)" by (rule file_data(2) [OF wf(1)])
  show ?case
  proof (cases "k_type x = 1000")
    case True
    then have d: "length (k_data x) = 4" "k_data x ! 2 = k" "k_data x ! 2 < 32"
      using wf(1) Cons.prems(6) by (auto simp: wf_blkt_def blkt_size_def same_format_def)
    have "file_data s x = k_data x" using True by (simp add: file_data_def blkt_swaps_def)
    then have "mem ! (off + 6) = k" using d(1,2) Cons.prems(2) hl by (simp add: mem_def nth_append)
    moreover have "off + 8 \<le> length mem" using Cons.prems(2) hl fd d(1) by (simp add: mem_def)
    ultimately show ?thesis unfolding mem step using True d(2,3) by (simp add: Let_def not_le)
  next
    case False
    then have bs: "bs \<noteq> []" "list_ex (\<lambda>x. k_type x = 1000) bs" using Cons.prems(5) by auto
    have l: "0 < length (k_data x)" using wf(1) by (auto simp: wf_blkt_def blkt_size_def split: if_splits)
    have n: "unat nx = off1" using bs(1) Cons.prems(4) u16_of_nat [of off1] by (simp add: nx_def off1_def)
    then have "nx \<noteq> 0" "\<not> nx < 4" "\<not> unat nx - 4 \<le> off" using l by (auto simp: off1_def word_less_nat_alt)
    moreover have "detect_walk h s ((pre @ hd4 @ file_data s x) @ chain_bytes h s off1 bs @ rest) off1 =
        Some (Inr (Some (sint (push_bit (unat k) 1 :: i32))))"
      using Cons.prems bs(2) fd hl by (intro Cons.IH wf(2)) (simp_all add: off1_def same_format_def)
    ultimately show ?thesis unfolding mem step using False n by (simp add: mem_def)
  qed
qed simp

lemma detect_packed:
  assumes "header_ok h s f bs e b k" and "rc = put_fsdh h s f @ chain_bytes h s 48 bs @ rest" and "48 + chain_length bs < 65536"
  shows "ms_detect h rc = Some (2 ^ unat k)"
proof -
  have ok: "fsdh_ok f" "f_blockette_offset f = 48" "MS_ISVALIDHEADER (put_fsdh h s f)" "list_all (wf_blkt h) bs"
      "list_ex (\<lambda>x. k_type x = 1000) bs" "same_format bs e b k" "k \<le> 20"
    using assms(1) unfolding header_ok_def by blast+
  have l: "length (put_fsdh h s f) = 48" by (rule length_put_fsdh [OF ok(1)])
  have v: "MS_ISVALIDHEADER rc" "\<not> length rc < 48" using ok(3) valid_header_append [OF l] l by (simp_all add: assms(2))
  have hs: "(\<not> MS_ISVALIDYEARDAY (f_year (get_fsdh h False rc)) (f_day (get_fsdh h False rc))) = s"
    using header_swap [OF assms(1)] by (simp add: assms(2))
  have "swap_if2 s (f_blockette_offset (get_fsdh h False rc)) = f_blockette_offset (get_fsdh h s rc)"
    by (simp add: get_fsdh_def swap_if2_def)
  then have o: "unat (swap_if2 s (f_blockette_offset (get_fsdh h False rc))) = 48"
    using ok(2) by (simp add: assms(2) get_put_fsdh [OF ok(1)])
  show ?thesis
    unfolding ms_detect_def Let_def hs o using v detect_walk_chain [OF ok(4) l _ assms(3) ok(5,6), of s rest] by (simp add: assms(2) reclen_word [OF ok(7)] del: push_bit_of_1)
qed

lemma sent_record_ok:
  assumes "sent_ok h k c r u" and "7 \<le> k" and "k \<le> 15" and "48 + c \<le> 128"
  shows "record_ok h no_env True r u"
proof -
  obtain s f bs e b rest where r: "r = put_fsdh h s f @ chain_bytes h s 48 bs @ rest" "header_ok h s f bs e b (of_nat k)" "chain_length bs = c"
    using assms(1) unfolding sent_ok_def by blast
  have u: "msr_unpack h no_env r (2 ^ k) True = Some (Inr u)" "length r = 2 ^ k" "r_reclen (u_msr u) = 2 ^ k"
    using assms(1) by (simp_all add: sent_ok_def)
  have ok: "fsdh_ok f" "list_all (wf_blkt h) bs" "MS_ISVALIDHEADER (put_fsdh h s f)" using r(2) unfolding header_ok_def by blast+
  have k: "unat (of_nat k :: byte) = k" using assms(3) by (intro byte_of_nat) simp
  have p: "128 \<le> (2 :: nat) ^ k" "(2 :: nat) ^ k \<le> 1048576"
    using power_increasing [OF assms(2), of "2 :: nat"] power_increasing [of k 20 "2 :: nat"] assms(3) by simp_all
  then have pi: "128 \<le> (2 :: int) ^ k" "(2 :: int) ^ k \<le> 1048576" by (simp_all flip: of_nat_le_iff [where 'a = int])
  have l: "length (put_fsdh h s f) = 48" "length (chain_bytes h s 48 bs) = c"
    using length_put_fsdh [OF ok(1)] length_chain_bytes [OF ok(2)] r(3) by simp_all
  have det: "ms_detect h (put_fsdh h s f @ chain_bytes h s 48 bs @ more) = Some (2 ^ k)" for more
    using detect_packed [OF r(2) refl, of more] k r(3) assms(4) by simp
  have "msr_parse h no_env (r @ more) 0 True = Some (Inr u)" for more
  proof -
    have "ms_detect h (r @ more) = Some (2 ^ k)" using det [of "rest @ more"] by (simp add: r(1))
    moreover have "\<not> int (length (r @ more)) < 2 ^ k" using u(2) by simp
    moreover have "msr_unpack h no_env (r @ more) (2 ^ k) True = Some (Inr u)" using u by (intro msr_unpack_more) simp_all
    ultimately show ?thesis using pi by (simp add: msr_parse_def)
  qed
  moreover have "msr_parse h no_env (take n r) 0 True = Some (Inl (int (length r - n)))" if "128 \<le> n" "n < length r" for n
  proof -
    have "take n r = put_fsdh h s f @ chain_bytes h s 48 bs @ take (n - 48 - c) rest" using that(1) assms(4) l by (simp add: r(1))
    then have "ms_detect h (take n r) = Some (2 ^ k)" using det by simp
    moreover have "int (length (take n r)) < 2 ^ k" using that(2) u(2) by simp
    ultimately show ?thesis using pi that u(2) by (simp add: msr_parse_def of_nat_diff)
  qed
  moreover have "hd r = put_fsdh h s f ! 0" using l(1) by (cases "put_fsdh h s f") (simp_all add: r(1))
  then have "isdigit (hd r) \<or> hd r = 32 \<or> hd r = 0" using ok(3) by (simp add: MS_ISVALIDHEADER_def upt_rec)
  then have "hd r \<noteq> 80" by (auto simp: isdigit_def)
  ultimately show ?thesis using u(2,3) p unfolding record_ok_def by simp
qed

lemma read_file:
  assumes "fs fn = Some (concat rs @ tail)" and "length fn \<le> 511" and "rs \<noteq> []" and "length tail < 128"
    and "list_all2 (record_ok h env df) rs us"
  shows "read_records h env fs fn df init_msfp = Some (us, 1)"
proof -
  note o = first_open [of fs fn, OF assms(1)]
  have "read_records h env fs fn df (open_file fs fn init_msfp) = Some (us, 1)"
    using o assms by (intro read_records_from [where contents = "concat rs @ tail" and p = 0 and rs = rs and tail = tail]) simp_all
  then show ?thesis using read_records_open [of fs fn "concat rs @ tail"] assms(1,2) by simp
qed

section \<open>The properties\<close>

text \<open>
  C2: The records of a file are returned one after the other. Let a file consist of records, of any lengths from 128 to
  \<open>2\<^sup>2\<^sup>0\<close> bytes, with less than 128 bytes behind them, each a record that is found by its own bytes. Then the calls of \<^verbatim>\<open>ms_readmsr_r\<close> return
  these records, all of them and in order, and then \<^verbatim>\<open>MS_ENDOFFILE\<close>, however the records lie with regard to the limits of the buffer.
\<close>

theorem read_file_records:
  assumes "fs fn = Some (concat rs @ tail)" and "length fn \<le> 511" and "rs \<noteq> []" and "length tail < 128"
    and "list_all2 (record_ok h env dataflag) rs us"
  shows "read_records h env fs fn dataflag init_msfp = Some (us, mscode MS_ENDOFFILE)"
  using read_file [of fs fn rs tail] assms by simp

text \<open>
  C1: What is written to a file is read from it. \<^verbatim>\<open>msr_writemseed\<close> packs a record into a new file; calls of \<^verbatim>\<open>ms_readmsr_r\<close> on this file
  return as many records as it says, and then \<^verbatim>\<open>MS_ENDOFFILE\<close>. Their samples, one after the other, are the samples that were written,
  and their start times are those of their first samples, to 100 microseconds, or exactly when there is a blockette
  1001. The blockettes lie in the first 128 bytes, where the length of a record is searched before more is read.
\<close>

theorem write_read_file:
  assumes "packable h k (pack_defaults (m\<lparr>m_encoding := enc, m_reclen := rl, m_byteorder := bo\<rparr>))" and "length mem = 2 ^ k"
    and "48 + chain_length (add_1000 (m_blkts m)) \<le> 128" and "length fn \<le> 511" and "overwrite \<or> fs fn = None"
  shows "\<exists>fs' us ns. msr_writemseed h (- 1, - 1) mem fs m fn overwrite rl enc bo = Some (int (length us), fs') \<and>
    read_records h no_env fs' fn True init_msfp = Some (us, mscode MS_ENDOFFILE) \<and>
    map u_samples us = map Some (split_samples ns (m_samples m)) \<and> sum_list ns = nsamples (m_samples m) \<and>
    list_all2 (near (list_ex (\<lambda>b. k_type b = 1001) (m_blkts m))) (map u_starttime us) (record_times (m_samprate m) (m_starttime m) 0 ns)"
proof -
  let ?m = "m\<lparr>m_encoding := enc, m_reclen := rl, m_byteorder := bo\<rparr>"
  obtain m' recs us ns where r: "msr_pack h (- 1, - 1) mem True ?m = Some (Inr (m', recs))"
      "list_all2 (sent_ok h k (chain_length (add_1000 (m_blkts ?m)))) recs us"
      "map u_samples us = map Some (split_samples ns (m_samples ?m))" "sum_list ns = nsamples (m_samples ?m)" "list_all ((<) 0) ns"
      "list_all2 (near (list_ex (\<lambda>b. k_type b = 1001) (m_blkts ?m))) (map u_starttime us) (record_times (m_samprate ?m) (m_starttime ?m) 0 ns)"
    by (rule msr_pack_all [OF assms(1,2)]) blast
  have pk: "7 \<le> k" "k \<le> 15" "0 < nsamples (m_samples m)" using assms(1) by (simp_all add: packable_def pack_defaults_def)
  have "list_all2 (record_ok h no_env True) recs us"
    using r(2) assms(3) pk(1,2) by (elim list_all2_mono) (simp add: sent_record_ok)
  moreover have "recs \<noteq> []" using r(2-4) pk(3) by (cases ns) auto
  moreover define fs' where "fs' = fs(fn \<mapsto> concat recs @ [])"
  ultimately have "read_records h no_env fs' fn True init_msfp = Some (us, mscode MS_ENDOFFILE)"
    using assms(4) read_file [of fs' fn recs "[]"] by simp
  moreover have "msr_writemseed h (- 1, - 1) mem fs m fn overwrite rl enc bo = Some (int (length us), fs')"
    using r(1) list_all2_lengthD [OF r(2)] assms(5) pk(3) by (auto simp: msr_writemseed_def fs'_def)
  ultimately show ?thesis using r(3,4,6) by auto
qed


text \<open>The record of the three samples, and a file of it twice with a byte behind.\<close>

lemma three_samples_record: "\<exists>r u. record_ok LittleHost no_env True r u"
proof -
  obtain m' recs us ns where r: "list_all2 (sent_ok LittleHost 7 (chain_length (add_1000 (m_blkts three_samples)))) recs us"
      "map u_samples us = map Some (split_samples ns (m_samples three_samples))" "sum_list ns = nsamples (m_samples three_samples)"
    using msr_pack_all [OF three_samples_packable, of "replicate 128 0"] by simp metis
  have "chain_length (add_1000 (m_blkts three_samples)) = 8" by (simp add: three_samples_def add_1000_def blank_1000_def chain_length_def)
  moreover have "ns \<noteq> []" using r(3) by (auto simp: three_samples_def)
  ultimately obtain rc u where "sent_ok LittleHost 7 8 rc u" using r(1,2) by (cases recs; cases us; cases ns) auto
  then show ?thesis using sent_record_ok [of LittleHost 7 8] by auto
qed

theorem read_file_records_witness:
  "\<exists>r u. read_records LittleHost no_env [[97] \<mapsto> r @ r @ [0]] [97] True init_msfp = Some ([u, u], 1)"
proof -
  obtain r u where "record_ok LittleHost no_env True r u" using three_samples_record by blast
  then have "read_records LittleHost no_env [[97] \<mapsto> r @ r @ [0]] [97] True init_msfp = Some ([u, u], 1)"
    using read_file_records [of "[[97] \<mapsto> r @ r @ [0]]" "[97]" "[r, r]" "[0]" LittleHost no_env True "[u, u]"] by simp
  then show ?thesis by blast
qed

theorem write_read_file_witness:
  "\<exists>fs' us ns. msr_writemseed LittleHost (- 1, - 1) (replicate 128 0) (\<lambda>fn. None) three_samples [97] False 128 3 1 = Some (int (length us), fs') \<and>
    read_records LittleHost no_env fs' [97] True init_msfp = Some (us, 1) \<and>
    map u_samples us = map Some (split_samples ns (Ints [1, 2, 3])) \<and> sum_list ns = 3"
proof -
  have m: "three_samples\<lparr>m_encoding := 3, m_reclen := 128, m_byteorder := 1\<rparr> = three_samples" by (simp add: three_samples_def)
  have "length (replicate 128 (0 :: byte)) = 2 ^ 7" by simp
  moreover have "48 + chain_length (add_1000 (m_blkts three_samples)) \<le> 128"
    by (simp add: three_samples_def add_1000_def blank_1000_def chain_length_def)
  ultimately show ?thesis
    using write_read_file [where h = LittleHost and k = 7 and m = three_samples and enc = 3 and rl = 128 and bo = 1 and mem = "replicate 128 0"
      and fn = "[97]" and overwrite = False and fs = "\<lambda>fn. None"] three_samples_packable
    unfolding m by (fastforce simp: three_samples_def numeral_3_eq_3)
qed

section \<open>Long file names\<close>

lemma reopened:
  assumes "512 \<le> length fn" and "m = init_msfp \<or> fp m \<noteq> None \<and> fp_name m = take 511 fn"
  shows "open_file fs fn m = open_file fs fn init_msfp"
proof -
  have "length (take 512 fn) \<noteq> length (take 511 fn)" using assms(1) by simp
  then have "take 512 fn \<noteq> take 511 fn" by metis
  then show ?thesis using assms(2) by (auto simp: open_file_def init_msfp_def split: option.split)
qed

lemma first_again:
  assumes "512 \<le> length fn" and "fs fn = Some (r @ rest)" and "record_ok h env df r u"
    and "m = init_msfp \<or> fp m \<noteq> None \<and> fp_name m = take 511 fn"
  obtains lst m' where "ms_readmsr_main h env fs m (Some fn) 0 0 True df = Some (Inr (u, 0, lst), m')"
    "fp m' \<noteq> None \<and> fp_name m' = take 511 fn"
proof -
  note o = first_open [of fs fn, OF assms(2)]
  obtain lst m' where "read_loop h env True df (r @ rest) 0 0 (open_file fs fn init_msfp) = Some (Inr (u, int 0, lst), m')"
      "at_pos (r @ rest) (0 + length r) m'" "fp_name m' = fp_name (open_file fs fn init_msfp)"
    using read_loop_record [OF o(1) _ assms(3), of rest True] by (metis drop_0)
  then show ?thesis
    using that assms(2) reopened [OF assms(1,4), of fs] at_posD(8) o(2) by (simp add: ms_readmsr_main_def seek_file_def)
qed

lemma long_name_stuck:
  assumes "read_records h env fs fn df m = Some y"
  shows "\<not> (512 \<le> length fn \<and> fs fn = Some (r @ rest) \<and> record_ok h env df r u \<and> (m = init_msfp \<or> fp m \<noteq> None \<and> fp_name m = take 511 fn))"
proof (rule read_records.raw_induct [where P = "\<lambda>h env fs fn df m y.
      \<not> (512 \<le> length fn \<and> fs fn = Some (r @ rest) \<and> record_ok h env df r u \<and> (m = init_msfp \<or> fp m \<noteq> None \<and> fp_name m = take 511 fn))",
      OF _ assms], intro notI, elim conjE, goal_cases)
  case (1 rec h env fs fn df m y)
  obtain lst m' where m': "ms_readmsr_main h env fs m (Some fn) 0 0 True df = Some (Inr (u, 0, lst), m')" "fp m' \<noteq> None \<and> fp_name m' = take 511 fn"
    by (rule first_again [of fn fs r rest h env df u m, OF 1(3-6)])
  then obtain z where "rec h env fs fn df m' = Some z" using 1(2) by (auto simp: bind_eq_Some_conv)
  from 1(1) [OF this] show False using 1(3-5) m'(2) by blast
qed

text \<open>
  C40: A file whose name has 512 bytes or more is read for ever. Only 511 bytes of the name are kept, so that every call takes the name for
  another one, opens the file again and returns its first record: the loop of the callers, which read until the end of
  the file, does not end if the file starts with a record.
\<close>

theorem long_name_forever:
  assumes "512 \<le> length fn" and "fs fn = Some (r @ rest)" and "record_ok h env dataflag r u"
  shows "read_records h env fs fn dataflag init_msfp = None"
  using long_name_stuck [of h env fs fn dataflag init_msfp _ r rest u] assms
  by (cases "read_records h env fs fn dataflag init_msfp") blast+

theorem long_name_forever_witness:
  "\<exists>r. read_records LittleHost no_env [replicate 512 97 \<mapsto> r] (replicate 512 97) True init_msfp = None"
proof -
  obtain r u where "record_ok LittleHost no_env True r u" using three_samples_record by blast
  then have "read_records LittleHost no_env [replicate 512 97 \<mapsto> r] (replicate 512 97) True init_msfp = None"
    using long_name_forever [of "replicate 512 97" "[replicate 512 97 \<mapsto> r]" r "[]"] by simp
  then show ?thesis by blast
qed

end
