(* ===== verification/MsTimeStr.thy ===== *)
theory MsTimeStr
  imports MsHeader Float32
begin

text \<open>
  Time strings: the conversions of \<^verbatim>\<open>contrib/libmseed/genutils.c\<close> between high precision times and text, in the ISO,
  month-day and SEED formats, with \<^verbatim>\<open>ms_doy2md\<close>, \<^verbatim>\<open>ms_md2doy\<close> and \<^verbatim>\<open>ms_time2hptime\<close>. Printing and reading a time are
  inverse. The pointers to results are not null.

  \<^verbatim>\<open>sscanf\<close> is modelled for the directives that occur. A number that an \<^verbatim>\<open>int\<close> does not hold is cut as \<^verbatim>\<open>atoi\<close> cuts it; floats
  are in decimal notation.
\<close>

section \<open>Days of the year\<close>

definition month_days :: "int \<Rightarrow> int list" where
  "month_days y =
     (let leap = y smod 4 = 0 \<and> y smod 100 \<noteq> 0 \<or> y smod 400 = 0
      in [31, if leap then 29 else 28, 31, 30, 31, 30, 31, 31, 30, 31, 30, 31])"

text \<open>The loop of \<^verbatim>\<open>ms_doy2md\<close>; when it runs through, month and day stay as they are, which is \<open>None\<close>.\<close>

fun doy_loop :: "int list \<Rightarrow> int \<Rightarrow> int \<Rightarrow> (int \<times> int) option" where
  "doy_loop [] idx jd = None"
| "doy_loop (d # ds) idx jd = (let jd = jd - d in if jd \<le> 0 then Some (idx + 1, d + jd) else doy_loop ds (idx + 1) jd)"

definition ms_doy2md :: "int \<Rightarrow> int \<Rightarrow> (int \<times> int) option" where
  "ms_doy2md y jd =
     (let days = month_days y; leap = days ! 1 - 28
      in if y < 1800 \<or> 5000 < y then None
         else if 365 + leap < jd \<or> jd \<le> 0 then None
         else doy_loop days 0 jd)"

text \<open>The loop of \<^verbatim>\<open>ms_md2doy\<close>, which stops at the month.\<close>

fun md_loop :: "int list \<Rightarrow> nat \<Rightarrow> int \<Rightarrow> int \<Rightarrow> int" where
  "md_loop [] mm mday jd = jd"
| "md_loop (d # ds) 0 mday jd = jd + mday"
| "md_loop (d # ds) (Suc mm) mday jd = md_loop ds mm mday (jd + d)"

definition ms_md2doy :: "int \<Rightarrow> int \<Rightarrow> int \<Rightarrow> int option" where
  "ms_md2doy y mm mday =
     (let days = month_days y
      in if y < 1800 \<or> 5000 < y \<or> mm < 1 \<or> 12 < mm \<or> mday < 1 \<or> 31 < mday then None
         else if days ! nat (mm - 1) < mday then None
         else Some (md_loop days (nat (mm - 1)) mday 0))"

section \<open>Printing\<close>

text \<open>\<^verbatim>\<open>%4d\<close>, and \<^verbatim>\<open>%0wd\<close> of a number that is not negative.\<close>

definition show_4d :: "int \<Rightarrow> cstr" where
  "show_4d k = (let s = show_int k in replicate (4 - length s) 32 @ s)"

text \<open>The second and the microseconds of a time.\<close>

definition hptime_split_us :: "int \<Rightarrow> int \<times> int" where
  "hptime_split_us hptime =
     (let isec = hptime sdiv HPTMODULUS; ifract = hptime - isec * HPTMODULUS
      in if hptime < 0 \<and> ifract \<noteq> 0 then (isec - 1, HPTMODULUS - (- ifract)) else (isec, ifract))"

definition clock_str :: "tm \<Rightarrow> cstr" where
  "clock_str tms = show_pad 2 (tm_hour tms) @ lit '':'' @ show_pad 2 (tm_min tms) @ lit '':'' @ show_pad 2 (tm_sec tms)"

text \<open>
  A text that \<^verbatim>\<open>snprintf\<close> cuts to \<open>n\<close> bytes with the zero; \<open>None\<close> is a null pointer, returned when the length is not one of the two that are right.
\<close>

definition sized :: "nat \<Rightarrow> nat \<Rightarrow> nat \<Rightarrow> cstr \<Rightarrow> cstr option" where
  "sized n a b s = (if length s \<noteq> a \<and> length s \<noteq> b then None else Some (take (n - 1) s))"

definition md_timestr :: "cstr \<Rightarrow> int \<Rightarrow> bool \<Rightarrow> cstr option" where
  "md_timestr sep hptime subseconds =
     (let (isec, ifract) = hptime_split_us hptime; tms = ms_gmtime_r isec;
          s = show_4d (tm_year tms + 1900) @ lit ''-'' @ show_pad 2 (tm_mon tms + 1) @ lit ''-'' @ show_pad 2 (tm_mday tms) @ sep @ clock_str tms
      in if subseconds then sized 27 26 19 (s @ lit ''.'' @ show_pad 6 ifract) else sized 20 26 19 s)"

definition ms_hptime2isotimestr :: "int \<Rightarrow> bool \<Rightarrow> cstr option" where
  "ms_hptime2isotimestr = md_timestr (lit ''T'')"

definition ms_hptime2mdtimestr :: "int \<Rightarrow> bool \<Rightarrow> cstr option" where
  "ms_hptime2mdtimestr = md_timestr (lit '' '')"

definition ms_hptime2seedtimestr :: "int \<Rightarrow> bool \<Rightarrow> cstr option" where
  "ms_hptime2seedtimestr hptime subseconds =
     (let (isec, ifract) = hptime_split_us hptime; tms = ms_gmtime_r isec;
          s = show_4d (tm_year tms + 1900) @ lit '','' @ show_pad 3 (tm_yday tms + 1) @ lit '','' @ clock_str tms
      in if subseconds then sized 25 24 17 (s @ lit ''.'' @ show_pad 6 ifract) else sized 18 24 17 s)"

section \<open>Scanning\<close>

text \<open>The directives \<^verbatim>\<open>%d\<close>, \<^verbatim>\<open>%*[...]\<close> and \<^verbatim>\<open>%f\<close>, and the values they store.\<close>

datatype directive = ScanD | ScanSet cstr | ScanF

datatype scanned = SInt int | SFloat real

definition scan_d :: "cstr \<Rightarrow> (int \<times> cstr) option" where
  "scan_d s =
     (let r = snd (c_sign (dropWhile isspace s)) in if takeWhile isdigit r = [] then None else Some (atoi s, dropWhile isdigit r))"

definition scan_f :: "cstr \<Rightarrow> real option" where
  "scan_f s =
     (let r = snd (c_sign (dropWhile isspace s))
      in if takeWhile isdigit r = [] \<and> atof_frac (dropWhile isdigit r) = [] then None else Some (round_float 128 (atof s)))"

fun sscanf :: "directive list \<Rightarrow> cstr \<Rightarrow> scanned list" where
  "sscanf [] s = []"
| "sscanf (ScanD # ds) s = (case scan_d s of None \<Rightarrow> [] | Some (k, r) \<Rightarrow> SInt k # sscanf ds r)"
| "sscanf (ScanSet cs # ds) s = (if takeWhile (\<lambda>c. c \<in> set cs) s = [] then [] else sscanf ds (dropWhile (\<lambda>c. c \<in> set cs) s))"
| "sscanf (ScanF # ds) s = (case scan_f s of None \<Rightarrow> [] | Some x \<Rightarrow> [SFloat x])"

text \<open>The value that the variable number \<open>i\<close> has behind the call.\<close>

definition scanned_int :: "scanned list \<Rightarrow> nat \<Rightarrow> int \<Rightarrow> int" where
  "scanned_int vs i old = (if i < length vs then (case vs ! i of SInt k \<Rightarrow> k | SFloat x \<Rightarrow> old) else old)"

definition scanned_float :: "scanned list \<Rightarrow> nat \<Rightarrow> real \<Rightarrow> real" where
  "scanned_float vs i old = (if i < length vs then (case vs ! i of SInt k \<Rightarrow> old | SFloat x \<Rightarrow> x) else old)"

section \<open>Reading times\<close>

definition ms_time2hptime_int :: "int \<Rightarrow> int \<Rightarrow> int \<Rightarrow> int \<Rightarrow> int \<Rightarrow> int \<Rightarrow> int" where
  "ms_time2hptime_int y dd hh mi ss usec =
     (let hptime = ms_btime2hptime \<lparr>b_year = uint (of_int y :: u16), b_day = uint (of_int dd :: u16), b_hour = uint (of_int hh :: byte),
            b_min = uint (of_int mi :: byte), b_sec = uint (of_int ss :: byte), b_fract = 0\<rparr>
      in if hptime = HPTERROR then HPTERROR else hptime + usec * (1000000 sdiv HPTMODULUS))"

text \<open>The tests of hour, minute, second and microsecond that the three functions have in common.\<close>

definition clock_range :: "int \<Rightarrow> int \<Rightarrow> int \<Rightarrow> int \<Rightarrow> bool" where
  "clock_range hh mi ss usec \<longleftrightarrow>
     \<not> (hh < 0 \<or> 23 < hh) \<and> \<not> (mi < 0 \<or> 59 < mi) \<and> \<not> (ss < 0 \<or> 60 < ss) \<and> \<not> (usec < 0 \<or> 999999 < usec)"

definition ms_time2hptime :: "int \<Rightarrow> int \<Rightarrow> int \<Rightarrow> int \<Rightarrow> int \<Rightarrow> int \<Rightarrow> int" where
  "ms_time2hptime y dd hh mi ss usec =
     (if y < 1800 \<or> 5000 < y \<or> dd < 1 \<or> 366 < dd \<or> \<not> clock_range hh mi ss usec then HPTERROR
      else ms_time2hptime_int y dd hh mi ss usec)"

definition float_usec :: "real \<Rightarrow> int" where
  "float_usec fusec = (if fusec \<noteq> 0 then c_trunc (fusec * 1000000 + 1 / 2) else 0)"

definition seed_format :: "directive list" where
  "seed_format = [ScanD, ScanSet (lit ''-,:.''), ScanD, ScanSet (lit ''-,:.Tt ''), ScanD, ScanSet (lit ''-,:.''), ScanD,
     ScanSet (lit ''-,:.''), ScanD, ScanF]"

definition ms_seedtimestr2hptime :: "cstr \<Rightarrow> int" where
  "ms_seedtimestr2hptime s =
     (let vs = sscanf seed_format s;
          y = scanned_int vs 0 0; dd = scanned_int vs 1 1; hh = scanned_int vs 2 0; mi = scanned_int vs 3 0;
          ss = scanned_int vs 4 0; usec = float_usec (scanned_float vs 5 0)
      in if length vs < 1 then HPTERROR
         else if y < 1800 \<or> 5000 < y \<or> dd < 1 \<or> 366 < dd \<or> \<not> clock_range hh mi ss usec then HPTERROR
         else ms_time2hptime_int y dd hh mi ss usec)"

definition md_format :: "directive list" where
  "md_format = [ScanD, ScanSet (lit ''-,/:.''), ScanD, ScanSet (lit ''-,/:.''), ScanD, ScanSet (lit ''-,/:.Tt ''), ScanD,
     ScanSet (lit ''-,/:.''), ScanD, ScanSet (lit ''-,/:.''), ScanD, ScanF]"

definition ms_timestr2hptime :: "cstr \<Rightarrow> int" where
  "ms_timestr2hptime s =
     (let vs = sscanf md_format s;
          y = scanned_int vs 0 0; mm = scanned_int vs 1 1; mday = scanned_int vs 2 1; hh = scanned_int vs 3 0;
          mi = scanned_int vs 4 0; ss = scanned_int vs 5 0; usec = float_usec (scanned_float vs 6 0)
      in if length vs < 1 then HPTERROR
         else if y < 1800 \<or> 5000 < y \<or> mm < 1 \<or> 12 < mm \<or> mday < 1 \<or> 31 < mday then HPTERROR
         else (case ms_md2doy y mm mday of
                 None \<Rightarrow> HPTERROR
               | Some dd \<Rightarrow> if \<not> clock_range hh mi ss usec then HPTERROR else ms_time2hptime_int y dd hh mi ss usec))"


section \<open>Months and days\<close>

lemma month_days_table: "month_days y = take 12 (tm_days ! TM_LEAP_CHECK (y - 1900))"
  by (auto simp: month_days_def TM_LEAP_CHECK_def tm_days_def)

lemma md_loop_table:
  "mm < 12 \<Longrightarrow> md_loop (month_days y) mm mday 0 = tm_days ! Suc (Suc (TM_LEAP_CHECK (y - 1900))) ! mm + mday"
  using lt12_cases [of mm] by (auto simp: month_days_def TM_LEAP_CHECK_def tm_days_def eval_nat_numeral)

lemma md_loop_acc: "k < length ds \<Longrightarrow> md_loop ds k mday jd = jd + md_loop ds k mday 0"
proof (induction ds arbitrary: k jd)
  case (Cons d ds)
  show ?case
  proof (cases k)
    case (Suc j)
    then show ?thesis using Cons.IH [of j "jd + d"] Cons.IH [of j d] Cons.prems by simp
  qed simp
qed simp

lemma md_loop_pos: "\<lbrakk>k < length ds; 1 \<le> mday; \<forall>d\<in>set ds. 0 < d\<rbrakk> \<Longrightarrow> 0 < md_loop ds k mday 0"
proof (induction ds arbitrary: k)
  case (Cons d ds)
  show ?case
  proof (cases k)
    case (Suc j)
    then show ?thesis using Cons.IH [of j] Cons.prems md_loop_acc [of j ds mday d] by simp
  qed (use Cons.prems in simp)
qed simp

lemma doy_loop_inverse:
  assumes "0 < jd" and "\<forall>d\<in>set ds. 0 < d"
  shows "doy_loop ds idx jd = Some (mm, mday) \<longleftrightarrow>
    (\<exists>k < length ds. mm = idx + int k + 1 \<and> 1 \<le> mday \<and> mday \<le> ds ! k \<and> md_loop ds k mday 0 = jd)"
  using assms
proof (induction ds arbitrary: idx jd)
  case (Cons d ds)
  have ex: "(\<exists>k < length (d # ds). Q k) \<longleftrightarrow> Q 0 \<or> (\<exists>k < length ds. Q (Suc k))" for Q
    using less_Suc_eq_0_disj by auto
  have acc: "md_loop ds k mday d = d + md_loop ds k mday 0" if "k < length ds" for k using that by (rule md_loop_acc)
  have pos: "0 < md_loop ds k mday 0" if "k < length ds" "1 \<le> mday" for k
    using that Cons.prems(2) by (intro md_loop_pos) auto
  show ?case
  proof (cases "jd - d \<le> 0")
    case True
    then have "\<not> (\<exists>k < length ds. 1 \<le> mday \<and> md_loop ds k mday d = jd)" using acc pos by force
    then show ?thesis using True Cons.prems unfolding ex by auto
  next
    case False
    then have "doy_loop ds (idx + 1) (jd - d) = Some (mm, mday) \<longleftrightarrow>
        (\<exists>k < length ds. mm = idx + 1 + int k + 1 \<and> 1 \<le> mday \<and> mday \<le> ds ! k \<and> md_loop ds k mday 0 = jd - d)"
      using Cons.prems by (intro Cons.IH) auto
    moreover have "md_loop ds k mday d = jd \<longleftrightarrow> md_loop ds k mday 0 = jd - d" if "k < length ds" for k
      using acc [OF that] by linarith
    ultimately show ?thesis using False unfolding ex by (auto simp: algebra_simps)
  qed
qed simp

lemma md_loop_le:
  "\<lbrakk>k < length ds; mday \<le> ds ! k; \<forall>d\<in>set ds. 0 < d\<rbrakk> \<Longrightarrow> md_loop ds k mday 0 \<le> sum_list ds"
proof (induction ds arbitrary: k)
  case (Cons d ds)
  have "0 \<le> sum_list ds" using Cons.prems(3) by (intro sum_list_nonneg) (auto intro: less_imp_le)
  show ?case
  proof (cases k)
    case (Suc j)
    then show ?thesis using Cons.IH [of j] Cons.prems md_loop_acc [of j ds mday d] by simp
  qed (use Cons.prems \<open>0 \<le> sum_list ds\<close> in simp)
qed simp

lemma month_days_facts:
  "length (month_days y) = 12" "\<forall>d\<in>set (month_days y). 0 < d" "\<forall>d\<in>set (month_days y). d \<le> 31"
  "sum_list (month_days y) = 365 + (month_days y ! 1 - 28)"
  by (simp_all add: month_days_def)

text \<open>
  The two conversions of days are inverse: a year, a month and a day of the month are taken to a day of the year by
  \<^verbatim>\<open>ms_md2doy\<close> exactly when \<^verbatim>\<open>ms_doy2md\<close> takes the year and this day back to the month and the day, in leap years and others;
  outside of 1800-5000, or with a day that the month does not have, both fail.
\<close>

theorem md_doy_inverse: "ms_md2doy y mm mday = Some jd \<longleftrightarrow> ms_doy2md y jd = Some (mm, mday)"
proof -
  let ?ds = "month_days y"
  note ds = month_days_facts [of y]
  have "ms_md2doy y mm mday = Some jd \<longleftrightarrow> 1800 \<le> y \<and> y \<le> 5000 \<and>
      (\<exists>k < 12. mm = 0 + int k + 1 \<and> 1 \<le> mday \<and> mday \<le> ?ds ! k \<and> md_loop ?ds k mday 0 = jd)" (is "?a \<longleftrightarrow> _ \<and> _ \<and> ?b")
  proof
    assume ?a
    then show "1800 \<le> y \<and> y \<le> 5000 \<and> ?b"
      by (auto simp: ms_md2doy_def Let_def split: if_splits intro!: exI [of _ "nat (mm - 1)"])
  next
    assume "1800 \<le> y \<and> y \<le> 5000 \<and> ?b"
    moreover have "?ds ! k \<le> 31" if "k < 12" for k using ds(1,3) that by simp
    ultimately show ?a by (force simp: ms_md2doy_def Let_def)
  qed
  moreover have "0 < jd \<and> jd \<le> 365 + (?ds ! 1 - 28)" if ?b
    using that md_loop_pos [OF _ _ ds(2)] md_loop_le [OF _ _ ds(2)] ds(1,4) by auto
  ultimately show ?thesis
    using doy_loop_inverse [OF _ ds(2), of jd 0 mm mday] by (auto simp: ms_doy2md_def Let_def ds(1) split: if_splits)
qed

lemma month_up_mday:
  assumes "0 \<le> m" and "m < diy (y + 1900)" and "gm_month_up (tm_days ! TM_LEAP_CHECK y) 0 m = (mm, r)"
  shows "0 \<le> r \<and> r < tm_days ! TM_LEAP_CHECK y ! mm"
  using assms
  by (cases "passcal_isleap (y + 1900)") (simp_all add: TM_LEAP_CHECK_isleap tm_days_def diy_def split: if_splits; auto)+

lemma month_down_mday:
  assumes "m < 0" and "- diy (y + 1900) \<le> m" and "gm_month_down (tm_days ! TM_LEAP_CHECK y) 11 m = (mm, r)"
  shows "0 \<le> r + tm_days ! TM_LEAP_CHECK y ! mm \<and> r < 0"
  using assms
  by (cases "passcal_isleap (y + 1900)") (simp_all add: TM_LEAP_CHECK_isleap tm_days_def diy_def eval_nat_numeral split: if_splits; auto)+

lemma gm_month_fields:
  fixes t :: int
  defines "r \<equiv> ms_gmtime_r t"
  shows "\<exists>mm < 12. tm_mon r = int mm \<and> 1 \<le> tm_mday r \<and> tm_mday r \<le> tm_days ! TM_LEAP_CHECK (tm_year r) ! mm \<and>
    tm_yday r + 1 = tm_days ! Suc (Suc (TM_LEAP_CHECK (tm_year r))) ! mm + tm_mday r"
proof -
  obtain s mi h d where c: "gm_clock t = (s, mi, h, d)" by (metis prod_cases4)
  obtain z q where zq: "(if 0 \<le> d then year_up 1970 d else year_down 1969 d) = (z, q)" by (metis surj_pair)
  have date: "0 \<le> q \<and> q < diy z \<and> d = htoe_days z + q" by (rule year_split [OF zq])
  show ?thesis
  proof (cases "0 \<le> d")
    case True
    then have "gm_year_up 70 d = (z - 1900, q)" using zq by (simp add: gm_year_up_eq Let_def)
    moreover obtain mm m where m: "gm_month_up (tm_days ! TM_LEAP_CHECK (z - 1900)) 0 q = (mm, m)" by (metis surj_pair)
    ultimately show ?thesis
      using True date month_up_day [OF _ _ m] month_up_mday [OF _ _ m] by (simp add: r_def ms_gmtime_r_def c Let_def)
  next
    case False
    obtain y m0 where y: "gm_year_down 69 d = (y, m0)" by (metis surj_pair)
    obtain mm m where m: "gm_month_down (tm_days ! TM_LEAP_CHECK y) 11 m0 = (mm, m)" by (metis surj_pair)
    have e: "z = y + 1900" "q = m0 + diy (y + 1900)" "m0 < 0"
      using gm_year_down_spec [OF y] False zq by auto
    show ?thesis
      using False e y m date month_down_day [OF e(3) _ m] month_down_mday [OF e(3) _ m]
      by (simp add: r_def ms_gmtime_r_def c Let_def)
  qed
qed

lemma gm_md2doy:
  fixes t :: int
  defines "r \<equiv> ms_gmtime_r t"
  assumes "1800 \<le> tm_year r + 1900" and "tm_year r + 1900 \<le> 5000"
  shows "ms_md2doy (tm_year r + 1900) (tm_mon r + 1) (tm_mday r) = Some (tm_yday r + 1)"
    and "0 \<le> tm_mon r" and "tm_mon r < 12" and "1 \<le> tm_mday r" and "tm_mday r \<le> 31"
proof -
  obtain mm where mm: "mm < 12" "tm_mon r = int mm" "1 \<le> tm_mday r"
      "tm_mday r \<le> tm_days ! TM_LEAP_CHECK (tm_year r) ! mm"
      "tm_yday r + 1 = tm_days ! Suc (Suc (TM_LEAP_CHECK (tm_year r))) ! mm + tm_mday r"
    using gm_month_fields [of t] unfolding r_def by auto
  moreover have "tm_days ! TM_LEAP_CHECK (tm_year r) ! mm \<le> 31"
    using lt12_cases [OF mm(1)] by (auto simp: TM_LEAP_CHECK_def tm_days_def eval_nat_numeral)
  ultimately show "ms_md2doy (tm_year r + 1900) (tm_mon r + 1) (tm_mday r) = Some (tm_yday r + 1)"
    and "0 \<le> tm_mon r" and "tm_mon r < 12" and "1 \<le> tm_mday r" and "tm_mday r \<le> 31"
    using assms(2,3) md_loop_table [OF mm(1), of "tm_year r + 1900"]
    by (simp_all add: ms_md2doy_def month_days_table Let_def)
qed


section \<open>Microseconds in a float\<close>

lemma round_even_err: "\<bar>of_int (round_even x) - x\<bar> \<le> 1 / 2"
  unfolding round_even_def Let_def by (simp split: if_split; linarith)

lemma half_err: "\<bar>z / 2 - x\<bar> = \<bar>z - 2 * x\<bar> / 2" for x z :: real
proof -
  have "z / 2 - x = (z - 2 * x) / 2" by simp
  then show ?thesis by (simp only: abs_divide abs_numeral)
qed

lemma scale_round_err: "\<bar>scale_round n x - x\<bar> \<le> 1 / 2"
proof (induction n arbitrary: x)
  case (Suc n)
  show ?case
  proof (cases "2 ^ 23 \<le> \<bar>x\<bar>")
    case False
    then have "\<bar>scale_round (Suc n) x - x\<bar> = \<bar>scale_round n (2 * x) - 2 * x\<bar> / 2" by (simp add: half_err)
    also have "\<dots> \<le> (1 / 2) / 2" using Suc.IH by (rule divide_right_mono) simp
    finally show ?thesis by simp
  qed (simp add: round_even_err [simplified])
qed (simp only: scale_round.simps round_even_err)

text \<open>A float below \<open>2\<^sup>2\<^sup>3\<^sup>-\<^sup>k\<close> has \<open>k\<close> binary digits behind the point.\<close>

lemma scale_round_close: "k \<le> n \<Longrightarrow> \<bar>x\<bar> \<le> 2 ^ 23 / 2 ^ k \<Longrightarrow> \<bar>scale_round n x - x\<bar> \<le> 1 / 2 ^ Suc k"
proof (induction k arbitrary: n x)
  case 0
  show ?case using scale_round_err [of n x] by simp
next
  case (Suc k)
  then obtain m where m: "n = Suc m" "k \<le> m" by (cases n) simp_all
  have "\<bar>2 * x\<bar> \<le> 2 ^ 23 / 2 ^ k" using Suc.prems(2) by (simp add: abs_mult field_simps)
  then have e: "\<bar>scale_round m (2 * x) - 2 * x\<bar> \<le> 1 / 2 ^ Suc k" by (rule Suc.IH [OF m(2)])
  have "(2 :: real) ^ 23 / 2 ^ Suc k < 2 ^ 23" by (simp add: divide_less_eq one_less_power [of "2 :: real" "Suc k", simplified])
  then have "scale_round n x = scale_round m (2 * x) / 2" using Suc.prems(2) by (simp add: m(1))
  then have "\<bar>scale_round n x - x\<bar> = \<bar>scale_round m (2 * x) - 2 * x\<bar> / 2" by (simp only: half_err)
  also have "\<dots> \<le> (1 / 2 ^ Suc k) / 2" using e by (rule divide_right_mono) simp
  finally show ?case by simp
qed

lemma float_usec_back:
  assumes "0 \<le> u" and "u < 1000000"
  shows "float_usec (round_float 128 (of_int u / 1000000)) = u"
proof -
  let ?x = "of_int u / 1000000 :: real"
  have x: "\<bar>?x\<bar> \<le> 1" using assms by simp
  define f where "f = to_float ?x"
  have "\<bar>f - ?x\<bar> \<le> 1 / 2 ^ Suc 23" unfolding f_def to_float_def using x by (intro scale_round_close) simp_all
  then have "\<bar>f - ?x\<bar> * 1000000 < 1 / 4" by simp
  moreover have "\<bar>f * 1000000 - of_int u\<bar> = \<bar>f - ?x\<bar> * 1000000" by (simp add: field_simps flip: abs_mult)
  ultimately have e: "\<bar>f * 1000000 - of_int u\<bar> < 1 / 4" by simp
  then have b: "of_int u - 1 / 4 < f * 1000000" "f * 1000000 < of_int u + 1 / 4" by linarith+
  have "(0 :: real) \<le> of_int u" using assms(1) by simp
  then have "0 \<le> f * 1000000 + 1 / 2" using b(1) by linarith
  moreover have "\<lfloor>f * 1000000 + 1 / 2\<rfloor> = u" using b by (intro floor_unique) simp_all
  ultimately have c: "c_trunc (f * 1000000 + 1 / 2) = u" by (simp add: c_trunc_def)
  have "u = 0" if "f = 0" using b that by simp
  moreover have "round_float 128 ?x = f" using x by (simp add: round_float_small f_def)
  ultimately show ?thesis using c by (auto simp: float_usec_def)
qed

section \<open>Scanning what was printed\<close>

lemma scan_d_pad:
  assumes "0 < w" "0 \<le> k" "k < 10 ^ w" "w \<le> 9" and "rest = [] \<or> \<not> isdigit (hd rest)"
  shows "scan_d (show_pad w k @ rest) = Some (k, rest)"
proof -
  let ?p = "show_pad w k"
  note p = show_pad_props [OF assms(1-3)]
  obtain b bs where b: "?p = b # bs" using p(1) assms(1) by (cases ?p) simp_all
  then have d: "isdigit b" using p(2) by simp
  have "c_sign (dropWhile isspace (?p @ rest)) = (1, ?p @ rest)"
    using isdigit_not_space [OF d] isdigit_not_sign [OF d] by (simp add: b)
  moreover have "takeWhile isdigit (?p @ rest) = ?p" by (rule takeWhile_digits [OF p(2) assms(5)])
  moreover have "dropWhile isdigit (?p @ rest) = rest"
    using p(2) assms(5) by (cases rest) (auto simp: dropWhile_append2)
  ultimately show ?thesis
    using atoi_show_pad [OF assms] b by (simp add: scan_d_def)
qed

lemma sscanf_field:
  assumes "c \<in> set cs" "\<forall>c\<in>set cs. \<not> isdigit c"
    and "0 < w" "0 \<le> k" "k < 10 ^ w" "w \<le> 9" and "rest = [] \<or> \<not> isdigit (hd rest)"
  shows "sscanf (ScanSet cs # ScanD # ds) (c # show_pad w k @ rest) = SInt k # sscanf ds rest"
proof -
  note p = show_pad_props [OF assms(3-5)]
  obtain b bs where b: "show_pad w k = b # bs" using p(1) assms(3) by (cases "show_pad w k") simp_all
  then have "b \<notin> set cs" using p(2) assms(2) by auto
  then have "dropWhile (\<lambda>c. c \<in> set cs) (c # show_pad w k @ rest) = show_pad w k @ rest"
    using assms(1) by (simp add: b)
  then show ?thesis using assms(1) scan_d_pad [OF assms(3-)] by simp
qed

lemma sscanf_frac:
  assumes "0 \<le> u" and "u < 1000000"
  shows "sscanf [ScanF] (46 # show_pad 6 u) = [SFloat (round_float 128 (of_int u / 1000000))]"
proof -
  have p: "length (show_pad 6 u) = 6" "\<forall>b\<in>set (show_pad 6 u). isdigit b" "dec_value (show_pad 6 u) = u"
    using show_pad_props [of 6 u] assms by simp_all
  then have t: "takeWhile isdigit (show_pad 6 u) = show_pad 6 u" "dropWhile isdigit (show_pad 6 u) = []" "show_pad 6 u \<noteq> []"
    by (auto simp: takeWhile_eq_all_conv)
  have s: "\<not> isspace 46" "\<not> isdigit 46" by (simp_all add: isspace_def isdigit_def)
  have a: "atof (46 # show_pad 6 u) = of_int u / 1000000"
    by (simp add: atof_def atof_frac_def atof_exp_def s t p power_int_def power_divide)
  have "scan_f (46 # show_pad 6 u) = Some (round_float 128 (atof (46 # show_pad 6 u)))"
    by (simp add: scan_f_def atof_frac_def s t)
  then show ?thesis by (simp only: sscanf.simps option.case a)
qed

lemma show_4d_pad: "1000 \<le> k \<Longrightarrow> show_4d k = show_pad 4 k"
proof -
  assume k: "1000 \<le> k"
  then have "10 \<le> nat k" "10 \<le> nat k div 10" "10 \<le> nat k div 10 div 10" by linarith+
  then have "4 \<le> length (show_base 10 (nat k))"
    using show_base_not_Nil [of 10 "nat k div 10 div 10 div 10"]
    by (subst show_base.simps, subst show_base.simps, subst show_base.simps) (simp add: Suc_le_eq)
  then show ?thesis using k by (simp add: show_4d_def show_pad_def show_int_def show_nat_def Let_def)
qed


section \<open>Reading what was printed\<close>

lemma hptime_split_floor: "hptime_split_us hp = (hp div 1000000, hp mod 1000000)"
  using sdiv_floor [of 1000000 hp] by (auto simp: hptime_split_us_def HPTMODULUS_def Let_def minus_div_mult_eq_mod [symmetric])

text \<open>The fraction of a second that is printed, and the microseconds that are read from it.\<close>

definition frac_str :: "bool \<Rightarrow> int \<Rightarrow> cstr" where
  "frac_str subseconds u = (if subseconds then 46 # show_pad 6 u else [])"

definition kept_usec :: "bool \<Rightarrow> int \<Rightarrow> int" where
  "kept_usec subseconds u = (if subseconds then u else 0)"

lemma frac_str_hd: "frac_str b u = [] \<or> \<not> isdigit (hd (frac_str b u))"
  by (simp add: frac_str_def isdigit_def)

lemma sscanf_frac_str:
  assumes "0 \<le> u" and "u < 1000000" and "n = length vs"
  shows "float_usec (scanned_float (vs @ sscanf [ScanF] (frac_str b u)) n 0) = kept_usec b u"
proof (cases b)
  case True
  then show ?thesis
    using sscanf_frac [OF assms(1,2)] float_usec_back [OF assms(1,2)]
    by (simp add: frac_str_def kept_usec_def scanned_float_def assms(3) del: sscanf.simps)
next
  case False
  then show ?thesis
    by (simp add: frac_str_def kept_usec_def scanned_float_def assms(3) scan_f_def atof_frac_def float_usec_def)
qed

lemma tm_year_range:
  assumes "- 5364662400 \<le> t" and "t < 95649120000"
  shows "1800 \<le> tm_year (ms_gmtime_r t) + 1900" and "tm_year (ms_gmtime_r t) + 1900 \<le> 5000"
proof -
  define Y d where "Y = tm_year (ms_gmtime_r t) + 1900" and "d = tm_yday (ms_gmtime_r t)"
  have f: "0 \<le> d" "d < diy Y" "(htoe_days Y + d) * 86400 \<le> t" "t < (htoe_days Y + d) * 86400 + 86400"
    using gm_fields [of t] unfolding Y_def d_def by linarith+
  have h: "htoe_days 1800 = - 62091" "htoe_days 5001 = 1107050"
    using year_days_htoe [of 1800] year_days_htoe [of 5001] by (simp_all add: year_days_def)
  have "\<not> Y + 1 \<le> 1800"
    using htoe_days_mono [of "Y + 1" 1800] htoe_days_Suc [of Y] f(2,4) assms(1) h(1) by auto
  moreover have "\<not> 5001 \<le> Y" using htoe_days_mono [of 5001 Y] f(1,3) assms(2) h(2) by auto
  ultimately show "1800 \<le> tm_year (ms_gmtime_r t) + 1900" "tm_year (ms_gmtime_r t) + 1900 \<le> 5000"
    by (simp_all add: Y_def)
qed

lemma u16_self: "0 \<le> k \<Longrightarrow> k < 65536 \<Longrightarrow> uint (of_int k :: u16) = k"
  by (simp add: unsigned_of_int take_bit_int_eq_self)

lemma u8_self: "0 \<le> k \<Longrightarrow> k < 256 \<Longrightarrow> uint (of_int k :: byte) = k"
  by (simp add: unsigned_of_int take_bit_int_eq_self)

lemma time2hptime_gm:
  fixes t :: int
  defines "r \<equiv> ms_gmtime_r t"
  assumes "- 5364662400 \<le> t" and "t < 95649120000"
  shows "ms_time2hptime_int (tm_year r + 1900) (tm_yday r + 1) (tm_hour r) (tm_min r) (tm_sec r) u =
    (if t = - 2145916800 then HPTERROR else t * 1000000 + u)"
proof -
  note y = tm_year_range [OF assms(2,3), folded r_def] and f = gm_fields [of t, folded r_def]
  have "diy (tm_year r + 1900) \<le> 366" by (simp add: diy_def)
  then have d: "tm_yday r < 366" using f by linarith
  have w: "uint (of_int (tm_year r + 1900) :: u16) = tm_year r + 1900" "uint (of_int (tm_yday r + 1) :: u16) = tm_yday r + 1"
      "uint (of_int (tm_hour r) :: byte) = tm_hour r" "uint (of_int (tm_min r) :: byte) = tm_min r"
      "uint (of_int (tm_sec r) :: byte) = tm_sec r"
    by (rule u16_self u8_self; use y f d in linarith)+
  have "ms_btime2hptime \<lparr>b_year = tm_year r + 1900, b_day = tm_yday r + 1, b_hour = tm_hour r, b_min = tm_min r,
      b_sec = tm_sec r, b_fract = 0\<rparr> = t * 1000000"
    using f by (simp add: btime2hptime_eq)
  then show ?thesis
    unfolding ms_time2hptime_int_def w Let_def by (simp add: HPTERROR_def HPTMODULUS_def signed_divide_int_def)
qed


text \<open>The time of day as it is printed and read, by both formats.\<close>

lemma lits:
  "lit ''T'' = [84]" "lit '' '' = [32]" "lit '':'' = [58]" "lit ''-'' = [45]" "lit '','' = [44]" "lit ''.'' = [46]"
  "lit ''-,:.'' = [45, 44, 58, 46]" "lit ''-,:.Tt '' = [45, 44, 58, 46, 84, 116, 32]"
  "lit ''-,/:.'' = [45, 44, 47, 58, 46]" "lit ''-,/:.Tt '' = [45, 44, 47, 58, 46, 84, 116, 32]"
  by (simp_all add: lit_def)

lemma sscanf_clock:
  fixes t :: int
  defines "r \<equiv> ms_gmtime_r t"
  assumes "c \<in> set cs" "58 \<in> set ds" "\<forall>c\<in>set cs. \<not> isdigit c" "\<forall>c\<in>set ds. \<not> isdigit c"
  shows "sscanf [ScanSet cs, ScanD, ScanSet ds, ScanD, ScanSet ds, ScanD, ScanF] (c # clock_str r @ frac_str b u) =
    [SInt (tm_hour r), SInt (tm_min r), SInt (tm_sec r)] @ sscanf [ScanF] (frac_str b u)"
proof -
  note f = gm_fields [of t, folded r_def]
  have n: "\<not> isdigit 58" by (simp add: isdigit_def)
  have s: "sscanf (ScanSet ds # ScanD # [ScanF]) (58 # show_pad 2 (tm_sec r) @ frac_str b u) =
      SInt (tm_sec r) # sscanf [ScanF] (frac_str b u)"
    using f frac_str_hd by (intro sscanf_field assms) simp_all
  have m: "sscanf (ScanSet ds # ScanD # fs) (58 # show_pad 2 (tm_min r) @ 58 # rest) = SInt (tm_min r) # sscanf fs (58 # rest)" for fs rest
    using f n by (intro sscanf_field assms) simp_all
  have h: "sscanf (ScanSet cs # ScanD # fs) (c # show_pad 2 (tm_hour r) @ 58 # rest) = SInt (tm_hour r) # sscanf fs (58 # rest)" for fs rest
    using f n by (intro sscanf_field assms) simp_all
  show ?thesis by (simp add: clock_str_def lits s m h del: sscanf.simps)
qed

lemma clock_str_length:
  fixes t :: int
  shows "length (clock_str (ms_gmtime_r t)) = 8"
  using gm_fields [of t] by (simp add: clock_str_def lits show_pad_props)

lemma seed_printed:
  fixes hp :: int
  defines "r \<equiv> ms_gmtime_r (hp div 1000000)"
  assumes "1800 \<le> tm_year r + 1900" and "tm_year r + 1900 \<le> 5000"
  shows "ms_hptime2seedtimestr hp b =
    Some (show_pad 4 (tm_year r + 1900) @ 44 # show_pad 3 (tm_yday r + 1) @ 44 # clock_str r @ frac_str b (hp mod 1000000))"
proof -
  note f = gm_fields [of "hp div 1000000", folded r_def]
  have "diy (tm_year r + 1900) \<le> 366" by (simp add: diy_def)
  then have d: "0 \<le> tm_yday r + 1" "tm_yday r + 1 < 1000" using f by linarith+
  have l: "length (show_pad 4 (tm_year r + 1900)) = 4" "length (show_pad 3 (tm_yday r + 1)) = 3" "length (clock_str r) = 8"
      "length (show_pad 6 (hp mod 1000000)) = 6"
    using assms(2,3) d by (simp_all add: show_pad_props(1) clock_str_length r_def)
  have "show_4d (tm_year r + 1900) = show_pad 4 (tm_year r + 1900)" using assms(2) by (intro show_4d_pad) simp
  then show ?thesis
    by (simp add: ms_hptime2seedtimestr_def hptime_split_floor r_def [symmetric] sized_def lits frac_str_def l Let_def)
qed

lemma md_printed:
  fixes hp :: int
  defines "r \<equiv> ms_gmtime_r (hp div 1000000)"
  assumes "1800 \<le> tm_year r + 1900" and "tm_year r + 1900 \<le> 5000" and "length sep = 1"
  shows "md_timestr sep hp b = Some (show_pad 4 (tm_year r + 1900) @ 45 # show_pad 2 (tm_mon r + 1) @ 45 #
    show_pad 2 (tm_mday r) @ sep @ clock_str r @ frac_str b (hp mod 1000000))"
proof -
  note f = gm_md2doy [OF assms(2,3) [unfolded r_def], folded r_def]
  have l: "length (show_pad 4 (tm_year r + 1900)) = 4" "length (show_pad 2 (tm_mon r + 1)) = 2"
      "length (show_pad 2 (tm_mday r)) = 2" "length (clock_str r) = 8" "length (show_pad 6 (hp mod 1000000)) = 6"
    using assms(2,3) f by (auto simp: show_pad_props clock_str_length r_def)
  have "show_4d (tm_year r + 1900) = show_pad 4 (tm_year r + 1900)" using assms(2) by (intro show_4d_pad) simp
  then show ?thesis
    by (simp add: md_timestr_def hptime_split_floor r_def [symmetric] sized_def lits frac_str_def l assms(4) Let_def)
qed

lemma seed_read:
  fixes t :: int
  defines "r \<equiv> ms_gmtime_r t"
  assumes t: "- 5364662400 \<le> t" "t < 95649120000" and u: "0 \<le> u" "u < 1000000"
  shows "ms_seedtimestr2hptime
      (show_pad 4 (tm_year r + 1900) @ 44 # show_pad 3 (tm_yday r + 1) @ 44 # clock_str r @ frac_str b u) =
    (if t = - 2145916800 then HPTERROR else t * 1000000 + kept_usec b u)" (is "ms_seedtimestr2hptime ?s = _")
proof -
  note f = gm_fields [of t, folded r_def] and y = tm_year_range [OF t, folded r_def]
  have n: "\<not> isdigit 44" by (simp add: isdigit_def)
  have "diy (tm_year r + 1900) \<le> 366" by (simp add: diy_def)
  then have d: "tm_yday r < 366" "0 \<le> tm_yday r" using f by linarith+
  let ?vs = "[SInt (tm_year r + 1900), SInt (tm_yday r + 1), SInt (tm_hour r), SInt (tm_min r), SInt (tm_sec r)]"
  define vs where "vs = ?vs @ sscanf [ScanF] (frac_str b u)"
  have "scan_d ?s = Some (tm_year r + 1900, 44 # show_pad 3 (tm_yday r + 1) @ 44 # clock_str r @ frac_str b u)"
    using y n by (intro scan_d_pad) simp_all
  moreover have "sscanf (ScanSet (lit ''-,:.'') # ScanD # fs) (44 # show_pad 3 (tm_yday r + 1) @ 44 # rest) =
      SInt (tm_yday r + 1) # sscanf fs (44 # rest)" for fs rest
    using f d n by (intro sscanf_field) (simp_all add: lits isdigit_def)
  ultimately have s: "sscanf seed_format ?s = vs"
    using sscanf_clock [where c = 44 and cs = "lit ''-,:.Tt ''" and ds = "lit ''-,:.''" and t = t and b = b and u = u]
    unfolding seed_format_def sscanf.simps(2) vs_def by (simp add: r_def lits isdigit_def del: sscanf.simps)
  have i: "scanned_int vs 0 k = tm_year r + 1900" "scanned_int vs 1 k = tm_yday r + 1" "scanned_int vs 2 k = tm_hour r"
      "scanned_int vs 3 k = tm_min r" "scanned_int vs 4 k = tm_sec r" "vs \<noteq> []" for k
    by (simp_all add: vs_def scanned_int_def del: sscanf.simps)
  have q: "float_usec (scanned_float vs 5 0) = kept_usec b u" unfolding vs_def using u by (intro sscanf_frac_str) simp_all
  have "clock_range (tm_hour r) (tm_min r) (tm_sec r) (kept_usec b u)" using f u by (simp add: clock_range_def kept_usec_def)
  then show ?thesis
    using y d
    unfolding ms_seedtimestr2hptime_def s Let_def i(1-5) q time2hptime_gm [OF t, folded r_def] by (simp add: i(6))
qed

lemma md_read:
  fixes t :: int
  defines "r \<equiv> ms_gmtime_r t"
  assumes t: "- 5364662400 \<le> t" "t < 95649120000" and u: "0 \<le> u" "u < 1000000" and c: "c \<in> {84, 32}"
  shows "ms_timestr2hptime (show_pad 4 (tm_year r + 1900) @ 45 # show_pad 2 (tm_mon r + 1) @ 45 #
      show_pad 2 (tm_mday r) @ c # clock_str r @ frac_str b u) =
    (if t = - 2145916800 then HPTERROR else t * 1000000 + kept_usec b u)" (is "ms_timestr2hptime ?s = _")
proof -
  note f = gm_fields [of t, folded r_def] and y = tm_year_range [OF t, folded r_def]
  note d = gm_md2doy [OF y [unfolded r_def], folded r_def]
  have n: "\<not> isdigit 45" "\<not> isdigit c" "c \<in> set (lit ''-,/:.Tt '')" using c by (auto simp: isdigit_def lits)
  let ?vs = "[SInt (tm_year r + 1900), SInt (tm_mon r + 1), SInt (tm_mday r), SInt (tm_hour r), SInt (tm_min r), SInt (tm_sec r)]"
  define vs where "vs = ?vs @ sscanf [ScanF] (frac_str b u)"
  have "scan_d ?s = Some (tm_year r + 1900, 45 # show_pad 2 (tm_mon r + 1) @ 45 # show_pad 2 (tm_mday r) @ c # clock_str r @ frac_str b u)"
    using y n by (intro scan_d_pad) simp_all
  moreover have "sscanf (ScanSet (lit ''-,/:.'') # ScanD # fs) (45 # show_pad 2 (tm_mon r + 1) @ 45 # rest) =
      SInt (tm_mon r + 1) # sscanf fs (45 # rest)" for fs rest
    using d n by (intro sscanf_field) (simp_all add: lits isdigit_def)
  moreover have "sscanf (ScanSet (lit ''-,/:.'') # ScanD # fs) (45 # show_pad 2 (tm_mday r) @ c # rest) =
      SInt (tm_mday r) # sscanf fs (c # rest)" for fs rest
    using d n by (intro sscanf_field) (simp_all add: lits isdigit_def)
  ultimately have s: "sscanf md_format ?s = vs"
    using sscanf_clock [where c = c and cs = "lit ''-,/:.Tt ''" and ds = "lit ''-,/:.''" and t = t and b = b and u = u] n(3)
    unfolding md_format_def sscanf.simps(2) vs_def by (simp add: r_def lits isdigit_def del: sscanf.simps)
  have i: "scanned_int vs 0 k = tm_year r + 1900" "scanned_int vs 1 k = tm_mon r + 1" "scanned_int vs 2 k = tm_mday r"
      "scanned_int vs 3 k = tm_hour r" "scanned_int vs 4 k = tm_min r" "scanned_int vs 5 k = tm_sec r" "vs \<noteq> []" for k
    by (simp_all add: vs_def scanned_int_def del: sscanf.simps)
  have q: "float_usec (scanned_float vs 6 0) = kept_usec b u" unfolding vs_def using u by (intro sscanf_frac_str) simp_all
  have "clock_range (tm_hour r) (tm_min r) (tm_sec r) (kept_usec b u)" using f u by (simp add: clock_range_def kept_usec_def)
  then show ?thesis
    using y d unfolding ms_timestr2hptime_def s Let_def i(1-6) q by (simp add: i(7) time2hptime_gm [OF t, folded r_def])
qed


text \<open>
  C37: A time is printed and read back. For every time from 1800 to 5000, before and after 1970, the three functions that print a
  time give a text, in the ISO, the month-day and the SEED format; the functions that read these formats give the time
  again, to the microsecond with \<^verbatim>\<open>subseconds\<close> although the fraction goes through a \<^verbatim>\<open>float\<close>, to the second without. The times
  in the one second whose number is that of \<^verbatim>\<open>HPTERROR\<close>, the first of 1902, are read as an error.
\<close>

theorem timestr_roundtrip:
  assumes "- 5364662400000000 \<le> hp" and "hp < 95649120000000000"
  shows "\<exists>iso md seed. ms_hptime2isotimestr hp subseconds = Some iso \<and> ms_hptime2mdtimestr hp subseconds = Some md \<and>
    ms_hptime2seedtimestr hp subseconds = Some seed \<and>
    (let back = (if hp div 1000000 = - 2145916800 then HPTERROR else if subseconds then hp else hp - hp mod 1000000)
     in ms_timestr2hptime iso = back \<and> ms_timestr2hptime md = back \<and> ms_seedtimestr2hptime seed = back)"
proof -
  let ?t = "hp div 1000000" and ?u = "hp mod 1000000"
  have t: "- 5364662400 \<le> ?t" "?t < 95649120000" and u: "0 \<le> ?u" "?u < 1000000" using assms by linarith+
  note y = tm_year_range [OF t]
  have "?t * 1000000 + kept_usec subseconds ?u = (if subseconds then hp else hp - hp mod 1000000)"
    by (simp add: kept_usec_def minus_mod_eq_div_mult)
  then show ?thesis
    using md_read [OF t u, where c = 84 and b = subseconds] md_read [OF t u, where c = 32 and b = subseconds]
      seed_read [OF t u, of subseconds] md_printed [OF y, where b = subseconds] seed_printed [OF y, of subseconds]
    by (simp add: ms_hptime2isotimestr_def ms_hptime2mdtimestr_def lits Let_def)
qed

theorem timestr_roundtrip_witness:
  "\<exists>iso md seed. ms_hptime2isotimestr (- 1) True = Some iso \<and> ms_hptime2mdtimestr (- 1) True = Some md \<and>
    ms_hptime2seedtimestr (- 1) True = Some seed \<and>
    ms_timestr2hptime iso = - 1 \<and> ms_timestr2hptime md = - 1 \<and> ms_seedtimestr2hptime seed = - 1"
  using timestr_roundtrip [of "- 1" True] by (simp add: Let_def)

end
