(* ===== verification/Spec2Isabelle.thy ===== *)
theory Spec2Isabelle
  imports Entry MsGroup MsFile MsTimeStr
begin

text \<open>
  A verification library for PQL, a viewer of seismic data: the readers of the data formats, the library of
  miniSEED records that comes with the program, and what both need of times, byte orders and text. This theory imports
  all others.

  \<^bold>\<open>The program.\<close> PQL shows traces, the samples of one channel of an instrument over some time. The user interface, the plots
  and the filters (\<^verbatim>\<open>src/src\<close>) work on structures \<^verbatim>\<open>traceInfo\<close>, which the data library (\<^verbatim>\<open>src/utils/data\<close>) fills:
  \<^verbatim>\<open>identifyTrace\<close> of \<^verbatim>\<open>data_entry.c\<close> asks the readers one after the other whether a file is theirs and which traces it holds;
  \<^verbatim>\<open>readTrace\<close> then lets the same reader put the samples of a trace into memory and cuts an excerpt out of
  them. Three readers are of RefTek packets (RT-125, RT-125A, RT-130, the last with Steim compression), two of whole files
  (SAC, SEG-Y), and the one of miniSEED rests on libmseed (\<^verbatim>\<open>src/contrib/libmseed\<close>), which unpacks records and collects them in
  trace groups. \<^verbatim>\<open>src/utils/hlpr/util_time.c\<close> is the calendar.

  \<^bold>\<open>Which theory models what.\<close>

    \<^item> \<open>PQL_Prelude\<close>: the machine types, the status codes of \<^verbatim>\<open>include/pqlx_errors.h\<close>, conversions of C between
      doubles, floats and integers. \<open>Float32\<close>: the value of the bits of a float. \<open>CString\<close>: \<^verbatim>\<open>atoi\<close>, \<^verbatim>\<open>atof\<close>, \<^verbatim>\<open>sscanf\<close>,
      \<^verbatim>\<open>sprintf\<close> of numbers. \<open>Bytes\<close>: \<^verbatim>\<open>data_endian.c\<close> and the memory helpers of \<^verbatim>\<open>data_readhead.c\<close>.
    \<^item> \<open>Calendar\<close>: \<^verbatim>\<open>util_time.c\<close>, both ways between epochs and dates. \<open>MSTime\<close>: the times of libmseed (\<^verbatim>\<open>genutils.c\<close>)
      and those that the miniSEED reader makes of them.
    \<^item> \<open>Trace\<close>: \<^verbatim>\<open>traceInfo\<close>, the reading of a file block by block, and the list of events that a reader builds, an
      entry for each key. \<open>Reftek\<close>: \<^verbatim>\<open>reftek_utils.c\<close> and the macros of \<^verbatim>\<open>reftek.h\<close>. \<open>RT125\<close>, \<open>RT125A\<close>, \<open>RT130\<close>: \<^verbatim>\<open>data_rt125.c\<close>,
      \<^verbatim>\<open>data_rt125a.c\<close>, \<^verbatim>\<open>data_rt130.c\<close>. \<open>Steim\<close>: \<^verbatim>\<open>steim.c\<close> and \<^verbatim>\<open>steim2.c\<close>.
    \<^item> \<open>Sac\<close>, \<open>Segy\<close>: \<^verbatim>\<open>data_sac.c\<close> and \<^verbatim>\<open>data_segy.c\<close>. \<open>Excerpt\<close>: \<^verbatim>\<open>data_excerpt.c\<close> and \<^verbatim>\<open>data_utils.c\<close>.
    \<^item> \<open>Mseed\<close>, \<open>MseedData\<close>: \<^verbatim>\<open>data_mseed.c\<close>, the index of a file with the headers of its traces, and the samples.
      \<open>Timeline\<close>: the specification of joining segments, which the reader refines.
    \<^item> \<open>Entry\<close>: \<^verbatim>\<open>data_entry.c\<close>, where the readers come together.
    \<^item> \<open>Listsort\<close>, \<open>MsGroup\<close>: the trace groups of \<^verbatim>\<open>traceutils.c\<close> with their merge sort, and the reader of miniSEED files on top of
      them.
    \<^item> \<open>MsCodec\<close>: the Steim encoders and decoders of \<^verbatim>\<open>packdata.c\<close> and \<^verbatim>\<open>unpackdata.c\<close>. \<open>MsUnpack\<close>: all other encodings, with
      \<^verbatim>\<open>msr_unpack_data\<close> and \<^verbatim>\<open>msr_pack_data\<close>. \<open>MsAgree\<close>: libmseed's decoders and those of the program on the same frames.
    \<^item> \<open>MsHeader\<close>: headers and blockettes, \<^verbatim>\<open>msr_unpack\<close> of \<^verbatim>\<open>unpack.c\<close>, \<^verbatim>\<open>ms_detect\<close> and \<^verbatim>\<open>msr_parse\<close> of \<^verbatim>\<open>parseutils.c\<close>,
      \<^verbatim>\<open>msr_pack_header_raw\<close> of \<^verbatim>\<open>pack.c\<close>. \<open>MsRecord\<close>: a packed header is unpacked again. \<open>MsRate\<close>: \<^verbatim>\<open>ms_genfactmult\<close> and what it
      calls. \<open>MsPack\<close>: \<^verbatim>\<open>msr_pack\<close>, \<^verbatim>\<open>msr_update_header\<close> and \<^verbatim>\<open>msr_normalize_header\<close>. \<open>MsRoundtrip\<close> and \<open>MsStream\<close>: packing
      and unpacking together. \<open>MsFile\<close>: \<^verbatim>\<open>ms_readmsr_main\<close> of \<^verbatim>\<open>fileutils.c\<close>, which reads the records of a file through a buffer, and
      \<^verbatim>\<open>msr_writemseed\<close>. \<open>MsTimeStr\<close>: time strings of \<^verbatim>\<open>genutils.c\<close>.

  \<^bold>\<open>How code is modelled.\<close> A file, a packet and a record are lists of bytes; a structure is a \<open>record\<close>, and a function a definition
  of its name where that is free, on the state that the C function reads and returning what it changes. Integers of 8, 16
  and 32 bits whose width matters are words, the others integers. A number is read from its bytes by \<open>load\<close> and written by \<open>store16\<close>
  and \<open>store32\<close>, in the order of a \<open>host\<close>, and the theorems hold for both kinds of host. \<^verbatim>\<open>char\<close> is signed. An \<open>option\<close> around a
  result has \<open>None\<close> for undefined behaviour, an access outside an array above all, and for a loop that does not end; the
  left side of a sum is an error that the function returns. So a theorem that a result is \<open>Some\<close> says that the code
  stays within its arrays and returns. Doubles are real numbers without rounding; the store of a \<^verbatim>\<open>float\<close> is rounded to
  24 binary digits.

  \<^bold>\<open>Interfaces.\<close> \<open>keyed_table\<close> (\<open>Trace\<close>) is the contract of a list of entries by key, which the three RefTek readers interpret, and
  \<open>keyed_collector\<close> extends it with what the entries collect, for the index of miniSEED files; \<open>packet_writer\<close> (\<open>Reftek\<close>) is that of copying the
  packets of an event one after the other; \<open>trace_identifier\<close> (\<open>Entry\<close>) is what the entry point needs of a
  reader, and five readers interpret it; \<open>word_code\<close> (\<open>Steim\<close>) and \<open>steim_code\<close> (\<open>MsCodec\<close>) are the contract of one compressed word, from which the
  decoding and the round trip of whole packets follow for Steim-1 and Steim-2; \<open>run_merge\<close> (\<open>Listsort\<close>) is that of merging two
  runs, interpreted twice: for what holds of every comparison, and for traces of one rate, where the order is a
  total one and the sort is stable.

  \<^bold>\<open>What the theorems show.\<close> For the readers: on well-formed files every event or channel is found once, with the right number of
  samples, and its samples are exactly those of its packets, in order and within the array; the byte order of a SAC or SEG-Y file
  does not matter where it is recognised; a trace that was identified is read by the reader that identified it. For
  miniSEED: the traces of a file partition its records; the samples with their gaps and overlaps are those of the
  timeline, whatever the order of the records; the sort of a group ends and healing joins what belongs together. For libmseed's
  records: \<^verbatim>\<open>msr_pack\<close> ends, and \<^verbatim>\<open>msr_unpack\<close> gives its samples and times back, from a file too, whose records are read in order; the decoders write no more than there is room for;
  when they read behind the record; and that start times and whole rates survive the header. For times: both
  directions of the calendar are inverse, the calendars of the program and of libmseed agree, and libmseed reads the time strings that it prints. The theorems about
  faults state exactly where the code departs from its purpose: one sample lost at the end of a segment, gaps hidden
  by a tolerance, Steim-2 packets shifted by a difference, blockettes copied from behind a record, a record packed for ever, a file with a long name read for ever.

  \<^bold>\<open>Bounds.\<close> Loops that C code runs by a condition are \<open>function\<close>s with a measure, or \<open>partial_function\<close>s where they may not
  end (the merge sort, the packing loop, the reading of a file, the search of factors); for these it is proved when they end. Fuel occurs in arithmetic
  only: 149 halvings reach the smallest float, 128 doublings and 300 steps the range of floats, and 1100 steps that of doubles.
  The sort is for groups of at most \<open>2 ^ 30\<close> traces, beyond which an \<^verbatim>\<open>int\<close> overflows. Records of up to \<open>2 ^ 15\<close> bytes are packed in the round
  trip, as in longer ones a 16-bit count of samples may overflow, and their times are between 1970 and 2055, where the year tells the
  byte order.

  \<^bold>\<open>Parameters.\<close> The sequence of records that libmseed reads from a file, in the models of the readers of the program, the file system, the contents of
  memory that is not initialised, the largest block of the allocator, the environment variables, the list of leap seconds, and, for
  the entry points, the readers of the formats below.

  \<^bold>\<open>Not modelled.\<close> The user interface, plotting and printing, which are calls of graphics libraries; threads; filters and
  transforms, whose results depend on the rounding of doubles; the freeing of memory; the readers of AH, DR100, Nanometrics and SUDS files
  and the client of a CWB server; the wrappers of the databases and the libraries tdb and gdbm, which are third-party code; of libmseed the
  writing of traces, selections, trace lists, \<^verbatim>\<open>msr_pack_header\<close> and \<^verbatim>\<open>mst_pack\<close>, and what only prints or
  logs.
\<close>

end
